(* ===== verification/Prelude.thy ===== *)
theory Prelude
  imports Complex_Main "HOL-Library.AList"
begin

text \<open>
  Shared vocabulary of the development: the exceptions a Python operation can raise and
  the result type they are values of, insertion-ordered dictionaries, bounded deques,
  the built-ins \<open>min\<close>, \<open>max\<close>, \<open>round\<close> with the tie rules Python documents, and the
  generic lemmas on them that the components share.
  Floating-point numbers are modelled as exact reals and Python integers as \<open>int\<close> (or
  \<open>nat\<close> for lengths and counters); rounding errors of IEEE arithmetic are not modelled.
\<close>

named_theorems dict_simps \<open>lookup laws of insertion-ordered dictionaries\<close>
named_theorems frame_simps \<open>fields that an operation leaves unchanged\<close>

section \<open>Exceptions as values\<close>

datatype py_error =
  KeyError | ValueError | IndexError | AttributeError | TypeError | ZeroDivisionError | StopIteration | AssertionError | NotImplementedError
  | RuntimeError | ApiException int

type_synonym 'a result = "py_error + 'a"

text \<open>
  Where the state a raise leaves behind matters, the exception carries it (\<open>outcome\<close>), so
  sequencing is the same for both.
\<close>

type_synonym ('b, 's) outcome = "(py_error \<times> 's) + 'b"

definition bindE :: "'e + 'a \<Rightarrow> ('a \<Rightarrow> 'e + 'b) \<Rightarrow> 'e + 'b" where
  "bindE m f = (case m of Inl e \<Rightarrow> Inl e | Inr x \<Rightarrow> f x)"

lemma bindE_simps [simp]:
  "bindE (Inl e) f = Inl e"
  "bindE (Inr x) f = f x"
  by (simp_all add: bindE_def)

lemma bindE_Inr_iff: "bindE m f = Inr y \<longleftrightarrow> (\<exists>x. m = Inr x \<and> f x = Inr y)"
  by (cases m) auto

lemma bindE_total: "\<exists>x. m = Inr x \<Longrightarrow> (\<And>x. m = Inr x \<Longrightarrow> \<exists>y. f x = Inr y) \<Longrightarrow> \<exists>y. bindE m f = Inr y"
  by auto

lemma if_total: "(c \<Longrightarrow> \<exists>y. a = Inr y) \<Longrightarrow> (\<not> c \<Longrightarrow> \<exists>y. b = Inr y) \<Longrightarrow> \<exists>y. (if c then a else b) = Inr y"
  by simp

lemma bindE_InrE:
  assumes "bindE m f = Inr y"
  obtains x where "m = Inr x" and "f x = Inr y"
  using assms by (auto simp: bindE_Inr_iff)

text \<open>
  A lookup in state \<open>E\<close>, which an exception leaves as it is; and an operation that gives its result
  and the state it leaves in either case.
\<close>

definition during :: "'s \<Rightarrow> 'b result \<Rightarrow> ('b, 's) outcome" where
  "during E r = (case r of Inl e \<Rightarrow> Inl (e, E) | Inr x \<Rightarrow> Inr x)"

definition settle :: "'b result \<times> 's \<Rightarrow> ('b \<times> 's, 's) outcome" where
  "settle out = bindE (during (snd out) (fst out)) (\<lambda>x. Inr (x, snd out))"

lemma during_simps [simp]:
  "during E (Inl e) = Inl (e, E)" "during E (Inr x) = Inr x"
  "during E r = Inr x \<longleftrightarrow> r = Inr x"
  "during E r = Inl p \<longleftrightarrow> r = Inl (fst p) \<and> snd p = E"
  by (cases r; cases p; auto simp: during_def)+

lemma settle_simps [simp]:
  "settle (Inl e, E) = Inl (e, E)" "settle (Inr x, E) = Inr (x, E)"
  "settle out = Inr p \<longleftrightarrow> out = (Inr (fst p), snd p)"
  "settle out = Inl q \<longleftrightarrow> out = (Inl (fst q), snd q)"
  by (cases out; cases "fst out"; cases p; cases q; auto simp: settle_def)+

lemma during_InrE:
  assumes "bindE (during E m) f = Inr y" obtains x where "m = Inr x" and "f x = Inr y"
  using assms by (auto simp: bindE_Inr_iff)

text \<open>
  Where a raise can leave the state: \<open>raises_in R m\<close> if every exception of \<open>m\<close> leaves one of \<open>R\<close>.
\<close>

definition raises_in :: "('s \<Rightarrow> bool) \<Rightarrow> ('b, 's) outcome \<Rightarrow> bool" where
  "raises_in R m \<longleftrightarrow> (\<forall>e E. m = Inl (e, E) \<longrightarrow> R E)"

lemma raises_in_Inr [simp]: "raises_in R (Inr x)"
  by (simp add: raises_in_def)

lemma raises_in_Inl [simp]: "raises_in R (Inl (e, E)) \<longleftrightarrow> R E"
  by (simp add: raises_in_def)

lemma raises_in_during: "R E \<Longrightarrow> raises_in R (during E r)"
  by (simp add: raises_in_def)

lemma raises_in_settle: "(\<And>e. fst out = Inl e \<Longrightarrow> R (snd out)) \<Longrightarrow> raises_in R (settle out)"
  by (auto simp: raises_in_def)

lemma raises_in_bind:
  assumes "raises_in R m" and "\<And>x. m = Inr x \<Longrightarrow> raises_in R (f x)"
  shows "raises_in R (bindE m f)"
  using assms by (cases m) (auto simp: raises_in_def)

lemma raises_in_if:
  "(c \<Longrightarrow> raises_in R a) \<Longrightarrow> (\<not> c \<Longrightarrow> raises_in R b) \<Longrightarrow> raises_in R (if c then a else b)"
  by simp

lemma raises_in_mono: "raises_in R m \<Longrightarrow> (\<And>E. R E \<Longrightarrow> R' E) \<Longrightarrow> raises_in R' m"
  by (auto simp: raises_in_def)

text \<open>A \<open>for\<close> loop whose body may raise: the first exception ends the loop.\<close>

fun foldE :: "('a \<Rightarrow> 's \<Rightarrow> 'e + 's) \<Rightarrow> 'a list \<Rightarrow> 's \<Rightarrow> 'e + 's" where
  "foldE f [] s = Inr s"
| "foldE f (x # xs) s = bindE (f x s) (foldE f xs)"

lemma foldE_invariant:
  assumes "foldE f xs s = Inr t" and "P s"
    and "\<And>x u v. x \<in> set xs \<Longrightarrow> P u \<Longrightarrow> f x u = Inr v \<Longrightarrow> P v"
  shows "P t"
  using assms
proof (induction xs arbitrary: s)
  case Nil
  then show ?case by simp
next
  case (Cons x xs)
  from Cons.prems(1) obtain u where u: "f x s = Inr u" "foldE f xs u = Inr t"
    by (auto elim: bindE_InrE)
  have "P u" using Cons.prems(2,3) u(1) by auto
  with Cons.IH [OF u(2)] Cons.prems(3) show ?case by auto
qed

lemma raises_in_foldE:
  assumes "P s" and "\<And>x u. x \<in> set xs \<Longrightarrow> P u \<Longrightarrow> raises_in R (f x u)"
    and "\<And>x u v. x \<in> set xs \<Longrightarrow> P u \<Longrightarrow> f x u = Inr v \<Longrightarrow> P v"
  shows "raises_in R (foldE f xs s)"
  using assms
proof (induction xs arbitrary: s)
  case (Cons x xs)
  have "raises_in R (foldE f xs u)" if u: "f x s = Inr u" for u
  proof (rule Cons.IH)
    show "P u" by (rule Cons.prems(3) [OF _ Cons.prems(1) u]) simp
  qed (simp_all add: Cons.prems(2), rule Cons.prems(3), simp_all)
  moreover have "raises_in R (f x s)" using Cons.prems by simp
  ultimately show ?case by (simp add: raises_in_bind)
qed simp

lemma foldE_total:
  assumes "P s"
    and "\<And>x u. x \<in> set xs \<Longrightarrow> P u \<Longrightarrow> \<exists>v. f x u = Inr v \<and> P v"
  shows "\<exists>t. foldE f xs s = Inr t \<and> P t"
  using assms
proof (induction xs arbitrary: s)
  case Nil
  then show ?case by simp
next
  case (Cons x xs)
  then obtain u where u: "f x s = Inr u" "P u" by (meson list.set_intros(1))
  with Cons.IH [OF u(2)] Cons.prems(2) obtain t where "foldE f xs u = Inr t" "P t"
    by auto
  with u show ?case by auto
qed

lemma fold_invariant_set:
  assumes "P s" and "\<And>x u. x \<in> set xs \<Longrightarrow> P u \<Longrightarrow> P (f x u)"
  shows "P (fold f xs s)"
  using assms by (induction xs arbitrary: s) auto

section \<open>Insertion-ordered dictionaries\<close>

text \<open>
  A Python dictionary keeps its insertion order: storing at an existing key keeps the
  position, a new key goes to the end. \<open>AList.update\<close> and \<open>AList.delete\<close> do exactly that.
\<close>

type_synonym ('k, 'v) pydict = "('k \<times> 'v) list"

abbreviation dget :: "('k, 'v) pydict \<Rightarrow> 'k \<Rightarrow> 'v option" where
  "dget d k \<equiv> map_of d k"

abbreviation dset :: "'k \<Rightarrow> 'v \<Rightarrow> ('k, 'v) pydict \<Rightarrow> ('k, 'v) pydict" where
  "dset k v d \<equiv> AList.update k v d"

abbreviation ddel :: "'k \<Rightarrow> ('k, 'v) pydict \<Rightarrow> ('k, 'v) pydict" where
  "ddel k d \<equiv> AList.delete k d"

abbreviation dkeys :: "('k, 'v) pydict \<Rightarrow> 'k list" where
  "dkeys d \<equiv> map fst d"

abbreviation dvals :: "('k, 'v) pydict \<Rightarrow> 'v list" where
  "dvals d \<equiv> map snd d"

text \<open>\<open>d[k]\<close> raises; \<open>defaultdict\<close> and \<open>d.get(k, v)\<close> fall back to a default.\<close>

definition dlookup :: "('k, 'v) pydict \<Rightarrow> 'k \<Rightarrow> 'v result" where
  "dlookup d k = (case dget d k of None \<Rightarrow> Inl KeyError | Some v \<Rightarrow> Inr v)"

definition dget_or :: "'v \<Rightarrow> ('k, 'v) pydict \<Rightarrow> 'k \<Rightarrow> 'v" where
  "dget_or v d k = (case dget d k of None \<Rightarrow> v | Some x \<Rightarrow> x)"

text \<open>\<open>d[k] += n\<close> on a \<open>defaultdict\<close> of numbers.\<close>

definition dadd :: "'k \<Rightarrow> 'v \<Rightarrow> ('k, 'v::monoid_add) pydict \<Rightarrow> ('k, 'v) pydict" where
  "dadd k n d = dset k (dget_or 0 d k + n) d"

lemma dlookup_Inr_iff [dict_simps]: "dlookup d k = Inr v \<longleftrightarrow> dget d k = Some v"
  by (auto simp: dlookup_def split: option.splits)

lemma dlookup_total:
  assumes "k \<in> set (dkeys d)" shows "\<exists>v. dlookup d k = Inr v"
proof -
  have "dget d k \<noteq> None" using assms by (simp add: map_of_eq_None_iff)
  then show ?thesis by (auto simp: dlookup_def)
qed

lemma dget_dset [dict_simps]: "dget (dset k v d) k' = (if k' = k then Some v else dget d k')"
  by (simp add: update_conv')

lemma dget_ddel [dict_simps]: "dget (ddel k d) k' = (if k' = k then None else dget d k')"
  by (simp add: delete_conv')

lemma dget_or_dset [dict_simps]:
  "dget_or x (dset k v d) k' = (if k' = k then v else dget_or x d k')"
  by (simp add: dget_or_def dict_simps)

lemma dget_or_dadd [dict_simps]:
  "dget_or 0 (dadd k n d) k' = (if k' = k then dget_or 0 d k + n else dget_or 0 d k')"
  by (simp add: dadd_def dict_simps)

lemma dkeys_dset_mem: "k \<in> set (dkeys d) \<Longrightarrow> dkeys (dset k v d) = dkeys d"
  by (induction d) auto

lemma set_dkeys_dset: "set (dkeys (dset k v d)) = insert k (set (dkeys d))"
  by (simp add: dom_update)

lemma distinct_dset [simp]: "distinct (dkeys d) \<Longrightarrow> distinct (dkeys (dset k v d))"
  by (rule distinct_update)

lemma distinct_ddel [simp]: "distinct (dkeys d) \<Longrightarrow> distinct (dkeys (ddel k d))"
  by (rule distinct_delete)

lemma dget_mem: "dget d k = Some v \<Longrightarrow> (k, v) \<in> set d"
  by (rule map_of_SomeD)

lemma dget_iff_mem: "distinct (dkeys d) \<Longrightarrow> dget d k = Some v \<longleftrightarrow> (k, v) \<in> set d"
  by (rule map_of_eq_Some_iff)

lemma set_dset_distinct:
  "distinct (dkeys d) \<Longrightarrow> set (dset k v d) = insert (k, v) {p \<in> set d. fst p \<noteq> k}"
  by (induction d) (auto simp: image_iff)

lemma sum_list_dset_new:
  fixes f :: "'k \<times> 'v \<Rightarrow> 'a::comm_monoid_add"
  assumes "k \<notin> set (dkeys d)"
  shows "(\<Sum>p\<leftarrow>dset k v d. f p) = (\<Sum>p\<leftarrow>d. f p) + f (k, v)"
  using assms by (induction d) (auto simp: ac_simps)

lemma dset_new_append: "k \<notin> set (dkeys d) \<Longrightarrow> dset k v d = d @ [(k, v)]"
  by (induction d) auto

section \<open>Built-ins\<close>

text \<open>\<open>min(xs, key=f)\<close> and \<open>max(xs, key=f)\<close> keep the first extremal element.\<close>

fun min_by :: "('a \<Rightarrow> 'b::linorder) \<Rightarrow> 'a list \<Rightarrow> 'a result" where
  "min_by f [] = Inl ValueError"
| "min_by f (x # xs) = Inr (foldl (\<lambda>b y. if f y < f b then y else b) x xs)"

fun max_by :: "('a \<Rightarrow> 'b::linorder) \<Rightarrow> 'a list \<Rightarrow> 'a result" where
  "max_by f [] = Inl ValueError"
| "max_by f (x # xs) = Inr (foldl (\<lambda>b y. if f b < f y then y else b) x xs)"

lemma foldl_min_spec:
  fixes f :: "'a \<Rightarrow> 'b::linorder"
  defines "m \<equiv> \<lambda>x xs. foldl (\<lambda>b y. if f y < f b then y else b) x xs"
  shows "m x xs \<in> insert x (set xs) \<and> (\<forall>y \<in> insert x (set xs). f (m x xs) \<le> f y)"
  unfolding m_def
proof (induction xs arbitrary: x)
  case Nil
  then show ?case by simp
next
  case (Cons a xs)
  from Cons [of "if f a < f x then a else x"] show ?case
    by (auto split: if_splits intro: order.trans)
qed

lemma foldl_max_spec:
  fixes f :: "'a \<Rightarrow> 'b::linorder"
  defines "m \<equiv> \<lambda>x xs. foldl (\<lambda>b y. if f b < f y then y else b) x xs"
  shows "m x xs \<in> insert x (set xs) \<and> (\<forall>y \<in> insert x (set xs). f y \<le> f (m x xs))"
  unfolding m_def
proof (induction xs arbitrary: x)
  case Nil
  then show ?case by simp
next
  case (Cons a xs)
  from Cons [of "if f x < f a then a else x"] show ?case
    by (auto split: if_splits intro: order.trans)
qed

lemma min_by_Inr:
  assumes "min_by f xs = Inr x"
  shows "x \<in> set xs" and "y \<in> set xs \<Longrightarrow> f x \<le> f y"
  using assms foldl_min_spec [where f = f and x = "hd xs" and xs = "tl xs"]
  by (cases xs; auto)+

lemma max_by_Inr:
  assumes "max_by f xs = Inr x"
  shows "x \<in> set xs" and "y \<in> set xs \<Longrightarrow> f y \<le> f x"
  using assms foldl_max_spec [where f = f and x = "hd xs" and xs = "tl xs"]
  by (cases xs; auto)+

lemma min_by_total: "xs \<noteq> [] \<Longrightarrow> \<exists>x. min_by f xs = Inr x"
  by (cases xs) auto

lemma max_by_total: "xs \<noteq> [] \<Longrightarrow> \<exists>x. max_by f xs = Inr x"
  by (cases xs) auto

text \<open>\<open>round\<close> of a float: to the nearest integer, ties to the even one.\<close>

definition py_round :: "real \<Rightarrow> int" where
  "py_round x =
     (let f = \<lfloor>x\<rfloor>; d = x - of_int f
      in if d < 1 / 2 then f else if 1 / 2 < d then f + 1 else if even f then f else f + 1)"

lemma py_round_of_int [simp]: "py_round (of_int k) = k"
  by (simp add: py_round_def)

lemma py_round_nonneg: "0 \<le> x \<Longrightarrow> 0 \<le> py_round x"
  by (simp add: py_round_def Let_def)

lemma py_round_le_of_int:
  assumes "x \<le> of_int k" shows "py_round x \<le> k"
proof (cases "x = of_int k")
  case True
  then show ?thesis by simp
next
  case False
  with assms have "\<lfloor>x\<rfloor> < k" by (simp add: floor_less_iff)
  then show ?thesis by (auto simp: py_round_def Let_def)
qed

text \<open>\<open>deque(maxlen=n).append(x)\<close>: the oldest elements fall off the left end.\<close>

definition deque_append :: "nat \<Rightarrow> 'a \<Rightarrow> 'a list \<Rightarrow> 'a list" where
  "deque_append n x xs = drop (length xs + 1 - n) (xs @ [x])"

lemma length_deque_append: "length (deque_append n x xs) = min n (length xs + 1)"
  by (simp add: deque_append_def)

lemma set_deque_append: "set (deque_append n x xs) \<subseteq> insert x (set xs)"
  unfolding deque_append_def using set_drop_subset [of _ "xs @ [x]"] by fastforce

lemma deque_append_not_Nil: "0 < n \<Longrightarrow> deque_append n x xs \<noteq> []"
  by (simp add: deque_append_def)

end
