(* ===== verification/Config.thy ===== *)
theory Config
  imports Prelude
begin

text \<open>
  The configuration of \<open>common/config.py\<close>: server profiles, the ten servers, the fifteen
  services, the numeric constants, the flags read from the environment (the record
  \<open>cfg\<close>, an argument of what reads them), and the derived times: execution time,
  cold-start window and cold-start penalty.
\<close>

section \<open>Server profiles and servers\<close>

datatype profile = EdgeSmall | Medium | Large

record profile_info =
  n_cores :: int
  mips_per_core :: int
  profile_capacity_mips :: int
  profile_p_idle :: real
  profile_p_max :: real

definition SERVER_PROFILES :: "(profile, profile_info) pydict" where
  "SERVER_PROFILES =
     [(EdgeSmall, \<lparr>n_cores = 8, mips_per_core = 2520, profile_capacity_mips = 20160,
                   profile_p_idle = 28, profile_p_max = 113\<rparr>),
      (Medium, \<lparr>n_cores = 12, mips_per_core = 2760, profile_capacity_mips = 33120,
                profile_p_idle = 30, profile_p_max = 130\<rparr>),
      (Large, \<lparr>n_cores = 16, mips_per_core = 2520, profile_capacity_mips = 40320,
               profile_p_idle = 33, profile_p_max = 148\<rparr>)]"

text \<open>Every constructor is a key, so the lookup by profile is total.\<close>

fun server_profile :: "profile \<Rightarrow> profile_info" where
  "server_profile EdgeSmall = snd (SERVER_PROFILES ! 0)"
| "server_profile Medium = snd (SERVER_PROFILES ! 1)"
| "server_profile Large = snd (SERVER_PROFILES ! 2)"

lemma server_profile_lookup: "dget SERVER_PROFILES p = Some (server_profile p)"
  by (cases p) (simp_all add: SERVER_PROFILES_def)

definition CAPACITY_TO_PROFILE :: "(int, profile) pydict" where
  "CAPACITY_TO_PROFILE =
     fold (\<lambda>(name, p) d. dset (profile_capacity_mips p) name d) SERVER_PROFILES []"

definition REFERENCE_MIPS_PER_CORE :: int where
  "REFERENCE_MIPS_PER_CORE = mips_per_core (server_profile Medium)"

record server_info =
  info_bts_id :: int
  info_lat :: real
  info_long :: real
  info_capacity_mips :: int

definition SERVER_INFO :: "(int, server_info) pydict" where
  "SERVER_INFO =
     [(1, \<lparr>info_bts_id = 1498, info_lat = 3137/100, info_long = 12125/100, info_capacity_mips = 20160\<rparr>),
      (2, \<lparr>info_bts_id = 777, info_lat = 3131/100, info_long = 12151/100, info_capacity_mips = 20160\<rparr>),
      (3, \<lparr>info_bts_id = 530, info_lat = 3110/100, info_long = 12118/100, info_capacity_mips = 33120\<rparr>),
      (4, \<lparr>info_bts_id = 121, info_lat = 3125/100, info_long = 12137/100, info_capacity_mips = 33120\<rparr>),
      (5, \<lparr>info_bts_id = 292, info_lat = 3110/100, info_long = 12136/100, info_capacity_mips = 33120\<rparr>),
      (6, \<lparr>info_bts_id = 1344, info_lat = 3104/100, info_long = 12174/100, info_capacity_mips = 33120\<rparr>),
      (7, \<lparr>info_bts_id = 182, info_lat = 3117/100, info_long = 12157/100, info_capacity_mips = 40320\<rparr>),
      (8, \<lparr>info_bts_id = 505, info_lat = 3115/100, info_long = 12141/100, info_capacity_mips = 40320\<rparr>),
      (9, \<lparr>info_bts_id = 419, info_lat = 3120/100, info_long = 12143/100, info_capacity_mips = 40320\<rparr>),
      (10, \<lparr>info_bts_id = 609, info_lat = 3116/100, info_long = 12149/100, info_capacity_mips = 40320\<rparr>)]"

text \<open>\<open>info["profile"] = CAPACITY_TO_PROFILE[info["capacity_mips"]]\<close>\<close>

definition profile_of_info :: "server_info \<Rightarrow> profile result" where
  "profile_of_info info = dlookup CAPACITY_TO_PROFILE (info_capacity_mips info)"

definition N_SERVERS :: nat where
  "N_SERVERS = length SERVER_INFO"

section \<open>Services\<close>

record service_info =
  resource_mips :: int
  task_length_mi :: int
  svc_queue_len :: nat
  deadline :: real
  svc_memory :: string

definition mk_service :: "int \<Rightarrow> int \<Rightarrow> nat \<Rightarrow> real \<Rightarrow> string \<Rightarrow> service_info" where
  "mk_service r t q d m = \<lparr>resource_mips = r, task_length_mi = t, svc_queue_len = q,
     deadline = d, svc_memory = m\<rparr>"

lemma mk_service_simps [simp]:
  "resource_mips (mk_service r t q d m) = r"
  "task_length_mi (mk_service r t q d m) = t"
  "svc_queue_len (mk_service r t q d m) = q"
  "deadline (mk_service r t q d m) = d"
  by (simp_all add: mk_service_def)

definition SERVICES_INFO :: "(int, service_info) pydict" where
  "SERVICES_INFO =
     [(1, mk_service 4800 55 1 (30/1000) ''32Mi''),
      (2, mk_service 4900 110 2 (50/1000) ''48Mi''),
      (3, mk_service 5000 140 2 (60/1000) ''48Mi''),
      (4, mk_service 5100 190 3 (75/1000) ''56Mi''),
      (5, mk_service 5200 260 3 (100/1000) ''64Mi''),
      (6, mk_service 5300 310 3 (100/1000) ''72Mi''),
      (7, mk_service 5400 420 4 (150/1000) ''96Mi''),
      (8, mk_service 5400 570 5 (200/1000) ''128Mi''),
      (9, mk_service 5500 880 6 (300/1000) ''160Mi''),
      (10, mk_service 5600 1050 6 (300/1000) ''176Mi''),
      (11, mk_service 5400 3500 8 1 ''192Mi''),
      (12, mk_service 5400 7000 10 2 ''256Mi''),
      (13, mk_service 5200 10000 12 3 ''320Mi''),
      (14, mk_service 5200 50500 15 15 ''512Mi''),
      (15, mk_service 5800 151000 20 40 ''768Mi'')]"

definition N_SERVICES :: nat where
  "N_SERVICES = length SERVICES_INFO"

definition ACTIVE_SERVICES :: "int list" where
  "ACTIVE_SERVICES = sort (dkeys SERVICES_INFO)"

text \<open>\<open>CFG.services_info[k]\<close>, and the reservation of a service already known to exist.\<close>

definition service_of :: "int \<Rightarrow> service_info result" where
  "service_of k = dlookup SERVICES_INFO k"

definition resource_mips_of :: "int \<Rightarrow> int" where
  "resource_mips_of k = (case dget SERVICES_INFO k of None \<Rightarrow> 0 | Some v \<Rightarrow> resource_mips v)"

text \<open>The assertion executed when the module is loaded.\<close>

definition config_assertion :: "unit result" where
  "config_assertion =
     (let max_single_service = Max (set (map resource_mips (dvals SERVICES_INFO)));
          min_server_capacity = Min (set (map profile_capacity_mips (dvals SERVER_PROFILES)))
      in if max_single_service \<le> min_server_capacity then Inr () else Inl AssertionError)"

definition total_cpu_needed :: int where
  "total_cpu_needed = (\<Sum>v\<leftarrow>dvals SERVICES_INFO. resource_mips v)"

section \<open>Constants\<close>

definition COLD_START_PENALTY_FRACTION :: real where "COLD_START_PENALTY_FRACTION = 20/100"
definition COLD_START_PENALTY_CAP_SEC :: real where "COLD_START_PENALTY_CAP_SEC = 500/1000"
definition COLD_START_WINDOW_RATIO :: real where "COLD_START_WINDOW_RATIO = 3"
definition COLD_START_WINDOW_CAP_SEC :: real where "COLD_START_WINDOW_CAP_SEC = 10"
definition SECONDS_PER_DAY :: int where "SECONDS_PER_DAY = 86400"
definition LAT_MIN :: real where "LAT_MIN = 305/10"
definition LAT_MAX :: real where "LAT_MAX = 317/10"
definition LON_MIN :: real where "LON_MIN = 1207/10"
definition LON_MAX :: real where "LON_MAX = 122"
definition BASE_LATENCY_MS :: real where "BASE_LATENCY_MS = 2"
definition K_MS_PER_KM :: real where "K_MS_PER_KM = 2/100"
definition L0_MS :: real where "L0_MS = 20"
definition DISPATCH_OVERHEAD_MS :: real where "DISPATCH_OVERHEAD_MS = 3/10"
definition PROXIMITY_L0_MS :: real where "PROXIMITY_L0_MS = 7"
definition BOOT_DELAY_SEC :: real where "BOOT_DELAY_SEC = 30"
definition POD_STARTUP_DELAY_SEC :: real where "POD_STARTUP_DELAY_SEC = 5"
definition GRACEFUL_TERMINATION_DELAY_SEC :: real where "GRACEFUL_TERMINATION_DELAY_SEC = 10"
definition SERVER_DRAIN_GRACE_SEC :: real where "SERVER_DRAIN_GRACE_SEC = 15"
definition MIN_ACTIVE_DURATION_SEC :: real where "MIN_ACTIVE_DURATION_SEC = 300"
definition MIN_REPLICA_AGE_BEFORE_SCALE_DOWN_SEC :: real where
  "MIN_REPLICA_AGE_BEFORE_SCALE_DOWN_SEC = 120"
definition E_BOOT_SERVER_J :: real where "E_BOOT_SERVER_J = 500"
definition E_POD_CREATE_J :: real where "E_POD_CREATE_J = 20"
definition UTIL_SCALE_UP_THRESHOLD :: real where "UTIL_SCALE_UP_THRESHOLD = 95/100"
definition UTIL_SCALE_DOWN_THRESHOLD :: real where "UTIL_SCALE_DOWN_THRESHOLD = 45/100"
definition MONITOR_WINDOW_SEC :: real where "MONITOR_WINDOW_SEC = 30"
definition SUSTAIN_LOW_SEC :: real where "SUSTAIN_LOW_SEC = 60"
definition SUSTAIN_HIGH_SEC :: real where "SUSTAIN_HIGH_SEC = 30"
definition COOLDOWN_SEC :: real where "COOLDOWN_SEC = 20"
definition DECISION_AUDIT_SCALE_UP_OCC_THRESHOLD :: real where
  "DECISION_AUDIT_SCALE_UP_OCC_THRESHOLD = 85/100"
definition DECISION_AUDIT_SCALE_DOWN_OCC_THRESHOLD :: real where
  "DECISION_AUDIT_SCALE_DOWN_OCC_THRESHOLD = 2/10"
definition DECISION_INTERVAL_SEC :: real where "DECISION_INTERVAL_SEC = 50"

text \<open>
  The initial value \<open>-1e18\<close> of every "time of the last ..." field: so long ago that no
  cooldown is running.
\<close>

definition LONG_AGO :: real where "LONG_AGO = - (10 ^ 18)"

lemmas config_constants =
  COLD_START_PENALTY_FRACTION_def COLD_START_PENALTY_CAP_SEC_def COLD_START_WINDOW_RATIO_def
  COLD_START_WINDOW_CAP_SEC_def BASE_LATENCY_MS_def K_MS_PER_KM_def L0_MS_def
  DISPATCH_OVERHEAD_MS_def PROXIMITY_L0_MS_def BOOT_DELAY_SEC_def POD_STARTUP_DELAY_SEC_def
  GRACEFUL_TERMINATION_DELAY_SEC_def SERVER_DRAIN_GRACE_SEC_def MIN_ACTIVE_DURATION_SEC_def
  MIN_REPLICA_AGE_BEFORE_SCALE_DOWN_SEC_def E_BOOT_SERVER_J_def E_POD_CREATE_J_def
  UTIL_SCALE_UP_THRESHOLD_def UTIL_SCALE_DOWN_THRESHOLD_def MONITOR_WINDOW_SEC_def
  SUSTAIN_LOW_SEC_def SUSTAIN_HIGH_SEC_def COOLDOWN_SEC_def
  DECISION_AUDIT_SCALE_UP_OCC_THRESHOLD_def DECISION_AUDIT_SCALE_DOWN_OCC_THRESHOLD_def
  DECISION_INTERVAL_SEC_def LONG_AGO_def

text \<open>The flag of \<open>Config\<close> that is read from the environment at start-up.\<close>

record cfg =
  enforce_sla_feasibility :: bool

section \<open>Derived times\<close>

definition compute_exec_time_sec :: "int \<Rightarrow> real \<Rightarrow> real result" where
  "compute_exec_time_sec service_id host_mips_per_core =
     bindE (service_of service_id) (\<lambda>svc.
       let speed_factor = host_mips_per_core / real_of_int REFERENCE_MIPS_PER_CORE;
           effective_mips = real_of_int (resource_mips svc) * speed_factor
       in if effective_mips = 0 then Inl ZeroDivisionError
          else Inr (real_of_int (task_length_mi svc) / effective_mips))"

definition compute_cold_start_window_sec :: "int \<Rightarrow> real \<Rightarrow> real result" where
  "compute_cold_start_window_sec service_id host_mips_per_core =
     bindE (compute_exec_time_sec service_id host_mips_per_core) (\<lambda>et.
       Inr (min (et * COLD_START_WINDOW_RATIO) COLD_START_WINDOW_CAP_SEC))"

definition compute_cold_start_penalty_sec :: "int \<Rightarrow> real \<Rightarrow> real result" where
  "compute_cold_start_penalty_sec service_id host_mips_per_core =
     bindE (service_of service_id) (\<lambda>svc.
     bindE (compute_exec_time_sec service_id host_mips_per_core) (\<lambda>et.
       let dl = deadline svc;
           penalty_deadline = dl * COLD_START_PENALTY_FRACTION;
           penalty_exec = et * (50/100);
           penalty = min penalty_deadline penalty_exec
       in Inr (min penalty COLD_START_PENALTY_CAP_SEC)))"

section \<open>Facts about the tables\<close>

lemma ACTIVE_SERVICES_eq: "ACTIVE_SERVICES = [1,2,3,4,5,6,7,8,9,10,11,12,13,14,15]"
  by (simp add: ACTIVE_SERVICES_def SERVICES_INFO_def)

lemma SERVICES_INFO_ranges:
  "dget SERVICES_INFO k = Some svc \<Longrightarrow>
     4800 \<le> resource_mips svc \<and> resource_mips svc \<le> 5800 \<and> 55 \<le> task_length_mi svc
     \<and> 1 \<le> svc_queue_len svc \<and> svc_queue_len svc \<le> 20 \<and> 3/100 \<le> deadline svc \<and> deadline svc \<le> 40"
  by (auto simp: SERVICES_INFO_def split: if_splits)

lemma service_of_active: "(\<exists>svc. service_of k = Inr svc) \<longleftrightarrow> k \<in> set ACTIVE_SERVICES"
proof -
  have "(\<exists>svc. dget SERVICES_INFO k = Some svc) \<longleftrightarrow> k \<in> dom (dget SERVICES_INFO)"
    by auto
  then show ?thesis
    by (simp add: service_of_def dlookup_Inr_iff ACTIVE_SERVICES_def dom_map_of_conv_image_fst)
qed

lemma profile_mips_range: "2520 \<le> mips_per_core (server_profile p) \<and> mips_per_core (server_profile p) \<le> 2760"
  by (cases p) (simp_all add: SERVER_PROFILES_def)

lemma resource_mips_of_nonneg: "0 \<le> resource_mips_of k"
  using SERVICES_INFO_ranges [of k] by (force simp: resource_mips_of_def split: option.splits)

end
