(* ===== verification/Geo.thy ===== *)
theory Geo
  imports Config
begin

text \<open>
  \<open>common/geo.py\<close>: great-circle distance by the haversine formula and the linear network
  delay model, with the SLA feasibility check of \<open>common/config.py\<close> that uses them.
\<close>

definition EARTH_RADIUS_KM :: real where "EARTH_RADIUS_KM = 6371"

definition radians :: "real \<Rightarrow> real" where
  "radians x = x * pi / 180"

definition haversine_a :: "real \<Rightarrow> real \<Rightarrow> real \<Rightarrow> real \<Rightarrow> real" where
  "haversine_a lat1 lon1 lat2 lon2 =
     (let lat1_r = radians lat1; lon1_r = radians lon1;
          lat2_r = radians lat2; lon2_r = radians lon2;
          dlat = lat2_r - lat1_r;
          dlon = lon2_r - lon1_r
      in (sin (dlat / 2))\<^sup>2 + cos lat1_r * cos lat2_r * (sin (dlon / 2))\<^sup>2)"

definition haversine_km :: "real \<Rightarrow> real \<Rightarrow> real \<Rightarrow> real \<Rightarrow> real" where
  "haversine_km lat1 lon1 lat2 lon2 =
     (let a = haversine_a lat1 lon1 lat2 lon2;
          c = 2 * arcsin (min 1 (sqrt a))
      in EARTH_RADIUS_KM * c)"

definition network_delay_ms :: "real \<Rightarrow> real \<Rightarrow> real \<Rightarrow> real" where
  "network_delay_ms distance_km base_latency_ms k_ms_per_km =
     base_latency_ms + k_ms_per_km * distance_km"

section \<open>SLA feasibility\<close>

definition DISPATCHER_LAT :: real where
  "DISPATCHER_LAT = (\<Sum>i\<leftarrow>dvals SERVER_INFO. info_lat i) / real (length SERVER_INFO)"

definition DISPATCHER_LON :: real where
  "DISPATCHER_LON = (\<Sum>i\<leftarrow>dvals SERVER_INFO. info_long i) / real (length SERVER_INFO)"

definition corners :: "(real \<times> real) list" where
  "corners = [(LAT_MIN, LON_MIN), (LAT_MIN, LON_MAX), (LAT_MAX, LON_MIN), (LAT_MAX, LON_MAX)]"

definition max_corner_km :: "real \<Rightarrow> real \<Rightarrow> real" where
  "max_corner_km lat lon = Max (set (map (\<lambda>c. haversine_km (fst c) (snd c) lat lon) corners))"

text \<open>The position of the base station is optional: without it the farthest corner counts.\<close>

definition min_response_sec :: "real \<Rightarrow> real \<Rightarrow> real \<Rightarrow> real" where
  "min_response_sec dist_to_dispatcher_km dist_to_server_km et =
     (let dispatcher_rtt_sec = 2 * (BASE_LATENCY_MS + K_MS_PER_KM * dist_to_dispatcher_km
                                    + DISPATCH_OVERHEAD_MS) / 1000;
          server_rtt_sec = 2 * (BASE_LATENCY_MS + K_MS_PER_KM * dist_to_server_km) / 1000
      in dispatcher_rtt_sec + server_rtt_sec + et)"

definition is_sla_feasible ::
  "int \<Rightarrow> real \<Rightarrow> real \<Rightarrow> real \<Rightarrow> (real \<times> real) option \<Rightarrow> bool result" where
  "is_sla_feasible service_id server_lat server_long server_mips_per_core bts =
     bindE (service_of service_id) (\<lambda>svc.
     bindE (compute_exec_time_sec service_id server_mips_per_core) (\<lambda>et.
       let (dist_to_dispatcher_km, dist_to_server_km) =
             (case bts of
                Some (bts_lat, bts_long) \<Rightarrow>
                  (haversine_km bts_lat bts_long DISPATCHER_LAT DISPATCHER_LON,
                   haversine_km bts_lat bts_long server_lat server_long)
              | None \<Rightarrow>
                  (max_corner_km DISPATCHER_LAT DISPATCHER_LON,
                   max_corner_km server_lat server_long))
       in Inr (min_response_sec dist_to_dispatcher_km dist_to_server_km et \<le> deadline svc)))"

section \<open>Metric properties of the distance\<close>

lemma haversine_km_self [simp]: "haversine_km x y x y = 0"
  by (simp add: haversine_km_def haversine_a_def)

lemma haversine_a_commute: "haversine_a x y u v = haversine_a u v x y"
proof -
  have sw: "(sin ((b - a) / 2))\<^sup>2 = (sin ((a - b) / 2))\<^sup>2" for a b :: real
    using sin_minus [of "(a - b) / 2"] by (simp add: minus_divide_left)
  show ?thesis
    by (simp add: haversine_a_def Let_def sw [of "radians u" "radians x"]
        sw [of "radians v" "radians y"] mult.commute)
qed

lemma haversine_km_commute: "haversine_km x y u v = haversine_km u v x y"
  by (simp add: haversine_km_def haversine_a_commute)

lemma radians_mono: "x \<le> y \<Longrightarrow> radians x \<le> radians y"
  by (simp add: radians_def mult_right_mono divide_right_mono)

lemma cos_radians_nonneg: "\<bar>x\<bar> \<le> 90 \<Longrightarrow> 0 \<le> cos (radians x)"
  using radians_mono [of x 90] radians_mono [of "- 90" x]
  by (intro cos_ge_zero) (auto simp: radians_def abs_le_iff)

text \<open>For latitudes the radicand is never negative, so \<open>math.sqrt\<close> does not raise.\<close>

lemma haversine_a_nonneg: "\<bar>x\<bar> \<le> 90 \<Longrightarrow> \<bar>u\<bar> \<le> 90 \<Longrightarrow> 0 \<le> haversine_a x y u v"
  by (simp add: haversine_a_def Let_def cos_radians_nonneg)

lemma arcsin_min_mono: "0 \<le> (s::real) \<Longrightarrow> s \<le> t \<Longrightarrow> arcsin (min 1 s) \<le> arcsin (min 1 t)"
  by (intro arcsin_le_arcsin) auto

lemma haversine_km_nonneg:
  assumes "\<bar>x\<bar> \<le> 90" and "\<bar>u\<bar> \<le> 90"
  shows "0 \<le> haversine_km x y u v"
  using arcsin_min_mono [OF order_refl real_sqrt_ge_zero [OF haversine_a_nonneg [OF assms, of y v]]]
  by (simp add: haversine_km_def EARTH_RADIUS_KM_def)

lemma haversine_km_mono:
  assumes "0 \<le> haversine_a x y u v" and "haversine_a x y u v \<le> haversine_a x' y' u' v'"
  shows "haversine_km x y u v \<le> haversine_km x' y' u' v'"
  using arcsin_min_mono [OF real_sqrt_ge_zero [OF assms(1)] real_sqrt_le_mono [OF assms(2)]]
  by (simp add: haversine_km_def EARTH_RADIUS_KM_def)

lemma haversine_km_le_antipodal:
  assumes "\<bar>x\<bar> \<le> 90" and "\<bar>u\<bar> \<le> 90"
  shows "haversine_km x y u v \<le> pi * EARTH_RADIUS_KM"
proof -
  have "arcsin (min 1 s) \<le> pi / 2" if "0 \<le> s" for s :: real
    using that by (intro arcsin_ubound) auto
  from this [OF real_sqrt_ge_zero [OF haversine_a_nonneg [OF assms]]]
  have "arcsin (min 1 (sqrt (haversine_a x y u v))) \<le> pi / 2" .
  then show ?thesis by (simp add: haversine_km_def EARTH_RADIUS_KM_def)
qed

section \<open>The farthest point of the service area is a corner\<close>

definition in_area :: "real \<Rightarrow> real \<Rightarrow> bool" where
  "in_area lat lon \<longleftrightarrow> LAT_MIN \<le> lat \<and> lat \<le> LAT_MAX \<and> LON_MIN \<le> lon \<and> lon \<le> LON_MAX"

text \<open>
  A combination of sine and cosine that is nonnegative at both ends of a short interval lies
  above the smaller of its end values in between.
\<close>

lemma sinusoid_above_ends:
  fixes A B :: real
  assumes lt: "l \<le> t" and tu: "t \<le> u" and short: "u - l < pi"
    and m: "0 \<le> m" "m \<le> A * cos l + B * sin l" "m \<le> A * cos u + B * sin u"
  shows "m \<le> A * cos t + B * sin t"
proof (cases "l = u")
  case True
  with assms show ?thesis by simp
next
  case False
  let ?g = "\<lambda>x. A * cos x + B * sin x"
  from False lt tu short have pos: "0 < sin (u - l)" by (intro sin_gt_zero) auto
  have nn: "0 \<le> sin (u - t)" "0 \<le> sin (t - l)"
    using lt tu short by (auto intro!: sin_ge_zero)
  have eq: "sin (u - l) * ?g t = sin (u - t) * ?g l + sin (t - l) * ?g u"
    by (simp add: sin_diff algebra_simps)
  have "sin (u - l) = sin (u - t) * cos (t - l) + cos (u - t) * sin (t - l)"
    using sin_add [of "u - t" "t - l"] by simp
  also have "\<dots> \<le> sin (u - t) + sin (t - l)"
    using nn mult_right_mono [OF cos_le_one [of "u - t"] nn(2)]
    by (intro add_mono mult_left_le) simp_all
  finally have "sin (u - l) * m \<le> (sin (u - t) + sin (t - l)) * m"
    using m(1) by (rule mult_right_mono)
  also have "\<dots> \<le> sin (u - t) * ?g l + sin (t - l) * ?g u"
    using m(2,3) nn by (simp add: distrib_right add_mono mult_left_mono)
  finally have "sin (u - l) * m \<le> sin (u - l) * ?g t" by (simp only: eq)
  with pos show ?thesis by simp
qed

lemma haversine_a_sinusoid:
  "haversine_a lat1 lon1 lat2 lon2 =
     (1 - (cos (radians lat2) * cos (radians lon2 - radians lon1) * cos (radians lat1)
           + sin (radians lat2) * sin (radians lat1))) / 2"
proof -
  have half: "(sin (d / 2))\<^sup>2 = (1 - cos d) / 2" for d :: real
    using cos_double_sin [of "d / 2"] by simp
  show ?thesis
    by (simp add: haversine_a_def Let_def half cos_diff field_simps)
qed

lemma area_latitude: "in_area lat lon \<Longrightarrow> \<bar>lat\<bar> \<le> 90"
  by (simp add: in_area_def LAT_MIN_def LAT_MAX_def abs_le_iff)

lemma area_longitude_corner:
  assumes "in_area lat lon" and "in_area lat2 lon2"
  obtains c where "c = LON_MIN \<or> c = LON_MAX"
    and "haversine_a lat lon lat2 lon2 \<le> haversine_a lat c lat2 lon2"
    and "0 \<le> cos (radians lon2 - radians c)"
proof -
  define c where "c = (if lon \<le> lon2 then LON_MIN else LON_MAX)"
  have le: "\<bar>radians lon2 - radians lon\<bar> \<le> \<bar>radians lon2 - radians c\<bar>"
    using assms by (auto simp: c_def in_area_def radians_def field_simps)
  have small: "\<bar>radians lon2 - radians c\<bar> \<le> pi / 2"
    using assms by (auto simp: c_def in_area_def LON_MIN_def LON_MAX_def radians_def field_simps)
  have "cos \<bar>radians lon2 - radians c\<bar> \<le> cos \<bar>radians lon2 - radians lon\<bar>"
    using le small pi_gt_zero by (intro cos_monotone_0_pi_le) linarith+
  then have cle: "cos (radians lon2 - radians c) \<le> cos (radians lon2 - radians lon)" by simp
  have nn: "0 \<le> cos (radians lat)" "0 \<le> cos (radians lat2)"
    using area_latitude [OF assms(1)] area_latitude [OF assms(2)]
    by (simp_all add: cos_radians_nonneg)
  have "haversine_a lat lon lat2 lon2 \<le> haversine_a lat c lat2 lon2"
    unfolding haversine_a_sinusoid using cle nn
    by (auto intro!: mult_left_mono mult_right_mono divide_right_mono diff_left_mono)
  moreover have "0 \<le> cos (radians lon2 - radians c)"
    using small by (intro cos_ge_zero) linarith+
  ultimately show ?thesis using that [of c] by (auto simp: c_def)
qed

lemma area_latitude_corner:
  assumes "in_area lat lon" and "in_area lat2 lon2" and cpos: "0 \<le> cos (radians lon2 - radians c)"
  obtains b where "b = LAT_MIN \<or> b = LAT_MAX"
    and "haversine_a lat c lat2 lon2 \<le> haversine_a b c lat2 lon2"
proof -
  let ?A = "cos (radians lat2) * cos (radians lon2 - radians c)"
  let ?B = "sin (radians lat2)"
  define g where "g x = ?A * cos (radians x) + ?B * sin (radians x)" for x
  define m where "m = min (g LAT_MIN) (g LAT_MAX)"
  have a: "haversine_a x c lat2 lon2 = (1 - g x) / 2" for x
    by (simp only: haversine_a_sinusoid g_def)
  have range: "0 \<le> radians x \<and> radians x \<le> pi / 2" if "LAT_MIN \<le> x" "x \<le> LAT_MAX" for x
    using that radians_mono [of 0 x] radians_mono [of x 90]
    by (simp add: LAT_MIN_def LAT_MAX_def radians_def)
  have nn: "0 \<le> cos (radians x)" "0 \<le> sin (radians x)" if "LAT_MIN \<le> x" "x \<le> LAT_MAX" for x
    using range [OF that] pi_gt_zero by (auto intro!: cos_ge_zero sin_ge_zero)
  have lat2: "LAT_MIN \<le> lat2" "lat2 \<le> LAT_MAX" using assms(2) by (auto simp: in_area_def)
  have lim: "LAT_MIN \<le> LAT_MAX" by (simp add: LAT_MIN_def LAT_MAX_def)
  have m0: "0 \<le> m"
    unfolding m_def g_def using nn [of LAT_MIN] nn [of LAT_MAX] nn [OF lat2] lim cpos
    by (intro min.boundedI add_nonneg_nonneg mult_nonneg_nonneg) simp_all
  have t: "radians LAT_MIN \<le> radians lat" "radians lat \<le> radians LAT_MAX"
    using assms(1) by (auto simp: in_area_def intro: radians_mono)
  have short: "radians LAT_MAX - radians LAT_MIN < pi"
    using pi_gt_zero by (simp add: radians_def LAT_MIN_def LAT_MAX_def field_simps)
  have ends: "m \<le> g LAT_MIN" "m \<le> g LAT_MAX" by (simp_all add: m_def)
  have "m \<le> g lat"
    using sinusoid_above_ends [OF t short m0 ends [unfolded g_def]] by (simp only: g_def)
  then have "g LAT_MIN \<le> g lat \<or> g LAT_MAX \<le> g lat" by (auto simp: m_def)
  then have "haversine_a lat c lat2 lon2 \<le> haversine_a LAT_MIN c lat2 lon2
      \<or> haversine_a lat c lat2 lon2 \<le> haversine_a LAT_MAX c lat2 lon2"
    unfolding a by auto
  then show ?thesis using that by blast
qed

lemma haversine_km_le_max_corner:
  assumes "in_area lat lon" and "in_area lat2 lon2"
  shows "haversine_km lat lon lat2 lon2 \<le> max_corner_km lat2 lon2"
proof -
  obtain c where c: "c = LON_MIN \<or> c = LON_MAX"
    "haversine_a lat lon lat2 lon2 \<le> haversine_a lat c lat2 lon2"
    "0 \<le> cos (radians lon2 - radians c)"
    using area_longitude_corner [OF assms] by blast
  obtain b where b: "b = LAT_MIN \<or> b = LAT_MAX"
    "haversine_a lat c lat2 lon2 \<le> haversine_a b c lat2 lon2"
    using area_latitude_corner [OF assms c(3)] by blast
  have "haversine_km lat lon lat2 lon2 \<le> haversine_km b c lat2 lon2"
    using haversine_a_nonneg [OF area_latitude [OF assms(1)] area_latitude [OF assms(2)]] c(2) b(2)
    by (intro haversine_km_mono) auto
  also have "\<dots> \<le> max_corner_km lat2 lon2"
    unfolding max_corner_km_def using b(1) c(1) by (intro Max_ge) (auto simp: corners_def)
  finally show ?thesis .
qed

lemma max_corner_km_le_antipodal:
  assumes "in_area lat2 lon2" shows "max_corner_km lat2 lon2 \<le> pi * EARTH_RADIUS_KM"
  using haversine_km_le_antipodal [OF _ area_latitude [OF assms]]
  by (simp add: max_corner_km_def corners_def LAT_MIN_def LAT_MAX_def)

lemma dispatcher_in_area: "in_area DISPATCHER_LAT DISPATCHER_LON"
  by (simp add: in_area_def DISPATCHER_LAT_def DISPATCHER_LON_def SERVER_INFO_def
      LAT_MIN_def LAT_MAX_def LON_MIN_def LON_MAX_def)

lemma servers_in_area: "(k, i) \<in> set SERVER_INFO \<Longrightarrow> in_area (info_lat i) (info_long i)"
  by (auto simp: SERVER_INFO_def in_area_def LAT_MIN_def LAT_MAX_def LON_MIN_def LON_MAX_def)

lemma min_response_sec_mono:
  "d \<le> d' \<Longrightarrow> s \<le> s' \<Longrightarrow> min_response_sec d s et \<le> min_response_sec d' s' et"
  by (simp add: min_response_sec_def K_MS_PER_KM_def field_simps)

section \<open>Delays inside the service area\<close>

lemma pi_less_34: "pi < 34 / 10"
proof (rule ccontr)
  assume "\<not> pi < 34 / 10"
  then have "0 \<le> cos (17 / 10 :: real)" by (intro cos_ge_zero) auto
  moreover obtain w :: real where w: "w \<le> 1" and "cos (17 / 10 :: real) =
      (\<Sum>m<6. cos_coeff m * (17 / 10) ^ m) + w / fact 6 * (17 / 10) ^ 6"
    using Maclaurin_cos_expansion [of "17 / 10" 6] cos_le_one by blast
  then have "cos (17 / 10 :: real) < 0"
    by (simp add: cos_coeff_def lessThan_nat_numeral fact_numeral power_divide)
  ultimately show False by simp
qed

lemma sin_sq_le: "(sin x)\<^sup>2 \<le> x\<^sup>2" for x :: real
  using abs_sin_x_le_abs_x [of x] by (simp add: abs_le_square_iff)

lemma haversine_a_area_bound:
  assumes "in_area x y" and "in_area u v"
  shows "haversine_a x y u v \<le> (17 / 1000)\<^sup>2"
proof -
  have half: "((radians b - radians a) / 2)\<^sup>2 \<le> (w * (34 / 10) / 360)\<^sup>2"
    if "\<bar>b - a\<bar> \<le> w" for a b w :: real
  proof -
    have "\<bar>(radians b - radians a) / 2\<bar> = \<bar>b - a\<bar> * pi / 360"
      by (simp add: radians_def abs_mult left_diff_distrib [symmetric] diff_divide_distrib [symmetric])
    also have "\<dots> \<le> w * (34 / 10) / 360"
      using that pi_less_34 by (intro divide_right_mono mult_mono) auto
    finally show ?thesis by (simp add: abs_le_square_iff [symmetric])
  qed
  have "\<bar>u - x\<bar> \<le> 12 / 10" "\<bar>v - y\<bar> \<le> 13 / 10"
    using assms unfolding in_area_def LAT_MIN_def LAT_MAX_def LON_MIN_def LON_MAX_def abs_le_iff
    by linarith+
  then have "(sin ((radians u - radians x) / 2))\<^sup>2 \<le> (12 / 10 * (34 / 10) / 360)\<^sup>2"
    and "(sin ((radians v - radians y) / 2))\<^sup>2 \<le> (13 / 10 * (34 / 10) / 360)\<^sup>2"
    by (blast intro: order.trans [OF sin_sq_le half])+
  moreover have "cos (radians x) * cos (radians u) * (sin ((radians v - radians y) / 2))\<^sup>2
      \<le> (sin ((radians v - radians y) / 2))\<^sup>2"
    using area_latitude [OF assms(1)] area_latitude [OF assms(2)]
    by (intro mult_left_le_one_le mult_le_one mult_nonneg_nonneg cos_radians_nonneg) auto
  ultimately show ?thesis
    by (simp add: haversine_a_def Let_def power2_eq_square)
qed

lemma haversine_km_area_bound:
  assumes "in_area x y" and "in_area u v"
  shows "haversine_km x y u v \<le> 223"
proof -
  have nn: "0 \<le> haversine_a x y u v"
    using haversine_a_nonneg [OF area_latitude [OF assms(1)] area_latitude [OF assms(2)]] .
  have "sqrt (haversine_a x y u v) \<le> 17 / 1000"
    using haversine_a_area_bound [OF assms] by (intro real_le_lsqrt) (auto simp: nn)
  then have le: "arcsin (min 1 (sqrt (haversine_a x y u v))) \<le> arcsin (min 1 (17 / 1000))"
    using real_sqrt_ge_zero [OF nn] by (intro arcsin_min_mono)
  have "17 / 1000 \<le> sin (175 / 10000 :: real)"
    using abs_le_D2 [OF Maclaurin_sin_bound [of "175 / 10000" 3]]
    by (simp add: sin_coeff_def lessThan_nat_numeral fact_numeral power_divide)
  then have "arcsin (17 / 1000) \<le> arcsin (sin (175 / 10000 :: real))"
    by (intro arcsin_le_arcsin) auto
  also have "\<dots> = 175 / 10000" using pi_gt_zero pi_ge_two by (intro arcsin_sin) auto
  finally show ?thesis using le by (simp add: haversine_km_def EARTH_RADIUS_KM_def)
qed

section \<open>Properties\<close>

text \<open>
  C12. The feasibility check without a base station is conservative: where it accepts a
  server of the service area, the check with the position of any base station of the area
  accepts it too, because no point of the area is farther from a server than one of the
  four corners the check looks at.
\<close>

theorem sla_check_conservative:
  assumes "is_sla_feasible service_id server_lat server_long mips None = Inr True"
    and "in_area server_lat server_long" and "in_area lat lon"
  shows "is_sla_feasible service_id server_lat server_long mips (Some (lat, lon)) = Inr True"
proof -
  have "min_response_sec (haversine_km lat lon DISPATCHER_LAT DISPATCHER_LON)
          (haversine_km lat lon server_lat server_long) et
        \<le> min_response_sec (max_corner_km DISPATCHER_LAT DISPATCHER_LON) (max_corner_km server_lat server_long) et" for et
    using assms(2,3) by (intro min_response_sec_mono haversine_km_le_max_corner dispatcher_in_area)
  with assms(1) show ?thesis
    unfolding is_sla_feasible_def by (auto simp: bindE_Inr_iff intro: order.trans)
qed

lemma max_corner_km_bound: "in_area lat lon \<Longrightarrow> max_corner_km lat lon \<le> 223"
  unfolding max_corner_km_def
  by (auto simp: corners_def in_area_def LAT_MIN_def LAT_MAX_def LON_MIN_def LON_MAX_def
      intro!: haversine_km_area_bound)

lemma sla_feasible_batch: "is_sla_feasible 15 31.15 121.41 2520 None = Inr True"
proof -
  have "min_response_sec (max_corner_km DISPATCHER_LAT DISPATCHER_LON) (max_corner_km 31.15 121.41) et \<le> 40"
    if "et \<le> 39" for et
  proof -
    have "min_response_sec (max_corner_km DISPATCHER_LAT DISPATCHER_LON) (max_corner_km 31.15 121.41) et
          \<le> min_response_sec 223 223 et"
      by (intro min_response_sec_mono max_corner_km_bound dispatcher_in_area)
         (simp add: in_area_def LAT_MIN_def LAT_MAX_def LON_MIN_def LON_MAX_def)
    also have "\<dots> \<le> 40"
      using that by (simp add: min_response_sec_def BASE_LATENCY_MS_def K_MS_PER_KM_def DISPATCH_OVERHEAD_MS_def)
    finally show ?thesis .
  qed
  then show ?thesis
    by (simp add: is_sla_feasible_def service_of_def dlookup_def SERVICES_INFO_def mk_service_def
        compute_exec_time_sec_def REFERENCE_MIPS_PER_CORE_def SERVER_PROFILES_def Let_def)
qed

theorem sla_check_conservative_witness:
  "is_sla_feasible 15 31.15 121.41 2520 (Some (31, 121)) = Inr True"
  by (rule sla_check_conservative [OF sla_feasible_batch])
     (simp_all add: in_area_def LAT_MIN_def LAT_MAX_def LON_MIN_def LON_MAX_def)

text \<open>
  Inside the service area the one-way delay stays below the proximity threshold, so a
  proximity test on the one-way delay would never fire (the reason the engine compares the
  round trip); and it is never less than the base latency.
\<close>

theorem one_way_delay_below_threshold:
  assumes "in_area lat lon" and "in_area lat' lon'"
  shows "BASE_LATENCY_MS \<le> network_delay_ms (haversine_km lat lon lat' lon') BASE_LATENCY_MS K_MS_PER_KM
    \<and> network_delay_ms (haversine_km lat lon lat' lon') BASE_LATENCY_MS K_MS_PER_KM < PROXIMITY_L0_MS"
  using haversine_km_nonneg [OF area_latitude [OF assms(1)] area_latitude [OF assms(2)], of lon lon']
    haversine_km_area_bound [OF assms]
  by (simp_all add: network_delay_ms_def BASE_LATENCY_MS_def K_MS_PER_KM_def PROXIMITY_L0_MS_def)

theorem one_way_delay_below_threshold_witness:
  "network_delay_ms (haversine_km 31 121 31.5 121.5) BASE_LATENCY_MS K_MS_PER_KM < PROXIMITY_L0_MS"
  using one_way_delay_below_threshold [of 31 121 "31.5" "121.5"]
  by (simp add: in_area_def LAT_MIN_def LAT_MAX_def LON_MIN_def LON_MAX_def)

end
