(* ===== verification/Models.thy ===== *)
theory Models
  imports Geo
begin

text \<open>
  The data model of \<open>common/models.py\<close>: replicas (a FIFO queue served one request at a
  time), servers (the replicas they host, their capacity, utilization and power), and
  requests. A \<open>Replica\<close> object is shared between the server that hosts it and the engine's
  per-service list, so objects live in a store (\<open>heap\<close>) and are referred to by address;
  asking for the queue occupancy removes finished requests from the object, so the
  operations that ask return the updated store.
\<close>

section \<open>Replicas\<close>

datatype server_state = SrvOff | SrvBooting | SrvActive | SrvDraining

datatype replica_state = RepStarting | RepReady | RepDraining | RepTerminated

datatype request_status =
  Pending | Completed | RejectedQueueFull | RejectedNoReplica | LostNoCompletion

record replica =
  r_service_id :: int
  r_server_id :: int
  r_queue_len :: nat
  r_exec_time :: real
  r_state :: replica_state
  r_created_at :: real
  r_ready_since :: "real option"
  r_drain_started_at :: "real option"
  r_available_at :: real
  r_departures :: "real list"

definition new_replica :: "int \<Rightarrow> int \<Rightarrow> nat \<Rightarrow> real \<Rightarrow> real \<Rightarrow> replica" where
  "new_replica service_id server_id queue_len exec_time created_at =
     \<lparr>r_service_id = service_id, r_server_id = server_id, r_queue_len = queue_len,
      r_exec_time = exec_time, r_state = RepStarting, r_created_at = created_at,
      r_ready_since = None, r_drain_started_at = None, r_available_at = 0, r_departures = []\<rparr>"

definition is_selectable :: "replica \<Rightarrow> bool" where
  "is_selectable r \<longleftrightarrow> r_state r = RepReady"

definition prune :: "real \<Rightarrow> replica \<Rightarrow> replica" where
  "prune now r = r\<lparr>r_departures := dropWhile (\<lambda>d. d \<le> now) (r_departures r)\<rparr>"

definition queue_occupancy :: "real \<Rightarrow> replica \<Rightarrow> nat \<times> replica" where
  "queue_occupancy now r = (let r' = prune now r in (length (r_departures r'), r'))"

record admit =
  adm_queue_enter_time :: real
  adm_service_start_time :: real
  adm_service_end_time :: real
  adm_wait_time_sec :: real

definition try_admit :: "real \<Rightarrow> real \<Rightarrow> replica \<Rightarrow> admit option \<times> replica" where
  "try_admit arrival_time cold_start_extra r =
     (let (occ, r1) = queue_occupancy arrival_time r
      in if r_queue_len r1 \<le> occ then (None, r1)
         else let start = max arrival_time (r_available_at r1);
                  service_time = r_exec_time r1 + cold_start_extra;
                  finish = start + service_time
              in (Some \<lparr>adm_queue_enter_time = arrival_time, adm_service_start_time = start,
                        adm_service_end_time = finish, adm_wait_time_sec = start - arrival_time\<rparr>,
                  r1\<lparr>r_available_at := finish, r_departures := r_departures r1 @ [finish]\<rparr>))"

definition is_idle :: "real \<Rightarrow> replica \<Rightarrow> bool \<times> replica" where
  "is_idle now r = (let (occ, r') = queue_occupancy now r in (occ = 0, r'))"

text \<open>The occupancy as a value, for statements.\<close>

definition occ :: "real \<Rightarrow> replica \<Rightarrow> nat" where
  "occ now r = length (dropWhile (\<lambda>d. d \<le> now) (r_departures r))"

lemma queue_occupancy_eq [simp]: "queue_occupancy now r = (occ now r, prune now r)"
  by (simp add: queue_occupancy_def occ_def prune_def)

lemma is_idle_eq [simp]: "is_idle now r = (occ now r = 0, prune now r)"
  by (simp add: is_idle_def)

lemma prune_frame [simp, frame_simps]:
  "r_service_id (prune now r) = r_service_id r" "r_server_id (prune now r) = r_server_id r"
  "r_queue_len (prune now r) = r_queue_len r" "r_exec_time (prune now r) = r_exec_time r"
  "r_state (prune now r) = r_state r" "r_created_at (prune now r) = r_created_at r"
  "r_ready_since (prune now r) = r_ready_since r"
  "r_drain_started_at (prune now r) = r_drain_started_at r"
  "r_available_at (prune now r) = r_available_at r"
  by (simp_all add: prune_def)

lemma prune_prune [simp]: "prune now (prune now r) = prune now r"
  by (simp add: prune_def)

lemma occ_prune [simp]: "occ now (prune now r) = occ now r"
  by (simp add: occ_def prune_def)

text \<open>
  The queue discipline every replica satisfies: finishing times in order, the last one the
  time the processor becomes free, never more of them than the queue holds.
\<close>

definition queue_ok :: "replica \<Rightarrow> bool" where
  "queue_ok r \<longleftrightarrow> sorted (r_departures r) \<and> length (r_departures r) \<le> r_queue_len r
     \<and> (\<forall>d \<in> set (r_departures r). d \<le> r_available_at r) \<and> 0 \<le> r_exec_time r"

lemma queue_ok_new: "0 \<le> et \<Longrightarrow> queue_ok (new_replica svc srv ql et t)"
  by (simp add: queue_ok_def new_replica_def)

lemma queue_ok_prune: "queue_ok r \<Longrightarrow> queue_ok (prune now r)"
  using length_dropWhile_le [of "\<lambda>d. d \<le> now" "r_departures r"]
  by (auto simp: queue_ok_def prune_def sorted_dropWhile dest: set_dropWhileD)

lemma queue_ok_state [simp]:
  "queue_ok (r\<lparr>r_state := st\<rparr>) = queue_ok r"
  "queue_ok (r\<lparr>r_ready_since := t\<rparr>) = queue_ok r"
  "queue_ok (r\<lparr>r_drain_started_at := t\<rparr>) = queue_ok r"
  by (simp_all add: queue_ok_def)

lemma dropWhile_le_filter:
  fixes ds :: "real list"
  shows "sorted ds \<Longrightarrow> dropWhile (\<lambda>d. d \<le> now) ds = filter (\<lambda>d. now < d) ds"
  by (induction ds) (auto intro!: filter_True [symmetric])

lemma occ_count: "queue_ok r \<Longrightarrow> occ now r = length (filter (\<lambda>d. now < d) (r_departures r))"
  by (simp add: occ_def queue_ok_def dropWhile_le_filter)

lemma occ_le_queue_len: "queue_ok r \<Longrightarrow> occ now r \<le> r_queue_len r"
  by (auto simp: occ_count queue_ok_def intro: order.trans [OF length_filter_le])

lemma try_admit_full: "r_queue_len r \<le> occ now r \<Longrightarrow> try_admit now x r = (None, prune now r)"
  by (simp add: try_admit_def)

lemma try_admit_free:
  "occ now r < r_queue_len r \<Longrightarrow>
   try_admit now x r =
     (let start = max now (r_available_at r); finish = start + (r_exec_time r + x)
      in (Some \<lparr>adm_queue_enter_time = now, adm_service_start_time = start,
                adm_service_end_time = finish, adm_wait_time_sec = start - now\<rparr>,
          (prune now r)\<lparr>r_available_at := finish,
             r_departures := r_departures (prune now r) @ [finish]\<rparr>))"
  by (simp add: try_admit_def Let_def)

lemma try_admit_None_iff: "fst (try_admit now x r) = None \<longleftrightarrow> r_queue_len r \<le> occ now r"
  by (cases "r_queue_len r \<le> occ now r") (simp_all add: try_admit_full try_admit_free Let_def)

lemma queue_ok_try_admit:
  assumes "queue_ok r" and "0 \<le> x"
  shows "queue_ok (snd (try_admit now x r))"
proof (cases "r_queue_len r \<le> occ now r")
  case True
  with assms show ?thesis by (simp add: try_admit_full queue_ok_prune)
next
  case False
  have ok: "queue_ok (prune now r)" by (rule queue_ok_prune [OF assms(1)])
  have "length (r_departures (prune now r)) < r_queue_len r"
    using False by (simp add: occ_def prune_def)
  with ok assms False show ?thesis
    by (fastforce simp: queue_ok_def try_admit_free Let_def sorted_append max_def)
qed

section \<open>Servers\<close>

type_synonym heap = "nat \<Rightarrow> replica"

record server =
  srv_id :: int
  srv_profile :: profile
  srv_lat :: real
  srv_long :: real
  srv_capacity :: int
  srv_p_idle :: real
  srv_p_max :: real
  srv_state :: server_state
  hosted_replicas :: "(int, nat) pydict"
  boot_started_at :: "real option"
  drain_started_at :: "real option"
  last_transition_time :: real
  cumulative_energy_joule :: real
  cumulative_busy_cpu_seconds :: real
  num_boots :: nat
  num_shutdowns :: nat
  is_emergency_boot :: bool

definition new_server :: "int \<Rightarrow> profile \<Rightarrow> real \<Rightarrow> real \<Rightarrow> int \<Rightarrow> real \<Rightarrow> real \<Rightarrow> server" where
  "new_server sid prof lat long cap p_idle p_max =
     \<lparr>srv_id = sid, srv_profile = prof, srv_lat = lat, srv_long = long, srv_capacity = cap,
      srv_p_idle = p_idle, srv_p_max = p_max, srv_state = SrvOff, hosted_replicas = [],
      boot_started_at = None, drain_started_at = None, last_transition_time = LONG_AGO,
      cumulative_energy_joule = 0, cumulative_busy_cpu_seconds = 0, num_boots = 0,
      num_shutdowns = 0, is_emergency_boot = False\<rparr>"

definition host_mips :: "server \<Rightarrow> real" where
  "host_mips s = real_of_int (mips_per_core (server_profile (srv_profile s)))"

definition speed_factor :: "server \<Rightarrow> real" where
  "speed_factor s = host_mips s / real_of_int REFERENCE_MIPS_PER_CORE"

text \<open>\<open>round(mips * self._speed_factor())\<close>: what a reservation costs on this host.\<close>

definition effective_mips :: "server \<Rightarrow> int \<Rightarrow> int" where
  "effective_mips s mips = py_round (real_of_int mips * speed_factor s)"

definition cpu_of :: "server \<Rightarrow> replica \<Rightarrow> int" where
  "cpu_of s r = effective_mips s (resource_mips_of (r_service_id r))"

definition used_cpu :: "heap \<Rightarrow> server \<Rightarrow> int" where
  "used_cpu h s = (\<Sum>a\<leftarrow>dvals (hosted_replicas s). cpu_of s (h a))"

definition free_capacity :: "heap \<Rightarrow> server \<Rightarrow> int" where
  "free_capacity h s = srv_capacity s - used_cpu h s"

text \<open>
  \<open>can_host\<close> is only asked about services whose reservation has been looked up, for which
  the SLA check does not raise (\<open>is_sla_feasible_total\<close>).
\<close>

definition can_host :: "cfg \<Rightarrow> heap \<Rightarrow> server \<Rightarrow> int \<Rightarrow> int \<Rightarrow> (real \<times> real) option \<Rightarrow> bool" where
  "can_host C h s service_id cpu_demand bts =
     (if service_id \<in> set (dkeys (hosted_replicas s)) then False
      else if free_capacity h s < effective_mips s cpu_demand then False
      else if \<not> enforce_sla_feasibility C then True
      else case is_sla_feasible service_id (srv_lat s) (srv_long s) (host_mips s) bts of
             Inl _ \<Rightarrow> False | Inr b \<Rightarrow> b)"

definition in_cooldown :: "real \<Rightarrow> real \<Rightarrow> server \<Rightarrow> bool" where
  "in_cooldown now cooldown_sec s \<longleftrightarrow> now - last_transition_time s < cooldown_sec"

definition serving :: "replica \<Rightarrow> bool" where
  "serving r \<longleftrightarrow> r_state r = RepReady \<or> r_state r = RepDraining"

fun busy_step :: "server \<Rightarrow> real \<Rightarrow> nat \<Rightarrow> int \<times> heap \<Rightarrow> int \<times> heap" where
  "busy_step s now a (busy_cpu, h) =
     (if serving (h a)
      then let (idle, r') = is_idle now (h a); h' = h(a := r')
           in if \<not> idle then (busy_cpu + cpu_of s r', h') else (busy_cpu, h')
      else (busy_cpu, h))"

definition instantaneous_utilization :: "real \<Rightarrow> heap \<Rightarrow> server \<Rightarrow> real \<times> heap" where
  "instantaneous_utilization now h s =
     (let (busy_cpu, h') = fold (busy_step s now) (dvals (hosted_replicas s)) (0, h)
      in (if 0 < srv_capacity s then real_of_int busy_cpu / real_of_int (srv_capacity s) else 0, h'))"

definition instantaneous_power_w :: "real \<Rightarrow> heap \<Rightarrow> server \<Rightarrow> real \<times> heap" where
  "instantaneous_power_w now h s =
     (if srv_state s = SrvOff then (0, h)
      else if srv_state s = SrvBooting then (srv_p_idle s, h)
      else let (util, h') = instantaneous_utilization now h s
           in (srv_p_idle s + (srv_p_max s - srv_p_idle s) * util, h'))"

section \<open>Requests\<close>

record request =
  req_id :: int
  bts_lat :: real
  bts_long :: real
  req_service_id :: int
  arrival_time :: real
  assigned_server_id :: "int option"
  queue_enter_time :: "real option"
  service_start_time :: "real option"
  service_end_time :: "real option"
  req_network_delay_ms :: real
  routing_delay_sec :: real
  wait_time_sec :: real
  response_time_sec :: real
  deadline_violated :: bool
  req_status :: request_status
  distance_km :: "real option"

definition new_request :: "int \<Rightarrow> real \<Rightarrow> real \<Rightarrow> int \<Rightarrow> real \<Rightarrow> request" where
  "new_request i lat long svc t =
     \<lparr>req_id = i, bts_lat = lat, bts_long = long, req_service_id = svc, arrival_time = t,
      assigned_server_id = None, queue_enter_time = None, service_start_time = None,
      service_end_time = None, req_network_delay_ms = 0, routing_delay_sec = 0,
      wait_time_sec = 0, response_time_sec = 0, deadline_violated = False,
      req_status = Pending, distance_km = None\<rparr>"

section \<open>Utilization and power\<close>

text \<open>Reading the occupancy of replicas changes the store only by removing finished requests.\<close>

definition pruned :: "real \<Rightarrow> heap \<Rightarrow> heap \<Rightarrow> bool" where
  "pruned now h h' \<longleftrightarrow> (\<forall>a. h' a = h a \<or> h' a = prune now (h a))"

lemma cpu_of_prune [simp]: "cpu_of s (prune now r) = cpu_of s r"
  by (simp add: cpu_of_def)

lemma pruned_refl [simp]: "pruned now h h"
  by (simp add: pruned_def)

lemma pruned_upd: "pruned now h h' \<Longrightarrow> pruned now h (h'(a := prune now (h' a)))"
  by (auto simp: pruned_def) (metis prune_prune)+

lemma pruned_trans: "pruned now h h' \<Longrightarrow> pruned now h' h'' \<Longrightarrow> pruned now h h''"
  unfolding pruned_def by (metis prune_prune)

lemma prunedD:
  assumes "pruned now h h'"
  shows "r_service_id (h' a) = r_service_id (h a)" and "r_server_id (h' a) = r_server_id (h a)"
    and "r_queue_len (h' a) = r_queue_len (h a)" and "r_exec_time (h' a) = r_exec_time (h a)"
    and "r_state (h' a) = r_state (h a)" and "r_created_at (h' a) = r_created_at (h a)"
    and "r_ready_since (h' a) = r_ready_since (h a)"
    and "r_available_at (h' a) = r_available_at (h a)"
    and "occ now (h' a) = occ now (h a)" and "cpu_of s (h' a) = cpu_of s (h a)"
  using assms unfolding pruned_def cpu_of_def by (metis prune_frame occ_prune)+

lemma pruned_queue_ok: "pruned now h h' \<Longrightarrow> queue_ok (h a) \<Longrightarrow> queue_ok (h' a)"
  unfolding pruned_def by (metis queue_ok_prune)

lemma pruned_used_cpu: "pruned now h h' \<Longrightarrow> used_cpu h' s = used_cpu h s"
  by (simp add: used_cpu_def prunedD)

lemma pruned_can_host: "pruned now h h' \<Longrightarrow> can_host C h' s svc cpu b = can_host C h s svc cpu b"
  by (simp add: can_host_def free_capacity_def pruned_used_cpu)

definition busy_cpu_of :: "server \<Rightarrow> real \<Rightarrow> replica \<Rightarrow> int" where
  "busy_cpu_of s now r = (if serving r \<and> 0 < occ now r then cpu_of s r else 0)"

lemma pruned_serving: "pruned now h h' \<Longrightarrow> serving (h' a) = serving (h a)"
  by (simp add: serving_def prunedD)

lemma fold_busy_step:
  assumes "pruned now h0 h"
  shows "fst (fold (busy_step s now) as (b, h)) = b + (\<Sum>a\<leftarrow>as. busy_cpu_of s now (h0 a))
       \<and> pruned now h0 (snd (fold (busy_step s now) as (b, h)))"
  using assms
proof (induction as arbitrary: b h)
  case Nil
  then show ?case by simp
next
  case (Cons a as)
  note occ_eq = prunedD(9) [OF Cons.prems] and cpu_eq = prunedD(10) [OF Cons.prems]
  show ?case
  proof (cases "serving (h a)")
    case True
    let ?h' = "h(a := prune now (h a))"
    have p: "pruned now h0 ?h'" by (rule pruned_upd [OF Cons.prems])
    from True Cons.IH [OF p, of b] Cons.IH [OF p, of "b + cpu_of s (h a)"] show ?thesis
      by (simp add: busy_cpu_of_def pruned_serving [OF Cons.prems] occ_eq cpu_eq
          del: fun_upd_apply)
  next
    case False
    with Cons.IH [OF Cons.prems] show ?thesis
      by (simp add: busy_cpu_of_def pruned_serving [OF Cons.prems])
  qed
qed

definition busy_total :: "real \<Rightarrow> heap \<Rightarrow> server \<Rightarrow> int" where
  "busy_total now h s = (\<Sum>a\<leftarrow>dvals (hosted_replicas s). busy_cpu_of s now (h a))"

lemma fst_instantaneous_utilization:
  "fst (instantaneous_utilization now h s) =
     (if 0 < srv_capacity s then real_of_int (busy_total now h s) / real_of_int (srv_capacity s) else 0)"
  using fold_busy_step [OF pruned_refl [of now h], of s "dvals (hosted_replicas s)" 0]
  by (simp add: instantaneous_utilization_def busy_total_def split_beta)

lemma pruned_instantaneous_utilization: "pruned now h (snd (instantaneous_utilization now h s))"
  using fold_busy_step [OF pruned_refl [of now h], of s "dvals (hosted_replicas s)" 0]
  by (simp add: instantaneous_utilization_def split_beta)

lemma pruned_instantaneous_power_w: "pruned now h (snd (instantaneous_power_w now h s))"
  using pruned_instantaneous_utilization [of now h s]
  by (auto simp: instantaneous_power_w_def split_beta)

lemma effective_mips_nonneg: "0 \<le> mips \<Longrightarrow> 0 \<le> effective_mips s mips"
  unfolding effective_mips_def speed_factor_def host_mips_def REFERENCE_MIPS_PER_CORE_def
  using profile_mips_range [of "srv_profile s"] profile_mips_range [of Medium]
  by (intro py_round_nonneg mult_nonneg_nonneg divide_nonneg_nonneg) auto

lemma cpu_of_nonneg: "0 \<le> cpu_of s r"
  by (simp add: cpu_of_def effective_mips_nonneg resource_mips_of_nonneg)

lemma speed_factor_range: "0 < speed_factor s \<and> speed_factor s \<le> 1"
  by (cases "srv_profile s")
     (simp_all add: speed_factor_def host_mips_def REFERENCE_MIPS_PER_CORE_def SERVER_PROFILES_def)

lemma effective_mips_le: "0 \<le> mips \<Longrightarrow> effective_mips s mips \<le> mips"
  unfolding effective_mips_def
  using speed_factor_range [of s] by (intro py_round_le_of_int mult_left_le) auto

lemma busy_le_used: "0 \<le> busy_total now h s \<and> busy_total now h s \<le> used_cpu h s"
proof -
  have "0 \<le> busy_cpu_of s now (h a) \<and> busy_cpu_of s now (h a) \<le> cpu_of s (h a)" for a
    by (simp add: busy_cpu_of_def cpu_of_nonneg)
  then show ?thesis
    unfolding busy_total_def used_cpu_def
    by (auto simp del: map_map intro!: sum_list_nonneg sum_list_mono)
qed

lemma busy_cpu_mono_used: "used_cpu h s \<le> srv_capacity s \<Longrightarrow> busy_total now h s \<le> srv_capacity s"
  using busy_le_used [of now h s] by linarith

lemma is_sla_feasible_total:
  assumes "k \<in> set ACTIVE_SERVICES" shows "\<exists>b. is_sla_feasible k la lo (host_mips s) bts = Inr b"
proof -
  obtain svc where svc: "service_of k = Inr svc" using assms service_of_active by blast
  then have "resource_mips svc \<noteq> 0"
    using SERVICES_INFO_ranges [of k svc] by (simp add: service_of_def dlookup_Inr_iff)
  moreover have "host_mips s / real_of_int REFERENCE_MIPS_PER_CORE \<noteq> 0"
    using speed_factor_range [of s] by (auto simp: speed_factor_def)
  ultimately show ?thesis
    using svc by (auto simp: is_sla_feasible_def compute_exec_time_sec_def Let_def split_beta)
qed

section \<open>Properties\<close>

text \<open>
  C13. Admission to a replica is a bounded first-come first-served queue: a full queue rejects
  and only forgets finished requests; otherwise service starts when the request arrives or
  when the processor becomes free, whichever is later (Lindley's recursion), lasts the
  execution time plus the cold-start extra, and the finishing time joins the queue. Either
  way the queue stays in order of finishing times, within its length, and its last finishing
  time is the time the processor becomes free.
\<close>

theorem try_admit_lindley:
  assumes "queue_ok r" and "0 \<le> extra"
  shows "(case try_admit now extra r of
            (None, r') \<Rightarrow> r_queue_len r \<le> occ now r \<and> r' = prune now r
          | (Some a, r') \<Rightarrow> occ now r < r_queue_len r
              \<and> adm_service_start_time a = max now (r_available_at r)
              \<and> adm_service_end_time a = adm_service_start_time a + r_exec_time r + extra
              \<and> adm_wait_time_sec a = max 0 (r_available_at r - now)
              \<and> occ now r' \<le> occ now r + 1
              \<and> r_departures r' = filter (\<lambda>d. now < d) (r_departures r) @ [adm_service_end_time a]
              \<and> r_available_at r' = adm_service_end_time a)
         \<and> queue_ok (snd (try_admit now extra r))"
proof -
  have p: "r_departures (prune now r) = filter (\<lambda>d. now < d) (r_departures r)"
    using assms(1) by (simp add: prune_def queue_ok_def dropWhile_le_filter)
  have one: "occ now r' \<le> length (r_departures r')" for r'
    by (simp add: occ_def length_dropWhile_le)
  show ?thesis
  proof (cases "r_queue_len r \<le> occ now r")
    case True
    with assms show ?thesis by (simp add: try_admit_full queue_ok_prune)
  next
    case False
    let ?r = "snd (try_admit now extra r)"
    have "length (r_departures ?r) = occ now r + 1"
      using False p occ_count [OF assms(1)] by (simp add: try_admit_free Let_def)
    with False p one [of ?r] queue_ok_try_admit [OF assms, of now] show ?thesis
      by (simp add: try_admit_free Let_def max_def algebra_simps)
  qed
qed

theorem try_admit_lindley_witness:
  "queue_ok (snd (try_admit 5 1 ((new_replica 2 1 2 3 0)\<lparr>r_available_at := 10, r_departures := [4, 10]\<rparr>)))"
  by (rule try_admit_lindley [THEN conjunct2]) (simp_all add: queue_ok_def new_replica_def)

text \<open>
  A server whose reservations fit its capacity has a utilization between 0 and 1 and
  draws between its idle and its maximal power (nothing when it is off); measuring either
  only removes finished requests from the queues.
\<close>

theorem utilization_power_range:
  assumes "used_cpu h s \<le> srv_capacity s" and "0 < srv_capacity s"
    and "0 \<le> srv_p_idle s" and "srv_p_idle s \<le> srv_p_max s"
  shows "(let (u, h') = instantaneous_utilization now h s
          in 0 \<le> u \<and> u \<le> 1 \<and> pruned now h h')
       \<and> (let (p, h') = instantaneous_power_w now h s
          in pruned now h h' \<and> (if srv_state s = SrvOff then p = 0 else srv_p_idle s \<le> p \<and> p \<le> srv_p_max s))"
proof -
  let ?u = "fst (instantaneous_utilization now h s)"
  have u: "0 \<le> ?u" "?u \<le> 1"
    using busy_le_used [of now h s] assms(1,2) by (simp_all add: fst_instantaneous_utilization)
  have "(srv_p_max s - srv_p_idle s) * ?u \<le> (srv_p_max s - srv_p_idle s) * 1"
    using u assms(4) by (intro mult_left_mono) simp_all
  moreover have "0 \<le> (srv_p_max s - srv_p_idle s) * ?u" using u assms(4) by simp
  ultimately show ?thesis
    using u assms(4) pruned_instantaneous_utilization [of now h s] pruned_instantaneous_power_w [of now h s]
    by (auto simp: instantaneous_power_w_def split_beta Let_def)
qed

theorem utilization_power_range_witness:
  "let h = (\<lambda>a. (new_replica 2 1 2 3 0)\<lparr>r_state := RepReady, r_departures := [4]\<rparr>);
       s = (new_server 1 Medium 31 121 33120 30 130)\<lparr>srv_state := SrvActive, hosted_replicas := [(2, 0)]\<rparr>
   in fst (instantaneous_utilization 1 h s) = 4900 / 33120 \<and> fst (instantaneous_power_w 1 h s) \<le> 130"
  using utilization_power_range [of "\<lambda>a. (new_replica 2 1 2 3 0)\<lparr>r_state := RepReady, r_departures := [4]\<rparr>"
      "(new_server 1 Medium 31 121 33120 30 130)\<lparr>srv_state := SrvActive, hosted_replicas := [(2, 0)]\<rparr>" 1]
  by (simp add: new_server_def new_replica_def used_cpu_def cpu_of_def effective_mips_def speed_factor_def
      host_mips_def REFERENCE_MIPS_PER_CORE_def SERVER_PROFILES_def resource_mips_of_def SERVICES_INFO_def
      mk_service_def py_round_def instantaneous_utilization_def serving_def occ_def split_beta Let_def prune_def)

end
