(* ===== verification/Metrics.thy ===== *)
theory Metrics
  imports Models
begin

text \<open>
  \<open>common/metrics.py\<close>: the collector that counts every request, transition and decision of
  a run and the report it ends with. The statistics of numpy are parameters (\<open>np_ops\<close>).
\<close>

record np_ops =
  np_mean :: "real list \<Rightarrow> real"
  np_std :: "real list \<Rightarrow> real"
  np_percentile :: "real list \<Rightarrow> real \<Rightarrow> real"

datatype decision_kind = KScaleUp | KScaleDown | KTurnOn | KTurnOff

datatype transition_kind = ServerBoot | ServerShutdown | PodCreate | PodDelete

record correctness =
  correct :: nat
  incorrect :: nat
  missed :: nat
  blocked :: nat

definition no_correctness :: correctness where
  "no_correctness = \<lparr>correct = 0, incorrect = 0, missed = 0, blocked = 0\<rparr>"

record metrics =
  response_times :: "real list"
  network_delays :: "real list"
  distances :: "real list"
  deadline_violations :: nat
  total_requests :: nat
  completed_requests :: nat
  rejected_queue_full :: nat
  rejected_no_replica :: nat
  lost_no_completion :: nat
  num_server_boots :: nat
  num_server_shutdowns :: nat
  num_pod_creates :: nat
  num_pod_deletes :: nat
  num_scale_up :: nat
  num_scale_down :: nat
  num_turn_on :: nat
  num_turn_off :: nat
  snapshot_times :: "real list"
  active_server_counts :: "nat list"
  load_balance_cvs :: "real list"
  decision_correctness :: "(decision_kind, correctness) pydict"

definition new_metrics :: metrics where
  "new_metrics =
     \<lparr>response_times = [], network_delays = [], distances = [], deadline_violations = 0,
      total_requests = 0, completed_requests = 0, rejected_queue_full = 0,
      rejected_no_replica = 0, lost_no_completion = 0, num_server_boots = 0,
      num_server_shutdowns = 0, num_pod_creates = 0, num_pod_deletes = 0, num_scale_up = 0,
      num_scale_down = 0, num_turn_on = 0, num_turn_off = 0, snapshot_times = [],
      active_server_counts = [], load_balance_cvs = [], decision_correctness = []\<rparr>"

definition update_correctness ::
  "(correctness \<Rightarrow> correctness) \<Rightarrow> decision_kind \<Rightarrow> metrics \<Rightarrow> metrics" where
  "update_correctness f kind m =
     m\<lparr>decision_correctness :=
         dset kind (f (dget_or no_correctness (decision_correctness m) kind)) (decision_correctness m)\<rparr>"

definition record_decision_correctness :: "decision_kind \<Rightarrow> bool \<Rightarrow> metrics \<Rightarrow> metrics" where
  "record_decision_correctness kind necessary =
     update_correctness (\<lambda>c. if necessary then c\<lparr>correct := correct c + 1\<rparr>
                             else c\<lparr>incorrect := incorrect c + 1\<rparr>) kind"

definition record_missed_opportunity :: "decision_kind \<Rightarrow> metrics \<Rightarrow> metrics" where
  "record_missed_opportunity = update_correctness (\<lambda>c. c\<lparr>missed := missed c + 1\<rparr>)"

definition record_blocked_opportunity :: "decision_kind \<Rightarrow> metrics \<Rightarrow> metrics" where
  "record_blocked_opportunity = update_correctness (\<lambda>c. c\<lparr>blocked := blocked c + 1\<rparr>)"

definition distance_of :: "request \<Rightarrow> real" where
  "distance_of req = (case distance_km req of None \<Rightarrow> 0 | Some d \<Rightarrow> d)"

definition record_request :: "request \<Rightarrow> metrics \<Rightarrow> metrics" where
  "record_request req m0 =
     (let m = m0\<lparr>total_requests := total_requests m0 + 1\<rparr>
      in case req_status req of
           Completed \<Rightarrow>
             m\<lparr>completed_requests := completed_requests m + 1,
               response_times := response_times m @ [response_time_sec req],
               distances := distances m @ [distance_of req],
               network_delays := network_delays m @ [req_network_delay_ms req],
               deadline_violations := deadline_violations m
                 + (if deadline_violated req then 1 else 0)\<rparr>
         | RejectedQueueFull \<Rightarrow>
             m\<lparr>rejected_queue_full := rejected_queue_full m + 1,
               deadline_violations := deadline_violations m + 1\<rparr>
         | RejectedNoReplica \<Rightarrow>
             m\<lparr>rejected_no_replica := rejected_no_replica m + 1,
               deadline_violations := deadline_violations m + 1\<rparr>
         | LostNoCompletion \<Rightarrow>
             m\<lparr>lost_no_completion := lost_no_completion m + 1,
               deadline_violations := deadline_violations m + 1\<rparr>
         | Pending \<Rightarrow> m)"

fun utilizations :: "real \<Rightarrow> server list \<Rightarrow> heap \<Rightarrow> real list \<times> heap" where
  "utilizations now [] h = ([], h)"
| "utilizations now (s # ss) h =
     (let (u, h1) = instantaneous_utilization now h s;
          (us, h2) = utilizations now ss h1
      in (u # us, h2))"

definition record_snapshot ::
  "np_ops \<Rightarrow> real \<Rightarrow> (int, server) pydict \<Rightarrow> heap \<Rightarrow> metrics \<Rightarrow> metrics \<times> heap" where
  "record_snapshot N now servers h m0 =
     (let active = filter (\<lambda>s. srv_state s = SrvActive) (dvals servers);
          m = m0\<lparr>snapshot_times := snapshot_times m0 @ [now],
                 active_server_counts := active_server_counts m0 @ [length active]\<rparr>
      in if length active = 1
         then (m\<lparr>load_balance_cvs := load_balance_cvs m @ [0]\<rparr>, h)
         else if 2 \<le> length active
         then let (loads, h') = utilizations now active h
              in if 0 < np_mean N loads
                 then (m\<lparr>load_balance_cvs := load_balance_cvs m @ [np_std N loads / np_mean N loads]\<rparr>, h')
                 else (m\<lparr>load_balance_cvs := load_balance_cvs m @ [0]\<rparr>, h')
         else (m, h))"

fun record_transition :: "transition_kind \<Rightarrow> metrics \<Rightarrow> metrics" where
  "record_transition ServerBoot m = m\<lparr>num_server_boots := num_server_boots m + 1\<rparr>"
| "record_transition ServerShutdown m = m\<lparr>num_server_shutdowns := num_server_shutdowns m + 1\<rparr>"
| "record_transition PodCreate m = m\<lparr>num_pod_creates := num_pod_creates m + 1\<rparr>"
| "record_transition PodDelete m = m\<lparr>num_pod_deletes := num_pod_deletes m + 1\<rparr>"

fun record_scale_action :: "decision_kind \<Rightarrow> metrics \<Rightarrow> metrics" where
  "record_scale_action KScaleUp m = m\<lparr>num_scale_up := num_scale_up m + 1\<rparr>"
| "record_scale_action KScaleDown m = m\<lparr>num_scale_down := num_scale_down m + 1\<rparr>"
| "record_scale_action KTurnOn m = m\<lparr>num_turn_on := num_turn_on m + 1\<rparr>"
| "record_scale_action KTurnOff m = m\<lparr>num_turn_off := num_turn_off m + 1\<rparr>"

record correctness_report =
  cr_counts :: correctness
  cr_rate_pct :: "real option"

record report =
  rep_avg_response_time_sec :: real
  rep_p95_response_time_sec :: real
  rep_p99_response_time_sec :: real
  rep_deadline_violations :: nat
  rep_deadline_violation_rate_pct :: real
  rep_cumulative_energy_joule :: real
  rep_avg_distance_km :: real
  rep_avg_load_balance_cv :: real
  rep_avg_network_delay_ms :: real
  rep_p95_network_delay_ms :: real
  rep_p99_network_delay_ms :: real
  rep_avg_active_servers :: real
  rep_decision_correctness :: "(decision_kind \<times> correctness_report) list"
  rep_counters :: metrics

definition pct :: "np_ops \<Rightarrow> real list \<Rightarrow> real \<Rightarrow> real" where
  "pct N values p = (if values \<noteq> [] then np_percentile N values p else 0)"

definition mean_or_0 :: "np_ops \<Rightarrow> real list \<Rightarrow> real" where
  "mean_or_0 N values = (if values \<noteq> [] then np_mean N values else 0)"

text \<open>The plain counters are copied into the report; \<open>rep_counters\<close> stands for those entries.\<close>

definition finalize :: "np_ops \<Rightarrow> (int, server) pydict \<Rightarrow> metrics \<Rightarrow> report" where
  "finalize N servers m =
     (let cumulative_energy = (\<Sum>s\<leftarrow>dvals servers. cumulative_energy_joule s);
          total = max (total_requests m) 1;
          dc = map (\<lambda>(kind, counts).
                 let applied_total = correct counts + incorrect counts
                 in (kind, \<lparr>cr_counts = counts,
                            cr_rate_pct = (if applied_total \<noteq> 0
                              then Some (100 * real (correct counts) / real applied_total)
                              else None)\<rparr>)) (decision_correctness m)
      in \<lparr>rep_avg_response_time_sec = mean_or_0 N (response_times m),
          rep_p95_response_time_sec = pct N (response_times m) 95,
          rep_p99_response_time_sec = pct N (response_times m) 99,
          rep_deadline_violations = deadline_violations m,
          rep_deadline_violation_rate_pct = 100 * real (deadline_violations m) / real total,
          rep_cumulative_energy_joule = cumulative_energy,
          rep_avg_distance_km = mean_or_0 N (distances m),
          rep_avg_load_balance_cv = mean_or_0 N (load_balance_cvs m),
          rep_avg_network_delay_ms = mean_or_0 N (network_delays m),
          rep_p95_network_delay_ms = pct N (network_delays m) 95,
          rep_p99_network_delay_ms = pct N (network_delays m) 99,
          rep_avg_active_servers = mean_or_0 N (map real (active_server_counts m)),
          rep_decision_correctness = dc,
          rep_counters = m\<rparr>)"

section \<open>Accounting\<close>

text \<open>
  Every recorded request is in exactly one class, each rejected or lost one is a deadline
  violation, and the samples belong to the completed ones.
\<close>

definition accounted :: "metrics \<Rightarrow> bool" where
  "accounted m \<longleftrightarrow>
     total_requests m = completed_requests m + rejected_queue_full m + rejected_no_replica m
                        + lost_no_completion m
   \<and> rejected_queue_full m + rejected_no_replica m + lost_no_completion m \<le> deadline_violations m
   \<and> deadline_violations m \<le> total_requests m
   \<and> length (response_times m) = completed_requests m
   \<and> length (distances m) = completed_requests m
   \<and> length (network_delays m) = completed_requests m"

lemma accounted_new: "accounted new_metrics"
  by (simp add: accounted_def new_metrics_def)

lemma accounted_record_request:
  "accounted m \<Longrightarrow> req_status req \<noteq> Pending \<Longrightarrow> accounted (record_request req m)"
  by (cases "req_status req") (auto simp: accounted_def record_request_def Let_def)

lemma accounted_update_correctness [simp]: "accounted (update_correctness f k m) = accounted m"
  by (simp add: accounted_def update_correctness_def)

lemma accounted_record_transition [simp]: "accounted (record_transition k m) = accounted m"
  by (cases k) (simp_all add: accounted_def)

lemma accounted_record_scale_action [simp]: "accounted (record_scale_action k m) = accounted m"
  by (cases k) (simp_all add: accounted_def)

lemma accounted_correctness [simp]:
  "accounted (record_decision_correctness k b m) = accounted m"
  "accounted (record_missed_opportunity k m) = accounted m"
  "accounted (record_blocked_opportunity k m) = accounted m"
  by (simp_all add: record_decision_correctness_def record_missed_opportunity_def
      record_blocked_opportunity_def)

lemma pruned_utilizations: "pruned now h (snd (utilizations now ss h))"
proof (induction ss arbitrary: h)
  case Nil
  then show ?case by simp
next
  case (Cons s ss)
  then show ?case
    using pruned_trans [OF pruned_instantaneous_utilization [of now h s]]
    by (simp add: split_beta Let_def)
qed

lemma record_snapshot_frame:
  "pruned now h (snd (record_snapshot N now ss h m))"
  "accounted (fst (record_snapshot N now ss h m)) = accounted m"
  by (auto simp: record_snapshot_def Let_def split_beta pruned_utilizations accounted_def)

lemma total_record_request: "total_requests (record_request req m) = total_requests m + 1"
  by (simp add: record_request_def Let_def split: request_status.splits)

lemma total_requests_transition [simp]: "total_requests (record_transition k m) = total_requests m"
  by (cases k) simp_all

lemma total_requests_scale_action [simp]: "total_requests (record_scale_action k m) = total_requests m"
  by (cases k) simp_all

lemma total_requests_correctness [simp]:
  "total_requests (record_decision_correctness k b m) = total_requests m"
  "total_requests (record_missed_opportunity k m) = total_requests m"
  "total_requests (record_blocked_opportunity k m) = total_requests m"
  by (simp_all add: record_decision_correctness_def record_missed_opportunity_def
      record_blocked_opportunity_def update_correctness_def)

lemma total_requests_snapshot [simp]:
  "total_requests (fst (record_snapshot N now ss h m)) = total_requests m"
  by (simp add: record_snapshot_def Let_def split_beta)

end
