(* ===== verification/Policy.thy ===== *)
theory Policy
  imports Metrics
begin

text \<open>
  \<open>algorithms/base.py\<close>: the decisions an algorithm takes, the snapshot it takes them from,
  and the routines every algorithm shares (initial placement by greedy coverage, routing of
  a request to a replica, the choice of a server profile, of a scale-down victim, of the
  services no server has room for), with the contract the engine relies on as a locale.
\<close>

section \<open>Decisions and snapshots\<close>

datatype scale_action = ScaleUp | ScaleDown | ScaleNoChange

datatype provision_type = TurnOn | TurnOff | ProvNoChange

record provision_action =
  pa_action :: provision_type
  pa_server_id :: "int option"

record migration_step =
  ms_service_id :: int
  ms_target_server_id :: int

record server_snapshot =
  ss_state :: server_state
  ss_utilization :: real
  ss_free_capacity :: int
  ss_provision_cooldown_active :: bool
  ss_min_active_duration_met :: bool
  ss_is_last_active_server :: bool
  ss_turn_off_necessary :: "bool option"

record service_snapshot =
  sv_n_replicas :: nat
  sv_n_ready_replicas :: nat
  sv_n_mature_ready_replicas :: nat
  sv_avg_queue_occupancy :: real
  sv_queue_len :: nat
  sv_rejection_rate :: real
  sv_deadline_violation_rate :: real
  sv_rejection_rate_rolling :: "real option"
  sv_recent_arrivals :: nat
  sv_demand_centroid :: "(real \<times> real) option"
  sv_proximity_violation_rate :: real
  sv_scale_cooldown_active :: bool

record snapshot =
  sn_servers :: "(int, server_snapshot) pydict"
  sn_services :: "(int, service_snapshot) pydict"
  sn_avg_response_time_recent :: real
  sn_energy_recent_joule :: real
  sn_num_rejected_recent :: nat
  sn_turn_on_necessary :: "bool option"

text \<open>
  \<open>snapshot["servers"][sid]["utilization"]\<close>; the engine's snapshots have an entry for every
  server, so the default is never read.
\<close>

definition snap_util :: "snapshot \<Rightarrow> int \<Rightarrow> real" where
  "snap_util sn sid = (case dget (sn_servers sn) sid of None \<Rightarrow> 0 | Some x \<Rightarrow> ss_utilization x)"

definition occ_ratio :: "service_snapshot \<Rightarrow> real" where
  "occ_ratio sv = (if sv_queue_len sv \<noteq> 0 then sv_avg_queue_occupancy sv / real (sv_queue_len sv) else 0)"

text \<open>\<open>sv.get("rejection_rate_rolling", sv["rejection_rate"])\<close>\<close>

definition rejection_signal :: "service_snapshot \<Rightarrow> real" where
  "rejection_signal sv =
     (case sv_rejection_rate_rolling sv of None \<Rightarrow> sv_rejection_rate sv | Some x \<Rightarrow> x)"

type_synonym servers = "(int, server) pydict"

text \<open>Concrete snapshots the witnesses of the properties use.\<close>

definition sample_service :: service_snapshot where
  "sample_service =
     \<lparr>sv_n_replicas = 2, sv_n_ready_replicas = 2, sv_n_mature_ready_replicas = 2,
      sv_avg_queue_occupancy = 1/2, sv_queue_len = 2, sv_rejection_rate = 0,
      sv_deadline_violation_rate = 0, sv_rejection_rate_rolling = None, sv_recent_arrivals = 3,
      sv_demand_centroid = None, sv_proximity_violation_rate = 0, sv_scale_cooldown_active = False\<rparr>"

definition sample_snapshot :: "(int, service_snapshot) pydict \<Rightarrow> snapshot" where
  "sample_snapshot svcs =
     \<lparr>sn_servers = [], sn_services = svcs, sn_avg_response_time_recent = 0,
      sn_energy_recent_joule = 0, sn_num_rejected_recent = 0, sn_turn_on_necessary = None\<rparr>"

lemmas sample_defs = sample_service_def sample_snapshot_def

section \<open>Loops over a threaded state\<close>

text \<open>
  A comprehension or a sort whose test or key reads the queues: the calls happen in the order
  of the list and thread the state they may change.
\<close>

fun filter_st :: "('a \<Rightarrow> 's \<Rightarrow> bool \<times> 's) \<Rightarrow> 'a list \<Rightarrow> 's \<Rightarrow> 'a list \<times> 's" where
  "filter_st p [] st = ([], st)"
| "filter_st p (x # xs) st =
     (let (b, st1) = p x st; (ys, st2) = filter_st p xs st1
      in (if b then x # ys else ys, st2))"

fun map_st :: "('a \<Rightarrow> 's \<Rightarrow> 'b \<times> 's) \<Rightarrow> 'a list \<Rightarrow> 's \<Rightarrow> 'b list \<times> 's" where
  "map_st f [] st = ([], st)"
| "map_st f (x # xs) st =
     (let (y, st1) = f x st; (ys, st2) = map_st f xs st1 in (y # ys, st2))"

fun find_st :: "('a \<Rightarrow> 's \<Rightarrow> bool \<times> 's) \<Rightarrow> 'a list \<Rightarrow> 's \<Rightarrow> 'a option \<times> 's" where
  "find_st p [] st = (None, st)"
| "find_st p (x # xs) st =
     (let (b, st1) = p x st in if b then (Some x, st1) else find_st p xs st1)"

section \<open>Initial placement\<close>

text \<open>Base-station indices stand for the elements of \<open>active_bts\<close>.\<close>

definition covers_of :: "server \<Rightarrow> (real \<times> real) list \<Rightarrow> nat list" where
  "covers_of srv active_bts =
     filter (\<lambda>i. BASE_LATENCY_MS
                 + K_MS_PER_KM * haversine_km (fst (active_bts ! i)) (snd (active_bts ! i))
                                              (srv_lat srv) (srv_long srv) \<le> L0_MS)
            [0..<length active_bts]"

text \<open>The server that covers most of what is still uncovered; the first one on ties.\<close>

definition best_cover ::
  "(int \<times> nat list) list \<Rightarrow> int list \<Rightarrow> nat list \<Rightarrow> int option \<times> nat list" where
  "best_cover covers selected remaining =
     foldl (\<lambda>(best_sid, best) (sid, covered).
         if sid \<in> set selected then (best_sid, best)
         else let inter = filter (\<lambda>i. i \<in> set remaining) covered
              in if length best < length inter then (Some sid, inter) else (best_sid, best))
       (None, []) covers"

lemma best_cover_spec:
  assumes "best_cover covers selected remaining = (b, best)"
  shows "case b of
           None \<Rightarrow> best = [] \<and> (\<forall>(sid, covered) \<in> set covers. sid \<notin> set selected \<longrightarrow>
                                  filter (\<lambda>i. i \<in> set remaining) covered = [])
         | Some sid \<Rightarrow> best \<noteq> [] \<and> sid \<notin> set selected
             \<and> (\<exists>covered. (sid, covered) \<in> set covers
                  \<and> best = filter (\<lambda>i. i \<in> set remaining) covered)
             \<and> (\<forall>(sid', covered) \<in> set covers. sid' \<notin> set selected \<longrightarrow>
                  length (filter (\<lambda>i. i \<in> set remaining) covered) \<le> length best)"
  using assms unfolding best_cover_def
proof (induction covers arbitrary: b best rule: rev_induct)
  case Nil
  then show ?case by auto
next
  case (snoc c cs)
  obtain b0 best0 where prev: "foldl (\<lambda>(best_sid, best) (sid, covered).
         if sid \<in> set selected then (best_sid, best)
         else let inter = filter (\<lambda>i. i \<in> set remaining) covered
              in if length best < length inter then (Some sid, inter) else (best_sid, best))
       (None, []) cs = (b0, best0)"
    by fastforce
  note IH = snoc.IH [OF prev]
  obtain sid covered where c: "c = (sid, covered)" by (cases c)
  from snoc.prems prev c have eq: "(b, best) =
      (if sid \<in> set selected then (b0, best0)
       else if length best0 < length (filter (\<lambda>i. i \<in> set remaining) covered)
       then (Some sid, filter (\<lambda>i. i \<in> set remaining) covered) else (b0, best0))"
    by (auto simp: Let_def split: if_splits)
  show ?case
  proof (cases "sid \<notin> set selected \<and> length best0 < length (filter (\<lambda>i. i \<in> set remaining) covered)")
    case True
    then have "filter (\<lambda>i. i \<in> set remaining) covered \<noteq> []" by auto
    with True eq IH c show ?thesis by (auto split: option.splits)
  next
    case False
    with eq have "b = b0" "best = best0" by (auto split: if_splits)
    with False IH c show ?thesis by (auto split: option.splits)
  qed
qed

lemma best_cover_shrinks:
  assumes "best_cover covers selected remaining = (Some sid, best)"
  shows "length (filter (\<lambda>i. i \<notin> set best) remaining) < length remaining"
proof -
  from best_cover_spec [OF assms] have "best \<noteq> []" "set best \<subseteq> set remaining" by auto
  then obtain i where "i \<in> set best" "i \<in> set remaining"
    by (meson in_mono last_in_set)
  then show ?thesis by (intro length_filter_less) auto
qed

function cover_loop :: "(int \<times> nat list) list \<Rightarrow> nat \<Rightarrow> int list \<Rightarrow> nat list \<Rightarrow> int list" where
  "cover_loop covers n_servers selected remaining =
     (if remaining = [] then selected
      else case best_cover covers selected remaining of
             (None, _) \<Rightarrow> selected
           | (Some best_sid, best) \<Rightarrow>
               let selected' = selected @ [best_sid];
                   remaining' = filter (\<lambda>i. i \<notin> set best) remaining
               in if length selected' = n_servers then selected'
                  else cover_loop covers n_servers selected' remaining')"
  by pat_completeness auto
termination
  by (relation "measure (\<lambda>(covers, n, selected, remaining). length remaining)")
     (auto intro: best_cover_shrinks [OF sym])

declare cover_loop.simps [simp del]

text \<open>Servers are added, nearest first, until the fleet can reserve one replica of each service.\<close>

fun capacity_loop :: "servers \<Rightarrow> int list \<Rightarrow> int list \<Rightarrow> int list" where
  "capacity_loop servers selected [] = selected"
| "capacity_loop servers selected (sid # rest) =
     (if (\<Sum>k\<leftarrow>selected. case dget servers k of None \<Rightarrow> 0 | Some s \<Rightarrow> srv_capacity s) < total_cpu_needed
      then capacity_loop servers (selected @ [sid]) rest
      else selected)"

definition dist_to_selected :: "servers \<Rightarrow> int list \<Rightarrow> int \<Rightarrow> real" where
  "dist_to_selected servers selected sid =
     (case dget servers sid of None \<Rightarrow> 0 | Some s \<Rightarrow>
        if selected = [] then 0
        else Min (set (map (\<lambda>k. case dget servers k of None \<Rightarrow> 0
                     | Some s2 \<Rightarrow> haversine_km (srv_lat s) (srv_long s) (srv_lat s2) (srv_long s2))
                   selected)))"

definition base_initial_placement :: "servers \<Rightarrow> (real \<times> real) list \<Rightarrow> int list result" where
  "base_initial_placement servers active_bts =
     (let covers = map (\<lambda>(sid, srv). (sid, covers_of srv active_bts)) servers;
          selected0 = cover_loop covers (length servers) [] [0..<length active_bts]
      in bindE (if selected0 = [] then (case servers of [] \<Rightarrow> Inl StopIteration
                                        | (sid, _) # _ \<Rightarrow> Inr [sid])
                else Inr selected0) (\<lambda>selected.
         let remaining_servers =
               sort_key (dist_to_selected servers selected)
                 (filter (\<lambda>sid. sid \<notin> set selected) (dkeys servers))
         in Inr (capacity_loop servers selected remaining_servers)))"

section \<open>Routing a request to a replica\<close>

text \<open>
  \<open>occupancy_fn\<close> only reads a queue; \<open>admit_fn\<close> may reserve a slot. Both thread the state
  \<open>'s\<close>: the store in the simulator, the shared Redis state in the real deployment.
  Replicas are addresses; \<open>rep\<close> gives the fields of a replica that never change.
\<close>

definition dist_pair :: "request \<Rightarrow> servers \<Rightarrow> heap \<Rightarrow> nat \<Rightarrow> (real \<times> nat) result" where
  "dist_pair req servers rep a =
     bindE (dlookup servers (r_server_id (rep a))) (\<lambda>s.
       Inr (haversine_km (bts_lat req) (bts_long req) (srv_lat s) (srv_long s), a))"

fun mapE :: "('a \<Rightarrow> 'b result) \<Rightarrow> 'a list \<Rightarrow> 'b list result" where
  "mapE f [] = Inr []"
| "mapE f (x # xs) = bindE (f x) (\<lambda>y. bindE (mapE f xs) (\<lambda>ys. Inr (y # ys)))"

definition near_test ::
  "heap \<Rightarrow> (nat \<Rightarrow> 's \<Rightarrow> nat \<times> 's) \<Rightarrow> real \<Rightarrow> real \<times> nat \<Rightarrow> 's \<Rightarrow> bool \<times> 's" where
  "near_test rep occupancy_fn min_dist p st =
     (if fst p \<le> min_dist + 5
      then let (n, st') = occupancy_fn (snd p) st in (n < r_queue_len (rep (snd p)), st')
      else (False, st))"

definition load_key :: "heap \<Rightarrow> (nat \<Rightarrow> 's \<Rightarrow> nat \<times> 's) \<Rightarrow> real \<times> nat \<Rightarrow> 's \<Rightarrow> (real \<times> (real \<times> nat)) \<times> 's" where
  "load_key rep occupancy_fn p st =
     (let (n, st') = occupancy_fn (snd p) st
      in ((real n / real (max (r_queue_len (rep (snd p))) 1), p), st'))"

definition select_replica_with ::
  "(nat \<Rightarrow> 's \<Rightarrow> nat \<times> 's) \<Rightarrow> (nat \<Rightarrow> 's \<Rightarrow> bool \<times> 's) \<Rightarrow> request \<Rightarrow> nat list \<Rightarrow> servers
   \<Rightarrow> heap \<Rightarrow> 's \<Rightarrow> (nat option \<times> 's) result" where
  "select_replica_with occupancy_fn admit_fn req candidates servers rep st =
     (if candidates = [] then Inr (None, st)
      else bindE (mapE (dist_pair req servers rep) candidates) (\<lambda>dist_pairs.
        let min_dist = Min (set (map fst dist_pairs));
            (near_pool, st1) = filter_st (near_test rep occupancy_fn min_dist) dist_pairs st;
            (keyed, st2) = map_st (load_key rep occupancy_fn) near_pool st1;
            ordered = map snd (sort_key fst keyed)
                      @ sort_key fst (filter (\<lambda>p. p \<notin> set near_pool) dist_pairs);
            (chosen, st3) = find_st (\<lambda>p. admit_fn (snd p)) ordered st2
        in Inr (map_option snd chosen, st3)))"

text \<open>The defaults of the simulator: read the queue of the object, admit while it has room.\<close>

definition sim_occupancy :: "real \<Rightarrow> nat \<Rightarrow> heap \<Rightarrow> nat \<times> heap" where
  "sim_occupancy now a h = (let (n, r') = queue_occupancy now (h a) in (n, h(a := r')))"

definition sim_admit :: "real \<Rightarrow> nat \<Rightarrow> heap \<Rightarrow> bool \<times> heap" where
  "sim_admit now a h = (let (n, h') = sim_occupancy now a h in (n < r_queue_len (h' a), h'))"

definition base_select_replica ::
  "request \<Rightarrow> nat list \<Rightarrow> servers \<Rightarrow> real \<Rightarrow> heap \<Rightarrow> (nat option \<times> heap) result" where
  "base_select_replica req candidates servers now h =
     select_replica_with (sim_occupancy now) (sim_admit now) req candidates servers h h"

section \<open>Shared helpers\<close>

definition pick_profile_for_overload :: "server list \<Rightarrow> int \<Rightarrow> profile" where
  "pick_profile_for_overload overloaded_servers fallback_capacity =
     (let large_threshold = profile_capacity_mips (server_profile Large);
          medium_threshold = profile_capacity_mips (server_profile Medium);
          total = (if overloaded_servers \<noteq> [] then (\<Sum>s\<leftarrow>overloaded_servers. srv_capacity s)
                   else fallback_capacity)
      in if large_threshold \<le> total then Large
         else if medium_threshold \<le> total then Medium
         else EdgeSmall)"

definition filter_by_profile_with_fallback :: "server list \<Rightarrow> profile \<Rightarrow> server list" where
  "filter_by_profile_with_fallback candidates desired =
     (let matching = filter (\<lambda>s. srv_profile s = desired) candidates
      in if matching \<noteq> [] then matching else candidates)"

text \<open>\<open>min(ready_replicas, key=occupancy)\<close>: each queue is read once, in order.\<close>

definition occupancy_keys :: "real \<Rightarrow> nat list \<Rightarrow> heap \<Rightarrow> (nat \<times> nat) list \<times> heap" where
  "occupancy_keys now as h =
     map_st (\<lambda>a h. let (n, h') = sim_occupancy now a h in ((n, a), h')) as h"

definition base_select_scale_down_victim :: "nat list \<Rightarrow> real \<Rightarrow> heap \<Rightarrow> (nat \<times> heap) result" where
  "base_select_scale_down_victim ready_replicas now h =
     (let (keyed, h') = occupancy_keys now ready_replicas h
      in bindE (min_by fst keyed) (\<lambda>p. Inr (snd p, h')))"

definition hostable_somewhere :: "cfg \<Rightarrow> heap \<Rightarrow> servers \<Rightarrow> int \<Rightarrow> (real \<times> real) option \<Rightarrow> bool" where
  "hostable_somewhere C h servers svc_id centroid =
     (\<exists>s \<in> set (dvals servers). (srv_state s = SrvActive \<or> srv_state s = SrvBooting)
        \<and> can_host C h s svc_id (resource_mips_of svc_id) centroid)"

definition capacity_starved_services :: "cfg \<Rightarrow> heap \<Rightarrow> snapshot \<Rightarrow> servers \<Rightarrow> real \<Rightarrow> int list" where
  "capacity_starved_services C h sn servers occ_threshold =
     map fst (filter (\<lambda>(svc_id, sv).
         (occ_threshold < occ_ratio sv \<or> 0 < sv_rejection_rate sv)
         \<and> \<not> hostable_somewhere C h servers svc_id (sv_demand_centroid sv)) (sn_services sn))"

section \<open>Facts about the loops\<close>

text \<open>
  Where the threaded state does not influence the answers (an invariant \<open>R\<close> of the state
  fixes them), the loops are the plain list functions.
\<close>

lemma filter_st_pure:
  assumes "\<And>x s. x \<in> set xs \<Longrightarrow> R s \<Longrightarrow> fst (p x s) = P x \<and> R (snd (p x s))" and "R s"
  shows "fst (filter_st p xs s) = filter P xs \<and> R (snd (filter_st p xs s))"
  using assms
proof (induction xs arbitrary: s)
  case Nil
  then show ?case by simp
next
  case (Cons x xs)
  have "fst (p x s) = P x \<and> R (snd (p x s))" using Cons.prems by simp
  with Cons.IH [of "snd (p x s)"] Cons.prems(1) show ?case by (simp add: split_beta Let_def)
qed

lemma map_st_pure:
  assumes "\<And>x s. x \<in> set xs \<Longrightarrow> R s \<Longrightarrow> fst (f x s) = F x \<and> R (snd (f x s))" and "R s"
  shows "fst (map_st f xs s) = map F xs \<and> R (snd (map_st f xs s))"
  using assms
proof (induction xs arbitrary: s)
  case Nil
  then show ?case by simp
next
  case (Cons x xs)
  have "fst (f x s) = F x \<and> R (snd (f x s))" using Cons.prems by simp
  with Cons.IH [of "snd (f x s)"] Cons.prems(1) show ?case by (simp add: split_beta Let_def)
qed

lemma find_st_pure:
  assumes "\<And>x s. x \<in> set xs \<Longrightarrow> R s \<Longrightarrow> fst (p x s) = P x \<and> R (snd (p x s))" and "R s"
  shows "fst (find_st p xs s) = List.find P xs \<and> R (snd (find_st p xs s))"
  using assms
proof (induction xs arbitrary: s)
  case Nil
  then show ?case by simp
next
  case (Cons x xs)
  have "fst (p x s) = P x \<and> R (snd (p x s))" using Cons.prems by simp
  with Cons.IH [of "snd (p x s)"] Cons.prems(1) show ?case by (simp add: split_beta Let_def)
qed

lemma mapE_Inr: "mapE f xs = Inr ys \<longleftrightarrow> list_all2 (\<lambda>x y. f x = Inr y) xs ys"
proof (induction xs arbitrary: ys)
  case Nil
  then show ?case by auto
next
  case (Cons x xs)
  then show ?case by (cases ys) (auto simp: bindE_Inr_iff)
qed

lemma mapE_total: "(\<And>x. x \<in> set xs \<Longrightarrow> \<exists>y. f x = Inr y) \<Longrightarrow> \<exists>ys. mapE f xs = Inr ys"
proof (induction xs)
  case Nil
  then show ?case by simp
next
  case (Cons x xs)
  then obtain y ys where "f x = Inr y" "mapE f xs = Inr ys" by (metis list.set_intros)
  then show ?case by simp
qed

section \<open>Routing in the simulator\<close>

abbreviation has_room :: "real \<Rightarrow> heap \<Rightarrow> nat \<Rightarrow> bool" where
  "has_room now h a \<equiv> occ now (h a) < r_queue_len (h a)"

definition load :: "real \<Rightarrow> heap \<Rightarrow> nat \<Rightarrow> real" where
  "load now h a = real (occ now (h a)) / real (max (r_queue_len (h a)) 1)"

lemma sim_occupancy_eq: "sim_occupancy now a h = (occ now (h a), h(a := prune now (h a)))"
  by (simp add: sim_occupancy_def)

lemma sim_occupancy_pruned:
  "pruned now h h' \<Longrightarrow>
     fst (sim_occupancy now a h') = occ now (h a) \<and> pruned now h (snd (sim_occupancy now a h'))"
  using pruned_upd by (simp add: sim_occupancy_eq prunedD)

lemma sim_admit_pruned:
  "pruned now h h' \<Longrightarrow>
     fst (sim_admit now a h') = has_room now h a \<and> pruned now h (snd (sim_admit now a h'))"
  using pruned_upd by (simp add: sim_admit_def sim_occupancy_eq prunedD)

definition near_spec :: "real \<Rightarrow> heap \<Rightarrow> real \<Rightarrow> real \<times> nat \<Rightarrow> bool" where
  "near_spec now h min_dist p \<longleftrightarrow> fst p \<le> min_dist + 5 \<and> has_room now h (snd p)"

text \<open>The order in which the candidates are tried, as a plain list.\<close>

definition try_order :: "real \<Rightarrow> heap \<Rightarrow> (real \<times> nat) list \<Rightarrow> (real \<times> nat) list" where
  "try_order now h dist_pairs =
     (let m = Min (set (map fst dist_pairs)); near = filter (near_spec now h m) dist_pairs
      in map snd (sort_key fst (map (\<lambda>p. (load now h (snd p), p)) near))
         @ sort_key fst (filter (\<lambda>p. p \<notin> set near) dist_pairs))"

lemma select_replica_with_sim:
  assumes pairs: "mapE (dist_pair req servers h) candidates = Inr dist_pairs"
    and ne: "candidates \<noteq> []"
  shows "\<exists>h'. base_select_replica req candidates servers now h =
           Inr (map_option snd (List.find (\<lambda>p. has_room now h (snd p)) (try_order now h dist_pairs)), h')
         \<and> pruned now h h'"
proof -
  let ?m = "Min (set (map fst dist_pairs))"
  let ?occ = "sim_occupancy now"
  obtain near h1 where f: "filter_st (near_test h ?occ ?m) dist_pairs h = (near, h1)" by fastforce
  have "fst (filter_st (near_test h ?occ ?m) dist_pairs h) = filter (near_spec now h ?m) dist_pairs
      \<and> pruned now h (snd (filter_st (near_test h ?occ ?m) dist_pairs h))"
    by (rule filter_st_pure) (auto simp: near_test_def near_spec_def split_beta sim_occupancy_pruned)
  with f have near: "near = filter (near_spec now h ?m) dist_pairs" and h1: "pruned now h h1" by auto
  obtain keyed h2 where k: "map_st (load_key h ?occ) near h1 = (keyed, h2)" by fastforce
  have "fst (map_st (load_key h ?occ) near h1) = map (\<lambda>p. (load now h (snd p), p)) near
      \<and> pruned now h (snd (map_st (load_key h ?occ) near h1))"
    by (rule map_st_pure) (auto simp: load_key_def load_def split_beta sim_occupancy_pruned h1)
  with k have keyed: "keyed = map (\<lambda>p. (load now h (snd p), p)) near" and h2: "pruned now h h2" by auto
  let ?ord = "map snd (sort_key fst keyed) @ sort_key fst (filter (\<lambda>p. p \<notin> set near) dist_pairs)"
  obtain c h3 where c: "find_st (\<lambda>p. sim_admit now (snd p)) ?ord h2 = (c, h3)" by fastforce
  have "fst (find_st (\<lambda>p. sim_admit now (snd p)) ?ord h2) = List.find (\<lambda>p. has_room now h (snd p)) ?ord
      \<and> pruned now h (snd (find_st (\<lambda>p. sim_admit now (snd p)) ?ord h2))"
    by (rule find_st_pure) (auto simp: sim_admit_pruned h2)
  with c have "c = List.find (\<lambda>p. has_room now h (snd p)) ?ord" and h3: "pruned now h h3" by auto
  moreover have ord: "?ord = try_order now h dist_pairs"
    by (simp add: try_order_def Let_def near keyed)
  ultimately have c': "find_st (\<lambda>p. sim_admit now (snd p)) (try_order now h dist_pairs) h2
      = (List.find (\<lambda>p. has_room now h (snd p)) (try_order now h dist_pairs), h3)"
    using c by simp
  show ?thesis
    using ne h3 by (simp add: base_select_replica_def select_replica_with_def pairs f k c' ord Let_def
        del: set_map)
qed

lemma set_try_order: "set (try_order now h dist_pairs) = set dist_pairs"
  by (auto simp: try_order_def Let_def image_image)

lemma dist_pairs_candidates:
  assumes "mapE (dist_pair req servers h) candidates = Inr dist_pairs"
  shows "map snd dist_pairs = candidates"
  using assms unfolding mapE_Inr
  by (induction rule: list_all2_induct) (auto simp: dist_pair_def bindE_Inr_iff)

lemma find_admit:
  assumes "find_st (sim_admit now) as h = (c, h')"
  shows "pruned now h h'"
    and "case c of Some a \<Rightarrow> a \<in> set as \<and> has_room now h a | None \<Rightarrow> \<forall>a \<in> set as. \<not> has_room now h a"
  using find_st_pure [where p = "sim_admit now" and xs = as and R = "pruned now h" and P = "has_room now h" and s = h]
    sim_admit_pruned assms
  by (auto simp: find_None_iff find_Some_iff split: option.splits)

text \<open>The facts every user of the routing needs.\<close>

lemma base_select_replica_sound:
  assumes "base_select_replica req candidates servers now h = Inr (c, h')"
  shows "pruned now h h'"
    and "case c of Some a \<Rightarrow> a \<in> set candidates \<and> has_room now h a
                 | None \<Rightarrow> \<forall>a \<in> set candidates. \<not> has_room now h a"
proof -
  have "pruned now h h' \<and> (case c of Some a \<Rightarrow> a \<in> set candidates \<and> has_room now h a
                 | None \<Rightarrow> \<forall>a \<in> set candidates. \<not> has_room now h a)"
  proof (cases "candidates = []")
    case True
    with assms show ?thesis by (simp add: base_select_replica_def select_replica_with_def)
  next
    case False
    with assms obtain ps where ps: "mapE (dist_pair req servers h) candidates = Inr ps"
      by (auto simp: base_select_replica_def select_replica_with_def elim: bindE_InrE)
    from select_replica_with_sim [OF ps False, of now] assms
    have c: "c = map_option snd (List.find (\<lambda>p. has_room now h (snd p)) (try_order now h ps))"
      and h': "pruned now h h'" by auto
    have cands: "set candidates = snd ` set ps"
      unfolding dist_pairs_candidates [OF ps, symmetric] by simp
    show ?thesis
    proof (cases "List.find (\<lambda>p. has_room now h (snd p)) (try_order now h ps)")
      case None
      with c h' cands show ?thesis by (auto simp: find_None_iff set_try_order)
    next
      case (Some p)
      then have "p \<in> set ps" "has_room now h (snd p)"
        using set_try_order [of now h ps] by (auto simp: find_Some_iff)
      with Some c h' cands show ?thesis by auto
    qed
  qed
  then show "pruned now h h'"
    and "case c of Some a \<Rightarrow> a \<in> set candidates \<and> has_room now h a
                 | None \<Rightarrow> \<forall>a \<in> set candidates. \<not> has_room now h a" by auto
qed

lemma base_select_replica_total:
  assumes "\<forall>a \<in> set candidates. r_server_id (h a) \<in> set (dkeys servers)"
  shows "\<exists>r. base_select_replica req candidates servers now h = Inr r"
proof (cases "candidates = []")
  case True
  then show ?thesis by (simp add: base_select_replica_def select_replica_with_def)
next
  case False
  have "\<exists>ps. mapE (dist_pair req servers h) candidates = Inr ps"
  proof (rule mapE_total)
    fix a assume "a \<in> set candidates"
    with assms obtain s where "dget servers (r_server_id (h a)) = Some s"
      by (metis map_of_eq_None_iff not_None_eq list.set_map)
    then show "\<exists>y. dist_pair req servers h a = Inr y"
      by (simp add: dist_pair_def dlookup_def)
  qed
  with select_replica_with_sim [OF _ False] show ?thesis by blast
qed

lemma occupancy_keys_eq:
  "fst (occupancy_keys now as h) = map (\<lambda>a. (occ now (h a), a)) as
   \<and> pruned now h (snd (occupancy_keys now as h))"
  unfolding occupancy_keys_def
  by (rule map_st_pure) (auto simp: split_beta sim_occupancy_pruned)

lemma base_victim_sound:
  assumes "base_select_scale_down_victim as now h = Inr (a, h')"
  shows "a \<in> set as" and "pruned now h h'" and "b \<in> set as \<Longrightarrow> occ now (h a) \<le> occ now (h b)"
proof -
  obtain p where p: "min_by fst (fst (occupancy_keys now as h)) = Inr p" "a = snd p"
    "h' = snd (occupancy_keys now as h)"
    using assms by (auto simp: base_select_scale_down_victim_def split_beta elim: bindE_InrE)
  note keys = occupancy_keys_eq [of now as h]
  show "a \<in> set as" using min_by_Inr(1) [OF p(1)] keys p(2) by auto
  show "pruned now h h'" using keys p(3) by simp
  show "occ now (h a) \<le> occ now (h b)" if "b \<in> set as"
    using min_by_Inr [OF p(1)] keys p(2) that by force
qed

lemma base_victim_total: "as \<noteq> [] \<Longrightarrow> \<exists>r. base_select_scale_down_victim as now h = Inr r"
  using min_by_total [of "fst (occupancy_keys now as h)" fst] occupancy_keys_eq [of now as h]
  by (auto simp: base_select_scale_down_victim_def split_beta)

section \<open>Initial placement: coverage and capacity\<close>

definition covered_by :: "(int \<times> nat list) list \<Rightarrow> int list \<Rightarrow> nat \<Rightarrow> bool" where
  "covered_by covers sel i \<longleftrightarrow> (\<exists>(sid, covered) \<in> set covers. sid \<in> set sel \<and> i \<in> set covered)"

lemma covered_by_mono: "set sel \<subseteq> set sel' \<Longrightarrow> covered_by covers sel i \<Longrightarrow> covered_by covers sel' i"
  unfolding covered_by_def by blast

lemma full_selection:
  assumes "distinct sel" "set sel \<subseteq> set ks" "length sel = length ks" "distinct ks"
  shows "set sel = set ks"
  using assms by (simp add: card_subset_eq distinct_card)

lemma cover_loop_spec:
  assumes "n = length covers" and "distinct (dkeys covers)" and "distinct selected"
    and "set selected \<subseteq> set (dkeys covers)"
    and "\<forall>i \<in> U. i \<in> set remaining \<or> covered_by covers selected i"
  shows "distinct (cover_loop covers n selected remaining)
       \<and> set (cover_loop covers n selected remaining) \<subseteq> set (dkeys covers)
       \<and> (\<forall>i \<in> U. covered_by covers (dkeys covers) i
                  \<longrightarrow> covered_by covers (cover_loop covers n selected remaining) i)"
  using assms
proof (induction covers n selected remaining rule: cover_loop.induct)
  case (1 covers n selected remaining)
  obtain b best where bc: "best_cover covers selected remaining = (b, best)" by fastforce
  note spec = best_cover_spec [OF bc]
  consider "remaining = []" | "remaining \<noteq> []" "b = None" | sid where "remaining \<noteq> []" "b = Some sid"
    by fastforce
  then show ?case
  proof cases
    case 1
    then have "cover_loop covers n selected remaining = selected" by (simp add: cover_loop.simps)
    with "1.prems" 1 show ?thesis by simp
  next
    case 2
    have "covered_by covers selected i" if "i \<in> set remaining" "covered_by covers (dkeys covers) i" for i
      using spec that 2 unfolding covered_by_def by (fastforce simp: filter_empty_conv)
    moreover have "cover_loop covers n selected remaining = selected"
      using 2 bc by (simp add: cover_loop.simps [of covers n selected remaining])
    ultimately show ?thesis using "1.prems" by auto
  next
    case 3
    let ?sel = "selected @ [sid]" and ?rem = "filter (\<lambda>i. i \<notin> set best) remaining"
    from spec 3 obtain covered where cov: "(sid, covered) \<in> set covers"
      "best = filter (\<lambda>i. i \<in> set remaining) covered" "sid \<notin> set selected" by auto
    then have "sid \<in> set (dkeys covers)" by force
    with cov(3) "1.prems"(3,4) have sel: "distinct ?sel" "set ?sel \<subseteq> set (dkeys covers)" by auto
    have best: "covered_by covers ?sel i" if "i \<in> set best" for i
      using cov(1,2) that unfolding covered_by_def by auto
    have keep: "covered_by covers ?sel i" if "covered_by covers selected i" for i
      using that by (rule covered_by_mono [rotated]) auto
    have U: "\<forall>i \<in> U. i \<in> set ?rem \<or> covered_by covers ?sel i"
      using "1.prems"(5) best keep by auto
    have eq: "cover_loop covers n selected remaining
        = (if length ?sel = n then ?sel else cover_loop covers n ?sel ?rem)"
      using 3 bc by (simp add: cover_loop.simps [of covers n selected remaining])
    show ?thesis
    proof (cases "length ?sel = n")
      case True
      with sel "1.prems"(1,2) have "set ?sel = set (dkeys covers)" by (intro full_selection) auto
      with True sel eq show ?thesis by (auto simp: covered_by_def)
    next
      case False
      with "1.IH" [OF 3(1) bc [symmetric] _ refl refl False "1.prems"(1,2) sel U] 3(2) eq
      show ?thesis by simp
    qed
  qed
qed

definition fleet_capacity :: "servers \<Rightarrow> int list \<Rightarrow> int" where
  "fleet_capacity servers ks = (\<Sum>k\<leftarrow>ks. case dget servers k of None \<Rightarrow> 0 | Some s \<Rightarrow> srv_capacity s)"

lemma capacity_loop_spec:
  "\<exists>k. capacity_loop servers selected rest = selected @ take k rest
     \<and> (total_cpu_needed \<le> fleet_capacity servers (capacity_loop servers selected rest)
        \<or> length rest \<le> k)"
proof (induction servers selected rest rule: capacity_loop.induct)
  case (1 servers selected)
  then show ?case by auto
next
  case (2 servers selected sid rest)
  show ?case
  proof (cases "fleet_capacity servers selected < total_cpu_needed")
    case True
    with "2.IH" obtain k where "capacity_loop servers (selected @ [sid]) rest = (selected @ [sid]) @ take k rest"
      "total_cpu_needed \<le> fleet_capacity servers (capacity_loop servers (selected @ [sid]) rest) \<or> length rest \<le> k"
      by (auto simp: fleet_capacity_def)
    with True show ?thesis by (intro exI [of _ "Suc k"]) (simp add: fleet_capacity_def)
  next
    case False
    then show ?thesis by (intro exI [of _ 0]) (simp add: fleet_capacity_def)
  qed
qed

definition covers_point :: "(real \<times> real) list \<Rightarrow> server \<Rightarrow> nat \<Rightarrow> bool" where
  "covers_point active_bts s i \<longleftrightarrow> i \<in> set (covers_of s active_bts)"

lemma base_initial_placement_sound:
  assumes "base_initial_placement servers active_bts = Inr sids" and "distinct (dkeys servers)"
  shows "distinct sids" and "set sids \<subseteq> set (dkeys servers)" and "sids \<noteq> []"
    and "total_cpu_needed \<le> fleet_capacity servers sids \<or> set sids = set (dkeys servers)"
    and "i < length active_bts \<Longrightarrow> (k, s) \<in> set servers \<Longrightarrow> covers_point active_bts s i \<Longrightarrow>
           \<exists>(k', s') \<in> set servers. k' \<in> set sids \<and> covers_point active_bts s' i"
proof -
  let ?covers = "map (\<lambda>(sid, srv). (sid, covers_of srv active_bts)) servers"
  let ?sel0 = "cover_loop ?covers (length servers) [] [0..<length active_bts]"
  have keys: "dkeys ?covers = dkeys servers" by (induction servers) auto
  have spec: "distinct ?sel0 \<and> set ?sel0 \<subseteq> set (dkeys servers)
      \<and> (\<forall>i \<in> {0..<length active_bts}. covered_by ?covers (dkeys servers) i \<longrightarrow> covered_by ?covers ?sel0 i)"
    using cover_loop_spec [of "length servers" ?covers "[]" "{0..<length active_bts}" "[0..<length active_bts]"]
      assms(2) unfolding keys by simp
  from assms(1) obtain sel where
    sel: "sel = (if ?sel0 = [] then [fst (hd servers)] else ?sel0)" "?sel0 = [] \<longrightarrow> servers \<noteq> []"
    and sids: "sids = capacity_loop servers sel (sort_key (dist_to_selected servers sel)
                  (filter (\<lambda>sid. sid \<notin> set sel) (dkeys servers)))"
    by (auto simp: base_initial_placement_def Let_def split: list.splits if_splits)
  have sel_ok: "distinct sel" "set sel \<subseteq> set (dkeys servers)" "sel \<noteq> []"
    using spec sel by (auto split: if_splits)
  let ?rest = "sort_key (dist_to_selected servers sel) (filter (\<lambda>sid. sid \<notin> set sel) (dkeys servers))"
  obtain k0 where k0: "sids = sel @ take k0 ?rest"
    "total_cpu_needed \<le> fleet_capacity servers sids \<or> length ?rest \<le> k0"
    using capacity_loop_spec [of servers sel ?rest] sids by auto
  have rest: "distinct ?rest" "set ?rest = set (dkeys servers) - set sel"
    using assms(2) by (auto simp del: set_map)
  have tk: "set (take k0 ?rest) \<subseteq> set (dkeys servers) - set sel"
    using set_take_subset rest(2) by fast
  show "distinct sids" using k0(1) sel_ok(1) rest(1) tk by (auto simp del: set_map)
  show "set sids \<subseteq> set (dkeys servers)" using k0(1) sel_ok(2) tk by auto
  show "sids \<noteq> []" using k0(1) sel_ok(3) by simp
  show "total_cpu_needed \<le> fleet_capacity servers sids \<or> set sids = set (dkeys servers)"
    using k0 rest(2) sel_ok(2) by (auto simp del: set_map)
  show "\<exists>(k', s') \<in> set servers. k' \<in> set sids \<and> covers_point active_bts s' i"
    if "i < length active_bts" "(k, s) \<in> set servers" "covers_point active_bts s i"
  proof -
    have "covered_by ?covers (dkeys servers) i"
      using that unfolding covered_by_def covers_point_def by force
    with spec that(1) have c: "covered_by ?covers ?sel0 i" by simp
    then have "?sel0 \<noteq> []" unfolding covered_by_def by auto
    with sel(1) k0(1) have "set ?sel0 \<subseteq> set sids" by auto
    with c show ?thesis unfolding covered_by_def covers_point_def by fastforce
  qed
qed

section \<open>The contract between the engine and an algorithm\<close>

text \<open>
  An algorithm is the record of its methods, over a state of its own. Methods that may raise
  return a result; those that read queues thread the store. The placement methods also get
  the engine's dictionary of demand centroids, which an algorithm bound to the engine reads.
\<close>

type_synonym centroids = "(int, (real \<times> real) option) pydict"

record 'a algorithm =
  alg_initial_placement :: "'a \<Rightarrow> servers \<Rightarrow> (real \<times> real) list \<Rightarrow> int list result"
  alg_select_replica ::
    "'a \<Rightarrow> request \<Rightarrow> nat list \<Rightarrow> servers \<Rightarrow> real \<Rightarrow> heap \<Rightarrow> (nat option \<times> 'a \<times> heap) result"
  alg_select_scale_down_victim ::
    "'a \<Rightarrow> int \<Rightarrow> nat list \<Rightarrow> servers \<Rightarrow> real \<Rightarrow> heap \<Rightarrow> (nat \<times> heap) result"
  alg_scale_decision :: "'a \<Rightarrow> int \<Rightarrow> snapshot \<Rightarrow> (scale_action \<times> 'a) result"
  alg_provision_decision :: "'a \<Rightarrow> servers \<Rightarrow> heap \<Rightarrow> snapshot \<Rightarrow> real \<Rightarrow> (provision_action \<times> 'a) result"
  alg_select_placement_server :: "'a \<Rightarrow> centroids \<Rightarrow> int \<Rightarrow> servers \<Rightarrow> heap \<Rightarrow> int option result"
  alg_migration_decision :: "'a \<Rightarrow> centroids \<Rightarrow> server \<Rightarrow> servers \<Rightarrow> heap \<Rightarrow> migration_step list result"
  alg_bypass_sustain_gate :: bool

definition wf_servers :: "servers \<Rightarrow> bool" where
  "wf_servers servers \<longleftrightarrow> distinct (dkeys servers) \<and> (\<forall>(k, s) \<in> set servers. srv_id s = k)"

lemma wf_servers_keys: "wf_servers servers \<Longrightarrow> distinct (dkeys servers)"
  by (simp add: wf_servers_def)

lemma wf_servers_get: "wf_servers servers \<Longrightarrow> s \<in> set (dvals servers) \<Longrightarrow> dget servers (srv_id s) = Some s"
  by (auto simp: wf_servers_def dget_iff_mem)

lemma base_initial_lawful:
  "base_initial_placement servers bts = Inr sids \<Longrightarrow> wf_servers servers \<Longrightarrow>
     distinct sids \<and> set sids \<subseteq> set (dkeys servers) \<and> sids \<noteq> []"
  using base_initial_placement_sound(1-3) wf_servers_keys by blast

text \<open>
  Another server still holds a replica of the service (whatever its state, \<open>TERMINATED\<close> aside).
\<close>

definition hosted_elsewhere :: "heap \<Rightarrow> servers \<Rightarrow> int \<Rightarrow> int \<Rightarrow> bool" where
  "hosted_elsewhere h servers server_id svc_id \<longleftrightarrow>
     (\<exists>other \<in> set (dvals servers). srv_id other \<noteq> server_id
        \<and> (case dget (hosted_replicas other) svc_id of None \<Rightarrow> False
           | Some a \<Rightarrow> r_state (h a) \<noteq> RepTerminated))"

definition can_host_at_some_point :: "cfg \<Rightarrow> heap \<Rightarrow> server \<Rightarrow> int \<Rightarrow> bool" where
  "can_host_at_some_point C h s svc \<longleftrightarrow> (\<exists>bts. can_host C h s svc (resource_mips_of svc) bts)"

definition valid_step :: "cfg \<Rightarrow> heap \<Rightarrow> server \<Rightarrow> servers \<Rightarrow> migration_step \<Rightarrow> bool" where
  "valid_step C h s servers step \<longleftrightarrow>
     (\<exists>t. dget servers (ms_target_server_id step) = Some t \<and> srv_id t \<noteq> srv_id s
        \<and> srv_state t = SrvActive \<and> can_host_at_some_point C h t (ms_service_id step))
     \<and> ms_service_id step \<in> set (dkeys (hosted_replicas s))
     \<and> \<not> hosted_elsewhere h servers (srv_id s) (ms_service_id step)"

text \<open>
  The loop every \<open>migration_decision\<close> has: each replica that is not terminated and whose
  service no other server hosts moves to the server \<open>pick\<close> chooses, if there is one.
\<close>

definition migration_loop ::
  "(int \<Rightarrow> server option) \<Rightarrow> heap \<Rightarrow> server \<Rightarrow> servers \<Rightarrow> migration_step list" where
  "migration_loop pick h s servers =
     concat (map (\<lambda>(svc, a).
         if r_state (h a) = RepTerminated then []
         else if hosted_elsewhere h servers (srv_id s) svc then []
         else (case pick svc of None \<Rightarrow> []
               | Some t \<Rightarrow> [\<lparr>ms_service_id = svc, ms_target_server_id = srv_id t\<rparr>]))
       (hosted_replicas s))"

definition migration_candidates ::
  "cfg \<Rightarrow> heap \<Rightarrow> server \<Rightarrow> servers \<Rightarrow> int \<Rightarrow> (real \<times> real) option \<Rightarrow> server list" where
  "migration_candidates C h s servers svc bts =
     filter (\<lambda>t. srv_id t \<noteq> srv_id s \<and> srv_state t = SrvActive
                 \<and> can_host C h t svc (resource_mips_of svc) bts) (dvals servers)"

lemma migration_loop_services:
  assumes "distinct (dkeys (hosted_replicas s))"
  shows "distinct (map ms_service_id (migration_loop pick h s servers))"
proof -
  define f where "f = (\<lambda>(svc, a).
         if r_state (h a) = RepTerminated then []
         else if hosted_elsewhere h servers (srv_id s) svc then []
         else (case pick svc of None \<Rightarrow> []
               | Some t \<Rightarrow> [\<lparr>ms_service_id = svc, ms_target_server_id = srv_id t\<rparr>]))"
  have f: "f p = [] \<or> (\<exists>t. f p = [\<lparr>ms_service_id = fst p, ms_target_server_id = t\<rparr>])" for p
    unfolding f_def by (cases p) (simp split: option.splits)
  have "distinct (map ms_service_id (concat (map f xs)))
        \<and> ms_service_id ` set (concat (map f xs)) \<subseteq> fst ` set xs"
    if "distinct (dkeys xs)" for xs
    using that
  proof (induction xs)
    case (Cons p xs)
    then have "fst p \<notin> ms_service_id ` set (concat (map f xs))" by auto
    with Cons show ?case using f [of p] by (auto simp del: set_concat)
  qed simp
  with assms show ?thesis unfolding migration_loop_def f_def by blast
qed

lemma migration_loop_memE:
  assumes "step \<in> set (migration_loop pick h s servers)"
  obtains svc a t where "(svc, a) \<in> set (hosted_replicas s)" "r_state (h a) \<noteq> RepTerminated"
    "\<not> hosted_elsewhere h servers (srv_id s) svc" "pick svc = Some t"
    "step = \<lparr>ms_service_id = svc, ms_target_server_id = srv_id t\<rparr>"
proof -
  from assms obtain p where p: "p \<in> set (hosted_replicas s)"
    "step \<in> set ((\<lambda>(svc, a).
         if r_state (h a) = RepTerminated then []
         else if hosted_elsewhere h servers (srv_id s) svc then []
         else (case pick svc of None \<Rightarrow> []
               | Some t \<Rightarrow> [\<lparr>ms_service_id = svc, ms_target_server_id = srv_id t\<rparr>])) p)"
    unfolding migration_loop_def by (simp only: set_concat set_map UN_iff image_iff) blast
  obtain svc a where "p = (svc, a)" by (cases p)
  with p show thesis
    by (cases "pick svc") (auto split: if_splits intro: that)
qed

lemma migration_loop_valid:
  assumes "wf_servers servers"
    and "\<And>svc t. pick svc = Some t \<Longrightarrow> \<exists>bts. t \<in> set (migration_candidates C h s servers svc bts)"
    and "step \<in> set (migration_loop pick h s servers)"
  shows "valid_step C h s servers step"
proof -
  from assms(3) obtain svc a t where m: "(svc, a) \<in> set (hosted_replicas s)"
    "\<not> hosted_elsewhere h servers (srv_id s) svc" "pick svc = Some t"
    "step = \<lparr>ms_service_id = svc, ms_target_server_id = srv_id t\<rparr>"
    by (rule migration_loop_memE)
  obtain bts where "t \<in> set (migration_candidates C h s servers svc bts)"
    using assms(2) [OF m(3)] by blast
  then have t: "t \<in> set (dvals servers)" "srv_id t \<noteq> srv_id s" "srv_state t = SrvActive"
    "can_host_at_some_point C h t svc"
    unfolding can_host_at_some_point_def migration_candidates_def by auto
  have "svc \<in> set (dkeys (hosted_replicas s))" using m(1) by force
  then show ?thesis
    using t m wf_servers_get [OF assms(1) t(1)] unfolding valid_step_def by simp
qed

lemma migration_loop_cong_sole:
  "(svc, a) \<in> set (hosted_replicas s) \<Longrightarrow> r_state (h a) \<noteq> RepTerminated \<Longrightarrow>
   \<not> hosted_elsewhere h servers (srv_id s) svc \<Longrightarrow> pick svc = Some t \<Longrightarrow>
   \<lparr>ms_service_id = svc, ms_target_server_id = srv_id t\<rparr> \<in> set (migration_loop pick h s servers)"
  unfolding migration_loop_def by force

text \<open>The first element of a stable sort, \<open>None\<close> for an empty list.\<close>

definition first_by :: "(server \<Rightarrow> real) \<Rightarrow> server list \<Rightarrow> server option" where
  "first_by key ss = (case sort_key key ss of [] \<Rightarrow> None | s # _ \<Rightarrow> Some s)"

lemma first_by_Some: "first_by key ss = Some s \<Longrightarrow> s \<in> set ss \<and> (\<forall>t \<in> set ss. key s \<le> key t)"
proof -
  assume a: "first_by key ss = Some s"
  then obtain rest where r: "sort_key key ss = s # rest" by (auto simp: first_by_def split: list.splits)
  have "sorted (map key (sort_key key ss))" by simp
  then have "\<forall>t \<in> set (sort_key key ss). key s \<le> key t" unfolding r by auto
  moreover have "s \<in> set (sort_key key ss)" unfolding r by simp
  ultimately show ?thesis by simp
qed

lemma first_by_None: "first_by key ss = None \<longleftrightarrow> ss = []"
  by (auto simp: first_by_def split: list.splits)
     (metis list.distinct(1) list.size(3) length_sort length_0_conv)

lemma filter_by_profile_props:
  "ss \<noteq> [] \<Longrightarrow> filter_by_profile_with_fallback ss p \<noteq> []"
  "set (filter_by_profile_with_fallback ss p) \<subseteq> set ss"
  by (auto simp: filter_by_profile_with_fallback_def Let_def)

lemma filter_by_profile_hd:
  fixes f :: "server \<Rightarrow> 'b::linorder"
  assumes "ss \<noteq> []"
  shows "hd (sort_key f (filter_by_profile_with_fallback ss p)) \<in> set ss"
proof -
  have "sort_key f (filter_by_profile_with_fallback ss p) \<noteq> []"
    using filter_by_profile_props(1) [OF assms, of p] by (metis length_0_conv length_sort)
  then show ?thesis
    using filter_by_profile_props(2) [of ss p] hd_in_set by fastforce
qed

definition in_state :: "server_state \<Rightarrow> servers \<Rightarrow> server list" where
  "in_state st servers = filter (\<lambda>s. srv_state s = st) (dvals servers)"

lemma in_state_get:
  "wf_servers servers \<Longrightarrow> s \<in> set (in_state st servers) \<Longrightarrow>
     dget servers (srv_id s) = Some s \<and> srv_state s = st"
  unfolding in_state_def by (simp add: wf_servers_get)

definition overloaded_servers :: "snapshot \<Rightarrow> server list \<Rightarrow> server list" where
  "overloaded_servers sn active =
     filter (\<lambda>s. UTIL_SCALE_UP_THRESHOLD < snap_util sn (srv_id s)) active"

abbreviation no_provision :: provision_action where
  "no_provision \<equiv> \<lparr>pa_action = ProvNoChange, pa_server_id = None\<rparr>"

abbreviation turn_on :: "int \<Rightarrow> provision_action" where
  "turn_on sid \<equiv> \<lparr>pa_action = TurnOn, pa_server_id = Some sid\<rparr>"

abbreviation turn_off :: "int \<Rightarrow> provision_action" where
  "turn_off sid \<equiv> \<lparr>pa_action = TurnOff, pa_server_id = Some sid\<rparr>"

text \<open>The mean position of a non-empty list of servers.\<close>

definition mean_position :: "server list \<Rightarrow> (real \<times> real) result" where
  "mean_position ss =
     (if ss = [] then Inl ZeroDivisionError
      else Inr ((\<Sum>s\<leftarrow>ss. srv_lat s) / real (length ss), (\<Sum>s\<leftarrow>ss. srv_long s) / real (length ss)))"

definition km_from :: "real \<times> real \<Rightarrow> server \<Rightarrow> real" where
  "km_from p s = haversine_km (fst p) (snd p) (srv_lat s) (srv_long s)"

text \<open>\<open>self._last_snapshot["services"][k].get("demand_centroid")\<close>, if there is a snapshot.\<close>

definition last_centroid :: "snapshot option \<Rightarrow> int \<Rightarrow> (real \<times> real) option result" where
  "last_centroid sn k =
     (case sn of None \<Rightarrow> Inr None
      | Some s \<Rightarrow> bindE (dlookup (sn_services s) k) (\<lambda>sv. Inr (sv_demand_centroid sv)))"

text \<open>Of the candidates at most 5 km farther than the nearest, the one with most room.\<close>

definition roomiest_near :: "heap \<Rightarrow> real \<times> real \<Rightarrow> server list \<Rightarrow> server result" where
  "roomiest_near h centroid candidates =
     (let min_dist = Min (set (map (km_from centroid) candidates))
      in max_by (free_capacity h) (filter (\<lambda>s. km_from centroid s \<le> min_dist + 5) candidates))"

lemma roomiest_near_mem: "roomiest_near h c ss = Inr s \<Longrightarrow> s \<in> set ss"
  unfolding roomiest_near_def Let_def using max_by_Inr(1) by fastforce

lemma roomiest_near_total:
  assumes "candidates \<noteq> []"
  shows "\<exists>s \<in> set candidates. roomiest_near h c candidates = Inr s"
proof -
  let ?m = "Min (set (map (km_from c) candidates))"
  have "?m \<in> set (map (km_from c) candidates)" using assms by (intro Min_in) auto
  then obtain s where s: "s \<in> set candidates" "km_from c s = ?m" by auto
  let ?near = "filter (\<lambda>s. km_from c s \<le> ?m + 5) candidates"
  have "s \<in> set ?near" unfolding set_filter s(2) [symmetric] using s(1) by simp
  then have "?near \<noteq> []" by (metis empty_iff empty_set)
  then obtain t where t: "max_by (free_capacity h) ?near = Inr t" using max_by_total by blast
  have "t \<in> set candidates" using max_by_Inr(1) [OF t] by simp
  moreover have "roomiest_near h c candidates = Inr t" unfolding roomiest_near_def Let_def by (rule t)
  ultimately show ?thesis by blast
qed

lemma base_initial_placement_total:
  assumes "servers \<noteq> []" shows "\<exists>sids. base_initial_placement servers bts = Inr sids"
  using assms by (cases servers) (auto simp: base_initial_placement_def Let_def)

text \<open>The routing part alone: it only reads queues, and finds a free queue if there is one.\<close>

locale router =
  fixes select :: "'a \<Rightarrow> request \<Rightarrow> nat list \<Rightarrow> servers \<Rightarrow> real \<Rightarrow> heap \<Rightarrow> (nat option \<times> 'a \<times> heap) result"
  assumes select_reads: "select st req cands servers now h = Inr (c, st', h') \<Longrightarrow> pruned now h h'"
    and select_some: "select st req cands servers now h = Inr (Some a, st', h') \<Longrightarrow>
          a \<in> set cands \<and> has_room now h a"
    and select_none: "select st req cands servers now h = Inr (None, st', h') \<Longrightarrow> a \<in> set cands \<Longrightarrow>
          \<not> has_room now h a"
begin

lemma select_decides:
  assumes "select st req cands servers now h = Inr (c, st', h')"
  shows "c = None \<longleftrightarrow> (\<forall>a \<in> set cands. \<not> has_room now h a)"
  using assms select_some select_none by (cases c) blast+

text \<open>A request is sent to a replica that then admits it: the race branch is never taken.\<close>

lemma selected_admits:
  assumes "select st req cands servers now h = Inr (Some a, st', h')"
  shows "fst (try_admit now x (h' a)) \<noteq> None"
  using select_some [OF assms] select_reads [OF assms] by (simp add: try_admit_None_iff prunedD)

end

text \<open>The whole contract, for the configuration \<open>C\<close>.\<close>

locale lawful_algorithm = router "alg_select_replica A" for A :: "'a algorithm" +
  fixes C :: cfg
  assumes initial_sound: "alg_initial_placement A st servers bts = Inr sids \<Longrightarrow> wf_servers servers \<Longrightarrow>
          distinct sids \<and> set sids \<subseteq> set (dkeys servers) \<and> sids \<noteq> []"
    and victim_sound: "alg_select_scale_down_victim A st svc as servers now h = Inr (a, h') \<Longrightarrow>
          a \<in> set as \<and> pruned now h h'"
    and placement_sound: "alg_select_placement_server A st cs svc servers h = Inr (Some sid) \<Longrightarrow>
          wf_servers servers \<Longrightarrow>
          \<exists>s. dget servers sid = Some s \<and> srv_state s = SrvActive \<and> can_host_at_some_point C h s svc"
    and migration_sound: "alg_migration_decision A st cs s servers h = Inr steps \<Longrightarrow>
          wf_servers servers \<Longrightarrow> distinct (dkeys (hosted_replicas s)) \<Longrightarrow>
          distinct (map ms_service_id steps) \<and> (\<forall>step \<in> set steps. valid_step C h s servers step)"

text \<open>
  The threshold algorithms also look at the servers themselves before they propose to turn
  one on or off; an algorithm that follows a learned policy does not.
\<close>

locale self_checking_algorithm = lawful_algorithm +
  assumes provision_sound: "alg_provision_decision A st servers h sn now = Inr (act, st') \<Longrightarrow>
          wf_servers servers \<Longrightarrow> pa_server_id act = Some sid \<Longrightarrow>
          \<exists>s. dget servers sid = Some s
            \<and> (pa_action act = TurnOn \<longrightarrow> srv_state s = SrvOff)
            \<and> (pa_action act = TurnOff \<longrightarrow> srv_state s = SrvActive)"

text \<open>
  Algorithms that never raise in a run: every method returns from the arguments the engine
  gives it, and a service is scaled up only when its snapshot shows demand (so that a server is
  active by then, which the placement may divide by). \<open>ok\<close> is what the algorithm's own state
  has to satisfy for a fleet with the given identifiers.
\<close>

definition complete_snapshot :: "int list \<Rightarrow> snapshot \<Rightarrow> bool" where
  "complete_snapshot ks sn \<longleftrightarrow> dkeys (sn_servers sn) = ks \<and> dkeys (sn_services sn) = ACTIVE_SERVICES"

definition demand_seen :: "service_snapshot \<Rightarrow> bool" where
  "demand_seen sv \<longleftrightarrow> 0 < occ_ratio sv \<or> 0 < rejection_signal sv \<or> 0 < sv_proximity_violation_rate sv"

locale total_algorithm = self_checking_algorithm A C for A :: "'a algorithm" and C +
  fixes ok :: "int list \<Rightarrow> 'a \<Rightarrow> bool"
  assumes initial_total: "wf_servers servers \<Longrightarrow> servers \<noteq> [] \<Longrightarrow>
          \<exists>sids. alg_initial_placement A st servers bts = Inr sids"
    and select_total: "ok (dkeys servers) st \<Longrightarrow> \<forall>a \<in> set cands. r_server_id (h a) \<in> set (dkeys servers) \<Longrightarrow>
          \<exists>c st' h'. alg_select_replica A st req cands servers now h = Inr (c, st', h') \<and> ok (dkeys servers) st'"
    and victim_total: "ok (dkeys servers) st \<Longrightarrow> svc \<in> set ACTIVE_SERVICES \<Longrightarrow> as \<noteq> [] \<Longrightarrow>
          \<forall>a \<in> set as. r_server_id (h a) \<in> set (dkeys servers) \<Longrightarrow>
          \<exists>r. alg_select_scale_down_victim A st svc as servers now h = Inr r"
    and scale_total: "ok ks st \<Longrightarrow> complete_snapshot ks sn \<Longrightarrow> dget (sn_services sn) svc = Some sv \<Longrightarrow>
          \<exists>d st'. alg_scale_decision A st svc sn = Inr (d, st') \<and> ok ks st' \<and> (d = ScaleUp \<longrightarrow> demand_seen sv)"
    and provision_total: "ok (dkeys servers) st \<Longrightarrow> complete_snapshot (dkeys servers) sn \<Longrightarrow>
          \<exists>act st'. alg_provision_decision A st servers h sn now = Inr (act, st') \<and> ok (dkeys servers) st'"
    and placement_total: "ok (dkeys servers) st \<Longrightarrow> svc \<in> set ACTIVE_SERVICES \<Longrightarrow> in_state SrvActive servers \<noteq> [] \<Longrightarrow>
          \<exists>t. alg_select_placement_server A st cs svc servers h = Inr t"
    and migration_total: "ok (dkeys servers) st \<Longrightarrow> \<exists>steps. alg_migration_decision A st cs s servers h = Inr steps"

section \<open>Properties\<close>

text \<open>
  C14. The shared initial placement returns distinct servers of the fleet, at least one; every
  base station that some server covers within the delay limit is covered by a returned one;
  and either the returned servers can reserve one replica of every service together or the
  whole fleet is returned.
\<close>

theorem initial_placement_covers:
  assumes "base_initial_placement servers active_bts = Inr sids" and "distinct (dkeys servers)"
  shows "distinct sids \<and> set sids \<subseteq> set (dkeys servers) \<and> sids \<noteq> []
    \<and> (\<forall>i < length active_bts. (\<exists>(k, s) \<in> set servers. covers_point active_bts s i) \<longrightarrow>
          (\<exists>(k, s) \<in> set servers. k \<in> set sids \<and> covers_point active_bts s i))
    \<and> (total_cpu_needed \<le> fleet_capacity servers sids \<or> set sids = set (dkeys servers))"
  using base_initial_placement_sound [OF assms] by (fastforce split: prod.splits)

theorem initial_placement_covers_witness:
  "\<exists>sids. base_initial_placement [(1, new_server 1 Large 31 121 40320 33 148)] [] = Inr sids
     \<and> sids \<noteq> [] \<and> set sids \<subseteq> {1}"
proof -
  let ?ss = "[(1::int, new_server 1 Large 31 121 40320 33 148)]"
  have "\<exists>sids. base_initial_placement ?ss [] = Inr sids"
    by (simp add: base_initial_placement_def Let_def cover_loop.simps)
  then obtain sids where s: "base_initial_placement ?ss [] = Inr sids" ..
  have "distinct (dkeys ?ss)" by simp
  from s initial_placement_covers [OF s this] show ?thesis by auto
qed

text \<open>
  C15. Routing a request through the shared \<open>select_replica\<close>, with its queue reads and its
  admission tests threaded through the store, gives the first replica with room in the plain
  order \<open>try_order\<close> (the pool within five kilometres of the nearest by load, then the rest by
  distance), or none if no candidate has room, and only removes finished requests.
\<close>

theorem select_replica_refines_order:
  assumes "mapE (dist_pair req servers h) candidates = Inr dist_pairs" and "candidates \<noteq> []"
  shows "\<exists>h'. base_select_replica req candidates servers now h =
           Inr (map_option snd (List.find (\<lambda>p. has_room now h (snd p)) (try_order now h dist_pairs)), h')
         \<and> pruned now h h' \<and> snd ` set (try_order now h dist_pairs) = set candidates"
proof -
  have "snd ` set (try_order now h dist_pairs) = set candidates"
    unfolding set_try_order dist_pairs_candidates [OF assms(1), symmetric] by simp
  with select_replica_with_sim [OF assms] show ?thesis by blast
qed

theorem select_replica_refines_order_witness:
  "\<exists>h'. base_select_replica (new_request 1 31 121 2 0) [0]
          [(1, new_server 1 Large 31 121 40320 33 148)] 0 (\<lambda>_. new_replica 2 1 2 3 0) = Inr (Some 0, h')"
  using select_replica_refines_order [of "new_request 1 31 121 2 0" "[(1, new_server 1 Large 31 121 40320 33 148)]"
      "\<lambda>_. new_replica 2 1 2 3 0" "[0]" "[(0, 0)]" 0]
  by (auto simp: dist_pair_def dlookup_def new_request_def new_server_def new_replica_def try_order_def
      near_spec_def load_def occ_def)

end
