(* ===== verification/StateVector.thy ===== *)
theory StateVector
  imports Policy
begin

text \<open>
  \<open>common/state_builder.py\<close>: the observation vector a learned policy sees, six components per
  server, six per service and two global ones, with the facts that its assertion on the
  length never fires, which components are bounded, and how a server's state is read back.
\<close>

definition SERVICE_IDS :: "int list" where "SERVICE_IDS = sort (dkeys SERVICES_INFO)"
definition SERVER_IDS :: "int list" where "SERVER_IDS = sort (dkeys SERVER_INFO)"

definition STATE_DIM :: nat where "STATE_DIM = N_SERVERS * 6 + N_SERVICES * 6 + 2"

definition SERVER_STATE_ORDER :: "server_state list" where
  "SERVER_STATE_ORDER = [SrvOff, SrvBooting, SrvActive, SrvDraining]"

definition NORM_RESPONSE_TIME_SEC :: real where "NORM_RESPONSE_TIME_SEC = 2077/1000"
definition NORM_ENERGY_JOULE :: real where "NORM_ENERGY_JOULE = 4349687/1000"
definition NORM_ARRIVAL_RATE :: real where "NORM_ARRIVAL_RATE = 3"

lemmas norm_defs = NORM_RESPONSE_TIME_SEC_def NORM_ENERGY_JOULE_def NORM_ARRIVAL_RATE_def

text \<open>\<open>min(x, 2.0) / 2.0\<close>\<close>

definition clip2 :: "real \<Rightarrow> real" where "clip2 x = min x 2 / 2"

definition one_hot :: "server_state \<Rightarrow> real list" where
  "one_hot st = map (\<lambda>x. if st = x then 1 else 0) SERVER_STATE_ORDER"

definition server_part :: "snapshot \<Rightarrow> servers \<Rightarrow> int \<Rightarrow> real list result" where
  "server_part sn servers sid =
     bindE (dlookup (sn_servers sn) sid) (\<lambda>s_snap.
     bindE (dlookup servers sid) (\<lambda>s.
       let n_replicas = length (hosted_replicas s)
       in Inr (one_hot (ss_state s_snap) @ [ss_utilization s_snap, real n_replicas / real N_SERVICES])))"

definition service_part :: "snapshot \<Rightarrow> int \<Rightarrow> real list result" where
  "service_part sn svc_id =
     bindE (dlookup (sn_services sn) svc_id) (\<lambda>sv.
       Inr [real (sv_n_replicas sv) / real N_SERVERS, clip2 (occ_ratio sv), sv_deadline_violation_rate sv,
            clip2 (real (sv_recent_arrivals sv) / NORM_ARRIVAL_RATE), sv_rejection_rate sv,
            sv_proximity_violation_rate sv])"

definition global_part :: "snapshot \<Rightarrow> real list" where
  "global_part sn =
     [clip2 (sn_avg_response_time_recent sn / NORM_RESPONSE_TIME_SEC),
      clip2 (sn_energy_recent_joule sn / NORM_ENERGY_JOULE)]"

definition build_state_vector :: "snapshot \<Rightarrow> servers \<Rightarrow> real list result" where
  "build_state_vector sn servers =
     bindE (mapE (server_part sn servers) SERVER_IDS) (\<lambda>server_parts.
     bindE (mapE (service_part sn) ACTIVE_SERVICES) (\<lambda>service_parts.
       let vec = concat server_parts @ concat service_parts @ global_part sn
       in if length vec = STATE_DIM then Inr vec else Inl AssertionError))"

section \<open>Length and order\<close>

lemma SERVICE_IDS_eq: "SERVICE_IDS = ACTIVE_SERVICES"
  by (simp add: SERVICE_IDS_def ACTIVE_SERVICES_def)

lemma SERVER_IDS_eq: "SERVER_IDS = [1, 2, 3, 4, 5, 6, 7, 8, 9, 10]"
  by (simp add: SERVER_IDS_def SERVER_INFO_def)

lemma dims: "N_SERVERS = 10" "N_SERVICES = 15" "STATE_DIM = 152"
  by (simp_all add: STATE_DIM_def N_SERVERS_def N_SERVICES_def SERVER_INFO_def SERVICES_INFO_def)

lemma length_one_hot [simp]: "length (one_hot st) = 4"
  by (simp add: one_hot_def SERVER_STATE_ORDER_def)

lemma server_part_length: "server_part sn servers sid = Inr xs \<Longrightarrow> length xs = 6"
  by (auto simp: server_part_def bindE_Inr_iff Let_def one_hot_def SERVER_STATE_ORDER_def)

lemma service_part_length: "service_part sn k = Inr xs \<Longrightarrow> length xs = 6"
  by (auto simp: service_part_def bindE_Inr_iff)

lemma mapE_length: "mapE f xs = Inr ys \<Longrightarrow> length ys = length xs"
  unfolding mapE_Inr by (simp add: list_all2_lengthD)

lemma mapE_nth: "mapE f xs = Inr ys \<Longrightarrow> i < length xs \<Longrightarrow> f (xs ! i) = Inr (ys ! i)"
  unfolding mapE_Inr by (rule list_all2_nthD)

text \<open>Blocks of one length: the concatenation and the position of a block in it.\<close>

lemma length_blocks: "\<forall>ys \<in> set yss. length ys = n \<Longrightarrow> length (concat yss) = n * length yss"
  by (induction yss) auto

lemma nth_block:
  assumes "\<forall>ys \<in> set yss. length ys = n" and "i < length yss"
  shows "take n (drop (n * i) (concat yss @ zs)) = yss ! i"
  using assms
proof (induction yss arbitrary: i)
  case (Cons ys yss)
  show ?case
  proof (cases i)
    case 0
    then show ?thesis using Cons.prems(1) by simp
  next
    case (Suc j)
    have "drop (n * i) (ys @ concat yss @ zs) = drop (n * j) (concat yss @ zs)"
      using Cons.prems(1) by (simp add: Suc)
    then show ?thesis using Cons Suc by simp
  qed
qed simp

lemma nth_in_block: "length (take n (drop k xs)) = n \<Longrightarrow> j < n \<Longrightarrow> xs ! (k + j) = take n (drop k xs) ! j"
  by simp

lemma mapE_blocks:
  assumes "mapE f xs = Inr yss" and "\<And>x ys. f x = Inr ys \<Longrightarrow> length ys = n"
  shows "\<forall>ys \<in> set yss. length ys = n" and "length (concat yss) = n * length xs"
proof -
  show "\<forall>ys \<in> set yss. length ys = n"
    using mapE_nth [OF assms(1)] mapE_length [OF assms(1)] assms(2) by (metis in_set_conv_nth)
  then show "length (concat yss) = n * length xs"
    using length_blocks mapE_length [OF assms(1)] by metis
qed

lemma build_state_vector_parts:
  assumes "build_state_vector sn servers = Inr vec"
  obtains srv svc where "mapE (server_part sn servers) SERVER_IDS = Inr srv"
    "mapE (service_part sn) ACTIVE_SERVICES = Inr svc"
    "vec = concat srv @ concat svc @ global_part sn"
  using assms by (auto simp: build_state_vector_def bindE_Inr_iff Let_def split: if_splits)

lemma build_state_vector_total:
  assumes "set SERVER_IDS \<subseteq> set (dkeys (sn_servers sn))" and "set SERVER_IDS \<subseteq> set (dkeys servers)"
    and "set ACTIVE_SERVICES \<subseteq> set (dkeys (sn_services sn))"
  obtains srv svc where "mapE (server_part sn servers) SERVER_IDS = Inr srv"
    "mapE (service_part sn) ACTIVE_SERVICES = Inr svc"
    "build_state_vector sn servers = Inr (concat srv @ concat svc @ global_part sn)"
    "length (concat srv @ concat svc @ global_part sn) = STATE_DIM"
proof -
  have "\<exists>ys. server_part sn servers k = Inr ys" if k: "k \<in> set SERVER_IDS" for k
  proof -
    obtain e s where "dlookup (sn_servers sn) k = Inr e" "dlookup servers k = Inr s"
      using dlookup_total [of k "sn_servers sn"] dlookup_total [of k servers] k assms(1,2) by blast
    then show ?thesis by (simp add: server_part_def)
  qed
  then obtain srv where srv: "mapE (server_part sn servers) SERVER_IDS = Inr srv"
    using mapE_total [of SERVER_IDS "server_part sn servers"] by blast
  have "\<exists>ys. service_part sn k = Inr ys" if k: "k \<in> set ACTIVE_SERVICES" for k
  proof -
    obtain e where "dlookup (sn_services sn) k = Inr e" using dlookup_total [of k "sn_services sn"] k assms(3) by blast
    then show ?thesis by (simp add: service_part_def)
  qed
  then obtain svc where svc: "mapE (service_part sn) ACTIVE_SERVICES = Inr svc"
    using mapE_total [of ACTIVE_SERVICES "service_part sn"] by blast
  have "length (concat srv @ concat svc @ global_part sn) = STATE_DIM"
    by (simp add: mapE_blocks(2) [OF srv server_part_length] mapE_blocks(2) [OF svc service_part_length]
        SERVER_IDS_eq ACTIVE_SERVICES_eq global_part_def dims del: length_concat)
  with srv svc show thesis by (intro that) (simp_all add: build_state_vector_def del: length_append length_concat)
qed

section \<open>Bounds\<close>

definition in_unit :: "real \<Rightarrow> bool" where "in_unit x \<longleftrightarrow> 0 \<le> x \<and> x \<le> 1"

lemma clip2_unit: "0 \<le> x \<Longrightarrow> in_unit (clip2 x)"
  by (simp add: in_unit_def clip2_def)

lemma one_hot_unit: "x \<in> set (one_hot st) \<Longrightarrow> in_unit x"
  by (auto simp: one_hot_def in_unit_def)

lemma share_unit: "m \<le> n \<Longrightarrow> in_unit (real m / real n)"
  by (cases "n = 0") (simp_all add: in_unit_def)

text \<open>What the snapshot must satisfy for the vector to lie in the box \<open>[0, 1]\<close>.\<close>

definition bounded_service :: "service_snapshot \<Rightarrow> bool" where
  "bounded_service sv \<longleftrightarrow> sv_n_replicas sv \<le> N_SERVERS \<and> 0 \<le> sv_avg_queue_occupancy sv
     \<and> in_unit (sv_deadline_violation_rate sv) \<and> in_unit (sv_rejection_rate sv)
     \<and> in_unit (sv_proximity_violation_rate sv)"

definition bounded_snapshot :: "snapshot \<Rightarrow> servers \<Rightarrow> bool" where
  "bounded_snapshot sn servers \<longleftrightarrow>
     (\<forall>x \<in> set (dvals (sn_servers sn)). in_unit (ss_utilization x))
     \<and> (\<forall>s \<in> set (dvals servers). length (hosted_replicas s) \<le> N_SERVICES)
     \<and> (\<forall>sv \<in> set (dvals (sn_services sn)). bounded_service sv)
     \<and> 0 \<le> sn_avg_response_time_recent sn \<and> 0 \<le> sn_energy_recent_joule sn"

lemma dget_vals: "dget d k = Some v \<Longrightarrow> v \<in> set (dvals d)"
  by (force dest: dget_mem)

lemma server_part_unit:
  assumes "bounded_snapshot sn servers" and "server_part sn servers sid = Inr xs" and "x \<in> set xs"
  shows "in_unit x"
proof -
  from assms(2) obtain e s where "dget (sn_servers sn) sid = Some e" "dget servers sid = Some s"
    and xs: "xs = one_hot (ss_state e) @ [ss_utilization e, real (length (hosted_replicas s)) / real N_SERVICES]"
    by (auto simp: server_part_def bindE_Inr_iff Let_def dlookup_Inr_iff)
  then have "in_unit (ss_utilization e)" "length (hosted_replicas s) \<le> N_SERVICES"
    using assms(1) dget_vals unfolding bounded_snapshot_def by metis+
  with assms(3) show ?thesis unfolding xs by (auto intro: one_hot_unit share_unit)
qed

lemma service_part_unit:
  assumes "bounded_snapshot sn servers" and "service_part sn k = Inr xs" and "x \<in> set xs"
  shows "in_unit x"
proof -
  from assms(2) obtain sv where "dget (sn_services sn) k = Some sv"
    and xs: "xs = [real (sv_n_replicas sv) / real N_SERVERS, clip2 (occ_ratio sv), sv_deadline_violation_rate sv,
            clip2 (real (sv_recent_arrivals sv) / NORM_ARRIVAL_RATE), sv_rejection_rate sv, sv_proximity_violation_rate sv]"
    by (auto simp: service_part_def bindE_Inr_iff dlookup_Inr_iff)
  then have "bounded_service sv" using assms(1) dget_vals unfolding bounded_snapshot_def by metis
  with assms(3) show ?thesis unfolding xs
    by (auto simp: bounded_service_def occ_ratio_def norm_defs intro: share_unit clip2_unit)
qed

section \<open>Reading the vector back\<close>

definition decode_state :: "real list \<Rightarrow> nat \<Rightarrow> server_state option" where
  "decode_state vec i =
     map_option snd (List.find (\<lambda>(x, st). x = 1) (zip (take 4 (drop (6 * i) vec)) SERVER_STATE_ORDER))"

lemma decode_one_hot:
  "List.find (\<lambda>(x, st). x = 1) (zip (one_hot st) SERVER_STATE_ORDER) = Some (1, st)"
  by (cases st) (simp_all add: one_hot_def SERVER_STATE_ORDER_def)

section \<open>Properties\<close>

text \<open>
  C27. The assertion on the length of the state vector never fires: building it from any
  snapshot with an entry for every server and service succeeds, with 152 components, all in
  the box \<open>[0, 1]\<close> when the rates of the snapshot are.
\<close>

theorem state_vector_in_box:
  assumes "set SERVER_IDS \<subseteq> set (dkeys (sn_servers sn))" and "set SERVER_IDS \<subseteq> set (dkeys servers)"
    and "set ACTIVE_SERVICES \<subseteq> set (dkeys (sn_services sn))"
  shows "\<exists>vec. build_state_vector sn servers = Inr vec \<and> length vec = 152
     \<and> (bounded_snapshot sn servers \<longrightarrow> (\<forall>x \<in> set vec. in_unit x))"
proof -
  from build_state_vector_total [OF assms] obtain srv svc where
    srv: "mapE (server_part sn servers) SERVER_IDS = Inr srv" and svc: "mapE (service_part sn) ACTIVE_SERVICES = Inr svc"
    and vec: "build_state_vector sn servers = Inr (concat srv @ concat svc @ global_part sn)"
    and len: "length (concat srv @ concat svc @ global_part sn) = STATE_DIM" .
  let ?vec = "concat srv @ concat svc @ global_part sn"
  have "in_unit x" if b: "bounded_snapshot sn servers" and x: "x \<in> set ?vec" for x
  proof -
    have "in_unit x" if "ys \<in> set srv" "x \<in> set ys" for ys
    proof -
      from that(1) obtain i where "i < length srv" "srv ! i = ys" by (auto simp: in_set_conv_nth)
      then show ?thesis
        using mapE_nth [OF srv, of i] mapE_length [OF srv] server_part_unit [OF b _ that(2)] by simp
    qed
    moreover have "in_unit x" if "ys \<in> set svc" "x \<in> set ys" for ys
    proof -
      from that(1) obtain i where "i < length svc" "svc ! i = ys" by (auto simp: in_set_conv_nth)
      then show ?thesis
        using mapE_nth [OF svc, of i] mapE_length [OF svc] service_part_unit [OF b _ that(2)] by simp
    qed
    moreover have "in_unit x" if "x \<in> set (global_part sn)"
      using that b by (auto simp: global_part_def bounded_snapshot_def norm_defs intro!: clip2_unit)
    ultimately show ?thesis using x by auto
  qed
  with vec len show ?thesis unfolding dims by blast
qed

text \<open>
  C28. The one-hot block of a server can be read back: from a state vector the state of the
  \<open>i\<close>-th server in the order of the identifiers is the state the snapshot has for it, and the
  two components after the block are its utilization and its share of hosted services.
\<close>

theorem state_vector_roundtrip:
  assumes "build_state_vector sn servers = Inr vec" and "i < N_SERVERS"
  shows "\<exists>e s. dget (sn_servers sn) (SERVER_IDS ! i) = Some e \<and> dget servers (SERVER_IDS ! i) = Some s
     \<and> decode_state vec i = Some (ss_state e) \<and> vec ! (6 * i + 4) = ss_utilization e
     \<and> vec ! (6 * i + 5) = real (length (hosted_replicas s)) / real N_SERVICES"
proof -
  from assms(1) obtain srv svc where srv: "mapE (server_part sn servers) SERVER_IDS = Inr srv"
    and vec: "vec = concat srv @ concat svc @ global_part sn" by (rule build_state_vector_parts)
  have i: "i < length SERVER_IDS" using assms(2) by (simp add: dims SERVER_IDS_eq)
  then obtain e s where es: "dget (sn_servers sn) (SERVER_IDS ! i) = Some e" "dget servers (SERVER_IDS ! i) = Some s"
    and blk: "srv ! i = one_hot (ss_state e) @ [ss_utilization e, real (length (hosted_replicas s)) / real N_SERVICES]"
    using mapE_nth [OF srv i] by (auto simp: server_part_def bindE_Inr_iff Let_def dlookup_Inr_iff)
  have b: "take 6 (drop (6 * i) vec) = srv ! i"
    unfolding vec using mapE_blocks(1) [OF srv server_part_length] mapE_length [OF srv] i
    by (intro nth_block) auto
  have "take 4 (drop (6 * i) vec) = take 4 (take 6 (drop (6 * i) vec))" by simp
  then have "take 4 (drop (6 * i) vec) = one_hot (ss_state e)" unfolding b blk by simp
  then have "decode_state vec i = Some (ss_state e)" by (simp add: decode_state_def decode_one_hot)
  moreover have "vec ! (6 * i + j) = srv ! i ! j" if "j < 6" for j
  proof -
    have "length (take 6 (drop (6 * i) vec)) = 6" unfolding b blk by simp
    from nth_in_block [OF this that] show ?thesis unfolding b .
  qed
  then have "vec ! (6 * i + 4) = srv ! i ! 4" "vec ! (6 * i + 5) = srv ! i ! 5" by simp_all
  ultimately show ?thesis using es by (auto simp: blk nth_append)
qed

section \<open>A concrete snapshot\<close>

definition sample_server_entry :: "server_state \<Rightarrow> server_snapshot" where
  "sample_server_entry st =
     \<lparr>ss_state = st, ss_utilization = 1/2, ss_free_capacity = 0, ss_provision_cooldown_active = False,
      ss_min_active_duration_met = True, ss_is_last_active_server = False, ss_turn_off_necessary = None\<rparr>"

definition full_snapshot :: snapshot where
  "full_snapshot = (sample_snapshot (map (\<lambda>k. (k, sample_service)) ACTIVE_SERVICES))
     \<lparr>sn_servers := map (\<lambda>k. (k, sample_server_entry SrvActive)) SERVER_IDS\<rparr>"

definition full_servers :: servers where
  "full_servers = map (\<lambda>k. (k, (new_server k Large 31 121 40320 33 148)\<lparr>srv_state := SrvActive\<rparr>)) SERVER_IDS"

lemma full_keys:
  "dkeys (sn_servers full_snapshot) = SERVER_IDS" "dkeys full_servers = SERVER_IDS"
  "dkeys (sn_services full_snapshot) = ACTIVE_SERVICES"
  by (simp_all add: full_snapshot_def full_servers_def sample_snapshot_def comp_def)

lemma full_bounded: "bounded_snapshot full_snapshot full_servers"
  by (auto simp: bounded_snapshot_def full_snapshot_def full_servers_def sample_snapshot_def
      sample_server_entry_def sample_service_def bounded_service_def in_unit_def dims new_server_def)

theorem state_vector_in_box_witness:
  "\<exists>vec. build_state_vector full_snapshot full_servers = Inr vec \<and> length vec = 152 \<and> (\<forall>x \<in> set vec. in_unit x)"
proof -
  have "set SERVER_IDS \<subseteq> set (dkeys (sn_servers full_snapshot))" "set SERVER_IDS \<subseteq> set (dkeys full_servers)"
    "set ACTIVE_SERVICES \<subseteq> set (dkeys (sn_services full_snapshot))"
    unfolding full_keys by simp_all
  from state_vector_in_box [OF this] full_bounded show ?thesis by blast
qed

lemma full_vector: obtains vec where "build_state_vector full_snapshot full_servers = Inr vec"
  by (rule build_state_vector_total [of full_snapshot full_servers]) (simp_all only: full_keys order_refl)

theorem state_vector_roundtrip_witness:
  "\<exists>vec. build_state_vector full_snapshot full_servers = Inr vec \<and> decode_state vec 3 = Some SrvActive"
proof -
  obtain vec where v: "build_state_vector full_snapshot full_servers = Inr vec" by (rule full_vector)
  have "3 < N_SERVERS" by (simp add: dims)
  from state_vector_roundtrip [OF v this] have "decode_state vec 3 = Some SrvActive"
    by (auto simp: full_snapshot_def SERVER_IDS_eq sample_server_entry_def)
  with v show ?thesis by blast
qed

end
