(* ===== verification/Rolling.thy ===== *)
theory Rolling
  imports Prelude
begin

text \<open>
  \<open>common/rolling_signal.py\<close>: per service, the rejections and arrivals of the last
  \<open>ROLLING_TICKS\<close> decision ticks, and the rejection rate over that window.
\<close>

definition ROLLING_TICKS :: nat where "ROLLING_TICKS = 3"

record rolling_tracker =
  window_ticks :: nat
  rt_rejected :: "int \<Rightarrow> nat list"
  rt_arrivals :: "int \<Rightarrow> nat list"

definition new_tracker :: "nat \<Rightarrow> rolling_tracker" where
  "new_tracker n = \<lparr>window_ticks = n, rt_rejected = (\<lambda>_. []), rt_arrivals = (\<lambda>_. [])\<rparr>"

definition push_tick :: "int \<Rightarrow> nat \<Rightarrow> nat \<Rightarrow> rolling_tracker \<Rightarrow> rolling_tracker" where
  "push_tick svc_id rejected arrivals t =
     t\<lparr>rt_rejected := (rt_rejected t)(svc_id := deque_append (window_ticks t) rejected (rt_rejected t svc_id)),
       rt_arrivals := (rt_arrivals t)(svc_id := deque_append (window_ticks t) arrivals (rt_arrivals t svc_id))\<rparr>"

definition rolling_rejection_rate :: "rolling_tracker \<Rightarrow> int \<Rightarrow> real" where
  "rolling_rejection_rate t svc_id =
     (let rej = sum_list (rt_rejected t svc_id); arr = sum_list (rt_arrivals t svc_id)
      in if arr \<noteq> 0 then real rej / real arr else 0)"

section \<open>The window is the last ticks of the service, whatever the others do\<close>

definition push_ticks :: "(int \<times> nat \<times> nat) list \<Rightarrow> rolling_tracker \<Rightarrow> rolling_tracker" where
  "push_ticks ts t = fold (\<lambda>(svc, rej, arr). push_tick svc rej arr) ts t"

text \<open>The reference: the whole history of one service, its last \<open>n\<close> entries.\<close>

definition history :: "int \<Rightarrow> (int \<times> nat \<times> nat) list \<Rightarrow> (nat \<times> nat) list" where
  "history svc ts = map snd (filter (\<lambda>(s, _). s = svc) ts)"

definition last_n :: "nat \<Rightarrow> 'a list \<Rightarrow> 'a list" where
  "last_n n xs = drop (length xs - n) xs"

lemma deque_append_last_n: "deque_append n x (last_n n xs) = last_n n (xs @ [x])"
proof (cases "length xs < n")
  case True
  then show ?thesis by (simp add: deque_append_def last_n_def)
next
  case False
  then have "length xs - n + (n + 1 - n) = length xs + 1 - n" by simp
  with False show ?thesis
    by (cases n) (simp_all add: deque_append_def last_n_def Suc_diff_le)
qed

lemma map_last_n: "map f (last_n n xs) = last_n n (map f xs)"
  by (simp add: last_n_def drop_map)

lemma window_push_ticks:
  "window_ticks (push_ticks ts t) = window_ticks t"
  by (induction ts arbitrary: t) (auto simp: push_ticks_def push_tick_def split_beta)

lemma push_ticks_window:
  assumes "window_ticks t = n"
    and "rt_rejected t svc = last_n n (map fst h)" "rt_arrivals t svc = last_n n (map snd h)"
  shows "rt_rejected (push_ticks ts t) svc = last_n n (map fst (h @ history svc ts))
       \<and> rt_arrivals (push_ticks ts t) svc = last_n n (map snd (h @ history svc ts))"
  using assms
proof (induction ts arbitrary: t h)
  case Nil
  then show ?case by (simp add: push_ticks_def history_def)
next
  case (Cons x ts)
  obtain s r a where x: "x = (s, r, a)" by (cases x)
  let ?t = "push_tick s r a t" and ?h = "h @ history svc [x]"
  have "rt_rejected ?t svc = last_n n (map fst ?h)" "rt_arrivals ?t svc = last_n n (map snd ?h)"
    using Cons.prems by (auto simp: push_tick_def history_def x deque_append_last_n)
  moreover have "window_ticks ?t = n" using Cons.prems(1) by (simp add: push_tick_def)
  ultimately show ?case
    using Cons.IH [of ?t ?h] by (simp add: push_ticks_def x history_def)
qed

lemma new_tracker_window:
  "rt_rejected (push_ticks ts (new_tracker n)) svc = last_n n (map fst (history svc ts))"
  "rt_arrivals (push_ticks ts (new_tracker n)) svc = last_n n (map snd (history svc ts))"
  using push_ticks_window [of "new_tracker n" n svc "[]" ts]
  by (simp_all add: new_tracker_def last_n_def)

lemma rolling_rejection_rate_nonneg: "0 \<le> rolling_rejection_rate t svc"
  by (simp add: rolling_rejection_rate_def Let_def)

section \<open>Properties\<close>

text \<open>
  C20. After any interleaving of ticks of all services, the rolling rejection rate of a
  service is the rejections over the arrivals of its own last three ticks (0 without
  arrivals); ticks of other services do not enter.
\<close>

theorem rolling_rate_last_three:
  "rolling_rejection_rate (push_ticks ts (new_tracker ROLLING_TICKS)) svc =
     (let w = last_n 3 (history svc ts); arr = sum_list (map snd w)
      in if arr = 0 then 0 else real (sum_list (map fst w)) / real arr)"
  by (simp add: rolling_rejection_rate_def new_tracker_window ROLLING_TICKS_def map_last_n Let_def
      del: sum_list_eq_0_iff)

end
