(* ===== verification/Events.thy ===== *)
theory Events
  imports Models "HOL-Library.Multiset"
begin

text \<open>
  \<open>simulator/events.py\<close> and the agenda of the engine: events ordered by time and then by
  the number they were pushed under. \<open>heapq\<close> is modelled by what its documentation
  promises (the smallest element is popped), as a list kept in the order of the keys; the
  lemmas on the agenda are proved from that promise alone, in the locale \<open>agenda\<close>.
\<close>

record event_row =
  row_start :: real
  row_lat :: real
  row_long :: real
  row_service_id :: int

datatype event_type =
  RequestArrival event_row
| RequestRouted request
| DecisionTick
| ServerBootDone int
| ServerDrainDone int
| ReplicaReady int int
| ReplicaTerminated int int
| EnergyResync

datatype event_key = EventKey (key_time: real) (key_seq: nat)

instantiation event_key :: linorder
begin

definition less_eq_event_key :: "event_key \<Rightarrow> event_key \<Rightarrow> bool" where
  "less_eq_event_key a b \<longleftrightarrow> key_time a < key_time b \<or> (key_time a = key_time b \<and> key_seq a \<le> key_seq b)"

definition less_event_key :: "event_key \<Rightarrow> event_key \<Rightarrow> bool" where
  "less_event_key a b \<longleftrightarrow> key_time a < key_time b \<or> (key_time a = key_time b \<and> key_seq a < key_seq b)"

instance
  by standard (auto simp: less_eq_event_key_def less_event_key_def event_key.expand)

end

lemma event_key_le [simp]:
  "EventKey t n \<le> EventKey u m \<longleftrightarrow> t < u \<or> (t = u \<and> n \<le> m)"
  "EventKey t n < EventKey u m \<longleftrightarrow> t < u \<or> (t = u \<and> n < m)"
  by (simp_all add: less_eq_event_key_def less_event_key_def)

record event =
  ev_time :: real
  ev_seq :: nat
  ev_type :: event_type

definition ev_key :: "event \<Rightarrow> event_key" where
  "ev_key e = EventKey (ev_time e) (ev_seq e)"

lemma ev_key_le_time: "ev_key e \<le> ev_key e' \<Longrightarrow> ev_time e \<le> ev_time e'"
  by (auto simp: ev_key_def)

definition heappush :: "event \<Rightarrow> event list \<Rightarrow> event list" where
  "heappush e q = insort_key ev_key e q"

definition heappop :: "event list \<Rightarrow> (event \<times> event list) option" where
  "heappop q = (case q of [] \<Rightarrow> None | e # q' \<Rightarrow> Some (e, q'))"

section \<open>The interface of a priority queue\<close>

text \<open>
  \<open>elems\<close> is what is waiting, \<open>ok\<close> the invariant of the representation. The laws are those of
  any priority queue.
\<close>

locale agenda =
  fixes empty :: 'q
    and push :: "event \<Rightarrow> 'q \<Rightarrow> 'q"
    and pop :: "'q \<Rightarrow> (event \<times> 'q) option"
    and elems :: "'q \<Rightarrow> event multiset"
    and ok :: "'q \<Rightarrow> bool"
  assumes ok_empty: "ok empty" and elems_empty: "elems empty = {#}"
    and ok_push: "ok q \<Longrightarrow> ok (push e q)"
    and elems_push: "ok q \<Longrightarrow> elems (push e q) = add_mset e (elems q)"
    and pop_None: "ok q \<Longrightarrow> pop q = None \<longleftrightarrow> elems q = {#}"
    and ok_pop: "ok q \<Longrightarrow> pop q = Some (e, q') \<Longrightarrow> ok q'"
    and elems_pop: "ok q \<Longrightarrow> pop q = Some (e, q') \<Longrightarrow> elems q = add_mset e (elems q')"
    and pop_min: "ok q \<Longrightarrow> pop q = Some (e, q') \<Longrightarrow> x \<in># elems q \<Longrightarrow> ev_key e \<le> ev_key x"
begin

definition not_before :: "real \<Rightarrow> 'q \<Rightarrow> bool" where
  "not_before t q \<longleftrightarrow> (\<forall>x \<in># elems q. t \<le> ev_time x)"

lemma not_before_push: "ok q \<Longrightarrow> not_before t q \<Longrightarrow> t \<le> ev_time e \<Longrightarrow> not_before t (push e q)"
  by (auto simp: not_before_def elems_push)

text \<open>Nothing that waits is earlier than what was just taken out: the clock never goes back.\<close>

lemma pop_advances:
  assumes "ok q" and "pop q = Some (e, q')" and "not_before t q"
  shows "t \<le> ev_time e" and "not_before (ev_time e) q'"
proof -
  have "e \<in># elems q" using elems_pop [OF assms(1,2)] by simp
  with assms(3) show "t \<le> ev_time e" by (simp add: not_before_def)
  show "not_before (ev_time e) q'"
    using pop_min [OF assms(1,2)] elems_pop [OF assms(1,2)] ev_key_le_time
    unfolding not_before_def by (metis insert_iff set_mset_add_mset_insert)
qed

lemma pop_size: "ok q \<Longrightarrow> pop q = Some (e, q') \<Longrightarrow> size (elems q) = size (elems q') + 1"
  by (simp add: elems_pop)

end

definition by_key :: "event list \<Rightarrow> bool" where
  "by_key q \<longleftrightarrow> sorted (map ev_key q)"

interpretation heap: agenda "[]" heappush heappop mset by_key
proof unfold_locales
  show "by_key []" by (simp add: by_key_def)
  show "mset [] = {#}" by simp
  show "\<And>q e. by_key q \<Longrightarrow> by_key (heappush e q)"
    by (simp add: by_key_def heappush_def sorted_insort_key)
  show "\<And>q e. by_key q \<Longrightarrow> mset (heappush e q) = add_mset e (mset q)"
    by (simp add: heappush_def)
  show "\<And>q. by_key q \<Longrightarrow> (heappop q = None) = (mset q = {#})"
    by (simp add: heappop_def split: list.splits)
  show "\<And>q e q'. by_key q \<Longrightarrow> heappop q = Some (e, q') \<Longrightarrow> by_key q'"
    by (auto simp: heappop_def by_key_def split: list.splits)
  show "\<And>q e q'. by_key q \<Longrightarrow> heappop q = Some (e, q') \<Longrightarrow> mset q = add_mset e (mset q')"
    by (auto simp: heappop_def split: list.splits)
  show "\<And>q e q' x. by_key q \<Longrightarrow> heappop q = Some (e, q') \<Longrightarrow> x \<in># mset q \<Longrightarrow> ev_key e \<le> ev_key x"
    by (auto simp: heappop_def by_key_def split: list.splits)
qed

lemma set_heappush [simp]: "set (heappush e q) = insert e (set q)"
  by (simp add: heappush_def set_insort_key)

lemma mset_heappush [simp]: "mset (heappush e q) = add_mset e (mset q)"
  by (simp add: heappush_def)

end
