(* ===== verification/Engine.thy ===== *)
theory Engine
  imports Policy Rolling Events
begin

text \<open>
  \<open>simulator/engine.py\<close>, first part: the state of the simulation and the life cycles of
  servers (off, booting, active, draining) and replicas (starting, ready, draining,
  terminated). A method that may raise returns a result; the world a run lives in (flags,
  numpy, the algorithm, the iteration order of a set of integers, pandas'
  \<open>drop_duplicates\<close>) is a record of parameters.
\<close>

record 'a world =
  w_cfg :: cfg
  w_np :: np_ops
  w_alg :: "'a algorithm"
  w_iter_set :: "int list \<Rightarrow> int list"
  w_drop_duplicates :: "(real \<times> real) list \<Rightarrow> (real \<times> real) list"

record tick_actions =
  ta_provision :: "provision_action option"
  ta_scale :: "(int, scale_action) pydict"

definition no_actions :: tick_actions where
  "no_actions = \<lparr>ta_provision = None, ta_scale = []\<rparr>"

record 'a engine =
  events_df :: "event_row list"
  e_algorithm :: 'a
  e_metrics :: metrics
  rolling_rejection :: rolling_tracker
  e_servers :: servers
  replicas_by_service :: "(int, nat list) pydict"
  e_store :: heap
  next_ref :: nat
  e_heap :: "event list"
  e_seq :: nat
  e_now :: real
  energy_last_update :: "(int, real) pydict"
  low_util_since :: "(int, real option) pydict"
  high_util_since :: "(int, real option) pydict"
  tick_total :: "(int, nat) pydict"
  tick_rejected :: "(int, nat) pydict"
  tick_lat_sum :: "(int, real) pydict"
  tick_lon_sum :: "(int, real) pydict"
  tick_violated :: "(int, nat) pydict"
  tick_proximity_violated :: "(int, nat) pydict"
  tick_response_times :: "real list"
  energy_at_last_tick :: real
  last_tick_decisions :: tick_actions
  last_tick_applied_actions :: tick_actions
  request_seq :: int
  service_demand_centroid :: "(int, (real \<times> real) option) pydict"
  pending_migrations :: "(int \<times> int, int) pydict"
  emergency_boot_for_service :: "(int, int) pydict"
  service_last_scale_time :: "(int, real) pydict"
  service_last_scale_up_time :: "(int, real) pydict"
  recent_positions :: "(int, (real \<times> real) list) pydict"
  util_at_window_start :: "(int, real) pydict"
  util_window_start_time :: real
  e_cutoff :: real

section \<open>Construction\<close>

definition init_server :: "int \<times> server_info \<Rightarrow> (int \<times> server) result" where
  "init_server = (\<lambda>(sid, i).
     bindE (profile_of_info i) (\<lambda>p.
       let prof = server_profile p
       in Inr (sid, new_server sid p (info_lat i) (info_long i) (info_capacity_mips i)
                 (profile_p_idle prof) (profile_p_max prof))))"

definition init_servers :: "servers result" where
  "init_servers = mapE init_server SERVER_INFO"

definition new_engine :: "event_row list \<Rightarrow> 'a \<Rightarrow> 'a engine result" where
  "new_engine df st =
     bindE init_servers (\<lambda>servers. Inr
         \<lparr>events_df = df, e_algorithm = st, e_metrics = new_metrics,
          rolling_rejection = new_tracker ROLLING_TICKS,
          e_servers = servers, replicas_by_service = [], e_store = (\<lambda>_. new_replica 0 0 0 0 0),
          next_ref = 0, e_heap = [], e_seq = 0, e_now = 0,
          energy_last_update = map (\<lambda>sid. (sid, 0)) (dkeys servers),
          low_util_since = map (\<lambda>sid. (sid, None)) (dkeys servers),
          high_util_since = map (\<lambda>sid. (sid, None)) (dkeys servers),
          tick_total = [], tick_rejected = [], tick_lat_sum = [], tick_lon_sum = [],
          tick_violated = [], tick_proximity_violated = [], tick_response_times = [],
          energy_at_last_tick = 0, last_tick_decisions = no_actions,
          last_tick_applied_actions = no_actions, request_seq = 0,
          service_demand_centroid = [], pending_migrations = [], emergency_boot_for_service = [],
          service_last_scale_time = map (\<lambda>k. (k, LONG_AGO)) ACTIVE_SERVICES,
          service_last_scale_up_time = map (\<lambda>k. (k, LONG_AGO)) ACTIVE_SERVICES,
          recent_positions = [], util_at_window_start = map (\<lambda>sid. (sid, 0)) (dkeys servers),
          util_window_start_time = 0, e_cutoff = 0\<rparr>)"

section \<open>Access to the shared state\<close>

text \<open>\<open>self.servers[sid]\<close>, the update of a server object, and the update of a replica object.\<close>

definition server_at :: "'a engine \<Rightarrow> int \<Rightarrow> server result" where
  "server_at E sid = dlookup (e_servers E) sid"

definition put_server :: "int \<Rightarrow> server \<Rightarrow> 'a engine \<Rightarrow> 'a engine" where
  "put_server sid s E = E\<lparr>e_servers := dset sid s (e_servers E)\<rparr>"

definition put_replica :: "nat \<Rightarrow> replica \<Rightarrow> 'a engine \<Rightarrow> 'a engine" where
  "put_replica a r E = E\<lparr>e_store := (e_store E)(a := r)\<rparr>"

definition record_metric :: "(metrics \<Rightarrow> metrics) \<Rightarrow> 'a engine \<Rightarrow> 'a engine" where
  "record_metric f E = E\<lparr>e_metrics := f (e_metrics E)\<rparr>"

definition push :: "real \<Rightarrow> event_type \<Rightarrow> 'a engine \<Rightarrow> 'a engine" where
  "push t ty E =
     E\<lparr>e_seq := e_seq E + 1,
       e_heap := heappush \<lparr>ev_time = t, ev_seq = e_seq E + 1, ev_type = ty\<rparr> (e_heap E)\<rparr>"

definition by_service :: "'a engine \<Rightarrow> int \<Rightarrow> nat list" where
  "by_service E svc = dget_or [] (replicas_by_service E) svc"

definition centroid_of :: "'a engine \<Rightarrow> int \<Rightarrow> (real \<times> real) option" where
  "centroid_of E svc = dget_or None (service_demand_centroid E) svc"

definition n_active :: "'a engine \<Rightarrow> nat" where
  "n_active E = length (in_state SrvActive (e_servers E))"

section \<open>Energy\<close>

text \<open>Energy and busy time of one server since its last update, at the load it had then.\<close>

definition advance_server :: "real \<Rightarrow> int \<Rightarrow> 'a engine \<Rightarrow> 'a engine" where
  "advance_server t sid E =
     (case dget (e_servers E) sid of
        None \<Rightarrow> E
      | Some s \<Rightarrow>
          let lst = dget_or 0 (energy_last_update E) sid
          in if lst < t
             then let (util_at_last, h1) = instantaneous_utilization lst (e_store E) s;
                      (power, h2) = instantaneous_power_w lst h1 s
                  in put_server sid
                       (s\<lparr>cumulative_energy_joule := cumulative_energy_joule s + power * (t - lst),
                          cumulative_busy_cpu_seconds := cumulative_busy_cpu_seconds s
                            + util_at_last * of_int (srv_capacity s) * (t - lst)\<rparr>)
                       (E\<lparr>e_store := h2, energy_last_update := dset sid t (energy_last_update E)\<rparr>)
             else E)"

definition advance_energy_to :: "real \<Rightarrow> 'a engine \<Rightarrow> 'a engine" where
  "advance_energy_to t E = fold (advance_server t) (dkeys (e_servers E)) E"

section \<open>Replicas\<close>

definition schedule_replica_ready :: "nat \<Rightarrow> 'a engine \<Rightarrow> 'a engine" where
  "schedule_replica_ready a E =
     push (e_now E + POD_STARTUP_DELAY_SEC)
       (ReplicaReady (r_server_id (e_store E a)) (r_service_id (e_store E a))) E"

definition start_replica_drain :: "nat \<Rightarrow> 'a engine \<Rightarrow> 'a engine" where
  "start_replica_drain a E =
     (let r = e_store E a
      in if r_state r = RepTerminated then E
         else let r' = r\<lparr>r_state := RepDraining, r_drain_started_at := Some (e_now E)\<rparr>;
                  drain_wait = max GRACEFUL_TERMINATION_DELAY_SEC (r_available_at r' - e_now E)
              in push (e_now E + drain_wait) (ReplicaTerminated (r_server_id r') (r_service_id r'))
                   (put_replica a r' E))"

definition place_replica ::
  "'a world \<Rightarrow> int \<Rightarrow> int \<Rightarrow> 'a engine \<Rightarrow> (nat option \<times> 'a engine) result" where
  "place_replica W server_id service_id E =
     bindE (server_at E server_id) (\<lambda>s.
     bindE (service_of service_id) (\<lambda>svc.
       if \<not> can_host (w_cfg W) (e_store E) s service_id (resource_mips svc) (centroid_of E service_id)
       then Inr (None, E)
       else bindE (compute_exec_time_sec service_id (host_mips s)) (\<lambda>et.
         let a = next_ref E;
             r = new_replica service_id server_id (svc_queue_len svc) et (e_now E);
             s' = s\<lparr>hosted_replicas := dset service_id a (hosted_replicas s),
                    cumulative_energy_joule := cumulative_energy_joule s + E_POD_CREATE_J\<rparr>;
             E1 = put_server server_id s'
                    (put_replica a r
                      (E\<lparr>next_ref := a + 1,
                         replicas_by_service :=
                           dset service_id (by_service E service_id @ [a]) (replicas_by_service E)\<rparr>));
             E2 = record_metric (record_transition PodCreate) E1
         in Inr (Some a, if srv_state s = SrvActive then schedule_replica_ready a E2 else E2))))"

definition handle_replica_ready :: "int \<Rightarrow> int \<Rightarrow> 'a engine \<Rightarrow> 'a engine result" where
  "handle_replica_ready server_id service_id E =
     bindE (server_at E server_id) (\<lambda>s.
       Inr (case dget (hosted_replicas s) service_id of
          None \<Rightarrow> E
        | Some a \<Rightarrow>
            if r_state (e_store E a) \<noteq> RepStarting then E
            else let E1 = put_replica a ((e_store E a)\<lparr>r_state := RepReady, r_ready_since := Some (e_now E)\<rparr>) E;
                     source = dget (pending_migrations E1) (server_id, service_id);
                     E2 = E1\<lparr>pending_migrations := ddel (server_id, service_id) (pending_migrations E1)\<rparr>
                 in (case source of
                       None \<Rightarrow> E2
                     | Some source_server_id \<Rightarrow>
                         (case dget (e_servers E2) source_server_id of
                            None \<Rightarrow> E2
                          | Some source_server \<Rightarrow>
                              (case dget (hosted_replicas source_server) service_id of
                                 None \<Rightarrow> E2
                               | Some old \<Rightarrow>
                                   if r_state (e_store E2 old) \<noteq> RepTerminated
                                      \<and> r_state (e_store E2 old) \<noteq> RepDraining
                                   then start_replica_drain old E2 else E2)))))"

definition handle_replica_terminated :: "int \<Rightarrow> int \<Rightarrow> 'a engine \<Rightarrow> 'a engine result" where
  "handle_replica_terminated server_id service_id E =
     bindE (server_at E server_id) (\<lambda>s.
       Inr (case dget (hosted_replicas s) service_id of
          None \<Rightarrow> E
        | Some a \<Rightarrow>
            let E1 = put_replica a ((e_store E a)\<lparr>r_state := RepTerminated\<rparr>) E;
                E2 = record_metric (record_transition PodDelete) E1;
                E3 = put_server server_id (s\<lparr>hosted_replicas := ddel service_id (hosted_replicas s)\<rparr>) E2
            in E3\<lparr>replicas_by_service :=
                    dset service_id (filter (\<lambda>x. x \<noteq> a) (by_service E3 service_id))
                      (replicas_by_service E3)\<rparr>))"

section \<open>Servers\<close>

definition start_server_boot :: "int \<Rightarrow> bool \<Rightarrow> 'a engine \<Rightarrow> 'a engine result" where
  "start_server_boot server_id is_emergency E =
     bindE (server_at E server_id) (\<lambda>s.
       if srv_state s \<noteq> SrvOff then Inr E
       else let s' = s\<lparr>srv_state := SrvBooting, is_emergency_boot := is_emergency,
                       boot_started_at := Some (e_now E), last_transition_time := e_now E,
                       num_boots := num_boots s + 1,
                       cumulative_energy_joule := cumulative_energy_joule s + E_BOOT_SERVER_J\<rparr>
            in Inr (push (e_now E + BOOT_DELAY_SEC) (ServerBootDone server_id)
                 (record_metric (record_transition ServerBoot) (put_server server_id s' E))))"

definition ready_if_starting :: "nat \<Rightarrow> 'a engine \<Rightarrow> 'a engine" where
  "ready_if_starting a E =
     (let r = e_store E a
      in if r_state r = RepStarting \<and> r_ready_since r = None \<and> r_created_at r \<le> e_now E
         then schedule_replica_ready a E else E)"

definition handle_boot_done :: "int \<Rightarrow> 'a engine \<Rightarrow> 'a engine result" where
  "handle_boot_done server_id E =
     bindE (server_at E server_id) (\<lambda>s.
       let s1 = s\<lparr>srv_state := SrvActive, last_transition_time := e_now E\<rparr>;
           E1 = put_server server_id s1 E;
           E2 = fold ready_if_starting (dvals (hosted_replicas s1)) E1;
           rescued = map fst (filter (\<lambda>(svc_id, target_id). target_id = server_id)
                                (emergency_boot_for_service E2));
           E3 = E2\<lparr>emergency_boot_for_service := fold ddel rescued (emergency_boot_for_service E2)\<rparr>
       in Inr (if rescued \<noteq> [] then put_server server_id (s1\<lparr>is_emergency_boot := False\<rparr>) E3 else E3))"

text \<open>One service of the loop over the services a drain could not migrate.\<close>

definition emergency_boot_step ::
  "server list \<Rightarrow> server \<Rightarrow> int \<Rightarrow> (int, int) pydict \<times> 'a engine
   \<Rightarrow> ((int, int) pydict \<times> 'a engine) result" where
  "emergency_boot_step off_servers draining_server svc_id = (\<lambda>(reserved_cpu, E).
     if svc_id \<in> set (dkeys (emergency_boot_for_service E)) then Inr (reserved_cpu, E)
     else bindE (service_of svc_id) (\<lambda>svc.
       let cpu = resource_mips svc;
           candidates = filter (\<lambda>x. cpu \<le> srv_capacity x - dget_or 0 reserved_cpu (srv_id x)) off_servers
       in case sort_key (km_from (srv_lat draining_server, srv_long draining_server)) candidates of
            [] \<Rightarrow> Inr (reserved_cpu, E)
          | target # _ \<Rightarrow>
              bindE (start_server_boot (srv_id target) True
                       (E\<lparr>emergency_boot_for_service :=
                            dset svc_id (srv_id target) (emergency_boot_for_service E)\<rparr>))
                (\<lambda>E'. Inr (dadd (srv_id target) cpu reserved_cpu, E'))))"

definition trigger_emergency_boot ::
  "'a world \<Rightarrow> int list \<Rightarrow> server \<Rightarrow> 'a engine \<Rightarrow> 'a engine result" where
  "trigger_emergency_boot W unmigrated_services draining_server E =
     bindE (foldE (emergency_boot_step (in_state SrvOff (e_servers E)) draining_server)
              (w_iter_set W unmigrated_services) ([], E))
       (\<lambda>(_, E'). Inr E')"

text \<open>The steps that still fit when the earlier ones are counted.\<close>

definition validate_step ::
  "'a engine \<Rightarrow> migration_step \<Rightarrow> (int, int) pydict \<times> migration_step list
   \<Rightarrow> ((int, int) pydict \<times> migration_step list) result" where
  "validate_step E step = (\<lambda>(reserved_cpu, valid_steps).
     bindE (server_at E (ms_target_server_id step)) (\<lambda>target.
     bindE (service_of (ms_service_id step)) (\<lambda>svc.
       let cpu = resource_mips svc
       in if cpu \<le> free_capacity (e_store E) target - dget_or 0 reserved_cpu (srv_id target)
          then Inr (dadd (srv_id target) cpu reserved_cpu, valid_steps @ [step])
          else Inr (reserved_cpu, valid_steps))))"

definition sole_hosted :: "'a engine \<Rightarrow> server \<Rightarrow> int list" where
  "sole_hosted E s =
     map fst (filter (\<lambda>(svc_id, a). r_state (e_store E a) \<noteq> RepTerminated
                        \<and> \<not> hosted_elsewhere (e_store E) (e_servers E) (srv_id s) svc_id)
                (hosted_replicas s))"

definition migrate_step :: "'a world \<Rightarrow> int \<Rightarrow> migration_step \<Rightarrow> 'a engine \<Rightarrow> 'a engine result" where
  "migrate_step W server_id step E =
     bindE (place_replica W (ms_target_server_id step) (ms_service_id step) E) (\<lambda>(placed, E').
       Inr (case placed of
              None \<Rightarrow> E'
            | Some _ \<Rightarrow>
                E'\<lparr>pending_migrations :=
                     dset (ms_target_server_id step, ms_service_id step) server_id (pending_migrations E')\<rparr>))"

definition drain_unmigrated :: "int list \<Rightarrow> nat \<Rightarrow> 'a engine \<Rightarrow> 'a engine" where
  "drain_unmigrated migrated_services a E =
     (if r_service_id (e_store E a) \<in> set migrated_services then E else start_replica_drain a E)"

definition start_server_drain :: "'a world \<Rightarrow> int \<Rightarrow> 'a engine \<Rightarrow> (bool \<times> 'a engine) result" where
  "start_server_drain W server_id E =
     bindE (server_at E server_id) (\<lambda>s.
       if srv_state s \<noteq> SrvActive then Inr (False, E)
       else bindE (alg_migration_decision (w_alg W) (e_algorithm E) (service_demand_centroid E) s (e_servers E) (e_store E)) (\<lambda>proposed.
            bindE (foldE (validate_step E) proposed ([], [])) (\<lambda>(_, steps).
              let migrated_services = map ms_service_id steps;
                  unmigrated = filter (\<lambda>k. k \<notin> set migrated_services) (sole_hosted E s)
              in if unmigrated \<noteq> []
                 then bindE (trigger_emergency_boot W unmigrated s E) (\<lambda>E'. Inr (False, E'))
                 else let E1 = put_server server_id
                            (s\<lparr>srv_state := SrvDraining, drain_started_at := Some (e_now E),
                               last_transition_time := e_now E\<rparr>) E
                      in bindE (foldE (migrate_step W server_id) steps E1) (\<lambda>E2.
                           let E3 = fold (drain_unmigrated migrated_services) (dvals (hosted_replicas s)) E2
                           in Inr (True, push (e_now E3 + SERVER_DRAIN_GRACE_SEC)
                                           (ServerDrainDone server_id) E3)))))"

definition handle_drain_done :: "int \<Rightarrow> 'a engine \<Rightarrow> 'a engine result" where
  "handle_drain_done server_id E =
     bindE (server_at E server_id) (\<lambda>s.
       if \<exists>a \<in> set (dvals (hosted_replicas s)). r_state (e_store E a) \<noteq> RepTerminated
       then Inr (push (e_now E + SERVER_DRAIN_GRACE_SEC) (ServerDrainDone server_id) E)
       else let s' = s\<lparr>hosted_replicas := filter (\<lambda>(_, a). r_state (e_store E a) \<noteq> RepTerminated)
                                            (hosted_replicas s),
                       srv_state := SrvOff, last_transition_time := e_now E,
                       num_shutdowns := num_shutdowns s + 1\<rparr>
            in Inr (record_metric (record_transition ServerShutdown) (put_server server_id s' E)))"

section \<open>Initial placement\<close>

definition initial_bts :: "'a world \<Rightarrow> event_row list \<Rightarrow> (real \<times> real) list" where
  "initial_bts W df =
     (case df of
        [] \<Rightarrow> w_drop_duplicates W []
      | row # rows \<Rightarrow>
          let first = fold (\<lambda>r m. min m (row_start r)) rows (row_start row)
          in w_drop_duplicates W
               (map (\<lambda>r. (row_lat r, row_long r))
                  (filter (\<lambda>r. row_start r \<le> first + MONITOR_WINDOW_SEC) df)))"

definition nearest_capable_server ::
  "'a world \<Rightarrow> int \<Rightarrow> int list \<Rightarrow> 'a engine \<Rightarrow> int option result" where
  "nearest_capable_server W service_id candidate_ids E =
     bindE (service_of service_id) (\<lambda>svc.
     bindE (mapE (server_at E) candidate_ids) (\<lambda>ss.
       let candidates = filter (\<lambda>s. can_host (w_cfg W) (e_store E) s service_id (resource_mips svc) None) ss
       in if candidates = [] then Inr None
          else bindE (mean_position candidates) (\<lambda>centroid.
                 Inr (map_option srv_id (first_by (km_from centroid) candidates)))))"

definition place_initial :: "'a world \<Rightarrow> int list \<Rightarrow> int \<Rightarrow> 'a engine \<Rightarrow> 'a engine result" where
  "place_initial W selected service_id E =
     bindE (nearest_capable_server W service_id selected E) (\<lambda>target.
       case target of
         None \<Rightarrow> Inr E
       | Some t \<Rightarrow> bindE (place_replica W t service_id E) (\<lambda>(_, E'). Inr E'))"

definition initial_placement :: "'a world \<Rightarrow> 'a engine \<Rightarrow> 'a engine result" where
  "initial_placement W E =
     bindE (alg_initial_placement (w_alg W) (e_algorithm E) (e_servers E) (initial_bts W (events_df E)))
       (\<lambda>selected.
          bindE (foldE (\<lambda>sid. start_server_boot sid False) selected E) (\<lambda>E1.
            foldE (place_initial W selected) ACTIVE_SERVICES E1))"

end
