(* ===== verification/Lifecycle.thy ===== *)
theory Lifecycle
  imports Engine
begin

text \<open>
  The invariants of the engine and what the life-cycle operations do to them. \<open>store_inv\<close>
  ties the replica objects, the servers that host them and the per-service lists together
  and bounds the CPU in use; \<open>life_inv\<close> says that every server and replica in a transient
  state has the event that ends it on the agenda; \<open>agenda_inv\<close> that the agenda is in order
  and lies in the future. An operation in progress may owe an event or hold one that was
  just taken from the agenda: the multiset \<open>X\<close> of event types counts as pending.
\<close>

section \<open>Definitions\<close>

definition pend :: "event_type multiset \<Rightarrow> 'a engine \<Rightarrow> event_type \<Rightarrow> nat" where
  "pend X E ty = count (image_mset ev_type (mset (e_heap E)) + X) ty"

definition hosts :: "'a engine \<Rightarrow> int \<Rightarrow> int \<Rightarrow> nat \<Rightarrow> bool" where
  "hosts E k svc a \<longleftrightarrow> (\<exists>s. dget (e_servers E) k = Some s \<and> dget (hosted_replicas s) svc = Some a)"

definition in_srv_state :: "'a engine \<Rightarrow> int \<Rightarrow> server_state \<Rightarrow> bool" where
  "in_srv_state E k st \<longleftrightarrow> (\<exists>s. dget (e_servers E) k = Some s \<and> srv_state s = st)"

definition server_inv :: "heap \<Rightarrow> server \<Rightarrow> bool" where
  "server_inv h s \<longleftrightarrow> distinct (dkeys (hosted_replicas s)) \<and> set (dkeys (hosted_replicas s)) \<subseteq> set ACTIVE_SERVICES
     \<and> 0 < srv_capacity s \<and> used_cpu h s \<le> srv_capacity s \<and> \<bar>srv_lat s\<bar> \<le> 90"

definition hosted_inv :: "'a engine \<Rightarrow> int \<Rightarrow> int \<Rightarrow> nat \<Rightarrow> bool" where
  "hosted_inv E k svc a \<longleftrightarrow> a < next_ref E \<and> r_service_id (e_store E a) = svc \<and> r_server_id (e_store E a) = k
     \<and> r_state (e_store E a) \<noteq> RepTerminated \<and> a \<in> set (by_service E svc)"

definition store_inv :: "'a engine \<Rightarrow> bool" where
  "store_inv E \<longleftrightarrow> wf_servers (e_servers E)
     \<and> (\<forall>k s. dget (e_servers E) k = Some s \<longrightarrow> server_inv (e_store E) s)
     \<and> (\<forall>k svc a. hosts E k svc a \<longrightarrow> hosted_inv E k svc a)
     \<and> (\<forall>svc. distinct (by_service E svc))
     \<and> (\<forall>svc a. a \<in> set (by_service E svc) \<longrightarrow> hosts E (r_server_id (e_store E a)) svc a)
     \<and> (\<forall>a. queue_ok (e_store E a))"

definition replica_life :: "event_type multiset \<Rightarrow> 'a engine \<Rightarrow> int \<Rightarrow> int \<Rightarrow> nat \<Rightarrow> bool" where
  "replica_life X E k svc a \<longleftrightarrow>
     \<not> in_srv_state E k SrvOff
     \<and> (r_state (e_store E a) = RepStarting \<longrightarrow>
          r_ready_since (e_store E a) = None \<and> r_created_at (e_store E a) \<le> e_now E
          \<and> (in_srv_state E k SrvBooting \<or> 0 < pend X E (ReplicaReady k svc)))
     \<and> (r_state (e_store E a) = RepDraining \<longrightarrow> 0 < pend X E (ReplicaTerminated k svc))"

definition life_inv :: "event_type multiset \<Rightarrow> 'a engine \<Rightarrow> bool" where
  "life_inv X E \<longleftrightarrow>
     (\<forall>k. pend X E (ServerBootDone k) = (if in_srv_state E k SrvBooting then 1 else 0))
     \<and> (\<forall>k. pend X E (ServerDrainDone k) = (if in_srv_state E k SrvDraining then 1 else 0))
     \<and> (\<forall>k svc a. hosts E k svc a \<longrightarrow> replica_life X E k svc a)"

text \<open>The only input from outside: the base stations of the trace lie on the globe.\<close>

fun sound_event :: "event_type \<Rightarrow> bool" where
  "sound_event (RequestArrival row) = (\<bar>row_lat row\<bar> \<le> 90)"
| "sound_event _ = True"

definition agenda_inv :: "'a engine \<Rightarrow> bool" where
  "agenda_inv E \<longleftrightarrow> by_key (e_heap E) \<and> (\<forall>e \<in> set (e_heap E). e_now E \<le> ev_time e \<and> ev_seq e \<le> e_seq E
        \<and> sound_event (ev_type e))
     \<and> distinct (map ev_seq (e_heap E))"

definition engine_inv :: "event_type multiset \<Rightarrow> 'a engine \<Rightarrow> bool" where
  "engine_inv X E \<longleftrightarrow> store_inv E \<and> life_inv X E \<and> agenda_inv E"

text \<open>
  How many more events an event can lead to before the next tick: an arrival is routed, a
  routed request is followed by a resynchronisation, a server that has booted starts the
  replicas it hosts, and a drain is checked again every \<open>SERVER_DRAIN_GRACE_SEC\<close> up to the
  end of the run.
\<close>

definition max_hosted :: nat where
  "max_hosted = length ACTIVE_SERVICES"

definition rechecks :: "real \<Rightarrow> real \<Rightarrow> nat" where
  "rechecks cutoff t = nat (\<lfloor>(cutoff - t) / SERVER_DRAIN_GRACE_SEC\<rfloor> + 1)"

definition event_weight :: "real \<Rightarrow> event \<Rightarrow> nat" where
  "event_weight cutoff e =
     1 + (case ev_type e of
            RequestArrival _ \<Rightarrow> 2
          | RequestRouted _ \<Rightarrow> 1
          | DecisionTick \<Rightarrow> 0
          | ServerBootDone _ \<Rightarrow> 2 * max_hosted
          | ServerDrainDone _ \<Rightarrow> rechecks cutoff (ev_time e)
          | ReplicaReady _ _ \<Rightarrow> 1
          | ReplicaTerminated _ _ \<Rightarrow> 0
          | EnergyResync \<Rightarrow> 0)"

definition agenda_weight :: "'a engine \<Rightarrow> nat" where
  "agenda_weight E = (\<Sum>e\<leftarrow>e_heap E. event_weight (e_cutoff E) e)"

text \<open>
  What an operation between two events leaves alone: the clock, the end of the run, the tick
  that waits, the fixed data of the fleet. It adds events of total weight at most \<open>n\<close>.
\<close>

definition tick_times :: "'a engine \<Rightarrow> real multiset" where
  "tick_times E = image_mset ev_time (filter_mset (\<lambda>e. ev_type e = DecisionTick) (mset (e_heap E)))"

definition fixed_data :: "server \<Rightarrow> int \<times> profile \<times> real \<times> real \<times> int \<times> real \<times> real" where
  "fixed_data s = (srv_id s, srv_profile s, srv_lat s, srv_long s, srv_capacity s, srv_p_idle s, srv_p_max s)"

definition fleet :: "'a engine \<Rightarrow> (int \<times> int \<times> profile \<times> real \<times> real \<times> int \<times> real \<times> real) list" where
  "fleet E = map (\<lambda>(k, s). (k, fixed_data s)) (e_servers E)"

definition evolves :: "nat \<Rightarrow> 'a engine \<Rightarrow> 'a engine \<Rightarrow> bool" where
  "evolves n E E' \<longleftrightarrow> e_now E' = e_now E \<and> e_cutoff E' = e_cutoff E \<and> tick_times E' = tick_times E
     \<and> agenda_weight E' \<le> agenda_weight E + n \<and> fleet E' = fleet E"

lemma engine_invI: "store_inv E \<Longrightarrow> life_inv X E \<Longrightarrow> agenda_inv E \<Longrightarrow> engine_inv X E"
  by (simp add: engine_inv_def)

section \<open>Frames\<close>

text \<open>The part of the state the invariants read.\<close>

definition same_core :: "'a engine \<Rightarrow> 'a engine \<Rightarrow> bool" where
  "same_core E E' \<longleftrightarrow> e_servers E' = e_servers E \<and> replicas_by_service E' = replicas_by_service E
     \<and> e_store E' = e_store E \<and> next_ref E' = next_ref E \<and> e_heap E' = e_heap E \<and> e_seq E' = e_seq E
     \<and> e_now E' = e_now E \<and> e_cutoff E' = e_cutoff E"

lemma same_core_inv: "same_core E E' \<Longrightarrow> engine_inv X E' = engine_inv X E"
  by (simp add: same_core_def engine_inv_def store_inv_def life_inv_def agenda_inv_def hosts_def
      in_srv_state_def pend_def replica_life_def hosted_inv_def by_service_def)

lemma same_core_record_metric [simp]: "same_core E (record_metric f E)"
  by (simp add: same_core_def record_metric_def)

lemma pend_push [simp]: "pend X (push t ty E) ty' = pend X E ty' + (if ty' = ty then 1 else 0)"
  by (simp add: pend_def push_def)

lemma push_frame [simp, frame_simps]:
  "e_servers (push t ty E) = e_servers E" "replicas_by_service (push t ty E) = replicas_by_service E"
  "e_store (push t ty E) = e_store E" "next_ref (push t ty E) = next_ref E" "e_now (push t ty E) = e_now E"
  "e_cutoff (push t ty E) = e_cutoff E" "hosts (push t ty E) = hosts E"
  "in_srv_state (push t ty E) = in_srv_state E" "by_service (push t ty E) = by_service E"
  "pending_migrations (push t ty E) = pending_migrations E"
  by (simp_all add: push_def hosts_def in_srv_state_def by_service_def fun_eq_iff)

lemma distinct_heappush: "distinct (map f (heappush e q)) \<longleftrightarrow> f e \<notin> f ` set q \<and> distinct (map f q)"
proof -
  have "mset (map f (heappush e q)) = mset (map f (e # q))" by (simp add: heappush_def)
  then have "distinct (map f (heappush e q)) = distinct (map f (e # q))" by (rule mset_eq_imp_distinct_iff)
  then show ?thesis by simp
qed

lemma agenda_inv_push: 
  assumes "agenda_inv E" and "e_now E \<le> t" and "sound_event ty"
  shows "agenda_inv (push t ty E)"
proof -
  have "Suc (e_seq E) \<notin> ev_seq ` set (e_heap E)"
    using assms(1) by (auto simp: agenda_inv_def dest!: bspec)
  with assms show ?thesis
    by (auto simp: agenda_inv_def push_def heap.ok_push distinct_heappush le_SucI)
qed

lemma store_inv_push [simp]: "store_inv (push t ty E) = store_inv E"
  by (simp add: store_inv_def hosted_inv_def)

text \<open>An event that no state waits for, or that settles a debt.\<close>

definition owed :: "event_type \<Rightarrow> bool" where
  "owed ty \<longleftrightarrow> (case ty of ServerBootDone _ \<Rightarrow> True | ServerDrainDone _ \<Rightarrow> True | _ \<Rightarrow> False)"

lemma life_inv_push: "life_inv X E \<Longrightarrow> \<not> owed ty \<Longrightarrow> life_inv X (push t ty E)"
  by (auto simp: life_inv_def replica_life_def owed_def)

lemma pend_settle: "pend X (push t ty E) = pend (add_mset ty X) E"
  by (rule ext) (simp add: pend_def push_def)

lemma life_inv_settle: "life_inv X (push t ty E) = life_inv (add_mset ty X) E"
  by (simp add: life_inv_def replica_life_def pend_settle)

lemma engine_inv_push: "engine_inv X E \<Longrightarrow> \<not> owed ty \<Longrightarrow> e_now E \<le> t \<Longrightarrow> sound_event ty \<Longrightarrow>
   engine_inv X (push t ty E)"
  by (simp add: engine_inv_def agenda_inv_push life_inv_push)

lemma engine_inv_settle: "engine_inv (add_mset ty X) E \<Longrightarrow> e_now E \<le> t \<Longrightarrow> sound_event ty \<Longrightarrow>
   engine_inv X (push t ty E)"
  by (simp add: engine_inv_def agenda_inv_push life_inv_settle)

section \<open>Changes to one object\<close>

text \<open>Replacing a server by one that hosts the same replicas, in the same state.\<close>

definition same_server :: "server \<Rightarrow> server \<Rightarrow> bool" where
  "same_server s s' \<longleftrightarrow> srv_id s' = srv_id s \<and> srv_profile s' = srv_profile s
     \<and> srv_capacity s' = srv_capacity s \<and> srv_lat s' = srv_lat s \<and> hosted_replicas s' = hosted_replicas s"

lemma put_server_frame [simp, frame_simps]:
  "replicas_by_service (put_server k s E) = replicas_by_service E"
  "e_store (put_server k s E) = e_store E" "next_ref (put_server k s E) = next_ref E"
  "e_heap (put_server k s E) = e_heap E" "e_seq (put_server k s E) = e_seq E"
  "e_now (put_server k s E) = e_now E" "e_cutoff (put_server k s E) = e_cutoff E"
  "pend X (put_server k s E) = pend X E" "by_service (put_server k s E) = by_service E"
  "e_servers (put_server k s E) = dset k s (e_servers E)"
  "agenda_inv (put_server k s E) = agenda_inv E"
  by (simp_all add: put_server_def pend_def by_service_def agenda_inv_def fun_eq_iff)

lemma put_replica_frame [simp, frame_simps]:
  "replicas_by_service (put_replica a r E) = replicas_by_service E"
  "e_servers (put_replica a r E) = e_servers E" "next_ref (put_replica a r E) = next_ref E"
  "e_heap (put_replica a r E) = e_heap E" "e_seq (put_replica a r E) = e_seq E"
  "e_now (put_replica a r E) = e_now E" "e_cutoff (put_replica a r E) = e_cutoff E"
  "pend X (put_replica a r E) = pend X E" "by_service (put_replica a r E) = by_service E"
  "e_store (put_replica a r E) = (e_store E)(a := r)"
  "hosts (put_replica a r E) = hosts E" "in_srv_state (put_replica a r E) = in_srv_state E"
  "agenda_inv (put_replica a r E) = agenda_inv E"
  by (simp_all add: put_replica_def pend_def by_service_def hosts_def in_srv_state_def agenda_inv_def
      fun_eq_iff)

lemma cpu_of_same: "srv_profile s' = srv_profile s \<Longrightarrow> cpu_of s' r = cpu_of s r"
  by (simp add: cpu_of_def effective_mips_def speed_factor_def host_mips_def)

lemma server_inv_same: "same_server s s' \<Longrightarrow> server_inv h s' = server_inv h s"
  using cpu_of_same [of s' s] by (simp add: server_inv_def same_server_def used_cpu_def)

lemma wf_servers_dset: "wf_servers d \<Longrightarrow> srv_id s = k \<Longrightarrow> wf_servers (dset k s d)"
  unfolding wf_servers_def by (auto simp: set_dset_distinct)

lemma wf_servers_id: "wf_servers d \<Longrightarrow> dget d k = Some s \<Longrightarrow> srv_id s = k"
  by (auto simp: wf_servers_def dest!: dget_mem)

lemma hosts_put_server:
  "hosts (put_server k s E) k' svc a = (if k' = k then dget (hosted_replicas s) svc = Some a else hosts E k' svc a)"
  by (simp add: hosts_def dict_simps)

lemma in_srv_state_put_server:
  "in_srv_state (put_server k s E) k' st = (if k' = k then srv_state s = st else in_srv_state E k' st)"
  by (simp add: in_srv_state_def dict_simps)

lemma hosts_same: "dget (e_servers E) k = Some s \<Longrightarrow> same_server s s' \<Longrightarrow> hosts (put_server k s' E) = hosts E"
  by (rule ext)+ (simp add: hosts_put_server same_server_def, auto simp: hosts_def)

lemma store_inv_put_server:
  assumes "store_inv E" and "dget (e_servers E) k = Some s" and "same_server s s'"
  shows "store_inv (put_server k s' E)"
proof -
  have "wf_servers (dset k s' (e_servers E))"
    using assms by (intro wf_servers_dset)
      (auto simp: store_inv_def same_server_def dest: wf_servers_id)
  moreover have "server_inv (e_store E) s'"
    using assms server_inv_same by (auto simp: store_inv_def)
  ultimately show ?thesis
    using assms(1) unfolding store_inv_def hosts_same [OF assms(2,3)]
    by (auto simp: dict_simps hosted_inv_def)
qed

lemma life_inv_put_server:
  assumes "life_inv X E" and "dget (e_servers E) k = Some s" and "same_server s s'" and "srv_state s' = srv_state s"
  shows "life_inv X (put_server k s' E)"
proof -
  have "in_srv_state (put_server k s' E) k' st = in_srv_state E k' st" for k' st
    unfolding in_srv_state_put_server using assms(2,4) by (simp add: in_srv_state_def)
  then have "in_srv_state (put_server k s' E) = in_srv_state E" by (intro ext)
  with assms(1) show ?thesis
    by (simp add: life_inv_def hosts_same [OF assms(2,3)] replica_life_def)
qed

lemma engine_inv_put_server:
  "engine_inv X E \<Longrightarrow> dget (e_servers E) k = Some s \<Longrightarrow> same_server s s' \<Longrightarrow> srv_state s' = srv_state s \<Longrightarrow>
   engine_inv X (put_server k s' E)"
  by (simp add: engine_inv_def store_inv_put_server life_inv_put_server)

text \<open>Replacing a replica object by one with the same identity.\<close>

definition same_replica :: "replica \<Rightarrow> replica \<Rightarrow> bool" where
  "same_replica r r' \<longleftrightarrow> r_service_id r' = r_service_id r \<and> r_server_id r' = r_server_id r
     \<and> (r_state r' = RepTerminated \<longrightarrow> r_state r = RepTerminated) \<and> (queue_ok r \<longrightarrow> queue_ok r')"

lemma used_cpu_same:
  assumes "\<And>a. r_service_id (h' a) = r_service_id (h a)"
  shows "used_cpu h' s = used_cpu h s"
  by (simp add: used_cpu_def cpu_of_def assms)

lemma store_inv_store:
  assumes "store_inv E" and "\<And>a. same_replica (e_store E a) (h' a)"
  shows "store_inv (E\<lparr>e_store := h'\<rparr>)"
proof -
  have ids: "r_service_id (h' a) = r_service_id (e_store E a)" "r_server_id (h' a) = r_server_id (e_store E a)" for a
    using assms(2) [of a] by (simp_all add: same_replica_def)
  have "used_cpu h' s = used_cpu (e_store E) s" for s by (rule used_cpu_same) (rule ids)
  moreover have "hosts (E\<lparr>e_store := h'\<rparr>) = hosts E" "by_service (E\<lparr>e_store := h'\<rparr>) = by_service E"
    by (simp_all add: hosts_def by_service_def fun_eq_iff)
  moreover have "queue_ok (h' a)" for a
    using assms by (auto simp: store_inv_def same_replica_def)
  moreover have "hosted_inv (E\<lparr>e_store := h'\<rparr>) k svc a" if "hosted_inv E k svc a" for k svc a
    using that assms(2) [of a] by (auto simp: hosted_inv_def same_replica_def by_service_def)
  ultimately show ?thesis
    using assms(1) by (simp add: store_inv_def server_inv_def ids)
qed

lemma put_replica_as_store: "put_replica a r E = E\<lparr>e_store := (e_store E)(a := r)\<rparr>"
  by (simp add: put_replica_def)

lemma store_inv_put_replica:
  "store_inv E \<Longrightarrow> same_replica (e_store E a) r \<Longrightarrow> store_inv (put_replica a r E)"
  unfolding put_replica_as_store by (rule store_inv_store) (simp_all add: same_replica_def)

text \<open>Removing finished requests from queues changes nothing the invariants read.\<close>

lemma engine_inv_pruned:
  assumes "engine_inv X E" and "pruned now (e_store E) h'"
  shows "engine_inv X (E\<lparr>e_store := h'\<rparr>)"
proof -
  note same = prunedD(1,2,5,6,7) [OF assms(2)]
  have "store_inv (E\<lparr>e_store := h'\<rparr>)"
    using assms(1) pruned_queue_ok [OF assms(2)]
    by (intro store_inv_store) (simp_all add: engine_inv_def same_replica_def same)
  moreover have "life_inv X (E\<lparr>e_store := h'\<rparr>)"
    using assms(1)
    by (simp add: same engine_inv_def life_inv_def replica_life_def pend_def hosts_def in_srv_state_def)
  ultimately show ?thesis using assms(1) by (simp add: engine_inv_def agenda_inv_def)
qed

section \<open>Evolution\<close>

lemma evolves_refl [simp]: "evolves n E E"
  by (simp add: evolves_def)

lemma evolves_trans: "evolves n E E' \<Longrightarrow> evolves m E' E'' \<Longrightarrow> evolves (n + m) E E''"
  by (simp add: evolves_def)

lemma evolves_mono: "evolves n E E' \<Longrightarrow> n \<le> m \<Longrightarrow> evolves m E E'"
  by (simp add: evolves_def)

lemma evolves_0_trans: "evolves 0 E E' \<Longrightarrow> evolves m E' E'' \<Longrightarrow> evolves m E E''"
  "evolves n E E' \<Longrightarrow> evolves 0 E' E'' \<Longrightarrow> evolves n E E''"
  using evolves_trans by fastforce+

text \<open>Everything but the servers' fixed data and the agenda is free to change.\<close>

lemma evolves_same:
  "e_now E' = e_now E \<Longrightarrow> e_cutoff E' = e_cutoff E \<Longrightarrow> e_heap E' = e_heap E \<Longrightarrow> fleet E' = fleet E \<Longrightarrow>
   evolves n E E'"
  by (simp add: evolves_def tick_times_def agenda_weight_def)

lemma evolves_same_core: "same_core E E' \<Longrightarrow> evolves n E E'"
  by (rule evolves_same) (simp_all add: same_core_def fleet_def)

lemma evolves_store [simp]: "evolves n E (E\<lparr>e_store := h\<rparr>)"
  by (rule evolves_same) (simp_all add: fleet_def)

lemma evolves_put_replica [simp]: "evolves n E (put_replica a r E)"
  by (rule evolves_same) (simp_all add: fleet_def)

lemma evolves_record_metric [simp]: "evolves n E (record_metric f E)"
  by (rule evolves_same_core) simp

lemma map_dset_same:
  "dget d k = Some s \<Longrightarrow> f (k, s') = f (k, s) \<Longrightarrow> map f (dset k s' d) = map f d"
  by (induction d) auto

lemma evolves_put_server:
  "dget (e_servers E) k = Some s \<Longrightarrow> fixed_data s' = fixed_data s \<Longrightarrow> evolves n E (put_server k s' E)"
  by (rule evolves_same) (simp_all add: fleet_def map_dset_same)

lemma sum_list_mset: "(\<Sum>e\<leftarrow>xs. (w e :: nat)) = sum_mset (image_mset w (mset xs))"
  by (induction xs) auto

lemma evolves_push:
  assumes "ty \<noteq> DecisionTick"
  shows "evolves (event_weight (e_cutoff E) \<lparr>ev_time = t, ev_seq = e_seq E + 1, ev_type = ty\<rparr>) E (push t ty E)"
  using assms by (simp add: evolves_def push_def tick_times_def agenda_weight_def fleet_def sum_list_mset)

lemma fold_evolves:
  assumes "\<And>x u. x \<in> set xs \<Longrightarrow> evolves n u (f x u)"
  shows "evolves (n * length xs) E (fold f xs E)"
  using assms
proof (induction xs arbitrary: E)
  case (Cons x xs)
  from Cons.prems have "evolves n E (f x E)" by simp
  moreover have "evolves (n * length xs) (f x E) (fold f xs (f x E))" using Cons by auto
  ultimately show ?case using evolves_trans by fastforce
qed simp

section \<open>Consuming an event\<close>

text \<open>An event that is held may be forgotten once no replica waits for it.\<close>

lemma life_inv_drop:
  assumes "life_inv (add_mset ty X) E" and "\<not> owed ty"
    and "\<And>k svc a. hosts E k svc a \<Longrightarrow> ty = ReplicaReady k svc \<Longrightarrow> r_state (e_store E a) \<noteq> RepStarting"
    and "\<And>k svc a. hosts E k svc a \<Longrightarrow> ty = ReplicaTerminated k svc \<Longrightarrow> r_state (e_store E a) \<noteq> RepDraining"
  shows "life_inv X E"
proof -
  have p: "pend (add_mset ty X) E ty' = pend X E ty' + (if ty' = ty then 1 else 0)" for ty'
    by (simp add: pend_def)
  have "replica_life X E k svc a" if h: "hosts E k svc a" for k svc a
  proof -
    have rl: "replica_life (add_mset ty X) E k svc a" using assms(1) h by (simp add: life_inv_def)
    show ?thesis
      using rl assms(3) [OF h] assms(4) [OF h] unfolding replica_life_def p
      by (cases "ty = ReplicaReady k svc"; cases "ty = ReplicaTerminated k svc") simp_all
  qed
  moreover have "pend (add_mset ty X) E (ServerBootDone k) = pend X E (ServerBootDone k)"
    "pend (add_mset ty X) E (ServerDrainDone k) = pend X E (ServerDrainDone k)" for k
    using assms(2) by (auto simp: p owed_def)
  ultimately show ?thesis using assms(1) by (simp add: life_inv_def)
qed

end
