(* ===== verification/Replicas.thy ===== *)
theory Replicas
  imports Lifecycle
begin

text \<open>
  The operations on replicas keep the invariants: a replica is placed, becomes ready, is
  drained and terminated, and each wait has its event.
\<close>

lemma life_inv_put_replica:
  assumes "life_inv X E" and "\<And>k svc. hosts E k svc a \<Longrightarrow> replica_life X (put_replica a r E) k svc a"
  shows "life_inv X (put_replica a r E)"
proof -
  have "replica_life X (put_replica a r E) k svc b" if "hosts E k svc b" for k svc b
    using assms that by (cases "b = a") (auto simp: life_inv_def replica_life_def)
  then show ?thesis using assms(1) by (simp add: life_inv_def)
qed

lemma store_hosted: "store_inv E \<Longrightarrow> hosts E k svc a \<Longrightarrow> hosted_inv E k svc a"
  by (simp add: store_inv_def)

lemma hosts_unique: "hosts E k svc a \<Longrightarrow> hosts E k svc b \<Longrightarrow> a = b"
  by (auto simp: hosts_def)

lemma life_inv_add: "life_inv X E \<Longrightarrow> \<not> owed ty \<Longrightarrow> life_inv (add_mset ty X) E"
  using life_inv_push [of X E ty 0] by (simp add: life_inv_settle)

section \<open>Ready and draining\<close>

lemma schedule_replica_ready_inv: "engine_inv X E \<Longrightarrow> engine_inv X (schedule_replica_ready a E)"
  unfolding schedule_replica_ready_def
  by (rule engine_inv_push) (simp_all add: owed_def POD_STARTUP_DELAY_SEC_def)

lemma schedule_replica_ready_evolves: "evolves 2 E (schedule_replica_ready a E)"
  unfolding schedule_replica_ready_def
  by (rule evolves_mono [OF evolves_push]) (simp_all add: event_weight_def)

lemma schedule_replica_ready_frame [simp, frame_simps]:
  "e_servers (schedule_replica_ready a E) = e_servers E" "e_store (schedule_replica_ready a E) = e_store E"
  "hosts (schedule_replica_ready a E) = hosts E" "in_srv_state (schedule_replica_ready a E) = in_srv_state E"
  "e_now (schedule_replica_ready a E) = e_now E" "by_service (schedule_replica_ready a E) = by_service E"
  "pend X (schedule_replica_ready b E) ty = pend X E ty +
     (if ty = ReplicaReady (r_server_id (e_store E b)) (r_service_id (e_store E b)) then 1 else 0)"
  by (simp_all add: schedule_replica_ready_def)

lemma start_replica_drain_inv:
  assumes "engine_inv X E"
  shows "engine_inv X (start_replica_drain a E)"
proof (cases "r_state (e_store E a) = RepTerminated")
  case True
  with assms show ?thesis by (simp add: start_replica_drain_def)
next
  case False
  let ?r = "(e_store E a)\<lparr>r_state := RepDraining, r_drain_started_at := Some (e_now E)\<rparr>"
  let ?ty = "ReplicaTerminated (r_server_id ?r) (r_service_id ?r)"
  have "store_inv (put_replica a ?r E)"
    using assms by (intro store_inv_put_replica) (auto simp: engine_inv_def same_replica_def)
  moreover have "life_inv (add_mset ?ty X) (put_replica a ?r E)"
  proof (rule life_inv_put_replica)
    show "life_inv (add_mset ?ty X) E"
      using assms by (intro life_inv_add) (simp_all add: engine_inv_def owed_def)
    fix k svc assume h: "hosts E k svc a"
    then have "hosted_inv E k svc a" "replica_life X E k svc a"
      using assms by (simp_all add: engine_inv_def store_hosted life_inv_def)
    then show "replica_life (add_mset ?ty X) (put_replica a ?r E) k svc a"
      by (simp add: replica_life_def hosted_inv_def) (simp add: pend_def)
  qed
  ultimately have "engine_inv (add_mset ?ty X) (put_replica a ?r E)"
    using assms by (simp add: engine_inv_def)
  then show ?thesis
    using False by (simp add: start_replica_drain_def Let_def)
      (rule engine_inv_settle, simp_all add: GRACEFUL_TERMINATION_DELAY_SEC_def)
qed

lemma start_replica_drain_evolves: "evolves 1 E (start_replica_drain a E)"
proof (cases "r_state (e_store E a) = RepTerminated")
  case False
  then show ?thesis
    by (simp add: start_replica_drain_def Let_def)
      (rule evolves_0_trans(1) [OF evolves_put_replica], rule evolves_mono [OF evolves_push],
       simp_all add: event_weight_def)
qed (simp add: start_replica_drain_def)

lemma start_replica_drain_frame [simp, frame_simps]:
  "e_servers (start_replica_drain a E) = e_servers E" "hosts (start_replica_drain a E) = hosts E"
  "in_srv_state (start_replica_drain a E) = in_srv_state E" "e_now (start_replica_drain a E) = e_now E"
  "by_service (start_replica_drain a E) = by_service E"
  by (simp_all add: start_replica_drain_def Let_def)

lemma start_replica_drain_state:
  "r_state (e_store (start_replica_drain a E) b) =
     (if b = a \<and> r_state (e_store E a) \<noteq> RepTerminated then RepDraining else r_state (e_store E b))"
  by (simp add: start_replica_drain_def Let_def)

section \<open>Placing\<close>

lemma exec_time_nonneg:
  assumes "compute_exec_time_sec k (host_mips s) = Inr et" shows "0 \<le> et"
proof -
  obtain svc where svc: "dget SERVICES_INFO k = Some svc"
    "et = real_of_int (task_length_mi svc) / (real_of_int (resource_mips svc)
            * (host_mips s / real_of_int REFERENCE_MIPS_PER_CORE))"
    using assms by (auto simp: compute_exec_time_sec_def bindE_Inr_iff Let_def service_of_def
        dlookup_Inr_iff split: if_splits)
  have "0 \<le> host_mips s / real_of_int REFERENCE_MIPS_PER_CORE"
    using speed_factor_range [of s] by (simp add: speed_factor_def)
  then show ?thesis
    unfolding svc(2) using SERVICES_INFO_ranges [OF svc(1)]
    by (intro divide_nonneg_nonneg [OF _ mult_nonneg_nonneg]) simp_all
qed

lemma can_host_fits:
  "can_host C h s svc cpu b \<Longrightarrow>
     svc \<notin> set (dkeys (hosted_replicas s)) \<and> used_cpu h s + effective_mips s cpu \<le> srv_capacity s"
  by (auto simp: can_host_def free_capacity_def split: if_splits)

lemma used_cpu_fresh:
  assumes "\<And>b. b \<in> set (dvals (hosted_replicas s)) \<Longrightarrow> b \<noteq> a"
  shows "used_cpu (h(a := r)) s = used_cpu h s"
  unfolding used_cpu_def using assms by (intro arg_cong [where f = sum_list] map_cong) auto

lemma place_replica_cases:
  assumes "place_replica W k svc E = Inr (p, E')"
  obtains (refused) "p = None" "E' = E"
  | (placed) s info et where
      "dget (e_servers E) k = Some s" "service_of svc = Inr info"
      "can_host (w_cfg W) (e_store E) s svc (resource_mips info) (centroid_of E svc)"
      "compute_exec_time_sec svc (host_mips s) = Inr et" "p = Some (next_ref E)"
      "E' = (let a = next_ref E;
                 E2 = record_metric (record_transition PodCreate)
                   (put_server k (s\<lparr>hosted_replicas := dset svc a (hosted_replicas s),
                       cumulative_energy_joule := cumulative_energy_joule s + E_POD_CREATE_J\<rparr>)
                     (put_replica a (new_replica svc k (svc_queue_len info) et (e_now E))
                      (E\<lparr>next_ref := a + 1,
                         replicas_by_service := dset svc (by_service E svc @ [a]) (replicas_by_service E)\<rparr>)))
             in if srv_state s = SrvActive then schedule_replica_ready a E2 else E2)"
  using assms by (auto simp: place_replica_def server_at_def bindE_Inr_iff dlookup_Inr_iff Let_def
      split: if_splits)

text \<open>The state after the objects have been linked, before the event is pushed.\<close>

definition placed_core :: "int \<Rightarrow> int \<Rightarrow> server \<Rightarrow> replica \<Rightarrow> 'a engine \<Rightarrow> 'a engine" where
  "placed_core k svc s' r E =
     put_server k s' (put_replica (next_ref E) r
       (E\<lparr>next_ref := next_ref E + 1,
          replicas_by_service := dset svc (by_service E svc @ [next_ref E]) (replicas_by_service E)\<rparr>))"

lemma placed_core_simps:
  "e_servers (placed_core k svc s' r E) = dset k s' (e_servers E)"
  "e_store (placed_core k svc s' r E) = (e_store E)(next_ref E := r)"
  "next_ref (placed_core k svc s' r E) = next_ref E + 1"
  "by_service (placed_core k svc s' r E) svc' =
     (if svc' = svc then by_service E svc @ [next_ref E] else by_service E svc')"
  "e_heap (placed_core k svc s' r E) = e_heap E" "e_seq (placed_core k svc s' r E) = e_seq E"
  "e_now (placed_core k svc s' r E) = e_now E"
  "pend X (placed_core k svc s' r E) = pend X E"
  by (simp_all add: placed_core_def by_service_def dict_simps pend_def fun_eq_iff)

lemma placed_core_hosts:
  assumes "dget (e_servers E) k = Some s" and "hosted_replicas s' = dset svc (next_ref E) (hosted_replicas s)"
  shows "hosts (placed_core k svc s' r E) k' svc' a \<longleftrightarrow>
           (if k' = k \<and> svc' = svc then a = next_ref E else hosts E k' svc' a)"
  using assms by (auto simp: hosts_def placed_core_simps dict_simps)

lemma placed_core_state:
  "dget (e_servers E) k = Some s \<Longrightarrow> srv_state s' = srv_state s \<Longrightarrow>
     in_srv_state (placed_core k svc s' r E) = in_srv_state E"
  unfolding in_srv_state_def placed_core_simps
  by (intro ext) (simp add: dict_simps)

lemma store_inv_placed:
  assumes inv: "store_inv E" and k: "dget (e_servers E) k = Some s" and svc: "service_of svc = Inr info"
    and host: "can_host C (e_store E) s svc (resource_mips info) b" and et: "0 \<le> et"
    and s': "s' = s\<lparr>hosted_replicas := dset svc (next_ref E) (hosted_replicas s), cumulative_energy_joule := j\<rparr>"
    and r: "r = new_replica svc k ql et t"
  shows "store_inv (placed_core k svc s' r E)"
proof -
  let ?a = "next_ref E" and ?E = "placed_core k svc s' r E"
  note inv' = inv [unfolded store_inv_def]
  note fits = can_host_fits [OF host]
  have free: "\<not> hosts E k svc b" for b using fits k by (force simp: hosts_def dest: dget_mem)
  have fresh: "b < ?a" if "hosts E k' svc' b" for k' svc' b
    using store_hosted [OF inv that] by (simp add: hosted_inv_def)
  have fresh_by: "?a \<notin> set (by_service E svc')" for svc'
    using inv' fresh by blast
  have fresh_vals: "b \<noteq> ?a" if "dget (e_servers E) k' = Some u" "b \<in> set (dvals (hosted_replicas u))" for k' u b
  proof -
    from that inv' have "distinct (dkeys (hosted_replicas u))" by (auto simp: server_inv_def)
    with that obtain svc' where "hosts E k' svc' b" by (auto simp: hosts_def dget_iff_mem)
    then show ?thesis using fresh by blast
  qed
  have id: "srv_id s' = k" using wf_servers_id k inv' s' by auto
  have r_simps: "r_service_id r = svc" "r_server_id r = k" "r_state r = RepStarting" "queue_ok r"
    using et by (auto simp: r queue_ok_new) (simp_all add: new_replica_def)
  have hosts: "hosts ?E k' svc' b \<longleftrightarrow> (if k' = k \<and> svc' = svc then b = ?a else hosts E k' svc' b)" for k' svc' b
    using placed_core_hosts [OF k] by (simp add: s')
  have active: "svc \<in> set ACTIVE_SERVICES" using svc service_of_active by blast
  have cpu: "cpu_of s' x = cpu_of s x" for x by (rule cpu_of_same) (simp add: s')
  have "used_cpu ((e_store E)(?a := r)) s' \<le> srv_capacity s'"
  proof -
    have "used_cpu ((e_store E)(?a := r)) s' =
            used_cpu ((e_store E)(?a := r)) s + cpu_of s r"
      using fits dset_new_append [of svc "hosted_replicas s" ?a] cpu
      by (simp add: used_cpu_def s')
    also have "used_cpu ((e_store E)(?a := r)) s = used_cpu (e_store E) s"
      using fresh_vals [OF k] by (rule used_cpu_fresh)
    also have "cpu_of s r = effective_mips s (resource_mips info)"
      using svc by (simp add: cpu_of_def r_simps resource_mips_of_def service_of_def dlookup_Inr_iff)
    finally show ?thesis using fits by (simp add: s' fun_upd_def)
  qed
  then have "server_inv ((e_store E)(?a := r)) s'"
    using inv' k active by (auto simp: server_inv_def s' dom_update)
  moreover have "server_inv ((e_store E)(?a := r)) u" if "dget (e_servers E) k' = Some u" for k' u
    using inv' that used_cpu_fresh [OF fresh_vals [OF that]] by (simp add: server_inv_def)
  moreover have "hosted_inv ?E k' svc' b" if "hosts ?E k' svc' b" for k' svc' b
  proof (cases "k' = k \<and> svc' = svc")
    case True
    with that show ?thesis by (simp add: hosts hosted_inv_def placed_core_simps r_simps)
  next
    case False
    with that have "hosts E k' svc' b" unfolding hosts by presburger
    from store_hosted [OF inv this] fresh [OF this] show ?thesis
      by (cases "svc' = svc") (simp_all add: hosted_inv_def placed_core_simps)
  qed
  moreover have "hosts ?E (r_server_id (e_store ?E b)) svc' b" if "b \<in> set (by_service ?E svc')" for svc' b
  proof (cases "b = ?a")
    case True
    with that fresh_by have "svc' = svc" by (auto simp: placed_core_simps split: if_splits)
    with True show ?thesis by (simp add: hosts placed_core_simps r_simps)
  next
    case False
    with that have "b \<in> set (by_service E svc')" by (auto simp: placed_core_simps split: if_splits)
    then have "hosts E (r_server_id (e_store E b)) svc' b" using inv' by blast
    with False free show ?thesis by (auto simp: hosts placed_core_simps)
  qed
  moreover have "wf_servers (dset k s' (e_servers E))" using inv' id by (simp add: wf_servers_dset)
  moreover have "distinct (by_service ?E svc')" for svc'
    using inv' fresh_by by (simp add: placed_core_simps)
  moreover have "queue_ok (e_store ?E b)" for b using inv' r_simps(4) by (simp add: placed_core_simps)
  ultimately show ?thesis
    unfolding store_inv_def by (simp add: placed_core_simps(1,2) dict_simps)
qed

lemma life_inv_placed:
  assumes inv: "store_inv E" "life_inv X E" and k: "dget (e_servers E) k = Some s"
    and up: "srv_state s = SrvActive \<or> srv_state s = SrvBooting"
    and s': "hosted_replicas s' = dset svc (next_ref E) (hosted_replicas s)" "srv_state s' = srv_state s"
    and r: "r = new_replica svc k ql et (e_now E)"
  shows "life_inv (if srv_state s = SrvActive then add_mset (ReplicaReady k svc) X else X)
           (placed_core k svc s' r E)"
proof -
  let ?a = "next_ref E" and ?E = "placed_core k svc s' r E"
  let ?X = "if srv_state s = SrvActive then add_mset (ReplicaReady k svc) X else X"
  have hosts: "hosts ?E k' svc' b \<longleftrightarrow> (if k' = k \<and> svc' = svc then b = ?a else hosts E k' svc' b)" for k' svc' b
    by (rule placed_core_hosts [OF k s'(1)])
  note st = placed_core_state [OF k s'(2)]
  have X: "life_inv ?X E" using inv(2) by (simp add: life_inv_add owed_def)
  have here: "in_srv_state E k st \<longleftrightarrow> srv_state s = st" for st using k by (simp add: in_srv_state_def)
  have "replica_life ?X ?E k' svc' b" if "hosts ?E k' svc' b" for k' svc' b
  proof (cases "k' = k \<and> svc' = svc")
    case True
    with that have "b = ?a" by (simp add: hosts)
    with True up show ?thesis
      by (auto simp: replica_life_def st here placed_core_simps r new_replica_def) (simp add: pend_def)
  next
    case False
    with that have h: "hosts E k' svc' b" unfolding hosts by presburger
    then have "b \<noteq> ?a" using store_hosted [OF inv(1)] by (auto simp: hosted_inv_def)
    then show ?thesis
      using X h by (simp add: life_inv_def replica_life_def st placed_core_simps)
  qed
  then show ?thesis using X by (simp add: life_inv_def st placed_core_simps)
qed

lemma agenda_inv_placed: "agenda_inv (placed_core k svc s' r E) = agenda_inv E"
  by (simp add: agenda_inv_def placed_core_simps)

lemma place_replica_inv:
  assumes "place_replica W k svc E = Inr (p, E')" and inv: "engine_inv X E"
    and up: "in_srv_state E k SrvActive \<or> in_srv_state E k SrvBooting"
  shows "engine_inv X E'"
  using assms(1)
proof (cases rule: place_replica_cases)
  case refused
  with inv show ?thesis by simp
next
  case (placed s info et)
  let ?s = "s\<lparr>hosted_replicas := dset svc (next_ref E) (hosted_replicas s),
              cumulative_energy_joule := cumulative_energy_joule s + E_POD_CREATE_J\<rparr>"
  let ?r = "new_replica svc k (svc_queue_len info) et (e_now E)"
  let ?E = "placed_core k svc ?s ?r E"
  let ?m = "record_metric (record_transition PodCreate)"
  let ?X = "if srv_state s = SrvActive then add_mset (ReplicaReady k svc) X else X"
  have st: "srv_state s = SrvActive \<or> srv_state s = SrvBooting"
    using up placed(1) by (simp add: in_srv_state_def)
  have "engine_inv ?X ?E"
  proof (rule engine_invI)
    show "store_inv ?E"
      using inv placed(1-3) exec_time_nonneg [OF placed(4)]
      by (intro store_inv_placed) (auto simp: engine_inv_def)
    show "life_inv ?X ?E"
      using inv placed(1) st by (intro life_inv_placed) (auto simp: engine_inv_def)
    show "agenda_inv ?E" using inv by (simp add: agenda_inv_placed engine_inv_def)
  qed
  then have m: "engine_inv ?X (?m ?E)" by (simp add: same_core_inv [OF same_core_record_metric])
  have E': "E' = (if srv_state s = SrvActive then schedule_replica_ready (next_ref E) (?m ?E) else ?m ?E)"
    unfolding placed(6) Let_def placed_core_def ..
  show ?thesis
  proof (cases "srv_state s = SrvActive")
    case True
    have "r_server_id (e_store (?m ?E) (next_ref E)) = k" "r_service_id (e_store (?m ?E) (next_ref E)) = svc"
      by (simp_all add: record_metric_def placed_core_simps new_replica_def)
    with True m show ?thesis
      unfolding E' schedule_replica_ready_def
      by (auto intro: engine_inv_settle simp: POD_STARTUP_DELAY_SEC_def)
  qed (use m E' in simp)
qed

lemma place_replica_evolves:
  assumes "place_replica W k svc E = Inr (p, E')"
  shows "evolves 2 E E'"
  using assms
proof (cases rule: place_replica_cases)
  case (placed s info et)
  have core: "evolves 0 E (put_server k (s\<lparr>hosted_replicas := hr, cumulative_energy_joule := j\<rparr>)
                 (put_replica a r (E\<lparr>next_ref := n, replicas_by_service := b\<rparr>)))" for hr j a r n b
    using placed(1)
    by (intro evolves_same) (simp_all add: fleet_def fixed_data_def map_dset_same)
  note base = evolves_0_trans(1) [OF core evolves_record_metric]
  show ?thesis
    unfolding placed(6) Let_def
    using evolves_0_trans(1) [OF base schedule_replica_ready_evolves] evolves_mono [OF base, of 2] by simp
qed simp

text \<open>Placing touches no other server's state and no other replica.\<close>

lemma place_replica_frame:
  assumes "place_replica W k svc E = Inr (p, E')"
  shows "in_srv_state E' = in_srv_state E" and "e_now E' = e_now E"
    and "a < next_ref E \<Longrightarrow> e_store E' a = e_store E a"
  using assms
  by (cases rule: place_replica_cases;
      auto simp: Let_def record_metric_def in_srv_state_def dict_simps fun_eq_iff split: if_splits)+

section \<open>The events of a replica\<close>

lemma handle_replica_ready_cases:
  assumes "handle_replica_ready k svc E = Inr E'"
  obtains (ignored) "E' = E" "\<And>a. hosts E k svc a \<Longrightarrow> r_state (e_store E a) \<noteq> RepStarting"
  | (ready) a E2 where "hosts E k svc a" "r_state (e_store E a) = RepStarting"
      "E2 = (put_replica a ((e_store E a)\<lparr>r_state := RepReady, r_ready_since := Some (e_now E)\<rparr>) E)
              \<lparr>pending_migrations := ddel (k, svc) (pending_migrations E)\<rparr>"
      "E' = E2 \<or> (\<exists>src old. hosts E src svc old \<and> E' = start_replica_drain old E2
                    \<and> dget (pending_migrations E) (k, svc) = Some src)"
proof -
  from assms obtain s where s: "dget (e_servers E) k = Some s"
    by (auto simp: handle_replica_ready_def server_at_def bindE_Inr_iff dlookup_Inr_iff)
  show thesis
  proof (cases "dget (hosted_replicas s) svc")
    case None
    with assms s show thesis
      by (intro ignored) (auto simp: handle_replica_ready_def server_at_def dlookup_def hosts_def)
  next
    case (Some a)
    show thesis
    proof (cases "r_state (e_store E a) = RepStarting")
      case False
      with assms s Some show thesis
        by (intro ignored) (auto simp: handle_replica_ready_def server_at_def dlookup_def hosts_def)
    next
      case True
      let ?E2 = "(put_replica a ((e_store E a)\<lparr>r_state := RepReady, r_ready_since := Some (e_now E)\<rparr>) E)
              \<lparr>pending_migrations := ddel (k, svc) (pending_migrations E)\<rparr>"
      have pm: "pending_migrations (put_replica a r E) = pending_migrations E" for r
        by (simp add: put_replica_def)
      have "E' = ?E2 \<or> (\<exists>src old. hosts E src svc old \<and> E' = start_replica_drain old ?E2
                    \<and> dget (pending_migrations E) (k, svc) = Some src)"
        using assms s Some True
        by (auto simp: handle_replica_ready_def server_at_def dlookup_def hosts_def Let_def pm
            split: option.splits if_splits)
      with s Some True show thesis by (intro ready) (auto simp: hosts_def)
    qed
  qed
qed

lemma handle_replica_ready_inv:
  assumes "handle_replica_ready k svc E = Inr E'" and inv: "engine_inv (add_mset (ReplicaReady k svc) X) E"
  shows "engine_inv X E'"
  using assms(1)
proof (cases rule: handle_replica_ready_cases)
  case ignored
  have "life_inv X E"
    by (rule life_inv_drop [where ty = "ReplicaReady k svc"])
       (use inv ignored(2) in \<open>simp_all add: engine_inv_def owed_def\<close>)
  with ignored(1) inv show ?thesis by (simp add: engine_inv_def)
next
  case (ready a E2)
  let ?ty = "ReplicaReady k svc"
  let ?E1 = "put_replica a ((e_store E a)\<lparr>r_state := RepReady, r_ready_since := Some (e_now E)\<rparr>) E"
  have "store_inv ?E1"
    using inv by (intro store_inv_put_replica) (auto simp: engine_inv_def same_replica_def)
  moreover have "life_inv X ?E1"
  proof (rule life_inv_drop)
    show "life_inv (add_mset ?ty X) ?E1"
      using inv by (intro life_inv_put_replica) (auto simp: engine_inv_def life_inv_def replica_life_def)
    show "r_state (e_store ?E1 b) \<noteq> RepStarting" if "hosts ?E1 k' svc' b" "?ty = ReplicaReady k' svc'" for k' svc' b
      using that ready(1) hosts_unique by force
  qed (simp_all add: owed_def)
  ultimately have "engine_inv X ?E1" using inv by (simp add: engine_inv_def)
  moreover have "same_core ?E1 E2" unfolding ready(3) by (simp add: same_core_def put_replica_def)
  ultimately have "engine_inv X E2" by (simp add: same_core_inv)
  with ready(4) show ?thesis by (auto intro: start_replica_drain_inv)
qed

lemma handle_replica_ready_evolves:
  assumes "handle_replica_ready k svc E = Inr E'" shows "evolves 1 E E'"
  using assms
proof (cases rule: handle_replica_ready_cases)
  case (ready a E2)
  have "evolves 0 E E2" unfolding ready(3) by (rule evolves_same) (simp_all add: put_replica_def fleet_def)
  then have "evolves 1 E E2" "evolves 1 E (start_replica_drain old E2)" for old
    using evolves_mono [of 0 E E2 1] evolves_0_trans(1) [OF _ start_replica_drain_evolves, of E E2] by simp_all
  with ready(4) show ?thesis by blast
qed simp

lemma store_inv_terminated:
  assumes inv: "store_inv E" and k: "dget (e_servers E) k = Some s" and a: "dget (hosted_replicas s) svc = Some a"
  shows "store_inv ((put_server k (s\<lparr>hosted_replicas := ddel svc (hosted_replicas s)\<rparr>)
                     (put_replica a ((e_store E a)\<lparr>r_state := RepTerminated\<rparr>) E))
            \<lparr>replicas_by_service := dset svc (filter (\<lambda>x. x \<noteq> a) (by_service E svc)) (replicas_by_service E)\<rparr>)"
    (is "store_inv ?E")
proof -
  note inv' = inv [unfolded store_inv_def]
  let ?s = "s\<lparr>hosted_replicas := ddel svc (hosted_replicas s)\<rparr>"
  let ?h = "(e_store E)(a := (e_store E a)\<lparr>r_state := RepTerminated\<rparr>)"
  have hosts: "hosts ?E k' svc' b \<longleftrightarrow> hosts E k' svc' b \<and> \<not> (k' = k \<and> svc' = svc)" for k' svc' b
    using k by (auto simp: hosts_def dict_simps)
  have bys: "by_service ?E svc' = (if svc' = svc then filter (\<lambda>x. x \<noteq> a) (by_service E svc) else by_service E svc')" for svc'
    by (simp add: by_service_def dict_simps)
  have E: "e_store ?E = ?h" "e_servers ?E = dset k ?s (e_servers E)" "next_ref ?E = next_ref E" by simp_all
  have ha: "hosts E k svc a" using k a by (auto simp: hosts_def)
  have only: "k' = k \<and> svc' = svc" if "hosts E k' svc' a" for k' svc'
    using store_hosted [OF inv that] store_hosted [OF inv ha] by (simp add: hosted_inv_def)
  have used: "used_cpu ?h u = used_cpu (e_store E) u" for u by (rule used_cpu_same) simp
  have "used_cpu ?h ?s \<le> used_cpu (e_store E) s"
  proof -
    have "(\<Sum>p\<leftarrow>ddel svc d. cpu_of s (e_store E (snd p))) \<le> (\<Sum>p\<leftarrow>d. cpu_of s (e_store E (snd p)))" for d
      by (induction d) (auto simp: cpu_of_nonneg add_increasing)
    then show ?thesis
      unfolding used using cpu_of_same [of ?s s] by (simp add: used_cpu_def comp_def)
  qed
  moreover have s: "server_inv (e_store E) s" using inv' k by blast
  ultimately have "server_inv ?h ?s"
    by (auto simp: server_inv_def delete_keys distinct_removeAll simp del: set_map)
  moreover have "server_inv ?h u" if "dget (e_servers E) k' = Some u" for k' u
    using inv' that by (simp add: server_inv_def used)
  moreover have "hosted_inv ?E k' svc' b" if "hosts ?E k' svc' b" for k' svc' b
  proof -
    from that have h: "hosts E k' svc' b" "b \<noteq> a" using only unfolding hosts by auto
    from store_hosted [OF inv h(1)] h(2) show ?thesis
      by (cases "svc' = svc") (simp_all add: hosted_inv_def E bys)
  qed
  moreover have "hosts ?E (r_server_id (?h b)) svc' b" if "b \<in> set (by_service ?E svc')" for svc' b
  proof -
    from that have "b \<in> set (by_service E svc')" "svc' = svc \<Longrightarrow> b \<noteq> a" by (auto simp: bys split: if_splits)
    moreover from this have "hosts E (r_server_id (e_store E b)) svc' b" using inv' by blast
    ultimately have h: "hosts E (r_server_id (e_store E b)) svc' b" "svc' = svc \<Longrightarrow> b \<noteq> a" by simp_all
    have "\<not> (r_server_id (e_store E b) = k \<and> svc' = svc)" using h ha hosts_unique by metis
    moreover have "r_server_id (?h b) = r_server_id (e_store E b)" by simp
    ultimately show ?thesis using h(1) unfolding hosts by presburger
  qed
  moreover have "wf_servers (dset k ?s (e_servers E))"
    using inv' wf_servers_id k by (auto intro: wf_servers_dset)
  moreover have "distinct (by_service ?E svc')" for svc' using inv' by (simp add: bys)
  moreover have "queue_ok (?h b)" for b using inv' by simp
  ultimately show ?thesis unfolding store_inv_def E by (simp add: dict_simps)
qed

lemma handle_replica_terminated_cases:
  assumes "handle_replica_terminated k svc E = Inr E'"
  obtains (ignored) "E' = E" "\<And>a. \<not> hosts E k svc a"
  | (gone) s a where "dget (e_servers E) k = Some s" "dget (hosted_replicas s) svc = Some a"
      "same_core ((put_server k (s\<lparr>hosted_replicas := ddel svc (hosted_replicas s)\<rparr>)
                     (put_replica a ((e_store E a)\<lparr>r_state := RepTerminated\<rparr>) E))
            \<lparr>replicas_by_service := dset svc (filter (\<lambda>x. x \<noteq> a) (by_service E svc)) (replicas_by_service E)\<rparr>) E'"
proof -
  from assms obtain s where s: "dget (e_servers E) k = Some s"
    by (auto simp: handle_replica_terminated_def server_at_def bindE_Inr_iff dlookup_Inr_iff)
  show thesis
  proof (cases "dget (hosted_replicas s) svc")
    case None
    with assms s show thesis
      by (intro ignored) (auto simp: handle_replica_terminated_def server_at_def dlookup_def hosts_def)
  next
    case (Some a)
    with assms s show thesis
      by (intro gone [OF s Some])
        (auto simp: handle_replica_terminated_def server_at_def dlookup_def Let_def same_core_def
          record_metric_def put_server_def put_replica_def by_service_def)
  qed
qed

lemma handle_replica_terminated_inv:
  assumes "handle_replica_terminated k svc E = Inr E'"
    and inv: "engine_inv (add_mset (ReplicaTerminated k svc) X) E"
  shows "engine_inv X E'"
  using assms(1)
proof (cases rule: handle_replica_terminated_cases)
  case ignored
  have "life_inv X E"
    by (rule life_inv_drop [where ty = "ReplicaTerminated k svc"])
       (use inv ignored(2) in \<open>simp_all add: engine_inv_def owed_def\<close>)
  with ignored(1) inv show ?thesis by (simp add: engine_inv_def)
next
  case (gone s a)
  let ?ty = "ReplicaTerminated k svc"
  let ?E1 = "put_server k (s\<lparr>hosted_replicas := ddel svc (hosted_replicas s)\<rparr>)
                     (put_replica a ((e_store E a)\<lparr>r_state := RepTerminated\<rparr>) E)"
  let ?E = "?E1\<lparr>replicas_by_service := dset svc (filter (\<lambda>x. x \<noteq> a) (by_service E svc)) (replicas_by_service E)\<rparr>"
  have inv': "store_inv E" "life_inv (add_mset ?ty X) E" "agenda_inv E" using inv by (simp_all add: engine_inv_def)
  have st: "in_srv_state ?E = in_srv_state E"
    using gone(1) by (intro ext) (simp add: in_srv_state_def dict_simps)
  have hosts: "hosts ?E k' svc' b \<longleftrightarrow> hosts E k' svc' b \<and> \<not> (k' = k \<and> svc' = svc)" for k' svc' b
    using gone(1) by (auto simp: hosts_def dict_simps)
  have pd: "pend Y ?E = pend Y E" for Y by (rule ext) (simp add: pend_def)
  have E: "e_now ?E = e_now E" "e_store ?E = (e_store E)(a := (e_store E a)\<lparr>r_state := RepTerminated\<rparr>)" by simp_all
  have ha: "hosts E k svc a" using gone(1,2) by (auto simp: hosts_def)
  have "life_inv X ?E"
  proof (rule life_inv_drop)
    have "replica_life (add_mset ?ty X) ?E k' svc' b" if "hosts ?E k' svc' b" for k' svc' b
    proof -
      from that have h: "hosts E k' svc' b" "\<not> (k' = k \<and> svc' = svc)" unfolding hosts by simp_all
      then have "b \<noteq> a" using store_hosted [OF inv'(1) h(1)] store_hosted [OF inv'(1) ha] by (auto simp: hosted_inv_def)
      moreover have "replica_life (add_mset ?ty X) E k' svc' b" using inv'(2) h(1) by (simp add: life_inv_def)
      ultimately show ?thesis unfolding replica_life_def st pd E by simp
    qed
    then show "life_inv (add_mset ?ty X) ?E"
      using inv'(2) unfolding life_inv_def st pd by blast
  qed (auto simp: owed_def hosts)
  moreover have "store_inv ?E" by (rule store_inv_terminated [OF inv'(1) gone(1,2)])
  moreover have "agenda_inv ?E" using inv'(3) by (simp add: agenda_inv_def)
  ultimately show ?thesis using same_core_inv [OF gone(3)] by (simp add: engine_inv_def)
qed

lemma handle_replica_terminated_evolves:
  assumes "handle_replica_terminated k svc E = Inr E'" shows "evolves 0 E E'"
  using assms
proof (cases rule: handle_replica_terminated_cases)
  case (gone s a)
  then show ?thesis
    by (intro evolves_same) (simp_all add: same_core_def fleet_def fixed_data_def map_dset_same)
qed simp

end
