(* ===== verification/Fleet.thy ===== *)
theory Fleet
  imports Replicas
begin

text \<open>
  The operations on servers keep the invariants: boot, end of boot, drain with migration of
  the replicas no other server hosts, end of drain, emergency boots, the initial placement.
\<close>

definition grows :: "'a engine \<Rightarrow> 'a engine \<Rightarrow> bool" where
  "grows E E' \<longleftrightarrow> (\<exists>n. evolves n E E')"

lemma growsI: "evolves n E E' \<Longrightarrow> grows E E'"
  by (auto simp: grows_def)

lemma grows_refl [simp]: "grows E E"
  by (rule growsI [OF evolves_refl [of 0]])

lemma grows_trans: "grows E E' \<Longrightarrow> grows E' E'' \<Longrightarrow> grows E E''"
  unfolding grows_def by (meson evolves_trans)

lemma foldE_grows:
  assumes "foldE f xs E = Inr E'" and "\<And>x u v. x \<in> set xs \<Longrightarrow> f x u = Inr v \<Longrightarrow> grows u v"
  shows "grows E E'"
  by (rule foldE_invariant [OF assms(1), where P = "grows E"])
     (auto intro: grows_trans assms(2))

lemma fold_grows: "(\<And>x u. x \<in> set xs \<Longrightarrow> grows u (f x u)) \<Longrightarrow> grows E (fold f xs E)"
  by (rule fold_invariant_set [where P = "grows E"]) (auto intro: grows_trans)

section \<open>The state of one server\<close>

lemma life_inv_move:
  assumes inv: "life_inv X E" and k: "dget (e_servers E) k = Some s" and same: "same_server s s'"
    and boot: "\<And>j. pend Y E (ServerBootDone j) =
          (if (if j = k then srv_state s' = SrvBooting else in_srv_state E j SrvBooting) then 1 else 0)"
    and drain: "\<And>j. pend Y E (ServerDrainDone j) =
          (if (if j = k then srv_state s' = SrvDraining else in_srv_state E j SrvDraining) then 1 else 0)"
    and more: "\<And>ty. \<not> owed ty \<Longrightarrow> pend X E ty \<le> pend Y E ty"
    and up: "srv_state s' = SrvOff \<Longrightarrow> hosted_replicas s = []"
    and ready: "\<And>svc a. srv_state s = SrvBooting \<Longrightarrow> srv_state s' \<noteq> SrvBooting \<Longrightarrow> hosts E k svc a \<Longrightarrow>
          r_state (e_store E a) = RepStarting \<Longrightarrow> 0 < pend Y E (ReplicaReady k svc)"
  shows "life_inv Y (put_server k s' E)"
proof -
  have here: "in_srv_state E k st \<longleftrightarrow> srv_state s = st" for st using k by (simp add: in_srv_state_def)
  have "replica_life Y (put_server k s' E) j svc a" if h: "hosts E j svc a" for j svc a
  proof -
    have rl: "replica_life X E j svc a" using inv h by (simp add: life_inv_def)
    have more': "pend X E (ReplicaReady j svc) \<le> pend Y E (ReplicaReady j svc)"
      "pend X E (ReplicaTerminated j svc) \<le> pend Y E (ReplicaTerminated j svc)"
      by (simp_all add: more owed_def)
    have off: "srv_state s' \<noteq> SrvOff" if "j = k" using up h k that by (auto simp: hosts_def)
    show ?thesis
      using rl more' off ready [of svc a] h
      unfolding replica_life_def in_srv_state_put_server put_server_frame
      by (cases "j = k"; cases "srv_state s' = SrvBooting") (auto simp: here)
  qed
  then show ?thesis
    unfolding life_inv_def hosts_same [OF k same] in_srv_state_put_server put_server_frame
    using boot drain by auto
qed

section \<open>Boot\<close>

lemma start_server_boot_cases:
  assumes "start_server_boot k em E = Inr E'"
  obtains (not_off) s where "dget (e_servers E) k = Some s" "srv_state s \<noteq> SrvOff" "E' = E"
  | (boot) s where "dget (e_servers E) k = Some s" "srv_state s = SrvOff"
     "E' = push (e_now E + BOOT_DELAY_SEC) (ServerBootDone k)
        (record_metric (record_transition ServerBoot) (put_server k
          (s\<lparr>srv_state := SrvBooting, is_emergency_boot := em, boot_started_at := Some (e_now E),
             last_transition_time := e_now E, num_boots := num_boots s + 1,
             cumulative_energy_joule := cumulative_energy_joule s + E_BOOT_SERVER_J\<rparr>) E))"
proof -
  from assms obtain s where s: "dget (e_servers E) k = Some s"
    by (auto simp: start_server_boot_def server_at_def bindE_Inr_iff dlookup_Inr_iff)
  show thesis
  proof (cases "srv_state s = SrvOff")
    case True
    show thesis
      by (rule boot [OF s True])
         (use assms s True in \<open>simp add: start_server_boot_def server_at_def dlookup_def Let_def\<close>)
  next
    case False
    show thesis
      by (rule not_off [OF s False])
         (use assms s False in \<open>simp add: start_server_boot_def server_at_def dlookup_def\<close>)
  qed
qed

lemma pend_add: "pend (add_mset ty X) E ty' = pend X E ty' + (if ty' = ty then 1 else 0)"
  by (simp add: pend_def)

lemma start_server_boot_inv:
  assumes "start_server_boot k em E = Inr E'" and inv: "engine_inv X E"
  shows "engine_inv X E'"
  using assms(1)
proof (cases rule: start_server_boot_cases)
  case (boot s)
  let ?s = "s\<lparr>srv_state := SrvBooting, is_emergency_boot := em, boot_started_at := Some (e_now E),
             last_transition_time := e_now E, num_boots := num_boots s + 1,
             cumulative_energy_joule := cumulative_energy_joule s + E_BOOT_SERVER_J\<rparr>"
  have inv': "store_inv E" "life_inv X E" "agenda_inv E" using inv by (simp_all add: engine_inv_def)
  have same: "same_server s ?s" by (simp add: same_server_def)
  have here: "in_srv_state E k st \<longleftrightarrow> srv_state s = st" for st using boot(1) by (simp add: in_srv_state_def)
  have "life_inv (add_mset (ServerBootDone k) X) (put_server k ?s E)"
  proof (rule life_inv_move [OF inv'(2) boot(1) same])
    show "pend (add_mset (ServerBootDone k) X) E (ServerBootDone j) =
       (if (if j = k then srv_state ?s = SrvBooting else in_srv_state E j SrvBooting) then 1 else 0)" for j
      using inv'(2) here boot(2) by (simp add: life_inv_def pend_add)
    show "pend (add_mset (ServerBootDone k) X) E (ServerDrainDone j) =
       (if (if j = k then srv_state ?s = SrvDraining else in_srv_state E j SrvDraining) then 1 else 0)" for j
      using inv'(2) here boot(2) by (simp add: life_inv_def pend_add)
  qed (simp_all add: pend_add boot(2))
  then have "engine_inv (add_mset (ServerBootDone k) X) (put_server k ?s E)"
    using inv' same boot(1) by (simp add: engine_inv_def store_inv_put_server)
  then have "engine_inv (add_mset (ServerBootDone k) X)
               (record_metric (record_transition ServerBoot) (put_server k ?s E))"
    by (simp add: same_core_inv [OF same_core_record_metric])
  then show ?thesis unfolding boot(3)
    by (rule engine_inv_settle) (simp_all add: record_metric_def BOOT_DELAY_SEC_def)
qed (use inv in simp)

lemma start_server_boot_grows:
  assumes "start_server_boot k em E = Inr E'" shows "grows E E'"
  using assms
proof (cases rule: start_server_boot_cases)
  case (boot s)
  have "grows E (record_metric f (put_server k (s\<lparr>srv_state := st, is_emergency_boot := em,
            boot_started_at := t, last_transition_time := u, num_boots := n, cumulative_energy_joule := j\<rparr>) E))"
    for f st t u n j
    by (rule growsI [OF evolves_0_trans(1) [OF evolves_put_server [OF boot(1)] evolves_record_metric [of 0]]])
       (simp add: fixed_data_def)
  then show ?thesis unfolding boot(3) by (rule grows_trans) (rule growsI [OF evolves_push], simp)
qed simp

text \<open>The replicas of a server that has booted: an event for each that is starting.\<close>

definition ready_event :: "heap \<Rightarrow> nat \<Rightarrow> event_type" where
  "ready_event h a = ReplicaReady (r_server_id (h a)) (r_service_id (h a))"

definition startable :: "real \<Rightarrow> replica \<Rightarrow> bool" where
  "startable now r \<longleftrightarrow> r_state r = RepStarting \<and> r_ready_since r = None \<and> r_created_at r \<le> now"

lemma ready_if_starting_alt:
  "ready_if_starting a E = (if startable (e_now E) (e_store E a) then schedule_replica_ready a E else E)"
  by (simp add: ready_if_starting_def startable_def Let_def)

lemma ready_if_starting_frame:
  "e_servers (ready_if_starting a E) = e_servers E" "e_store (ready_if_starting a E) = e_store E"
  "e_now (ready_if_starting a E) = e_now E"
  by (simp_all add: ready_if_starting_alt)

lemma fold_ready_frame:
  "e_servers (fold ready_if_starting as E) = e_servers E"
  by (induction as arbitrary: E) (simp_all add: ready_if_starting_frame)

definition ready_events :: "nat list \<Rightarrow> 'a engine \<Rightarrow> event_type multiset" where
  "ready_events as E =
     mset (map (ready_event (e_store E)) (filter (\<lambda>a. startable (e_now E) (e_store E a)) as))"

lemma ready_events_not_owed: "owed ty \<Longrightarrow> count (ready_events as E) ty = 0"
  by (induction as) (auto simp: ready_events_def ready_event_def owed_def)

lemma fold_ready_inv:
  assumes "engine_inv (ready_events as E + X) E"
  shows "engine_inv X (fold ready_if_starting as E)"
  using assms
proof (induction as arbitrary: E)
  case Nil
  then show ?case by (simp add: ready_events_def)
next
  case (Cons a as)
  have "engine_inv (ready_events as E + X) (ready_if_starting a E)"
  proof (cases "startable (e_now E) (e_store E a)")
    case True
    with Cons.prems have "engine_inv (add_mset (ready_event (e_store E) a) (ready_events as E + X)) E"
      by (simp add: ready_events_def)
    then show ?thesis
      using True unfolding ready_if_starting_alt schedule_replica_ready_def ready_event_def
      by (simp del: mset_map) (rule engine_inv_settle, simp_all add: POD_STARTUP_DELAY_SEC_def)
  qed (use Cons.prems in \<open>simp add: ready_if_starting_alt ready_events_def\<close>)
  moreover have "ready_events as (ready_if_starting a E) = ready_events as E"
    by (simp add: ready_events_def ready_if_starting_frame)
  ultimately have "engine_inv X (fold ready_if_starting as (ready_if_starting a E))"
    by (intro Cons.IH) simp
  then show ?case by simp
qed

lemma fold_ready_evolves: "evolves (2 * length as) E (fold ready_if_starting as E)"
  by (rule fold_evolves) (simp add: ready_if_starting_alt schedule_replica_ready_evolves)

lemma handle_boot_done_shape:
  assumes "handle_boot_done k E = Inr E'"
  obtains s E2 where "dget (e_servers E) k = Some s"
    "E2 = fold ready_if_starting (dvals (hosted_replicas s))
            (put_server k (s\<lparr>srv_state := SrvActive, last_transition_time := e_now E\<rparr>) E)"
    "same_core E2 E' \<or> (\<exists>E3. same_core E2 E3 \<and>
        E' = put_server k (s\<lparr>srv_state := SrvActive, last_transition_time := e_now E, is_emergency_boot := False\<rparr>) E3)"
proof -
  from assms obtain s where s: "dget (e_servers E) k = Some s"
    by (auto simp: handle_boot_done_def server_at_def bindE_Inr_iff dlookup_Inr_iff)
  let ?E2 = "fold ready_if_starting (dvals (hosted_replicas s))
            (put_server k (s\<lparr>srv_state := SrvActive, last_transition_time := e_now E\<rparr>) E)"
  obtain d where
    "E' = put_server k (s\<lparr>srv_state := SrvActive, last_transition_time := e_now E,
              is_emergency_boot := False\<rparr>) (?E2\<lparr>emergency_boot_for_service := d\<rparr>)
     \<or> E' = ?E2\<lparr>emergency_boot_for_service := d\<rparr>"
    using assms s by (simp add: handle_boot_done_def server_at_def dlookup_def Let_def split: if_splits)
       (blast, metis engine.surjective engine.update_convs(28))
  moreover have "same_core ?E2 (?E2\<lparr>emergency_boot_for_service := d\<rparr>)" by (simp add: same_core_def)
  ultimately show thesis by (intro that [OF s refl]) metis
qed

lemma handle_boot_done_inv:
  assumes "handle_boot_done k E = Inr E'" and inv: "engine_inv (add_mset (ServerBootDone k) X) E"
  shows "engine_inv X E'"
  using assms(1)
proof (rule handle_boot_done_shape)
  fix s E2 assume s: "dget (e_servers E) k = Some s"
    and E2: "E2 = fold ready_if_starting (dvals (hosted_replicas s))
            (put_server k (s\<lparr>srv_state := SrvActive, last_transition_time := e_now E\<rparr>) E)"
    and E': "same_core E2 E' \<or> (\<exists>E3. same_core E2 E3 \<and>
        E' = put_server k (s\<lparr>srv_state := SrvActive, last_transition_time := e_now E, is_emergency_boot := False\<rparr>) E3)"
  let ?s = "s\<lparr>srv_state := SrvActive, last_transition_time := e_now E\<rparr>"
  define R where "R = ready_events (dvals (hosted_replicas s)) E"
  have inv': "store_inv E" "life_inv (add_mset (ServerBootDone k) X) E" "agenda_inv E"
    using inv by (simp_all add: engine_inv_def)
  have here: "in_srv_state E k st \<longleftrightarrow> srv_state s = st" for st using s by (simp add: in_srv_state_def)
  have cnt: "pend (add_mset (ServerBootDone k) X) E (ServerBootDone j) = (if in_srv_state E j SrvBooting then 1 else 0)"
    "pend (add_mset (ServerBootDone k) X) E (ServerDrainDone j) = (if in_srv_state E j SrvDraining then 1 else 0)" for j
    using inv'(2) by (simp_all add: life_inv_def)
  have booting: "srv_state s = SrvBooting"
    using cnt(1) [of k] here by (simp add: pend_add split: if_splits)
  have pendR: "pend (R + X) E ty = pend X E ty + count R ty" for ty
    by (simp add: pend_def)
  have owed0: "count R (ServerBootDone j) = 0" "count R (ServerDrainDone j) = 0" for j
    unfolding R_def by (simp_all add: ready_events_not_owed owed_def)
  have same: "same_server s ?s" by (simp add: same_server_def)
  have "life_inv (R + X) (put_server k ?s E)"
  proof (rule life_inv_move [OF inv'(2) s same])
    show "pend (R + X) E (ServerBootDone j) =
       (if (if j = k then srv_state ?s = SrvBooting else in_srv_state E j SrvBooting) then 1 else 0)" for j
      using cnt(1) [of j] here booting
      by (simp add: pendR pend_add owed0 split: if_splits)
    show "pend (R + X) E (ServerDrainDone j) =
       (if (if j = k then srv_state ?s = SrvDraining else in_srv_state E j SrvDraining) then 1 else 0)" for j
      using cnt(2) [of j] here booting
      by (simp add: pendR pend_add owed0)
    show "pend (add_mset (ServerBootDone k) X) E ty \<le> pend (R + X) E ty" if "\<not> owed ty" for ty
      using that by (auto simp: pendR pend_add owed_def)
    show "0 < pend (R + X) E (ReplicaReady k svc)" if h: "hosts E k svc a" "r_state (e_store E a) = RepStarting" for svc a
    proof -
      have "replica_life (add_mset (ServerBootDone k) X) E k svc a" using inv'(2) h by (simp add: life_inv_def)
      with h(2) have st: "startable (e_now E) (e_store E a)" by (simp add: replica_life_def startable_def)
      have "a \<in> set (dvals (hosted_replicas s))" using h(1) s by (force simp: hosts_def dest: dget_mem)
      moreover have "ready_event (e_store E) a = ReplicaReady k svc"
        using store_hosted [OF inv'(1) h(1)] by (simp add: hosted_inv_def ready_event_def)
      ultimately have "ReplicaReady k svc \<in># R"
        using st unfolding R_def ready_events_def by force
      then show ?thesis by (simp add: pend_def)
    qed
  qed simp_all
  then have "engine_inv (R + X) (put_server k ?s E)"
    using inv' same s by (simp add: engine_inv_def store_inv_put_server)
  moreover have "ready_events as (put_server k ?s E) = ready_events as E" for as
    by (simp add: ready_events_def)
  ultimately have inv2: "engine_inv X E2" unfolding E2 R_def by (intro fold_ready_inv) simp
  have s2: "dget (e_servers E2) k = Some ?s" unfolding E2 fold_ready_frame by (simp add: dict_simps)
  show "engine_inv X E'"
    using E'
  proof
    assume "\<exists>E3. same_core E2 E3 \<and>
        E' = put_server k (s\<lparr>srv_state := SrvActive, last_transition_time := e_now E, is_emergency_boot := False\<rparr>) E3"
    then obtain E3 where E3: "same_core E2 E3"
        "E' = put_server k (s\<lparr>srv_state := SrvActive, last_transition_time := e_now E, is_emergency_boot := False\<rparr>) E3"
      by blast
    then have "engine_inv X E3" "dget (e_servers E3) k = Some ?s"
      using inv2 s2 by (simp_all add: same_core_inv) (simp add: same_core_def)
    then show ?thesis unfolding E3(2) by (rule engine_inv_put_server) (simp_all add: same_server_def)
  qed (simp add: same_core_inv inv2)
qed

lemma handle_boot_done_evolves:
  assumes "handle_boot_done k E = Inr E'" and "store_inv E"
  shows "evolves (2 * max_hosted) E E'"
  using assms(1)
proof (rule handle_boot_done_shape)
  fix s E2 assume s: "dget (e_servers E) k = Some s"
    and E2: "E2 = fold ready_if_starting (dvals (hosted_replicas s))
            (put_server k (s\<lparr>srv_state := SrvActive, last_transition_time := e_now E\<rparr>) E)"
    and E': "same_core E2 E' \<or> (\<exists>E3. same_core E2 E3 \<and>
        E' = put_server k (s\<lparr>srv_state := SrvActive, last_transition_time := e_now E, is_emergency_boot := False\<rparr>) E3)"
  have "server_inv (e_store E) s" using assms(2) s by (simp add: store_inv_def)
  then have "length (dvals (hosted_replicas s)) \<le> max_hosted"
    unfolding server_inv_def max_hosted_def
    by (metis card_length card_mono distinct_card length_map List.finite_set le_trans)
  moreover have "evolves (2 * length (dvals (hosted_replicas s))) E E2" unfolding E2
    by (rule evolves_0_trans(1) [OF evolves_put_server [OF s] fold_ready_evolves]) (simp add: fixed_data_def)
  ultimately have e: "evolves (2 * max_hosted) E E2" by (auto intro: evolves_mono)
  have s2: "dget (e_servers E2) k = Some (s\<lparr>srv_state := SrvActive, last_transition_time := e_now E\<rparr>)"
    unfolding E2 fold_ready_frame by (simp add: dict_simps)
  show ?thesis using E'
  proof
    assume "same_core E2 E'"
    then show ?thesis by (rule evolves_0_trans(2) [OF e evolves_same_core])
  next
    assume "\<exists>E3. same_core E2 E3 \<and>
        E' = put_server k (s\<lparr>srv_state := SrvActive, last_transition_time := e_now E, is_emergency_boot := False\<rparr>) E3"
    then obtain E3 where E3: "same_core E2 E3"
        "E' = put_server k (s\<lparr>srv_state := SrvActive, last_transition_time := e_now E, is_emergency_boot := False\<rparr>) E3"
      by blast
    have "dget (e_servers E3) k = Some (s\<lparr>srv_state := SrvActive, last_transition_time := e_now E\<rparr>)"
      using s2 E3(1) by (simp add: same_core_def)
    then have "evolves 0 E3 E'" unfolding E3(2) by (rule evolves_put_server) (simp add: fixed_data_def)
    with e E3(1) show ?thesis by (meson evolves_0_trans(2) evolves_same_core)
  qed
qed

section \<open>Emergency boots\<close>

lemma emergency_boot_step_cases:
  assumes "emergency_boot_step offs d svc (res, E) = Inr (res', E')"
  obtains (skip) "E' = E"
  | (boot) t m where "start_server_boot t True (E\<lparr>emergency_boot_for_service := m\<rparr>) = Inr E'"
proof (cases "svc \<in> set (dkeys (emergency_boot_for_service E))")
  case True
  with assms show thesis by (intro skip) (simp add: emergency_boot_step_def)
next
  case False
  with assms obtain info where info: "service_of svc = Inr info"
    by (auto simp: emergency_boot_step_def bindE_Inr_iff)
  let ?sorted = "sort_key (km_from (srv_lat d, srv_long d))
      (filter (\<lambda>x. resource_mips info \<le> srv_capacity x - dget_or 0 res (srv_id x)) offs)"
  show thesis
  proof (cases ?sorted)
    case Nil
    with assms False info show thesis by (intro skip) (simp add: emergency_boot_step_def Let_def)
  next
    case (Cons t ts)
    with assms False info show thesis
      by (intro boot [of "srv_id t"]) (auto simp: emergency_boot_step_def Let_def bindE_Inr_iff)
  qed
qed

lemma emergency_dict_core: "same_core E (E\<lparr>emergency_boot_for_service := m\<rparr>)"
  by (simp add: same_core_def)

lemma trigger_emergency_boot_inv:
  assumes "trigger_emergency_boot W svcs d E = Inr E'" and "engine_inv X E"
  shows "engine_inv X E'" and "grows E E'"
proof -
  obtain res where f: "foldE (emergency_boot_step (in_state SrvOff (e_servers E)) d) (w_iter_set W svcs) ([], E)
                         = Inr (res, E')"
    using assms(1) by (auto simp: trigger_emergency_boot_def bindE_Inr_iff)
  have "engine_inv X (snd (res, E')) \<and> grows E (snd (res, E'))"
  proof (rule foldE_invariant [OF f, where P = "\<lambda>u. engine_inv X (snd u) \<and> grows E (snd u)"])
    fix svc u v assume u: "engine_inv X (snd u) \<and> grows E (snd u)"
      and "emergency_boot_step (in_state SrvOff (e_servers E)) d svc u = Inr v"
    then have "emergency_boot_step (in_state SrvOff (e_servers E)) d svc (fst u, snd u) = Inr (fst v, snd v)" by simp
    then show "engine_inv X (snd v) \<and> grows E (snd v)"
    proof (cases rule: emergency_boot_step_cases)
      case (boot t m)
      have "engine_inv X ((snd u)\<lparr>emergency_boot_for_service := m\<rparr>)" "grows (snd u) ((snd u)\<lparr>emergency_boot_for_service := m\<rparr>)"
        using u by (simp add: same_core_inv [OF emergency_dict_core])
          (rule growsI [OF evolves_same_core [OF emergency_dict_core]])
      then show ?thesis
        using u start_server_boot_inv [OF boot] start_server_boot_grows [OF boot] by (meson grows_trans)
    qed (use u in simp)
  qed (use assms(2) in simp)
  then show "engine_inv X E'" "grows E E'" by simp_all
qed

section \<open>Drain\<close>

lemma foldE_validate:
  assumes "foldE (validate_step E) steps (r0, v0) = Inr (r, v)"
  shows "\<exists>ys. v = v0 @ ys \<and> set ys \<subseteq> set steps
           \<and> (distinct (map ms_service_id steps) \<longrightarrow> distinct (map ms_service_id ys))"
  using assms
proof (induction steps arbitrary: r0 v0)
  case (Cons x steps)
  from Cons.prems obtain r1 v1 where 1: "validate_step E x (r0, v0) = Inr (r1, v1)"
    "foldE (validate_step E) steps (r1, v1) = Inr (r, v)"
    by (auto simp: bindE_Inr_iff)
  have v1: "v1 = v0 \<or> v1 = v0 @ [x]"
    using 1(1) by (auto simp: validate_step_def bindE_Inr_iff Let_def split: if_splits)
  obtain ys where ys: "v = v1 @ ys" "set ys \<subseteq> set steps"
    "distinct (map ms_service_id steps) \<longrightarrow> distinct (map ms_service_id ys)"
    using Cons.IH [OF 1(2)] by blast
  from v1 show ?case
  proof
    assume "v1 = v0 @ [x]"
    with ys show ?thesis by (intro exI [of _ "x # ys"]) auto
  qed (use ys in auto)
qed simp

lemma drain_unmigrated_inv: "engine_inv X E \<Longrightarrow> engine_inv X (drain_unmigrated ms a E)"
  by (simp add: drain_unmigrated_def start_replica_drain_inv)

lemma drain_unmigrated_grows: "grows E (drain_unmigrated ms a E)"
  by (simp add: drain_unmigrated_def growsI [OF start_replica_drain_evolves])

lemma migrate_step_cases:
  assumes "migrate_step W k step E = Inr E'"
  obtains p E1 where "place_replica W (ms_target_server_id step) (ms_service_id step) E = Inr (p, E1)"
    "same_core E1 E'"
  using assms by (auto simp: migrate_step_def bindE_Inr_iff same_core_def split: option.splits)

lemma in_srv_state_core: "same_core E E' \<Longrightarrow> in_srv_state E' = in_srv_state E"
  by (simp add: same_core_def in_srv_state_def fun_eq_iff)

lemma migrate_steps:
  assumes f: "foldE (migrate_step W k) steps E = Inr E'" and inv: "engine_inv X E"
    and targets: "\<And>step. step \<in> set steps \<Longrightarrow> in_srv_state E (ms_target_server_id step) SrvActive"
  shows "engine_inv X E' \<and> grows E E' \<and> in_srv_state E' = in_srv_state E"
proof (rule foldE_invariant [OF f, where P = "\<lambda>u. engine_inv X u \<and> grows E u \<and> in_srv_state u = in_srv_state E"])
  fix step u v assume s: "step \<in> set steps" and u: "engine_inv X u \<and> grows E u \<and> in_srv_state u = in_srv_state E"
    and "migrate_step W k step u = Inr v"
  from this(3) obtain p u1 where p: "place_replica W (ms_target_server_id step) (ms_service_id step) u = Inr (p, u1)"
    and c: "same_core u1 v" by (rule migrate_step_cases)
  have "engine_inv X u1" using u targets [OF s] by (intro place_replica_inv [OF p]) auto
  moreover have "grows u v"
    by (rule grows_trans [OF growsI [OF place_replica_evolves [OF p]] growsI [OF evolves_same_core [OF c, of 0]]])
  ultimately show "engine_inv X v \<and> grows E v \<and> in_srv_state v = in_srv_state E"
    using u c place_replica_frame(1) [OF p] by (auto simp: same_core_inv in_srv_state_core intro: grows_trans)
qed (use inv in simp)

lemma start_server_drain_cases:
  assumes "start_server_drain W k E = Inr (b, E')"
  obtains (not_active) s where "dget (e_servers E) k = Some s" "srv_state s \<noteq> SrvActive" "\<not> b" "E' = E"
  | (abort) s svcs where "dget (e_servers E) k = Some s" "srv_state s = SrvActive" "\<not> b"
      "trigger_emergency_boot W svcs s E = Inr E'" "svcs \<noteq> []" "set svcs \<subseteq> set (sole_hosted E s)"
  | (drain) s proposed r steps E2 where "dget (e_servers E) k = Some s" "srv_state s = SrvActive" b
      "alg_migration_decision (w_alg W) (e_algorithm E) (service_demand_centroid E) s (e_servers E) (e_store E) = Inr proposed"
      "foldE (validate_step E) proposed ([], []) = Inr (r, steps)"
      "set (sole_hosted E s) \<subseteq> set (map ms_service_id steps)"
      "foldE (migrate_step W k) steps (put_server k
         (s\<lparr>srv_state := SrvDraining, drain_started_at := Some (e_now E), last_transition_time := e_now E\<rparr>) E) = Inr E2"
      "E' = push (e_now (fold (drain_unmigrated (map ms_service_id steps)) (dvals (hosted_replicas s)) E2)
                 + SERVER_DRAIN_GRACE_SEC) (ServerDrainDone k)
             (fold (drain_unmigrated (map ms_service_id steps)) (dvals (hosted_replicas s)) E2)"
proof -
  from assms obtain s where s: "dget (e_servers E) k = Some s"
    by (auto simp: start_server_drain_def server_at_def bindE_Inr_iff dlookup_Inr_iff)
  show thesis
  proof (cases "srv_state s = SrvActive")
    case False
    with assms s show thesis
      by (intro not_active) (auto simp: start_server_drain_def server_at_def dlookup_def)
  next
    case True
    with assms s obtain proposed r steps where st:
      "alg_migration_decision (w_alg W) (e_algorithm E) (service_demand_centroid E) s (e_servers E) (e_store E) = Inr proposed"
      "foldE (validate_step E) proposed ([], []) = Inr (r, steps)"
      by (auto simp: start_server_drain_def server_at_def dlookup_def bindE_Inr_iff)
    let ?un = "filter (\<lambda>k. k \<notin> set (map ms_service_id steps)) (sole_hosted E s)"
    show thesis
    proof (cases "?un = []")
      case False
      with assms s True st show thesis
        by (intro abort [OF s True, of ?un])
          (auto simp: start_server_drain_def server_at_def dlookup_def bindE_Inr_iff Let_def)
    next
      case un: True
      then have sub: "set (sole_hosted E s) \<subseteq> set (map ms_service_id steps)"
        by (simp only: filter_empty_conv) blast
      let ?E3 = "\<lambda>E2. fold (drain_unmigrated (map ms_service_id steps)) (dvals (hosted_replicas s)) E2"
      from assms s True st un obtain E2 where "b"
        "foldE (migrate_step W k) steps (put_server k
           (s\<lparr>srv_state := SrvDraining, drain_started_at := Some (e_now E), last_transition_time := e_now E\<rparr>) E) = Inr E2"
        "E' = push (e_now (?E3 E2) + SERVER_DRAIN_GRACE_SEC) (ServerDrainDone k) (?E3 E2)"
        by (auto simp: start_server_drain_def server_at_def dlookup_def bindE_Inr_iff Let_def)
      with sub show thesis by (intro drain [OF s True _ st])
    qed
  qed
qed

context lawful_algorithm
begin

lemma start_server_drain_inv:
  assumes W: "w_alg W = A" "w_cfg W = C" and d: "start_server_drain W k E = Inr (b, E')" and inv: "engine_inv X E"
  shows "engine_inv X E' \<and> grows E E'"
  using d
proof (cases rule: start_server_drain_cases)
  case not_active
  with inv show ?thesis by simp
next
  case abort
  with trigger_emergency_boot_inv [OF abort(4) inv] show ?thesis by simp
next
  case (drain s proposed r steps E2)
  let ?s = "s\<lparr>srv_state := SrvDraining, drain_started_at := Some (e_now E), last_transition_time := e_now E\<rparr>"
  let ?E1 = "put_server k ?s E"
  let ?E3 = "fold (drain_unmigrated (map ms_service_id steps)) (dvals (hosted_replicas s)) E2"
  have inv': "store_inv E" "life_inv X E" "agenda_inv E" using inv by (simp_all add: engine_inv_def)
  have wf: "wf_servers (e_servers E)" and si: "server_inv (e_store E) s"
    using inv'(1) drain(1) by (auto simp: store_inv_def)
  have same: "same_server s ?s" by (simp add: same_server_def)
  have here: "in_srv_state E k st \<longleftrightarrow> srv_state s = st" for st using drain(1) by (simp add: in_srv_state_def)
  have "life_inv (add_mset (ServerDrainDone k) X) ?E1"
  proof (rule life_inv_move [OF inv'(2) drain(1) same])
    show "pend (add_mset (ServerDrainDone k) X) E (ServerBootDone j) =
       (if (if j = k then srv_state ?s = SrvBooting else in_srv_state E j SrvBooting) then 1 else 0)" for j
      using inv'(2) here drain(2) by (simp add: life_inv_def pend_add)
    show "pend (add_mset (ServerDrainDone k) X) E (ServerDrainDone j) =
       (if (if j = k then srv_state ?s = SrvDraining else in_srv_state E j SrvDraining) then 1 else 0)" for j
      using inv'(2) here drain(2) by (simp add: life_inv_def pend_add)
  qed (simp_all add: pend_add drain(2))
  then have inv1: "engine_inv (add_mset (ServerDrainDone k) X) ?E1"
    using inv' same drain(1) by (simp add: engine_inv_def store_inv_put_server)
  have g1: "grows E ?E1" by (rule growsI [OF evolves_put_server [OF drain(1)]]) (simp add: fixed_data_def)
  have targets: "in_srv_state ?E1 (ms_target_server_id step) SrvActive" if "step \<in> set steps" for step
  proof -
    have "step \<in> set proposed" using foldE_validate [OF drain(5)] that by auto
    then have "valid_step C (e_store E) s (e_servers E) step"
      using migration_sound drain(4) wf si by (auto simp: W server_inv_def)
    then have "in_srv_state E (ms_target_server_id step) SrvActive" "ms_target_server_id step \<noteq> k"
      using wf_servers_id [OF wf] drain(1) by (auto simp: valid_step_def in_srv_state_def)
    then show ?thesis by (simp add: in_srv_state_put_server)
  qed
  have 2: "engine_inv (add_mset (ServerDrainDone k) X) E2 \<and> grows ?E1 E2"
    using migrate_steps [OF drain(7) inv1 targets] by blast
  have 3: "engine_inv (add_mset (ServerDrainDone k) X) ?E3"
    by (rule fold_invariant_set [where P = "engine_inv (add_mset (ServerDrainDone k) X)"])
       (auto simp: 2 drain_unmigrated_inv)
  have g3: "grows E2 ?E3" by (rule fold_grows) (rule drain_unmigrated_grows)
  have "grows ?E3 E'" unfolding drain(8) by (rule growsI [OF evolves_push]) simp
  with g1 2 g3 have "grows E E'" by (meson grows_trans)
  moreover have "engine_inv X E'"
    unfolding drain(8) by (rule engine_inv_settle [OF 3]) (simp_all add: SERVER_DRAIN_GRACE_SEC_def)
  ultimately show ?thesis by simp
qed

end

lemma handle_drain_done_cases:
  assumes "handle_drain_done k E = Inr E'"
  obtains (again) s where "dget (e_servers E) k = Some s"
      "E' = push (e_now E + SERVER_DRAIN_GRACE_SEC) (ServerDrainDone k) E"
  | (off) s where "dget (e_servers E) k = Some s"
      "\<forall>a \<in> set (dvals (hosted_replicas s)). r_state (e_store E a) = RepTerminated"
      "E' = record_metric (record_transition ServerShutdown) (put_server k
         (s\<lparr>hosted_replicas := filter (\<lambda>(_, a). r_state (e_store E a) \<noteq> RepTerminated) (hosted_replicas s),
            srv_state := SrvOff, last_transition_time := e_now E, num_shutdowns := num_shutdowns s + 1\<rparr>) E)"
  using assms by (auto simp: handle_drain_done_def server_at_def bindE_Inr_iff dlookup_Inr_iff Let_def
      split: if_splits)

lemma handle_drain_done_inv:
  assumes "handle_drain_done k E = Inr E'" and inv: "engine_inv (add_mset (ServerDrainDone k) X) E"
  shows "engine_inv X E'"
  using assms(1)
proof (cases rule: handle_drain_done_cases)
  case again
  show ?thesis unfolding again(2) by (rule engine_inv_settle [OF inv]) (simp_all add: SERVER_DRAIN_GRACE_SEC_def)
next
  case (off s)
  have inv': "store_inv E" "life_inv (add_mset (ServerDrainDone k) X) E" "agenda_inv E"
    using inv by (simp_all add: engine_inv_def)
  have empty: "hosted_replicas s = []"
  proof (rule ccontr)
    assume "hosted_replicas s \<noteq> []"
    then obtain svc a where m: "(svc, a) \<in> set (hosted_replicas s)" by (metis list.set_intros(1) neq_Nil_conv surj_pair)
    have "distinct (dkeys (hosted_replicas s))" using inv'(1) off(1) by (auto simp: store_inv_def server_inv_def)
    with m off(1) have "hosts E k svc a" by (auto simp: hosts_def dget_iff_mem)
    then have "r_state (e_store E a) \<noteq> RepTerminated" using store_hosted [OF inv'(1)] by (simp add: hosted_inv_def)
    with off(2) m show False by force
  qed
  let ?s = "s\<lparr>srv_state := SrvOff, last_transition_time := e_now E, num_shutdowns := num_shutdowns s + 1\<rparr>"
  have s': "s\<lparr>hosted_replicas := filter (\<lambda>(_, a). r_state (e_store E a) \<noteq> RepTerminated) (hosted_replicas s),
            srv_state := SrvOff, last_transition_time := e_now E, num_shutdowns := num_shutdowns s + 1\<rparr> = ?s"
    using empty by simp
  have same: "same_server s ?s" by (simp add: same_server_def)
  have here: "in_srv_state E k st \<longleftrightarrow> srv_state s = st" for st using off(1) by (simp add: in_srv_state_def)
  have cnt: "pend (add_mset (ServerDrainDone k) X) E (ServerBootDone j) = (if in_srv_state E j SrvBooting then 1 else 0)"
    "pend (add_mset (ServerDrainDone k) X) E (ServerDrainDone j) = (if in_srv_state E j SrvDraining then 1 else 0)" for j
    using inv'(2) by (simp_all add: life_inv_def)
  have draining: "srv_state s = SrvDraining" using cnt(2) [of k] here by (simp add: pend_add split: if_splits)
  have "life_inv X (put_server k ?s E)"
  proof (rule life_inv_move [OF inv'(2) off(1) same])
    show "pend X E (ServerBootDone j) =
       (if (if j = k then srv_state ?s = SrvBooting else in_srv_state E j SrvBooting) then 1 else 0)" for j
      using cnt(1) [of j] here draining by (simp add: pend_add)
    show "pend X E (ServerDrainDone j) =
       (if (if j = k then srv_state ?s = SrvDraining else in_srv_state E j SrvDraining) then 1 else 0)" for j
      using cnt(2) [of j] here draining by (simp add: pend_add split: if_splits)
  qed (use empty draining in \<open>auto simp: pend_add owed_def\<close>)
  then have "engine_inv X (put_server k ?s E)"
    using inv' same off(1) by (simp add: engine_inv_def store_inv_put_server)
  then show ?thesis unfolding off(3) s' by (simp add: same_core_inv [OF same_core_record_metric])
qed

lemma handle_drain_done_evolves:
  assumes "handle_drain_done k E = Inr E'" and "e_now E \<le> e_cutoff E"
  shows "evolves (rechecks (e_cutoff E) (e_now E)) E E'"
  using assms(1)
proof (cases rule: handle_drain_done_cases)
  case again
  let ?x = "(e_cutoff E - e_now E) / SERVER_DRAIN_GRACE_SEC"
  have "(e_cutoff E - (e_now E + SERVER_DRAIN_GRACE_SEC)) / SERVER_DRAIN_GRACE_SEC = ?x - 1"
    by (simp add: SERVER_DRAIN_GRACE_SEC_def field_simps)
  moreover have "0 \<le> ?x" using assms(2) by (simp add: SERVER_DRAIN_GRACE_SEC_def)
  ultimately have "1 + rechecks (e_cutoff E) (e_now E + SERVER_DRAIN_GRACE_SEC) = rechecks (e_cutoff E) (e_now E)"
    by (simp add: rechecks_def nat_add_distrib)
  then show ?thesis unfolding again(2)
    by (intro evolves_mono [OF evolves_push]) (simp_all add: event_weight_def)
next
  case (off s)
  show ?thesis unfolding off(3)
    by (rule evolves_0_trans(1) [OF evolves_put_server [OF off(1)] evolves_record_metric]) (simp add: fixed_data_def)
qed

section \<open>Initial placement\<close>

lemma start_server_boot_states:
  assumes "start_server_boot k em E = Inr E'"
  shows "in_srv_state E' j st \<longleftrightarrow>
           (if j = k \<and> in_srv_state E k SrvOff then st = SrvBooting else in_srv_state E j st)"
  using assms
proof (cases rule: start_server_boot_cases)
  case (not_off s)
  then show ?thesis by (auto simp: in_srv_state_def)
next
  case (boot s)
  let ?s = "s\<lparr>srv_state := SrvBooting, is_emergency_boot := em, boot_started_at := Some (e_now E),
             last_transition_time := e_now E, num_boots := num_boots s + 1,
             cumulative_energy_joule := cumulative_energy_joule s + E_BOOT_SERVER_J\<rparr>"
  have "in_srv_state E' j st = in_srv_state (put_server k ?s E) j st"
    unfolding boot(3) push_frame by (rule fun_cong [OF fun_cong [OF in_srv_state_core [OF same_core_record_metric]]])
  moreover have "in_srv_state E k SrvOff" using boot(1,2) by (simp add: in_srv_state_def)
  ultimately show ?thesis by (auto simp: in_srv_state_put_server)
qed

lemma boot_selected:
  assumes "foldE (\<lambda>sid. start_server_boot sid False) sel E = Inr E'" and "engine_inv X E"
    and "\<And>k. k \<in> set sel \<Longrightarrow> in_srv_state E k SrvOff \<or> in_srv_state E k SrvBooting"
  shows "engine_inv X E' \<and> grows E E'
     \<and> (\<forall>k. in_srv_state E k SrvBooting \<or> k \<in> set sel \<longrightarrow> in_srv_state E' k SrvBooting)"
  using assms
proof (induction sel arbitrary: E)
  case (Cons k sel)
  from Cons.prems(1) obtain E1 where E1: "start_server_boot k False E = Inr E1"
    "foldE (\<lambda>sid. start_server_boot sid False) sel E1 = Inr E'" by (auto simp: bindE_Inr_iff)
  note st = start_server_boot_states [OF E1(1)]
  have "engine_inv X E' \<and> grows E1 E'
     \<and> (\<forall>k. in_srv_state E1 k SrvBooting \<or> k \<in> set sel \<longrightarrow> in_srv_state E' k SrvBooting)"
    using Cons.prems(3) start_server_boot_inv [OF E1(1) Cons.prems(2)]
    by (intro Cons.IH [OF E1(2)]) (auto simp: st)
  moreover have "in_srv_state E1 k SrvBooting" using Cons.prems(3) [of k] by (auto simp: st)
  moreover have "in_srv_state E j SrvBooting \<longrightarrow> in_srv_state E1 j SrvBooting" for j by (auto simp: st)
  ultimately show ?case using start_server_boot_grows [OF E1(1)] by (auto intro: grows_trans)
qed simp

lemma nearest_capable_member:
  assumes "nearest_capable_server W svc sel E = Inr (Some t)" and "wf_servers (e_servers E)"
  shows "t \<in> set sel"
proof -
  obtain ss p s where ss: "mapE (server_at E) sel = Inr ss" and s: "t = srv_id s"
    "first_by (km_from p) (filter (\<lambda>s. can_host (w_cfg W) (e_store E) s svc (resource_mips_of svc) None) ss) = Some s"
    using assms(1)
    by (auto simp: nearest_capable_server_def bindE_Inr_iff Let_def service_of_def dlookup_Inr_iff
        resource_mips_of_def split: if_splits)
  have "s \<in> set ss" using first_by_Some [OF s(2)] by simp
  with ss obtain i where "i < length sel" "server_at E (sel ! i) = Inr s"
    by (auto simp: mapE_Inr list_all2_conv_all_nth in_set_conv_nth)
  then obtain k where "k \<in> set sel" "server_at E k = Inr s" using nth_mem by blast
  then show ?thesis
    using wf_servers_id [OF assms(2)] s(1) by (auto simp: server_at_def dlookup_Inr_iff)
qed

context lawful_algorithm
begin

lemma initial_placement_inv:
  assumes W: "w_alg W = A" "w_cfg W = C" and i: "initial_placement W E = Inr E'" and inv: "engine_inv X E"
    and off: "\<And>k s. dget (e_servers E) k = Some s \<Longrightarrow> srv_state s = SrvOff"
  shows "engine_inv X E' \<and> grows E E'"
proof -
  obtain sel E1 where sel: "alg_initial_placement A (e_algorithm E) (e_servers E) (initial_bts W (events_df E)) = Inr sel"
    and E1: "foldE (\<lambda>sid. start_server_boot sid False) sel E = Inr E1"
    and E': "foldE (place_initial W sel) ACTIVE_SERVICES E1 = Inr E'"
    using i by (auto simp: initial_placement_def bindE_Inr_iff W)
  have wf: "wf_servers (e_servers E)" using inv by (simp add: engine_inv_def store_inv_def)
  have "in_srv_state E k SrvOff" if "k \<in> set sel" for k
  proof -
    have "k \<in> set (dkeys (e_servers E))" using initial_sound [OF sel wf] that by auto
    then obtain s where "dget (e_servers E) k = Some s" by (metis map_of_eq_None_iff not_None_eq set_map)
    with off show ?thesis by (auto simp: in_srv_state_def)
  qed
  then have b: "engine_inv X E1 \<and> grows E E1 \<and> (\<forall>k \<in> set sel. in_srv_state E1 k SrvBooting)"
    using boot_selected [OF E1 inv] by blast
  have "engine_inv X E' \<and> grows E1 E' \<and> (\<forall>k \<in> set sel. in_srv_state E' k SrvBooting)"
  proof (rule foldE_invariant [OF E', where
        P = "\<lambda>u. engine_inv X u \<and> grows E1 u \<and> (\<forall>k \<in> set sel. in_srv_state u k SrvBooting)"])
    fix svc u v assume u: "engine_inv X u \<and> grows E1 u \<and> (\<forall>k \<in> set sel. in_srv_state u k SrvBooting)"
      and "place_initial W sel svc u = Inr v"
    then consider "v = u" | t p where "nearest_capable_server W svc sel u = Inr (Some t)"
        "place_replica W t svc u = Inr (p, v)"
      by (auto simp: place_initial_def bindE_Inr_iff split: option.splits)
    then show "engine_inv X v \<and> grows E1 v \<and> (\<forall>k \<in> set sel. in_srv_state v k SrvBooting)"
    proof cases
      case (2 t p)
      have "wf_servers (e_servers u)" using u by (simp add: engine_inv_def store_inv_def)
      then have "t \<in> set sel" by (rule nearest_capable_member [OF 2(1)])
      then have "engine_inv X v" using u by (intro place_replica_inv [OF 2(2)]) auto
      moreover have "grows E1 v"
        using u growsI [OF place_replica_evolves [OF 2(2)]] by (blast intro: grows_trans)
      ultimately show ?thesis using u place_replica_frame(1) [OF 2(2)] by auto
    qed (use u in simp)
  qed (use b in simp)
  with b show ?thesis by (blast intro: grows_trans)
qed

end

end
