(* ===== verification/Monitor.thy ===== *)
theory Monitor
  imports Fleet
begin

text \<open>
  \<open>simulator/engine.py\<close>, third part: the snapshots an algorithm decides from, and the
  signals read from them (sustained over- and underload, starved services, the audits of
  whether a decision was needed).
\<close>

section \<open>Entries\<close>

definition server_entry :: "'a engine \<Rightarrow> server \<Rightarrow> heap \<Rightarrow> real \<Rightarrow> server_snapshot" where
  "server_entry E s h util =
     \<lparr>ss_state = srv_state s, ss_utilization = util, ss_free_capacity = free_capacity h s,
      ss_provision_cooldown_active = in_cooldown (e_now E) COOLDOWN_SEC s,
      ss_min_active_duration_met =
        (is_emergency_boot s \<or> MIN_ACTIVE_DURATION_SEC \<le> e_now E - last_transition_time s),
      ss_is_last_active_server = (srv_state s = SrvActive \<and> n_active E \<le> 1),
      ss_turn_off_necessary = None\<rparr>"

definition ready_of :: "'a engine \<Rightarrow> int \<Rightarrow> nat list" where
  "ready_of E svc = filter (\<lambda>a. r_state (e_store E a) = RepReady) (by_service E svc)"

definition mature_of :: "'a engine \<Rightarrow> int \<Rightarrow> nat list" where
  "mature_of E svc =
     filter (\<lambda>a. MIN_REPLICA_AGE_BEFORE_SCALE_DOWN_SEC \<le> e_now E - r_created_at (e_store E a)) (ready_of E svc)"

definition queue_len_of :: "int \<Rightarrow> nat" where
  "queue_len_of svc = (case service_of svc of Inl _ \<Rightarrow> 0 | Inr i \<Rightarrow> svc_queue_len i)"

text \<open>Everything of a service entry but the rolling rate, with the mean occupancy passed in.\<close>

definition service_entry :: "'a engine \<Rightarrow> int \<Rightarrow> real \<Rightarrow> real option \<Rightarrow> service_snapshot" where
  "service_entry E svc avg_occ rolling_rate =
     (let reps = by_service E svc;
          arrivals = dget_or 0 (tick_total E) svc;
          total = real (max arrivals 1)
      in \<lparr>sv_n_replicas = length (filter (\<lambda>a. r_state (e_store E a) = RepReady
                                            \<or> r_state (e_store E a) = RepStarting) reps),
          sv_n_ready_replicas = length (ready_of E svc),
          sv_n_mature_ready_replicas = length (mature_of E svc),
          sv_avg_queue_occupancy = avg_occ,
          sv_queue_len = queue_len_of svc,
          sv_rejection_rate = real (dget_or 0 (tick_rejected E) svc) / total,
          sv_deadline_violation_rate = real (dget_or 0 (tick_violated E) svc) / total,
          sv_rejection_rate_rolling = rolling_rate,
          sv_recent_arrivals = arrivals,
          sv_demand_centroid = centroid_of E svc,
          sv_proximity_violation_rate = real (dget_or 0 (tick_proximity_violated E) svc) / total,
          sv_scale_cooldown_active =
            (e_now E - dget_or 0 (service_last_scale_time E) svc < COOLDOWN_SEC)\<rparr>)"

definition avg_occupancy :: "real \<Rightarrow> nat list \<Rightarrow> heap \<Rightarrow> real \<times> heap" where
  "avg_occupancy now ready h =
     (let (occs, h') = map_st (sim_occupancy now) ready h
      in (if ready \<noteq> [] then real (sum_list occs) / real (length ready) else 0, h'))"

section \<open>Snapshots\<close>

definition readonly_server_entry :: "'a engine \<Rightarrow> int \<times> server \<Rightarrow> heap \<Rightarrow> (int \<times> server_snapshot) \<times> heap" where
  "readonly_server_entry E = (\<lambda>(sid, s) h.
     let (util, h') = instantaneous_utilization (e_now E) h s
     in ((sid, server_entry E s h' util), h'))"

definition readonly_service_entry :: "'a engine \<Rightarrow> int \<Rightarrow> heap \<Rightarrow> (int \<times> service_snapshot) \<times> heap" where
  "readonly_service_entry E svc h =
     (let E' = E\<lparr>e_store := h\<rparr>; (avg, h') = avg_occupancy (e_now E) (ready_of E' svc) h
      in ((svc, service_entry E' svc avg None), h'))"

definition build_metrics_snapshot_readonly :: "'a engine \<Rightarrow> snapshot \<times> 'a engine" where
  "build_metrics_snapshot_readonly E =
     (let (srvs, h1) = map_st (readonly_server_entry E) (e_servers E) (e_store E);
          (svcs, h2) = map_st (readonly_service_entry E) ACTIVE_SERVICES h1
      in (\<lparr>sn_servers = srvs, sn_services = svcs, sn_avg_response_time_recent = 0,
           sn_energy_recent_joule = 0, sn_num_rejected_recent = 0, sn_turn_on_necessary = None\<rparr>,
          E\<lparr>e_store := h2\<rparr>))"

definition peek_snapshot :: "'a engine \<Rightarrow> snapshot \<times> 'a engine" where
  "peek_snapshot E = build_metrics_snapshot_readonly E"

text \<open>The point with the least total distance to the others; the first one on ties.\<close>

definition medoid_cost :: "(real \<times> real) list \<Rightarrow> real \<times> real \<Rightarrow> real" where
  "medoid_cost points p = (\<Sum>q\<leftarrow>points. haversine_km (fst p) (snd p) (fst q) (snd q))"

definition medoid :: "(real \<times> real) list \<Rightarrow> (real \<times> real) option" where
  "medoid points =
     (case points of
        [] \<Rightarrow> None
      | p0 # _ \<Rightarrow>
          Some (fst (foldl (\<lambda>(best, best_cost) p.
                       let cost = medoid_cost points p
                       in if (case best_cost of None \<Rightarrow> True | Some c \<Rightarrow> cost < c) then (p, Some cost)
                          else (best, best_cost))
                     (p0, None) points)))"

definition window_server_entry :: "'a engine \<Rightarrow> int \<times> server \<Rightarrow> heap \<Rightarrow> (int \<times> server_snapshot) \<times> heap" where
  "window_server_entry E = (\<lambda>(sid, s) h.
     let window_elapsed = e_now E - util_window_start_time E
     in if 1 / 10 ^ 9 < window_elapsed
        then ((sid, server_entry E s h
                 (if 0 < srv_capacity s
                  then (cumulative_busy_cpu_seconds s - dget_or 0 (util_at_window_start E) sid)
                       / (of_int (srv_capacity s) * window_elapsed)
                  else 0)), h)
        else let (util, h') = instantaneous_utilization (e_now E) h s
             in ((sid, server_entry E s h' util), h'))"

definition window_service_entry :: "int \<Rightarrow> 'a engine \<Rightarrow> (int \<times> service_snapshot) \<times> 'a engine" where
  "window_service_entry svc E =
     (let ready = ready_of E svc;
          rolling' = push_tick svc (dget_or 0 (tick_rejected E) svc) (dget_or 0 (tick_total E) svc)
                       (rolling_rejection E);
          rate = rolling_rejection_rate rolling' svc;
          (avg, h') = avg_occupancy (e_now E) ready (e_store E);
          E1 = E\<lparr>rolling_rejection := rolling', e_store := h'\<rparr>;
          E2 = (if 0 < dget_or 0 (tick_total E1) svc
                then E1\<lparr>service_demand_centroid :=
                          dset svc (medoid (dget_or [] (recent_positions E1) svc))
                            (service_demand_centroid E1)\<rparr>
                else E1)
      in ((svc, service_entry E2 svc avg (Some rate)), E2))"

definition build_metrics_snapshot :: "'a engine \<Rightarrow> snapshot \<times> 'a engine" where
  "build_metrics_snapshot E =
     (let (srvs, h1) = map_st (window_server_entry E) (e_servers E) (e_store E);
          (svcs, E2) = map_st window_service_entry ACTIVE_SERVICES (E\<lparr>e_store := h1\<rparr>);
          current_energy = (\<Sum>s\<leftarrow>dvals (e_servers E2). cumulative_energy_joule s)
      in (\<lparr>sn_servers = srvs, sn_services = svcs,
           sn_avg_response_time_recent =
             (if tick_response_times E2 \<noteq> []
              then sum_list (tick_response_times E2) / real (length (tick_response_times E2)) else 0),
           sn_energy_recent_joule = current_energy - energy_at_last_tick E2,
           sn_num_rejected_recent = sum_list (dvals (tick_rejected E2)),
           sn_turn_on_necessary = None\<rparr>,
          E2\<lparr>energy_at_last_tick := current_energy\<rparr>))"

section \<open>Signals and audits\<close>

definition sustained :: "real \<Rightarrow> real \<Rightarrow> real option \<Rightarrow> bool" where
  "sustained now d since = (case since of None \<Rightarrow> False | Some t \<Rightarrow> d \<le> now - t)"

definition any_active_server_sustained_overloaded :: "'a engine \<Rightarrow> bool" where
  "any_active_server_sustained_overloaded E \<longleftrightarrow>
     (\<exists>since \<in> set (dvals (high_util_since E)). sustained (e_now E) SUSTAIN_HIGH_SEC since)"

definition any_active_server_sustained_underloaded :: "'a engine \<Rightarrow> bool" where
  "any_active_server_sustained_underloaded E \<longleftrightarrow>
     \<not> n_active E \<le> 1
     \<and> (\<exists>since \<in> set (dvals (low_util_since E)). sustained (e_now E) SUSTAIN_LOW_SEC since)"

definition was_turn_off_necessary :: "'a engine \<Rightarrow> int \<Rightarrow> bool" where
  "was_turn_off_necessary E server_id =
     sustained (e_now E) SUSTAIN_LOW_SEC (dget_or None (low_util_since E) server_id)"

definition was_scale_up_necessary :: "service_snapshot \<Rightarrow> bool" where
  "was_scale_up_necessary sv \<longleftrightarrow>
     DECISION_AUDIT_SCALE_UP_OCC_THRESHOLD < occ_ratio sv \<or> 0 < rejection_signal sv
     \<or> 0 < sv_deadline_violation_rate sv"

definition was_scale_down_necessary :: "service_snapshot \<Rightarrow> bool" where
  "was_scale_down_necessary sv \<longleftrightarrow>
     occ_ratio sv < DECISION_AUDIT_SCALE_DOWN_OCC_THRESHOLD \<and> 1 < sv_n_ready_replicas sv"

text \<open>\<open>snapshot["services"][k]\<close>: the snapshots of the engine have an entry for each service.\<close>

definition service_starved :: "cfg \<Rightarrow> heap \<Rightarrow> servers \<Rightarrow> snapshot \<Rightarrow> int \<Rightarrow> bool result" where
  "service_starved C h servers sn svc_id =
     bindE (dlookup (sn_services sn) svc_id) (\<lambda>sv.
       if \<not> was_scale_up_necessary sv then Inr False
       else bindE (service_of svc_id) (\<lambda>info.
         Inr (\<not> (\<exists>s \<in> set (dvals servers). (srv_state s = SrvActive \<or> srv_state s = SrvBooting)
                  \<and> can_host C h s svc_id (resource_mips info) (sv_demand_centroid sv)))))"

fun anyE :: "('x \<Rightarrow> bool result) \<Rightarrow> 'x list \<Rightarrow> bool result" where
  "anyE p [] = Inr False"
| "anyE p (x # xs) = bindE (p x) (\<lambda>b. if b then Inr True else anyE p xs)"

definition any_service_capacity_starved :: "'a world \<Rightarrow> 'a engine \<Rightarrow> snapshot \<Rightarrow> bool result" where
  "any_service_capacity_starved W E sn =
     anyE (service_starved (w_cfg W) (e_store E) (e_servers E) sn) ACTIVE_SERVICES"

definition turn_on_necessary :: "'a world \<Rightarrow> 'a engine \<Rightarrow> snapshot \<Rightarrow> bool result" where
  "turn_on_necessary W E sn =
     (if any_active_server_sustained_overloaded E then Inr True
      else any_service_capacity_starved W E sn)"

definition was_turn_on_necessary_audit :: "'a world \<Rightarrow> 'a engine \<Rightarrow> snapshot \<Rightarrow> bool result" where
  "was_turn_on_necessary_audit W E sn =
     bindE (anyE (\<lambda>(sid, s).
               if srv_state s = SrvActive
               then bindE (dlookup (sn_servers sn) sid) (\<lambda>x. Inr (UTIL_SCALE_UP_THRESHOLD < ss_utilization x))
               else Inr False) (e_servers E)) (\<lambda>overloaded_now.
       if overloaded_now then Inr True else any_service_capacity_starved W E sn)"

definition was_turn_off_necessary_audit :: "int \<Rightarrow> snapshot \<Rightarrow> bool result" where
  "was_turn_off_necessary_audit server_id sn =
     bindE (dlookup (sn_servers sn) server_id) (\<lambda>x. Inr (ss_utilization x < UTIL_SCALE_DOWN_THRESHOLD))"

section \<open>What a tick writes back\<close>

definition track_server :: "snapshot \<Rightarrow> int \<times> server \<Rightarrow> 'a engine \<Rightarrow> 'a engine result" where
  "track_server sn = (\<lambda>(sid, s) E.
     if srv_state s \<noteq> SrvActive
     then Inr (E\<lparr>low_util_since := dset sid None (low_util_since E),
                 high_util_since := dset sid None (high_util_since E)\<rparr>)
     else bindE (dlookup (sn_servers sn) sid) (\<lambda>x.
       let util = ss_utilization x;
           keep = (\<lambda>d. case dget_or None d sid of None \<Rightarrow> dset sid (Some (e_now E)) d | Some _ \<Rightarrow> d)
       in Inr (E\<lparr>low_util_since := (if util < UTIL_SCALE_DOWN_THRESHOLD then keep (low_util_since E)
                                    else dset sid None (low_util_since E)),
                 high_util_since := (if UTIL_SCALE_UP_THRESHOLD < util then keep (high_util_since E)
                                     else dset sid None (high_util_since E))\<rparr>)))"

definition update_sustain_tracking :: "snapshot \<Rightarrow> 'a engine \<Rightarrow> 'a engine result" where
  "update_sustain_tracking sn E = foldE (track_server sn) (e_servers E) E"

definition annotate_provisioning_necessity :: "'a world \<Rightarrow> 'a engine \<Rightarrow> snapshot \<Rightarrow> snapshot result" where
  "annotate_provisioning_necessity W E sn =
     bindE (turn_on_necessary W E sn) (\<lambda>b.
       Inr (sn\<lparr>sn_turn_on_necessary := Some b,
               sn_servers := map (\<lambda>(sid, x). (sid, x\<lparr>ss_turn_off_necessary := Some (was_turn_off_necessary E sid)\<rparr>))
                               (sn_servers sn)\<rparr>))"

section \<open>A snapshot only reads\<close>

text \<open>What taking a snapshot may do to the engine: finished requests leave the queues.\<close>

definition reads :: "'a engine \<Rightarrow> 'a engine \<Rightarrow> bool" where
  "reads E E' \<longleftrightarrow> pruned (e_now E) (e_store E) (e_store E') \<and> same_core (E\<lparr>e_store := e_store E'\<rparr>) E'
     \<and> e_metrics E' = e_metrics E \<and> service_last_scale_time E' = service_last_scale_time E
     \<and> tick_total E' = tick_total E \<and> request_seq E' = request_seq E"

lemma reads_refl [simp]: "reads E E"
  by (simp add: reads_def same_core_def)

lemma reads_trans: "reads E E' \<Longrightarrow> reads E' E'' \<Longrightarrow> reads E E''"
  unfolding reads_def by (auto simp: same_core_def intro: pruned_trans)

lemma reads_inv: "reads E E' \<Longrightarrow> engine_inv X E \<Longrightarrow> engine_inv X E'"
  unfolding reads_def by (metis engine_inv_pruned same_core_inv)

lemma reads_evolves: "reads E E' \<Longrightarrow> evolves n E E'"
  unfolding reads_def by (metis evolves_0_trans(1) evolves_store evolves_same_core)

lemma reads_store: "pruned (e_now E) (e_store E) h \<Longrightarrow> reads E (E\<lparr>e_store := h\<rparr>)"
  by (simp add: reads_def same_core_def)

lemma map_st_invariant:
  assumes "map_st f xs st = (ys, st')" and "P st"
    and "\<And>x u y v. x \<in> set xs \<Longrightarrow> P u \<Longrightarrow> f x u = (y, v) \<Longrightarrow> P v"
  shows "P st'"
  using assms
proof (induction xs arbitrary: st ys)
  case (Cons x xs)
  obtain y u where u: "f x st = (y, u)" by (cases "f x st") auto
  obtain zs v where v: "map_st f xs u = (zs, v)" by (cases "map_st f xs u") auto
  have "P u" using Cons.prems(2,3) u by auto
  moreover have "v = st'" using Cons.prems(1) u v by simp
  ultimately show ?case using Cons.IH [of u zs] v Cons.prems(3) by auto
qed simp

lemma map_st_keys:
  assumes "map_st f xs st = (ys, st')" and "\<And>x u. x \<in> set xs \<Longrightarrow> fst (fst (f x u)) = g x"
  shows "map fst ys = map g xs"
  using assms
proof (induction xs arbitrary: st ys st')
  case (Cons x xs)
  obtain y u where u: "f x st = (y, u)" by (cases "f x st") auto
  obtain zs v where v: "map_st f xs u = (zs, v)" by (cases "map_st f xs u") auto
  have "ys = y # zs" using Cons.prems(1) u v by simp
  moreover have "fst y = g x" using Cons.prems(2) [of x st] u by simp
  ultimately show ?case using Cons.IH [OF v] Cons.prems(2) by simp
qed simp

lemma avg_occupancy_pruned: "pruned now h (snd (avg_occupancy now ready h))"
proof -
  obtain occs h' where m: "map_st (sim_occupancy now) ready h = (occs, h')"
    by (cases "map_st (sim_occupancy now) ready h") auto
  have "pruned now h h'"
    by (rule map_st_invariant [OF m, where P = "pruned now h"])
       (auto simp: sim_occupancy_eq pruned_upd)
  with m show ?thesis by (simp add: avg_occupancy_def)
qed

lemma window_server_entry_pruned: "pruned (e_now E) h (snd (window_server_entry E x h))"
  using pruned_instantaneous_utilization [of "e_now E" h "snd x"]
  by (cases x) (simp add: window_server_entry_def Let_def split_beta)

lemma window_service_entry_reads: "reads E (snd (window_service_entry svc E))"
proof -
  let ?r = "avg_occupancy (e_now E) (ready_of E svc) (e_store E)"
  have p: "pruned (e_now E) (e_store E) (snd ?r)" by (rule avg_occupancy_pruned)
  then show ?thesis
    by (simp add: window_service_entry_def Let_def split_beta reads_def same_core_def)
qed

lemma build_metrics_snapshot_reads:
  assumes "build_metrics_snapshot E = (sn, E')"
  shows "reads E E'" and "dkeys (sn_servers sn) = dkeys (e_servers E)" and "dkeys (sn_services sn) = ACTIVE_SERVICES"
proof -
  obtain srvs h1 where 1: "map_st (window_server_entry E) (e_servers E) (e_store E) = (srvs, h1)"
    by (cases "map_st (window_server_entry E) (e_servers E) (e_store E)") auto
  obtain svcs E2 where 2: "map_st window_service_entry ACTIVE_SERVICES (E\<lparr>e_store := h1\<rparr>) = (svcs, E2)"
    by (cases "map_st window_service_entry ACTIVE_SERVICES (E\<lparr>e_store := h1\<rparr>)") auto
  have "pruned (e_now E) (e_store E) h1"
  proof (rule map_st_invariant [OF 1, where P = "pruned (e_now E) (e_store E)"])
    fix x u y v assume "pruned (e_now E) (e_store E) u" "window_server_entry E x u = (y, v)"
    then show "pruned (e_now E) (e_store E) v" using window_server_entry_pruned [of E u x] by (auto intro: pruned_trans)
  qed simp
  then have "reads E (E\<lparr>e_store := h1\<rparr>)" by (rule reads_store)
  then have r: "reads E E2"
  proof (rule map_st_invariant [OF 2, where P = "reads E"])
    fix x u y v assume "reads E u" "window_service_entry x u = (y, v)"
    then show "reads E v" using window_service_entry_reads [of u x] by (auto intro: reads_trans)
  qed
  have E': "E' = E2\<lparr>energy_at_last_tick := \<Sum>s\<leftarrow>dvals (e_servers E2). cumulative_energy_joule s\<rparr>"
    and sn: "sn_servers sn = srvs" "sn_services sn = svcs"
    using assms 1 2 by (auto simp: build_metrics_snapshot_def Let_def)
  have "reads E2 E'" unfolding E' by (simp add: reads_def same_core_def)
  with r show "reads E E'" by (rule reads_trans)
  show "dkeys (sn_servers sn) = dkeys (e_servers E)" unfolding sn
    by (rule map_st_keys [OF 1]) (auto simp: window_server_entry_def Let_def split_beta)
  have "map fst svcs = map (\<lambda>x. x) ACTIVE_SERVICES"
    by (rule map_st_keys [OF 2]) (simp add: window_service_entry_def Let_def split_beta)
  then show "dkeys (sn_services sn) = ACTIVE_SERVICES" unfolding sn by simp
qed

lemma peek_snapshot_reads:
  assumes "peek_snapshot E = (sn, E')"
  shows "reads E E'" and "dkeys (sn_servers sn) = dkeys (e_servers E)" and "dkeys (sn_services sn) = ACTIVE_SERVICES"
    and "e_servers E' = e_servers E" and "e_now E' = e_now E" and "tick_times E' = tick_times E"
proof -
  obtain srvs h1 where 1: "map_st (readonly_server_entry E) (e_servers E) (e_store E) = (srvs, h1)"
    by (cases "map_st (readonly_server_entry E) (e_servers E) (e_store E)") auto
  obtain svcs h2 where 2: "map_st (readonly_service_entry E) ACTIVE_SERVICES h1 = (svcs, h2)"
    by (cases "map_st (readonly_service_entry E) ACTIVE_SERVICES h1") auto
  have 11: "pruned (e_now E) (e_store E) h1"
  proof (rule map_st_invariant [OF 1, where P = "pruned (e_now E) (e_store E)"])
    fix x u y v assume "pruned (e_now E) (e_store E) u" "readonly_server_entry E x u = (y, v)"
    then show "pruned (e_now E) (e_store E) v"
      using pruned_instantaneous_utilization [of "e_now E" u "snd x"]
      by (auto simp: readonly_server_entry_def split_beta intro: pruned_trans)
  qed simp
  have "pruned (e_now E) (e_store E) h2"
  proof (rule map_st_invariant [OF 2, where P = "pruned (e_now E) (e_store E)"], rule 11)
    fix x u y v assume "pruned (e_now E) (e_store E) u" "readonly_service_entry E x u = (y, v)"
    then show "pruned (e_now E) (e_store E) v"
      using avg_occupancy_pruned [of "e_now E" u "ready_of (E\<lparr>e_store := u\<rparr>) x"]
      by (auto simp: readonly_service_entry_def Let_def split_beta intro: pruned_trans)
  qed
  moreover have E': "E' = E\<lparr>e_store := h2\<rparr>" and sn: "sn_servers sn = srvs" "sn_services sn = svcs"
    using assms 1 2 by (auto simp: peek_snapshot_def build_metrics_snapshot_readonly_def Let_def)
  ultimately show "reads E E'" by (simp add: reads_store)
  show "dkeys (sn_servers sn) = dkeys (e_servers E)" unfolding sn
    by (rule map_st_keys [OF 1]) (auto simp: readonly_server_entry_def split_beta)
  have "map fst svcs = map (\<lambda>x. x) ACTIVE_SERVICES"
    by (rule map_st_keys [OF 2]) (simp add: readonly_service_entry_def Let_def split_beta)
  then show "dkeys (sn_services sn) = ACTIVE_SERVICES" unfolding sn by simp
  show "e_servers E' = e_servers E" "e_now E' = e_now E" "tick_times E' = tick_times E"
    by (simp_all add: E' tick_times_def)
qed

lemma track_server_shape:
  assumes "track_server sn x u = Inr v" obtains l h where "v = u\<lparr>low_util_since := l, high_util_since := h\<rparr>"
proof -
  obtain sid s where x: "x = (sid, s)" by (cases x)
  have "\<exists>l h. v = u\<lparr>low_util_since := l, high_util_since := h\<rparr>"
  proof (cases "srv_state s = SrvActive")
    case False
    with assms have "v = u\<lparr>low_util_since := dset sid None (low_util_since u),
        high_util_since := dset sid None (high_util_since u)\<rparr>" by (simp add: x track_server_def)
    then show ?thesis by blast
  next
    case True
    with assms show ?thesis
      unfolding x track_server_def Let_def by (simp only: prod.case simp_thms if_False bindE_Inr_iff sum.inject) blast
  qed
  then show thesis using that by blast
qed

lemma track_server_core:
  assumes "track_server sn x u = Inr v" shows "same_core u v"
  using assms by (rule track_server_shape) (simp add: same_core_def)

lemma same_core_trans: "same_core E E' \<Longrightarrow> same_core E' E'' \<Longrightarrow> same_core E E''"
  by (simp add: same_core_def)

lemma update_sustain_tracking_core: "update_sustain_tracking sn E = Inr E' \<Longrightarrow> same_core E E'"
  unfolding update_sustain_tracking_def
proof (rule foldE_invariant [where P = "same_core E"], assumption)
  show "same_core E E" by (simp add: same_core_def)
  show "same_core E v" if "same_core E u" "track_server sn x u = Inr v" for x u v
    using same_core_trans [OF that(1) track_server_core [OF that(2)]] .
qed

end
