(* ===== verification/Control.thy ===== *)
theory Control
  imports Monitor
begin

text \<open>
  \<open>simulator/engine.py\<close>, fourth part: the gates a decision of an algorithm passes before it
  is applied, the accounting of the decisions that were needed, and the decision tick.
\<close>

section \<open>Provisioning\<close>

definition note_applied_provision :: "provision_action \<Rightarrow> 'a engine \<Rightarrow> 'a engine" where
  "note_applied_provision action E =
     E\<lparr>last_tick_applied_actions := (last_tick_applied_actions E)\<lparr>ta_provision := Some action\<rparr>\<rparr>"

definition try_turn_on ::
  "'a world \<Rightarrow> snapshot \<Rightarrow> bool \<Rightarrow> provision_action \<Rightarrow> int \<Rightarrow> 'a engine \<Rightarrow> (bool \<times> 'a engine) result" where
  "try_turn_on W sn necessary action sid E =
     bindE (server_at E sid) (\<lambda>s.
       if srv_state s \<noteq> SrvOff then Inr (False, E)
       else if in_cooldown (e_now E) COOLDOWN_SEC s then Inr (False, E)
       else if \<not> necessary \<and> \<not> alg_bypass_sustain_gate (w_alg W) then Inr (False, E)
       else bindE (was_turn_on_necessary_audit W E sn) (\<lambda>necessary_now.
            bindE (start_server_boot sid False E) (\<lambda>E1.
              Inr (True, note_applied_provision action
                     (record_metric (record_decision_correctness KTurnOn necessary_now)
                       (record_metric (record_scale_action KTurnOn) E1))))))"

definition try_turn_off ::
  "'a world \<Rightarrow> snapshot \<Rightarrow> provision_action \<Rightarrow> int \<Rightarrow> 'a engine \<Rightarrow> (bool \<times> 'a engine) result" where
  "try_turn_off W sn action sid E =
     bindE (server_at E sid) (\<lambda>s.
       if srv_state s \<noteq> SrvActive then Inr (False, E)
       else if \<not> was_turn_off_necessary E sid \<and> \<not> alg_bypass_sustain_gate (w_alg W) then Inr (False, E)
       else if n_active E \<le> 1 then Inr (False, E)
       else if in_cooldown (e_now E) COOLDOWN_SEC s then Inr (False, E)
       else if \<not> is_emergency_boot s \<and> e_now E - last_transition_time s < MIN_ACTIVE_DURATION_SEC
       then Inr (False, E)
       else bindE (start_server_drain W sid E) (\<lambda>(drained, E1).
              if \<not> drained then Inr (False, E1)
              else bindE (was_turn_off_necessary_audit sid sn) (\<lambda>audit.
                Inr (True, note_applied_provision action
                       (record_metric (record_decision_correctness KTurnOff audit)
                         (record_metric (record_scale_action KTurnOff) E1))))))"

text \<open>An opportunity that was not taken is blocked if it was proposed, missed otherwise.\<close>

definition account_opportunity :: "decision_kind \<Rightarrow> bool \<Rightarrow> bool \<Rightarrow> bool \<Rightarrow> 'a engine \<Rightarrow> 'a engine" where
  "account_opportunity kind needed taken proposed E =
     (if needed \<and> \<not> taken
      then record_metric (if proposed then record_blocked_opportunity kind
                          else record_missed_opportunity kind) E
      else E)"

definition apply_provisioning ::
  "'a world \<Rightarrow> provision_action \<Rightarrow> snapshot \<Rightarrow> 'a engine \<Rightarrow> 'a engine result" where
  "apply_provisioning W action sn E0 =
     (let E = E0\<lparr>last_tick_decisions := (last_tick_decisions E0)\<lparr>ta_provision := Some action\<rparr>\<rparr>
      in bindE (turn_on_necessary W E sn) (\<lambda>on_necessary.
         let turn_off_opportunity = any_active_server_sustained_underloaded E;
             proposed_turn_on = (pa_action action = TurnOn \<and> pa_server_id action \<noteq> None);
             proposed_turn_off = (pa_action action = TurnOff \<and> pa_server_id action \<noteq> None)
         in bindE (case pa_server_id action of
                     None \<Rightarrow> Inr (False, E)
                   | Some sid \<Rightarrow>
                       (case pa_action action of
                          TurnOn \<Rightarrow> try_turn_on W sn on_necessary action sid E
                        | TurnOff \<Rightarrow> try_turn_off W sn action sid E
                        | ProvNoChange \<Rightarrow> Inr (False, E))) (\<lambda>(applied, E1).
              Inr (account_opportunity KTurnOff turn_off_opportunity
                     (pa_action action = TurnOff \<and> applied) proposed_turn_off
                     (account_opportunity KTurnOn on_necessary applied proposed_turn_on E1)))))"

section \<open>Scaling\<close>

definition note_applied_scale :: "int \<Rightarrow> scale_action \<Rightarrow> 'a engine \<Rightarrow> 'a engine" where
  "note_applied_scale svc_id decision E =
     E\<lparr>last_tick_applied_actions :=
         (last_tick_applied_actions E)\<lparr>ta_scale :=
            dset svc_id decision (ta_scale (last_tick_applied_actions E))\<rparr>\<rparr>"

definition try_scale_up ::
  "'a world \<Rightarrow> bool \<Rightarrow> int \<Rightarrow> 'a engine \<Rightarrow> (bool \<times> 'a engine) result" where
  "try_scale_up W necessary svc_id E =
     bindE (alg_select_placement_server (w_alg W) (e_algorithm E) (service_demand_centroid E) svc_id (e_servers E) (e_store E)) (\<lambda>target.
       case target of
         None \<Rightarrow> Inr (False, E)
       | Some t \<Rightarrow>
           bindE (place_replica W t svc_id E) (\<lambda>(placed, E1).
             case placed of
               None \<Rightarrow> Inr (False, E1)
             | Some _ \<Rightarrow>
                 let E2 = record_metric (record_scale_action KScaleUp) E1;
                     E3 = E2\<lparr>service_last_scale_time := dset svc_id (e_now E2) (service_last_scale_time E2),
                             service_last_scale_up_time :=
                               dset svc_id (e_now E2) (service_last_scale_up_time E2)\<rparr>
                 in Inr (True, note_applied_scale svc_id ScaleUp
                                 (record_metric (record_decision_correctness KScaleUp necessary) E3))))"

definition try_scale_down ::
  "'a world \<Rightarrow> bool \<Rightarrow> int \<Rightarrow> 'a engine \<Rightarrow> (bool \<times> 'a engine) result" where
  "try_scale_down W necessary svc_id E =
     (if 1 < length (ready_of E svc_id)
      then let mature = mature_of E svc_id
           in if mature = [] then Inr (False, E)
              else bindE (alg_select_scale_down_victim (w_alg W) (e_algorithm E) svc_id mature
                            (e_servers E) (e_now E) (e_store E)) (\<lambda>(victim, h').
                     let E1 = start_replica_drain victim (E\<lparr>e_store := h'\<rparr>);
                         E2 = record_metric (record_scale_action KScaleDown) E1;
                         E3 = E2\<lparr>service_last_scale_time := dset svc_id (e_now E2) (service_last_scale_time E2)\<rparr>
                     in Inr (True, note_applied_scale svc_id ScaleDown
                                     (record_metric (record_decision_correctness KScaleDown necessary) E3)))
      else Inr (False, E))"

definition service_in_cooldown :: "int \<Rightarrow> 'a engine \<Rightarrow> bool" where
  "service_in_cooldown svc_id E \<longleftrightarrow>
     e_now E - dget_or 0 (service_last_scale_time E) svc_id < COOLDOWN_SEC"

definition apply_scale_decision ::
  "'a world \<Rightarrow> int \<Rightarrow> scale_action \<Rightarrow> snapshot \<Rightarrow> 'a engine \<Rightarrow> 'a engine result" where
  "apply_scale_decision W svc_id decision sn E0 =
     (let E = E0\<lparr>last_tick_decisions := (last_tick_decisions E0)\<lparr>ta_scale :=
                   dset svc_id decision (ta_scale (last_tick_decisions E0))\<rparr>\<rparr>
      in bindE (dlookup (sn_services sn) svc_id) (\<lambda>sv.
         let necessary_up = was_scale_up_necessary sv;
             necessary_down = was_scale_down_necessary sv
         in bindE (case decision of
                     ScaleNoChange \<Rightarrow> Inr (False, E)
                   | ScaleUp \<Rightarrow> if service_in_cooldown svc_id E then Inr (False, E)
                                else try_scale_up W necessary_up svc_id E
                   | ScaleDown \<Rightarrow> if service_in_cooldown svc_id E then Inr (False, E)
                                  else try_scale_down W necessary_down svc_id E) (\<lambda>(applied, E1).
              Inr (account_opportunity KScaleDown necessary_down
                     (decision = ScaleDown \<and> applied) (decision = ScaleDown)
                     (account_opportunity KScaleUp necessary_up
                        (decision = ScaleUp \<and> applied) (decision = ScaleUp) E1)))))"

section \<open>The decision tick\<close>

type_synonym external_actions = "provision_action \<times> (int, scale_action) pydict"

definition decide_and_scale :: "'a world \<Rightarrow> snapshot \<Rightarrow> int \<Rightarrow> 'a engine \<Rightarrow> 'a engine result" where
  "decide_and_scale W sn svc_id E =
     bindE (alg_scale_decision (w_alg W) (e_algorithm E) svc_id sn) (\<lambda>(decision, st').
       apply_scale_decision W svc_id decision sn (E\<lparr>e_algorithm := st'\<rparr>))"

definition take_decisions ::
  "'a world \<Rightarrow> external_actions option \<Rightarrow> snapshot \<Rightarrow> 'a engine \<Rightarrow> 'a engine result" where
  "take_decisions W external sn E =
     (case external of
        Some (provision, scale) \<Rightarrow>
          bindE (apply_provisioning W provision sn E) (\<lambda>E1.
            foldE (\<lambda>(svc_id, decision). apply_scale_decision W svc_id decision sn) scale E1)
      | None \<Rightarrow>
          bindE (alg_provision_decision (w_alg W) (e_algorithm E) (e_servers E) (e_store E) sn (e_now E))
            (\<lambda>(action, st').
               bindE (apply_provisioning W action sn (E\<lparr>e_algorithm := st'\<rparr>)) (\<lambda>E1.
                 foldE (decide_and_scale W sn) ACTIVE_SERVICES E1)))"

definition reset_tick :: "'a engine \<Rightarrow> 'a engine" where
  "reset_tick E =
     E\<lparr>util_at_window_start :=
         fold (\<lambda>(sid, s). dset sid (cumulative_busy_cpu_seconds s)) (e_servers E) (util_at_window_start E),
       util_window_start_time := e_now E,
       tick_total := [], tick_rejected := [], tick_violated := [], tick_response_times := [],
       tick_lat_sum := [], tick_lon_sum := [], tick_proximity_violated := []\<rparr>"

definition handle_decision_tick ::
  "'a world \<Rightarrow> external_actions option \<Rightarrow> 'a engine \<Rightarrow> (snapshot \<times> 'a engine) result" where
  "handle_decision_tick W external E =
     (let (m, h) = record_snapshot (w_np W) (e_now E) (e_servers E) (e_store E) (e_metrics E);
          (sn0, E1) = build_metrics_snapshot (E\<lparr>e_metrics := m, e_store := h\<rparr>)
      in bindE (update_sustain_tracking sn0 E1) (\<lambda>E2.
         bindE (annotate_provisioning_necessity W E2 sn0) (\<lambda>sn.
         bindE (take_decisions W external sn
                  (E2\<lparr>last_tick_decisions := no_actions, last_tick_applied_actions := no_actions\<rparr>)) (\<lambda>E3.
           Inr (sn, reset_tick E3)))))"

section \<open>A tick keeps the invariants\<close>

text \<open>An operation between two events: it keeps the invariants and lets the rest grow.\<close>

definition keeps :: "event_type multiset \<Rightarrow> 'a engine \<Rightarrow> 'a engine \<Rightarrow> bool" where
  "keeps X E E' \<longleftrightarrow> (engine_inv X E \<longrightarrow> engine_inv X E' \<and> grows E E')"

lemma keepsD: "keeps X E E' \<Longrightarrow> engine_inv X E \<Longrightarrow> engine_inv X E' \<and> grows E E'"
  by (simp add: keeps_def)

lemma keeps_refl [simp]: "keeps X E E"
  by (simp add: keeps_def)

lemma keeps_trans: "keeps X E E' \<Longrightarrow> keeps X E' E'' \<Longrightarrow> keeps X E E''"
  by (auto simp: keeps_def intro: grows_trans)

lemma keeps_core: "same_core E E' \<Longrightarrow> keeps X E E'"
  by (simp add: keeps_def same_core_inv growsI [OF evolves_same_core])

lemma keeps_between: "same_core E E1 \<Longrightarrow> keeps X E1 E2 \<Longrightarrow> same_core E2 E' \<Longrightarrow> keeps X E E'"
  by (blast intro: keeps_trans keeps_core)

lemma keeps_reads: "reads E E' \<Longrightarrow> keeps X E E'"
  by (auto simp: keeps_def intro: reads_inv growsI [OF reads_evolves])

lemma foldE_keeps:
  assumes "foldE f xs E = Inr E'" and "\<And>x u v. x \<in> set xs \<Longrightarrow> f x u = Inr v \<Longrightarrow> keeps X u v"
  shows "keeps X E E'"
  by (rule foldE_invariant [OF assms(1), where P = "keeps X E"]) (auto intro: keeps_trans assms(2))

lemma core_metric: "same_core E E' \<Longrightarrow> same_core E (record_metric f E')"
  by (rule same_core_trans [OF _ same_core_record_metric])

lemma core_note: "same_core E E' \<Longrightarrow> same_core E (note_applied_provision a E')"
  "same_core E E' \<Longrightarrow> same_core E (note_applied_scale k d E')"
  by (simp_all add: same_core_def note_applied_provision_def note_applied_scale_def)

lemma core_times:
  "same_core E E' \<Longrightarrow> same_core E (E'\<lparr>service_last_scale_time := d\<rparr>)"
  "same_core E E' \<Longrightarrow> same_core E (E'\<lparr>service_last_scale_time := d, service_last_scale_up_time := u\<rparr>)"
  by (simp_all add: same_core_def)

lemma same_core_refl [simp]: "same_core E E"
  by (simp add: same_core_def)

lemma core_account: "same_core E E' \<Longrightarrow> same_core E (account_opportunity k a b c E')"
  by (simp add: account_opportunity_def core_metric)

lemmas core_intros = core_metric core_note core_times core_account same_core_refl

section \<open>The shape of a decision\<close>

text \<open>What each step of a tick can do, up to the fields no invariant reads.\<close>

lemma try_turn_on_cases:
  assumes "try_turn_on W sn nec act sid E = Inr (b, E')"
  obtains (refused) "E' = E" | (boot) E1 where "start_server_boot sid False E = Inr E1" "same_core E1 E'"
  using assms by (auto simp: try_turn_on_def bindE_Inr_iff split: if_split_asm intro!: core_intros)

lemma try_turn_off_cases:
  assumes "try_turn_off W sn act sid E = Inr (b, E')"
  obtains (refused) "E' = E"
  | (drain) d E1 where "start_server_drain W sid E = Inr (d, E1)" "same_core E1 E'" "1 < n_active E"
  using assms by (auto simp: try_turn_off_def bindE_Inr_iff split: if_split_asm intro!: core_intros)

lemma apply_provisioning_cases:
  assumes "apply_provisioning W act sn E = Inr E'"
  obtains (none) "same_core E E'"
  | (on) nec sid b E1 E2 where "same_core E E1" "try_turn_on W sn nec act sid E1 = Inr (b, E2)" "same_core E2 E'"
  | (off) sid b E1 E2 where "same_core E E1" "try_turn_off W sn act sid E1 = Inr (b, E2)" "same_core E2 E'"
proof -
  let ?E = "E\<lparr>last_tick_decisions := (last_tick_decisions E)\<lparr>ta_provision := Some act\<rparr>\<rparr>"
  obtain nec b E1 where 1: "(case pa_server_id act of None \<Rightarrow> Inr (False, ?E)
        | Some sid \<Rightarrow> (case pa_action act of TurnOn \<Rightarrow> try_turn_on W sn nec act sid ?E
            | TurnOff \<Rightarrow> try_turn_off W sn act sid ?E | ProvNoChange \<Rightarrow> Inr (False, ?E))) = Inr (b, E1)"
    and E': "same_core E1 E'"
    using assms unfolding apply_provisioning_def Let_def
    by (auto simp: bindE_Inr_iff intro!: core_intros)
  have core: "same_core E ?E" by (simp add: same_core_def)
  show thesis
    using 1 E' none [OF same_core_trans [OF core]] on [OF core _ E'] off [OF core _ E']
    by (auto split: option.splits provision_type.splits)
qed

lemma try_scale_up_cases:
  assumes t: "try_scale_up W nec svc E = Inr (b, E')"
  obtains (refused) "E' = E"
  | (place) k p E1 where
      "alg_select_placement_server (w_alg W) (e_algorithm E) (service_demand_centroid E) svc (e_servers E) (e_store E) = Inr (Some k)"
      "place_replica W k svc E = Inr (p, E1)" "same_core E1 E'"
proof -
  from t obtain target where sel:
    "alg_select_placement_server (w_alg W) (e_algorithm E) (service_demand_centroid E) svc (e_servers E) (e_store E) = Inr target"
    by (auto simp: try_scale_up_def bindE_Inr_iff)
  show thesis
  proof (cases target)
    case None
    with t sel refused show thesis by (simp add: try_scale_up_def)
  next
    case (Some k)
    with t sel obtain p E1 where pl: "place_replica W k svc E = Inr (p, E1)"
      by (auto simp: try_scale_up_def bindE_Inr_iff)
    have "same_core E1 E'"
      using t sel Some pl by (cases p) (auto simp: try_scale_up_def Let_def intro!: core_intros)
    with sel Some pl place show thesis by blast
  qed
qed

lemma try_scale_down_cases:
  assumes "try_scale_down W nec svc E = Inr (b, E')"
  obtains (refused) "E' = E"
  | (drain) v h where
      "alg_select_scale_down_victim (w_alg W) (e_algorithm E) svc (mature_of E svc) (e_servers E) (e_now E) (e_store E) = Inr (v, h)"
      "same_core (start_replica_drain v (E\<lparr>e_store := h\<rparr>)) E'"
  using assms by (auto simp: try_scale_down_def bindE_Inr_iff Let_def split: if_split_asm intro!: core_intros)

lemma apply_scale_cases:
  assumes "apply_scale_decision W svc d sn E = Inr E'"
  obtains (none) "same_core E E'"
  | (up) nec b E1 E2 where "same_core E E1" "try_scale_up W nec svc E1 = Inr (b, E2)" "same_core E2 E'"
  | (down) nec b E1 E2 where "same_core E E1" "try_scale_down W nec svc E1 = Inr (b, E2)" "same_core E2 E'"
proof -
  let ?E = "E\<lparr>last_tick_decisions := (last_tick_decisions E)\<lparr>ta_scale := dset svc d (ta_scale (last_tick_decisions E))\<rparr>\<rparr>"
  obtain n m b E1 where 1: "(case d of ScaleNoChange \<Rightarrow> Inr (False, ?E)
        | ScaleUp \<Rightarrow> if service_in_cooldown svc ?E then Inr (False, ?E) else try_scale_up W n svc ?E
        | ScaleDown \<Rightarrow> if service_in_cooldown svc ?E then Inr (False, ?E) else try_scale_down W m svc ?E) = Inr (b, E1)"
    and E': "same_core E1 E'"
    using assms unfolding apply_scale_decision_def Let_def
    by (auto simp: bindE_Inr_iff intro!: core_intros)
  have core: "same_core E ?E" by (simp add: same_core_def)
  show thesis
    using 1 E' none [OF same_core_trans [OF core]] up [OF core _ E'] down [OF core _ E']
    by (cases d) (auto split: if_splits)
qed

section \<open>Each decision keeps the invariants\<close>

lemma try_turn_on_keeps:
  assumes "try_turn_on W sn nec act sid E = Inr (b, E')" shows "keeps X E E'"
  using assms
proof (cases rule: try_turn_on_cases)
  case (boot E1)
  then have "keeps X E E1" by (auto simp: keeps_def intro: start_server_boot_inv start_server_boot_grows)
  with boot(2) show ?thesis by (blast intro: keeps_trans keeps_core)
qed simp

lemma place_replica_keeps:
  "place_replica W k svc E = Inr (p, E') \<Longrightarrow> in_srv_state E k SrvActive \<Longrightarrow> keeps X E E'"
  by (auto simp: keeps_def intro: place_replica_inv growsI [OF place_replica_evolves])

lemma start_replica_drain_keeps: "keeps X E (start_replica_drain a E)"
  by (simp add: keeps_def start_replica_drain_inv growsI [OF start_replica_drain_evolves])

lemma decision_tick_shape:
  assumes "handle_decision_tick W ext E = Inr (sn, E')"
  obtains m h sn0 E1 E2 E3 where
    "record_snapshot (w_np W) (e_now E) (e_servers E) (e_store E) (e_metrics E) = (m, h)"
    "build_metrics_snapshot (E\<lparr>e_metrics := m, e_store := h\<rparr>) = (sn0, E1)"
    "update_sustain_tracking sn0 E1 = Inr E2" "annotate_provisioning_necessity W E2 sn0 = Inr sn"
    "take_decisions W ext sn (E2\<lparr>last_tick_decisions := no_actions, last_tick_applied_actions := no_actions\<rparr>) = Inr E3"
    "E' = reset_tick E3"
proof -
  obtain m h where 1: "record_snapshot (w_np W) (e_now E) (e_servers E) (e_store E) (e_metrics E) = (m, h)"
    by (metis surj_pair)
  obtain sn0 E1 where 2: "build_metrics_snapshot (E\<lparr>e_metrics := m, e_store := h\<rparr>) = (sn0, E1)" by (metis surj_pair)
  from assms obtain E2 E3 where "update_sustain_tracking sn0 E1 = Inr E2" "annotate_provisioning_necessity W E2 sn0 = Inr sn"
    "take_decisions W ext sn (E2\<lparr>last_tick_decisions := no_actions, last_tick_applied_actions := no_actions\<rparr>) = Inr E3"
    "E' = reset_tick E3"
    by (auto simp: handle_decision_tick_def Let_def 1 2 bindE_Inr_iff)
  with 1 2 show thesis by (rule that)
qed

context lawful_algorithm
begin

lemma try_turn_off_keeps:
  assumes W: "w_alg W = A" "w_cfg W = C" and t: "try_turn_off W sn act sid E = Inr (b, E')" shows "keeps X E E'"
  using t
proof (cases rule: try_turn_off_cases)
  case (drain d E1)
  have "keeps X E E1" using start_server_drain_inv [OF W drain(1)] by (simp add: keeps_def)
  with drain(2) show ?thesis by (blast intro: keeps_trans keeps_core)
qed simp

lemma apply_provisioning_keeps:
  assumes W: "w_alg W = A" "w_cfg W = C" and "apply_provisioning W act sn E = Inr E'" shows "keeps X E E'"
  using assms(3)
  by (cases rule: apply_provisioning_cases)
    (auto intro: keeps_core keeps_between [OF _ try_turn_on_keeps] keeps_between [OF _ try_turn_off_keeps [OF W]])

lemma try_scale_up_keeps:
  assumes W: "w_alg W = A" "w_cfg W = C" and t: "try_scale_up W nec svc E = Inr (b, E')" shows "keeps X E E'"
  using t
proof (cases rule: try_scale_up_cases)
  case (place k p E1)
  have "keeps X E E1" unfolding keeps_def
  proof
    assume inv: "engine_inv X E"
    then have "wf_servers (e_servers E)" by (simp add: engine_inv_def store_inv_def)
    then have "in_srv_state E k SrvActive"
      using placement_sound [OF place(1) [unfolded W(1)]] by (auto simp: in_srv_state_def)
    then show "engine_inv X E1 \<and> grows E E1" using place_replica_keeps [OF place(2)] inv keepsD by blast
  qed
  with place(3) show ?thesis by (blast intro: keeps_trans keeps_core)
qed simp

lemma try_scale_down_keeps:
  assumes W: "w_alg W = A" and t: "try_scale_down W nec svc E = Inr (b, E')" shows "keeps X E E'"
  using t
proof (cases rule: try_scale_down_cases)
  case (drain v h)
  have "keeps X E (E\<lparr>e_store := h\<rparr>)"
    by (rule keeps_reads [OF reads_store]) (use victim_sound [OF drain(1) [unfolded W]] in simp)
  with drain(2) show ?thesis by (blast intro: keeps_trans keeps_core start_replica_drain_keeps)
qed simp

lemma apply_scale_decision_keeps:
  assumes W: "w_alg W = A" "w_cfg W = C" and "apply_scale_decision W svc d sn E = Inr E'" shows "keeps X E E'"
  using assms(3)
  by (cases rule: apply_scale_cases)
    (auto intro: keeps_core keeps_between [OF _ try_scale_up_keeps [OF W]]
      keeps_between [OF _ try_scale_down_keeps [OF W(1)]])

lemma take_decisions_keeps:
  assumes W: "w_alg W = A" "w_cfg W = C" and t: "take_decisions W ext sn E = Inr E'" shows "keeps X E E'"
proof (cases ext)
  case None
  with t obtain act st E1 where 1: "apply_provisioning W act sn (E\<lparr>e_algorithm := st\<rparr>) = Inr E1"
    "foldE (decide_and_scale W sn) ACTIVE_SERVICES E1 = Inr E'"
    by (auto simp: take_decisions_def bindE_Inr_iff)
  have "keeps X E (E\<lparr>e_algorithm := st\<rparr>)" by (rule keeps_core) (simp add: same_core_def)
  moreover have "keeps X E1 E'"
  proof (rule foldE_keeps [OF 1(2)])
    fix svc u v assume "decide_and_scale W sn svc u = Inr v"
    then obtain d st' where "apply_scale_decision W svc d sn (u\<lparr>e_algorithm := st'\<rparr>) = Inr v"
      by (auto simp: decide_and_scale_def bindE_Inr_iff)
    moreover have "keeps X u (u\<lparr>e_algorithm := st'\<rparr>)" by (rule keeps_core) (simp add: same_core_def)
    ultimately show "keeps X u v" by (blast intro: keeps_trans apply_scale_decision_keeps [OF W])
  qed
  ultimately show ?thesis using apply_provisioning_keeps [OF W 1(1)] by (blast intro: keeps_trans)
next
  case (Some x)
  with t obtain E1 where 1: "apply_provisioning W (fst x) sn E = Inr E1"
    "foldE (\<lambda>(svc_id, d). apply_scale_decision W svc_id d sn) (snd x) E1 = Inr E'"
    by (cases x) (auto simp: take_decisions_def bindE_Inr_iff)
  have "keeps X E1 E'"
    by (rule foldE_keeps [OF 1(2)]) (auto intro: apply_scale_decision_keeps [OF W])
  then show ?thesis using apply_provisioning_keeps [OF W 1(1)] by (blast intro: keeps_trans)
qed

lemma handle_decision_tick_keeps:
  assumes W: "w_alg W = A" "w_cfg W = C" and t: "handle_decision_tick W ext E = Inr (sn, E')"
  shows "keeps X E E'"
proof -
  obtain m h sn0 E1 E2 E3 where 1: "record_snapshot (w_np W) (e_now E) (e_servers E) (e_store E) (e_metrics E) = (m, h)"
    and 2: "build_metrics_snapshot (E\<lparr>e_metrics := m, e_store := h\<rparr>) = (sn0, E1)"
    and 3: "update_sustain_tracking sn0 E1 = Inr E2"
    "take_decisions W ext sn (E2\<lparr>last_tick_decisions := no_actions, last_tick_applied_actions := no_actions\<rparr>) = Inr E3"
    "E' = reset_tick E3"
    by (rule decision_tick_shape [OF t]) blast
  let ?E = "E\<lparr>e_metrics := m, e_store := h\<rparr>"
  have "pruned (e_now E) (e_store E) h" using record_snapshot_frame(1) [of "e_now E" "e_store E"] 1 by (metis snd_conv)
  then have "keeps X E (E\<lparr>e_store := h\<rparr>)" by (intro keeps_reads reads_store)
  moreover have "keeps X (E\<lparr>e_store := h\<rparr>) ?E" by (rule keeps_core) (simp add: same_core_def)
  moreover have "keeps X ?E E1" by (rule keeps_reads [OF build_metrics_snapshot_reads(1) [OF 2]])
  moreover have "keeps X E1 E2" by (rule keeps_core [OF update_sustain_tracking_core [OF 3(1)]])
  moreover have "keeps X E2 (E2\<lparr>last_tick_decisions := no_actions, last_tick_applied_actions := no_actions\<rparr>)"
    by (rule keeps_core) (simp add: same_core_def)
  moreover note take_decisions_keeps [OF W 3(2), of X]
  moreover have "keeps X E3 E'" unfolding 3(3) by (rule keeps_core) (simp add: same_core_def reset_tick_def)
  ultimately show ?thesis by (meson keeps_trans)
qed

end

end
