(* ===== verification/Routing.thy ===== *)
theory Routing
  imports Fleet
begin

text \<open>
  \<open>simulator/engine.py\<close>, second part: the life of a request. It arrives at the dispatcher,
  is routed after the round trip between base station and dispatcher, and is then either
  rejected or admitted to the queue of a replica, where its finishing time is computed.
\<close>

definition handle_arrival :: "event_row \<Rightarrow> 'a engine \<Rightarrow> 'a engine result" where
  "handle_arrival row E =
     (let i = request_seq E + 1;
          req = new_request i (row_lat row) (row_long row) (row_service_id row) (e_now E);
          k = req_service_id req;
          E1 = E\<lparr>request_seq := i,
                 tick_total := dadd k 1 (tick_total E),
                 tick_lat_sum := dadd k (bts_lat req) (tick_lat_sum E),
                 tick_lon_sum := dadd k (bts_long req) (tick_lon_sum E),
                 recent_positions :=
                   dset k (deque_append 30 (bts_lat req, bts_long req) (dget_or [] (recent_positions E) k))
                     (recent_positions E)\<rparr>
      in bindE (mean_position (dvals (e_servers E1))) (\<lambda>(dispatcher_lat, dispatcher_lon).
           let distance_to_dispatcher_km =
                 haversine_km (bts_lat req) (bts_long req) dispatcher_lat dispatcher_lon;
               one_way_dispatch_delay_ms =
                 BASE_LATENCY_MS + K_MS_PER_KM * distance_to_dispatcher_km + DISPATCH_OVERHEAD_MS;
               routing_delay_ms = 2 * one_way_dispatch_delay_ms;
               req' = req\<lparr>routing_delay_sec := routing_delay_ms / 1000\<rparr>
           in Inr (push (e_now E1 + routing_delay_sec req') (RequestRouted req') E1)))"

definition finalize_request :: "request \<Rightarrow> 'a engine \<Rightarrow> 'a engine" where
  "finalize_request req E = record_metric (record_request req) E"

text \<open>A rejection counts as rejected and as violated in the current tick.\<close>

definition reject_request :: "request \<Rightarrow> request_status \<Rightarrow> 'a engine \<Rightarrow> 'a engine" where
  "reject_request req status E =
     (let k = req_service_id req
      in finalize_request (req\<lparr>req_status := status\<rparr>)
           (E\<lparr>tick_rejected := dadd k 1 (tick_rejected E), tick_violated := dadd k 1 (tick_violated E)\<rparr>))"

definition routing_candidates :: "'a engine \<Rightarrow> int \<Rightarrow> nat list" where
  "routing_candidates E svc = filter (\<lambda>a. is_selectable (e_store E a)) (by_service E svc)"

text \<open>The penalty of a replica that became ready a short time ago.\<close>

definition cold_start_extra_of :: "real \<Rightarrow> request \<Rightarrow> server \<Rightarrow> replica \<Rightarrow> real result" where
  "cold_start_extra_of now req server chosen =
     bindE (compute_cold_start_window_sec (req_service_id req) (host_mips server)) (\<lambda>window_sec.
       case r_ready_since chosen of
         None \<Rightarrow> Inr 0
       | Some t \<Rightarrow> if now - t \<le> window_sec
                   then compute_cold_start_penalty_sec (req_service_id req) (host_mips server)
                   else Inr 0)"

definition complete_request :: "request \<Rightarrow> real \<Rightarrow> admit \<Rightarrow> 'a engine \<Rightarrow> 'a engine result" where
  "complete_request req delay_ms adm E =
     bindE (service_of (req_service_id req)) (\<lambda>svc.
       let k = req_service_id req;
           req1 = req\<lparr>queue_enter_time := Some (adm_queue_enter_time adm),
                      service_start_time := Some (adm_service_start_time adm),
                      service_end_time := Some (adm_service_end_time adm),
                      wait_time_sec := adm_wait_time_sec adm\<rparr>;
           E1 = push (adm_service_end_time adm) EnergyResync E;
           response = routing_delay_sec req1 + 2 * delay_ms / 1000 + wait_time_sec req1
                      + (adm_service_end_time adm - adm_service_start_time adm);
           violated = deadline svc < response;
           req2 = req1\<lparr>response_time_sec := response, deadline_violated := violated,
                       req_status := Completed\<rparr>;
           E2 = (if violated then E1\<lparr>tick_violated := dadd k 1 (tick_violated E1)\<rparr> else E1);
           E3 = E2\<lparr>tick_response_times := tick_response_times E2 @ [response]\<rparr>
       in Inr (finalize_request req2 E3))"

definition serve_request :: "request \<Rightarrow> nat \<Rightarrow> 'a engine \<Rightarrow> 'a engine result" where
  "serve_request req chosen E =
     bindE (server_at E (r_server_id (e_store E chosen))) (\<lambda>server.
       let k = req_service_id req;
           km = haversine_km (bts_lat req) (bts_long req) (srv_lat server) (srv_long server);
           delay_ms = network_delay_ms km BASE_LATENCY_MS K_MS_PER_KM;
           req1 = req\<lparr>distance_km := Some km, req_network_delay_ms := delay_ms,
                      assigned_server_id := Some (srv_id server)\<rparr>;
           E1 = (if PROXIMITY_L0_MS \<le> 2 * delay_ms
                 then E\<lparr>tick_proximity_violated := dadd k 1 (tick_proximity_violated E)\<rparr> else E)
       in bindE (cold_start_extra_of (e_now E1) req1 server (e_store E1 chosen)) (\<lambda>extra.
            let (admitted, r') = try_admit (e_now E1) extra (e_store E1 chosen);
                E2 = put_replica chosen r' E1
            in case admitted of
                 None \<Rightarrow> Inr (reject_request req1 RejectedQueueFull E2)
               | Some adm \<Rightarrow> complete_request req1 delay_ms adm E2))"

definition handle_routed :: "'a world \<Rightarrow> request \<Rightarrow> 'a engine \<Rightarrow> 'a engine result" where
  "handle_routed W req E =
     (let candidates = routing_candidates E (req_service_id req)
      in bindE (alg_select_replica (w_alg W) (e_algorithm E) req candidates (e_servers E) (e_now E) (e_store E))
           (\<lambda>(chosen, st', h').
              let E1 = E\<lparr>e_algorithm := st', e_store := h'\<rparr>
              in case chosen of
                   None \<Rightarrow> Inr (reject_request req
                              (if candidates = [] then RejectedNoReplica else RejectedQueueFull) E1)
                 | Some a \<Rightarrow> serve_request req a E1))"

section \<open>Both events keep the invariants\<close>

lemma mean_lat_range:
  assumes "mean_position ss = Inr p" and "\<forall>s \<in> set ss. \<bar>srv_lat s\<bar> \<le> 90"
  shows "\<bar>fst p\<bar> \<le> 90"
proof -
  have n: "ss \<noteq> []" "fst p = (\<Sum>s\<leftarrow>ss. srv_lat s) / real (length ss)"
    using assms(1) by (auto simp: mean_position_def split: if_splits)
  have "(\<Sum>s\<leftarrow>ss. srv_lat s) \<le> real (length ss) * 90 \<and> - (real (length ss) * 90) \<le> (\<Sum>s\<leftarrow>ss. srv_lat s)"
    using assms(2) by (induction ss) (auto simp: algebra_simps abs_le_iff)
  then show ?thesis using n by (simp add: abs_le_iff divide_le_eq le_divide_eq)
qed

lemma servers_on_globe: 
  assumes "store_inv E" shows "\<forall>s \<in> set (dvals (e_servers E)). \<bar>srv_lat s\<bar> \<le> 90"
proof
  fix s assume s: "s \<in> set (dvals (e_servers E))"
  have "wf_servers (e_servers E)" using assms by (simp add: store_inv_def)
  from wf_servers_get [OF this s] show "\<bar>srv_lat s\<bar> \<le> 90"
    using assms by (auto simp: store_inv_def server_inv_def)
qed

lemma handle_arrival_shape:
  assumes "handle_arrival row E = Inr E'"
  obtains E1 p req where "same_core E E1" "mean_position (dvals (e_servers E)) = Inr p"
    "routing_delay_sec req = 2 * (BASE_LATENCY_MS + K_MS_PER_KM * haversine_km (row_lat row) (row_long row) (fst p) (snd p)
        + DISPATCH_OVERHEAD_MS) / 1000"
    "E' = push (e_now E1 + routing_delay_sec req) (RequestRouted req) E1"
    "req_service_id req = row_service_id row" "arrival_time req = e_now E"
    "bts_lat req = row_lat row" "bts_long req = row_long row"
    "tick_total E1 = dadd (row_service_id row) 1 (tick_total E)"
    "request_seq E1 = request_seq E + 1" "e_metrics E1 = e_metrics E" "tick_rejected E1 = tick_rejected E"
    "tick_proximity_violated E1 = tick_proximity_violated E" "rolling_rejection E1 = rolling_rejection E"
proof -
  let ?k = "row_service_id row"
  let ?E1 = "E\<lparr>request_seq := request_seq E + 1, tick_total := dadd ?k 1 (tick_total E),
                 tick_lat_sum := dadd ?k (row_lat row) (tick_lat_sum E),
                 tick_lon_sum := dadd ?k (row_long row) (tick_lon_sum E),
                 recent_positions :=
                   dset ?k (deque_append 30 (row_lat row, row_long row) (dget_or [] (recent_positions E) ?k))
                     (recent_positions E)\<rparr>"
  from assms obtain p where p: "mean_position (dvals (e_servers E)) = Inr p"
    by (auto simp: handle_arrival_def Let_def bindE_Inr_iff)
  let ?req = "(new_request (request_seq E + 1) (row_lat row) (row_long row) ?k (e_now E))
     \<lparr>routing_delay_sec := 2 * (BASE_LATENCY_MS
        + K_MS_PER_KM * haversine_km (row_lat row) (row_long row) (fst p) (snd p) + DISPATCH_OVERHEAD_MS) / 1000\<rparr>"
  have "E' = push (e_now ?E1 + routing_delay_sec ?req) (RequestRouted ?req) ?E1"
    using assms p by (cases p) (simp add: handle_arrival_def Let_def new_request_def add_divide_distrib)
  then show thesis
    by (rule that [of ?E1 p ?req, rotated 3]) (simp_all add: p same_core_def new_request_def)
qed

lemma handle_arrival_inv:
  assumes "handle_arrival row E = Inr E'" and inv: "engine_inv X E" and row: "\<bar>row_lat row\<bar> \<le> 90"
  shows "engine_inv X E' \<and> evolves 2 E E'"
  using assms(1)
proof (rule handle_arrival_shape)
  fix E1 p req assume core: "same_core E E1" and p: "mean_position (dvals (e_servers E)) = Inr p"
    and d: "routing_delay_sec req = 2 * (BASE_LATENCY_MS + K_MS_PER_KM * haversine_km (row_lat row) (row_long row) (fst p) (snd p)
        + DISPATCH_OVERHEAD_MS) / 1000"
    and E': "E' = push (e_now E1 + routing_delay_sec req) (RequestRouted req) E1"
  have "\<forall>s \<in> set (dvals (e_servers E)). \<bar>srv_lat s\<bar> \<le> 90"
    by (rule servers_on_globe) (use inv in \<open>simp add: engine_inv_def\<close>)
  then have "\<bar>fst p\<bar> \<le> 90" by (rule mean_lat_range [OF p])
  then have "0 \<le> haversine_km (row_lat row) (row_long row) (fst p) (snd p)"
    using row by (simp add: haversine_km_nonneg)
  then have "0 \<le> routing_delay_sec req" by (simp add: d config_constants)
  moreover have "engine_inv X E1" using inv core by (simp add: same_core_inv)
  ultimately have "engine_inv X E'" unfolding E' by (intro engine_inv_push) (simp_all add: owed_def)
  moreover have "evolves 2 E E'" unfolding E'
    by (rule evolves_0_trans(1) [OF evolves_same_core [OF core]], rule evolves_mono [OF evolves_push])
      (simp_all add: event_weight_def)
  ultimately show ?thesis by simp
qed

lemma reject_request_core: "same_core E (reject_request req st E)"
  by (simp add: reject_request_def finalize_request_def record_metric_def same_core_def Let_def)

lemma complete_request_shape:
  assumes "complete_request req d adm E = Inr E'"
  obtains E1 where "same_core (push (adm_service_end_time adm) EnergyResync E) E'" "service_of (req_service_id req) = Inr E1"
proof -
  from assms obtain svc where svc: "service_of (req_service_id req) = Inr svc"
    by (auto simp: complete_request_def bindE_Inr_iff)
  have "same_core (push (adm_service_end_time adm) EnergyResync E) E'"
    using assms svc
    by (auto simp: complete_request_def bindE_Inr_iff Let_def finalize_request_def record_metric_def
        same_core_def)
  with svc show thesis by (rule that [rotated])
qed

lemma cold_start_penalty_nonneg:
  assumes "compute_cold_start_penalty_sec k (host_mips s) = Inr x" shows "0 \<le> x"
proof -
  obtain svc et where "dget SERVICES_INFO k = Some svc" "compute_exec_time_sec k (host_mips s) = Inr et"
    "x = min (min (deadline svc * COLD_START_PENALTY_FRACTION) (et * (50/100))) COLD_START_PENALTY_CAP_SEC"
    using assms
    by (auto simp: compute_cold_start_penalty_sec_def bindE_Inr_iff Let_def service_of_def dlookup_Inr_iff)
  with SERVICES_INFO_ranges [of k svc] exec_time_nonneg [of k s et] show ?thesis
    by (auto simp: config_constants min_def)
qed

lemma cold_start_extra_nonneg: "cold_start_extra_of now req server r = Inr x \<Longrightarrow> 0 \<le> x"
  by (auto simp: cold_start_extra_of_def bindE_Inr_iff split: option.splits if_splits
      intro: cold_start_penalty_nonneg)

lemma try_admit_frame:
  assumes "try_admit now x r = (adm, r')"
  shows "r_service_id r' = r_service_id r" "r_server_id r' = r_server_id r" "r_state r' = r_state r"
    "r_ready_since r' = r_ready_since r" "r_created_at r' = r_created_at r" "r_queue_len r' = r_queue_len r"
    "r_exec_time r' = r_exec_time r"
  using assms by (auto simp: try_admit_def Let_def split: if_splits)

lemma try_admit_end:
  assumes "try_admit now x r = (Some adm, r')" and "0 \<le> r_exec_time r" "0 \<le> x"
  shows "now \<le> adm_service_end_time adm"
  using assms by (auto simp: try_admit_def Let_def split: if_splits)

lemma put_admitted_inv:
  assumes inv: "engine_inv X E" and t: "try_admit now x (e_store E a) = (adm, r')" and "0 \<le> x"
  shows "engine_inv X (put_replica a r' E)"
proof -
  note same = try_admit_frame [OF t]
  have "queue_ok (e_store E a) \<Longrightarrow> queue_ok r'" using queue_ok_try_admit [of "e_store E a" x now] t assms(3) by simp
  then have "store_inv (put_replica a r' E)"
    using inv by (intro store_inv_put_replica) (auto simp: engine_inv_def same_replica_def same)
  moreover have "life_inv X (put_replica a r' E)"
    using inv by (intro life_inv_put_replica) (auto simp: engine_inv_def life_inv_def replica_life_def same)
  ultimately show ?thesis using inv by (simp add: engine_inv_def)
qed

lemma serve_request_shape:
  assumes s: "serve_request req a E = Inr E'"
  obtains server E1 d req1 extra adm r' where "E1 = E \<or> (\<exists>x. E1 = E\<lparr>tick_proximity_violated := x\<rparr>)"
    "cold_start_extra_of (e_now E1) req1 server (e_store E1 a) = Inr extra"
    "try_admit (e_now E1) extra (e_store E1 a) = (adm, r')"
    "(case adm of None \<Rightarrow> Inr (reject_request req1 RejectedQueueFull (put_replica a r' E1))
       | Some ad \<Rightarrow> complete_request req1 d ad (put_replica a r' E1)) = Inr E'"
proof -
  from s obtain server where server: "server_at E (r_server_id (e_store E a)) = Inr server"
    by (auto simp: serve_request_def bindE_Inr_iff)
  let ?km = "haversine_km (bts_lat req) (bts_long req) (srv_lat server) (srv_long server)"
  let ?d = "network_delay_ms ?km BASE_LATENCY_MS K_MS_PER_KM"
  let ?req1 = "req\<lparr>distance_km := Some ?km, req_network_delay_ms := ?d, assigned_server_id := Some (srv_id server)\<rparr>"
  let ?E1 = "if PROXIMITY_L0_MS \<le> 2 * ?d
             then E\<lparr>tick_proximity_violated := dadd (req_service_id req) 1 (tick_proximity_violated E)\<rparr> else E"
  have "?E1 = E \<or> (\<exists>x. ?E1 = E\<lparr>tick_proximity_violated := x\<rparr>)" by auto
  moreover obtain extra where "cold_start_extra_of (e_now ?E1) ?req1 server (e_store ?E1 a) = Inr extra"
    "(case try_admit (e_now ?E1) extra (e_store ?E1 a) of (adm, r') \<Rightarrow>
        (case adm of None \<Rightarrow> Inr (reject_request ?req1 RejectedQueueFull (put_replica a r' ?E1))
             | Some ad \<Rightarrow> complete_request ?req1 ?d ad (put_replica a r' ?E1))) = Inr E'"
    using s server unfolding serve_request_def Let_def by (auto simp: bindE_Inr_iff)
  ultimately show thesis by (cases "try_admit (e_now ?E1) extra (e_store ?E1 a)") (auto intro: that)
qed

lemma handle_routed_shape:
  assumes "handle_routed W req E = Inr E'"
  obtains c st h where
    "alg_select_replica (w_alg W) (e_algorithm E) req (routing_candidates E (req_service_id req)) (e_servers E) (e_now E) (e_store E)
       = Inr (c, st, h)"
    "(case c of None \<Rightarrow> Inr (reject_request req (if routing_candidates E (req_service_id req) = [] then RejectedNoReplica
                              else RejectedQueueFull) (E\<lparr>e_algorithm := st, e_store := h\<rparr>))
        | Some a \<Rightarrow> serve_request req a (E\<lparr>e_algorithm := st, e_store := h\<rparr>)) = Inr E'"
  using assms by (auto simp: handle_routed_def Let_def bindE_Inr_iff)

lemma serve_request_inv:
  assumes s: "serve_request req a E = Inr E'" and inv: "engine_inv X E"
  shows "engine_inv X E' \<and> evolves 1 E E'"
proof -
  obtain server E1 d req1 extra adm r' where E1: "E1 = E \<or> (\<exists>x. E1 = E\<lparr>tick_proximity_violated := x\<rparr>)"
    and x: "cold_start_extra_of (e_now E1) req1 server (e_store E1 a) = Inr extra"
    and t: "try_admit (e_now E1) extra (e_store E1 a) = (adm, r')"
    and E': "(case adm of None \<Rightarrow> Inr (reject_request req1 RejectedQueueFull (put_replica a r' E1))
               | Some ad \<Rightarrow> complete_request req1 d ad (put_replica a r' E1)) = Inr E'"
    by (rule serve_request_shape [OF s]) blast
  have core: "same_core E E1" using E1 by (auto simp: same_core_def)
  have inv1: "engine_inv X E1" using inv core by (simp add: same_core_inv)
  have x0: "0 \<le> extra" by (rule cold_start_extra_nonneg [OF x])
  have inv2: "engine_inv X (put_replica a r' E1)" by (rule put_admitted_inv [OF inv1 t x0])
  have ev: "evolves 0 E (put_replica a r' E1)"
    by (rule evolves_0_trans(1) [OF evolves_same_core [OF core] evolves_put_replica])
  show ?thesis
  proof (cases adm)
    case None
    with E' have "E' = reject_request req1 RejectedQueueFull (put_replica a r' E1)" by simp
    with inv2 ev show ?thesis
      using same_core_inv [OF reject_request_core] evolves_same_core [OF reject_request_core]
      by (metis evolves_0_trans(1))
  next
    case (Some ad)
    with E' obtain svc where c: "same_core (push (adm_service_end_time ad) EnergyResync (put_replica a r' E1)) E'"
      by (auto elim: complete_request_shape)
    have "queue_ok (e_store E1 a)" using inv1 by (simp add: engine_inv_def store_inv_def)
    then have "e_now E1 \<le> adm_service_end_time ad"
      using try_admit_end t x0 unfolding Some by (auto simp: queue_ok_def)
    then have "engine_inv X (push (adm_service_end_time ad) EnergyResync (put_replica a r' E1))"
      by (intro engine_inv_push [OF inv2]) (simp_all add: owed_def)
    moreover have "evolves 1 (put_replica a r' E1) (push (adm_service_end_time ad) EnergyResync (put_replica a r' E1))"
      by (rule evolves_mono [OF evolves_push]) (simp_all add: event_weight_def)
    ultimately show ?thesis
      using c ev by (metis same_core_inv evolves_same_core evolves_0_trans)
  qed
qed

context lawful_algorithm
begin

lemma handle_routed_inv:
  assumes W: "w_alg W = A" and r: "handle_routed W req E = Inr E'" and inv: "engine_inv X E"
  shows "engine_inv X E' \<and> evolves 1 E E'"
proof -
  let ?cands = "routing_candidates E (req_service_id req)"
  obtain c st h where sel: "alg_select_replica A (e_algorithm E) req ?cands (e_servers E) (e_now E) (e_store E) = Inr (c, st, h)"
    and E': "(case c of None \<Rightarrow> Inr (reject_request req (if ?cands = [] then RejectedNoReplica else RejectedQueueFull)
                                  (E\<lparr>e_algorithm := st, e_store := h\<rparr>))
             | Some a \<Rightarrow> serve_request req a (E\<lparr>e_algorithm := st, e_store := h\<rparr>)) = Inr E'"
    by (rule handle_routed_shape [OF r]) (simp add: W)
  let ?E1 = "E\<lparr>e_algorithm := st, e_store := h\<rparr>"
  have core: "same_core (E\<lparr>e_store := h\<rparr>) ?E1" by (simp add: same_core_def)
  have inv1: "engine_inv X ?E1"
    using engine_inv_pruned [OF inv select_reads [OF sel]] same_core_inv [OF core] by simp
  have ev1: "evolves 0 E ?E1" by (rule evolves_0_trans(1) [OF evolves_store evolves_same_core [OF core]])
  show ?thesis
  proof (cases c)
    case None
    with E' obtain st' where "E' = reject_request req st' ?E1" by auto
    with inv1 ev1 show ?thesis
      using same_core_inv [OF reject_request_core] evolves_same_core [OF reject_request_core]
      by (metis evolves_0_trans(1))
  next
    case (Some a)
    with E' have "serve_request req a ?E1 = Inr E'" by simp
    from serve_request_inv [OF this inv1] ev1 show ?thesis by (blast intro: evolves_0_trans(1))
  qed
qed

end

end
