(* ===== verification/Run.thy ===== *)
theory Run
  imports Control Routing
begin

text \<open>
  \<open>simulator/engine.py\<close>, fifth part: the event loop. \<open>step\<close> processes events up to and
  including the next decision tick; \<open>run\<close> repeats it to the end of the simulation.
\<close>

section \<open>Start of a run\<close>

definition trace_bounds :: "event_row list \<Rightarrow> real \<times> real" where
  "trace_bounds df =
     (case df of
        [] \<Rightarrow> (0, 0)
      | row # rows \<Rightarrow> (fold (\<lambda>r m. min m (row_start r)) rows (row_start row),
                        fold (\<lambda>r m. max m (row_start r)) rows (row_start row)))"

definition prime :: "'a world \<Rightarrow> 'a engine \<Rightarrow> 'a engine result" where
  "prime W E =
     (let E1 = fold (\<lambda>row. push (row_start row) (RequestArrival row)) (events_df E) E;
          (start_time, max_time) = trace_bounds (events_df E);
          E2 = E1\<lparr>e_now := start_time,
                  energy_last_update := map (\<lambda>(sid, _). (sid, start_time)) (e_servers E1),
                  util_window_start_time := start_time\<rparr>
      in bindE (initial_placement W E2) (\<lambda>E3.
           let E4 = push start_time DecisionTick E3
           in Inr (E4\<lparr>e_cutoff := max_time + 2 * DISPATCH_OVERHEAD_MS / 1000
                                   + DECISION_INTERVAL_SEC + SERVER_DRAIN_GRACE_SEC\<rparr>)))"

section \<open>One event\<close>

definition handle_event :: "'a world \<Rightarrow> event_type \<Rightarrow> 'a engine \<Rightarrow> 'a engine result" where
  "handle_event W ty E =
     (case ty of
        RequestArrival row \<Rightarrow> handle_arrival row E
      | RequestRouted req \<Rightarrow> handle_routed W req E
      | DecisionTick \<Rightarrow> Inr E
      | ServerBootDone sid \<Rightarrow> handle_boot_done sid E
      | ServerDrainDone sid \<Rightarrow> handle_drain_done sid E
      | ReplicaReady sid svc \<Rightarrow> handle_replica_ready sid svc E
      | ReplicaTerminated sid svc \<Rightarrow> handle_replica_terminated sid svc E
      | EnergyResync \<Rightarrow> Inr E)"

text \<open>The clock and the energy counters are moved to the event before it is handled.\<close>

definition begin_event :: "event \<Rightarrow> event list \<Rightarrow> 'a engine \<Rightarrow> 'a engine" where
  "begin_event ev rest E =
     (advance_energy_to (ev_time ev) (E\<lparr>e_heap := rest\<rparr>))\<lparr>e_now := ev_time ev\<rparr>"

text \<open>
  The loop of \<open>step\<close>, at most \<open>fuel\<close> events: \<open>None\<close> if the bound was reached. The result is
  the snapshot of the tick (\<open>None\<close> at the end of the run), the flag \<open>done\<close> and the state.
\<close>

fun step_loop ::
  "nat \<Rightarrow> 'a world \<Rightarrow> external_actions option \<Rightarrow> 'a engine
   \<Rightarrow> (snapshot option \<times> bool \<times> 'a engine) result option" where
  "step_loop 0 W external E = None"
| "step_loop (Suc fuel) W external E =
     (case heappop (e_heap E) of
        None \<Rightarrow> Some (Inr (None, True, E))
      | Some (ev, rest) \<Rightarrow>
          if e_cutoff E < ev_time ev then Some (Inr (None, True, E\<lparr>e_heap := rest\<rparr>))
          else let E1 = begin_event ev rest E
               in if ev_type ev = DecisionTick
                  then Some (bindE (handle_decision_tick W external E1) (\<lambda>(sn, E2).
                         Inr (Some sn, False, push (e_now E2 + DECISION_INTERVAL_SEC) DecisionTick E2)))
                  else (case handle_event W (ev_type ev) E1 of
                          Inl err \<Rightarrow> Some (Inl err)
                        | Inr E2 \<Rightarrow> step_loop fuel W external E2))"

definition step ::
  "'a world \<Rightarrow> external_actions option \<Rightarrow> 'a engine
   \<Rightarrow> (snapshot option \<times> bool \<times> 'a engine) result option" where
  "step W external E = step_loop (agenda_weight E + 1) W external E"

text \<open>The loop of \<open>run\<close>, at most \<open>ticks\<close> times.\<close>

fun run_loop :: "nat \<Rightarrow> 'a world \<Rightarrow> 'a engine \<Rightarrow> 'a engine result option" where
  "run_loop 0 W E = None"
| "run_loop (Suc ticks) W E =
     (case step W None E of
        None \<Rightarrow> None
      | Some (Inl err) \<Rightarrow> Some (Inl err)
      | Some (Inr (_, is_done, E')) \<Rightarrow> if is_done then Some (Inr E') else run_loop ticks W E')"

definition tick_bound :: "'a engine \<Rightarrow> nat" where
  "tick_bound E = nat (\<lfloor>(e_cutoff E - e_now E) / DECISION_INTERVAL_SEC\<rfloor> + 1) + 1"

definition run :: "'a world \<Rightarrow> 'a engine \<Rightarrow> report result option" where
  "run W E =
     (case prime W E of
        Inl err \<Rightarrow> Some (Inl err)
      | Inr E1 \<Rightarrow>
          (case run_loop (tick_bound E1 + 1) W E1 of
             None \<Rightarrow> None
           | Some (Inl err) \<Rightarrow> Some (Inl err)
           | Some (Inr E2) \<Rightarrow> Some (Inr (finalize (w_np W) (e_servers E2) (e_metrics E2)))))"

section \<open>Taking an event from the agenda\<close>

lemma advance_server_inv: "engine_inv X E \<Longrightarrow> engine_inv X (advance_server t k E)"
proof (cases "dget (e_servers E) k")
  case (Some s)
  assume inv: "engine_inv X E"
  let ?l = "dget_or 0 (energy_last_update E) k"
  show ?thesis
  proof (cases "?l < t")
    case True
    obtain u h1 where u: "instantaneous_utilization ?l (e_store E) s = (u, h1)" by (metis surj_pair)
    obtain p h2 where p: "instantaneous_power_w ?l h1 s = (p, h2)" by (metis surj_pair)
    let ?s = "s\<lparr>cumulative_energy_joule := cumulative_energy_joule s + p * (t - ?l),
               cumulative_busy_cpu_seconds := cumulative_busy_cpu_seconds s + u * of_int (srv_capacity s) * (t - ?l)\<rparr>"
    let ?E = "E\<lparr>e_store := h2, energy_last_update := dset k t (energy_last_update E)\<rparr>"
    have "pruned ?l (e_store E) h1" "pruned ?l h1 h2"
      using pruned_instantaneous_utilization [of ?l "e_store E" s] pruned_instantaneous_power_w [of ?l h1 s] u p
      by simp_all
    then have "engine_inv X (E\<lparr>e_store := h2\<rparr>)" by (intro engine_inv_pruned [OF inv]) (rule pruned_trans)
    moreover have "same_core (E\<lparr>e_store := h2\<rparr>) ?E" by (simp add: same_core_def)
    ultimately have "engine_inv X ?E" by (simp add: same_core_inv)
    then have "engine_inv X (put_server k ?s ?E)"
      by (rule engine_inv_put_server [where s = s]) (simp_all add: Some same_server_def)
    with True Some u p show ?thesis by (simp add: advance_server_def Let_def)
  qed (use inv Some in \<open>simp add: advance_server_def\<close>)
qed (simp add: advance_server_def)

lemma advance_server_evolves: "evolves 0 E (advance_server t k E)"
proof (cases "dget (e_servers E) k")
  case (Some s)
  have "evolves 0 E (put_server k (s\<lparr>cumulative_energy_joule := a, cumulative_busy_cpu_seconds := b\<rparr>)
      (E\<lparr>e_store := h, energy_last_update := d\<rparr>))" for a b h d
    by (rule evolves_same) (simp_all add: fleet_def fixed_data_def map_dset_same Some)
  then show ?thesis using Some by (simp add: advance_server_def Let_def split_beta)
qed (simp add: advance_server_def)

lemma advance_server_heap [simp]: "e_heap (advance_server t k E) = e_heap E" "e_seq (advance_server t k E) = e_seq E"
  by (simp_all add: advance_server_def Let_def split_beta split: option.splits)

lemma fold_advance:
  "e_heap (fold (advance_server t) ks E) = e_heap E \<and> e_seq (fold (advance_server t) ks E) = e_seq E
   \<and> evolves 0 E (fold (advance_server t) ks E)"
proof (induction ks arbitrary: E)
  case (Cons k ks)
  from Cons [of "advance_server t k E"] show ?case
    using advance_server_evolves [of E t k] by (auto intro: evolves_0_trans)
qed simp

lemma begin_event_inv:
  assumes inv: "engine_inv X E" and pop: "heappop (e_heap E) = Some (ev, rest)"
  shows "engine_inv (add_mset (ev_type ev) X) (begin_event ev rest E)" and "e_now E \<le> ev_time ev"
    and "sound_event (ev_type ev)"
proof -
  have agenda: "agenda_inv E" using inv by (simp add: engine_inv_def)
  then have ok: "by_key (e_heap E)" by (simp add: agenda_inv_def)
  have h: "e_heap E = ev # rest" using pop by (simp add: heappop_def split: list.splits)
  have now: "heap.not_before (e_now E) (e_heap E)" using agenda by (simp add: agenda_inv_def heap.not_before_def)
  show le: "e_now E \<le> ev_time ev" by (rule heap.pop_advances(1) [OF ok pop now])
  show "sound_event (ev_type ev)" using agenda by (simp add: agenda_inv_def h)
  let ?E1 = "E\<lparr>e_heap := rest\<rparr>"
  have p: "pend (add_mset (ev_type ev) X) ?E1 = pend X E" by (rule ext) (simp add: pend_def h)
  have "engine_inv (add_mset (ev_type ev) X) ?E1"
    unfolding engine_inv_def
  proof (intro conjI)
    show "store_inv ?E1" using inv by (simp add: engine_inv_def store_inv_def hosts_def hosted_inv_def by_service_def)
    have f: "hosts ?E1 = hosts E" "in_srv_state ?E1 = in_srv_state E"
      by (simp_all add: hosts_def in_srv_state_def fun_eq_iff)
    show "life_inv (add_mset (ev_type ev) X) ?E1"
      using inv by (simp add: engine_inv_def life_inv_def replica_life_def p f)
    show "agenda_inv ?E1" using agenda heap.ok_pop [OF ok pop] by (simp add: agenda_inv_def h)
  qed
  then have inv2: "engine_inv (add_mset (ev_type ev) X) (advance_energy_to (ev_time ev) ?E1)"
    unfolding advance_energy_to_def
    by (rule fold_invariant_set [where P = "engine_inv (add_mset (ev_type ev) X)"]) (rule advance_server_inv)
  let ?E2 = "advance_energy_to (ev_time ev) ?E1"
  have 2: "e_heap ?E2 = rest" "e_seq ?E2 = e_seq E" "e_now ?E2 = e_now E"
    using fold_advance [of "ev_time ev" _ ?E1] by (simp_all add: advance_energy_to_def evolves_def)
  have later: "\<forall>e \<in> set rest. ev_time ev \<le> ev_time e"
    using heap.pop_advances(2) [OF ok pop now] by (simp add: heap.not_before_def)
  let ?E3 = "?E2\<lparr>e_now := ev_time ev\<rparr>"
  have f: "hosts ?E3 = hosts ?E2" "in_srv_state ?E3 = in_srv_state ?E2" "pend Y ?E3 = pend Y ?E2" for Y
    by (simp_all add: hosts_def in_srv_state_def pend_def fun_eq_iff)
  show "engine_inv (add_mset (ev_type ev) X) (begin_event ev rest E)"
    unfolding begin_event_def engine_inv_def
  proof (intro conjI)
    show "store_inv ?E3" using inv2 by (simp add: engine_inv_def store_inv_def hosted_inv_def by_service_def f)
    have "replica_life (add_mset (ev_type ev) X) ?E3 k svc a"
      if "replica_life (add_mset (ev_type ev) X) ?E2 k svc a" for k svc a
      using that le 2(3) by (auto simp: replica_life_def f)
    then show "life_inv (add_mset (ev_type ev) X) ?E3"
      using inv2 unfolding engine_inv_def life_inv_def f by blast
    show "agenda_inv ?E3" using inv2 later by (simp add: engine_inv_def agenda_inv_def 2)
  qed
qed

lemma begin_event_frame:
  "e_now (begin_event ev rest E) = ev_time ev" "e_cutoff (begin_event ev rest E) = e_cutoff E"
  "fleet (begin_event ev rest E) = fleet E" "e_heap (begin_event ev rest E) = rest"
  using fold_advance [of "ev_time ev" "dkeys (e_servers E)" "E\<lparr>e_heap := rest\<rparr>"]
  by (simp_all add: begin_event_def advance_energy_to_def evolves_def fleet_def)

lemma drop_token:
  assumes "engine_inv (add_mset ty X) E" and "\<not> owed ty" and "\<And>k s. ty \<noteq> ReplicaReady k s" "\<And>k s. ty \<noteq> ReplicaTerminated k s"
  shows "engine_inv X E"
  using assms life_inv_drop [of ty X E] by (simp add: engine_inv_def)

context lawful_algorithm
begin

lemma handle_event_keeps:
  assumes W: "w_alg W = A" "w_cfg W = C" and h: "handle_event W ty E = Inr E'"
    and inv: "engine_inv (add_mset ty X) E" and sound: "sound_event ty" and "e_now E \<le> e_cutoff E"
  shows "engine_inv X E'" and "evolves (event_weight (e_cutoff E) \<lparr>ev_time = e_now E, ev_seq = n, ev_type = ty\<rparr> - 1) E E'"
proof -
  have "engine_inv X E' \<and> evolves (event_weight (e_cutoff E) \<lparr>ev_time = e_now E, ev_seq = n, ev_type = ty\<rparr> - 1) E E'"
  proof (cases ty)
    case (RequestArrival row)
    have "engine_inv X E" by (rule drop_token [OF inv]) (simp_all add: RequestArrival owed_def)
    then show ?thesis
      using handle_arrival_inv [of row E E' X] h sound
      by (simp add: RequestArrival handle_event_def event_weight_def numeral_2_eq_2)
  next
    case (RequestRouted req)
    have "engine_inv X E" by (rule drop_token [OF inv]) (simp_all add: RequestRouted owed_def)
    then show ?thesis
      using handle_routed_inv [OF W(1), of req E E' X] h by (simp add: RequestRouted handle_event_def event_weight_def)
  next
    case DecisionTick
    have "engine_inv X E" by (rule drop_token [OF inv]) (simp_all add: DecisionTick owed_def)
    then show ?thesis using h by (simp add: DecisionTick handle_event_def)
  next
    case (ServerBootDone k)
    have "store_inv E" using inv by (simp add: engine_inv_def)
    then show ?thesis
      using h inv handle_boot_done_inv [of k E E' X] handle_boot_done_evolves [of k E E']
      by (simp add: ServerBootDone handle_event_def event_weight_def)
  next
    case (ServerDrainDone k)
    then show ?thesis
      using h inv handle_drain_done_inv [of k E E' X] handle_drain_done_evolves [of k E E'] assms(6)
      by (simp add: handle_event_def event_weight_def)
  next
    case (ReplicaReady k svc)
    then show ?thesis
      using h inv handle_replica_ready_inv [of k svc E E' X] handle_replica_ready_evolves [of k svc E E']
      by (simp add: handle_event_def event_weight_def)
  next
    case (ReplicaTerminated k svc)
    then show ?thesis
      using h inv handle_replica_terminated_inv [of k svc E E' X] handle_replica_terminated_evolves [of k svc E E']
      by (simp add: handle_event_def event_weight_def)
  next
    case EnergyResync
    have "engine_inv X E" by (rule drop_token [OF inv]) (simp_all add: EnergyResync owed_def)
    then show ?thesis using h by (simp add: EnergyResync handle_event_def)
  qed
  then show "engine_inv X E'" "evolves (event_weight (e_cutoff E) \<lparr>ev_time = e_now E, ev_seq = n, ev_type = ty\<rparr> - 1) E E'"
    by simp_all
qed

end

end
