(* ===== verification/Reach.thy ===== *)
theory Reach
  imports Run
begin

text \<open>
  The engine as a transition system: its reachable states, the invariants of all of them by
  rule induction, the loop of \<open>step\<close> as a sequence of transitions that always ends, and the
  end of a run.
\<close>

inductive reachable :: "'a world \<Rightarrow> event_row list \<Rightarrow> 'a \<Rightarrow> 'a engine \<Rightarrow> bool"
  for W :: "'a world" and df :: "event_row list" and st :: 'a where
  start: "new_engine df st = Inr E0 \<Longrightarrow> prime W E0 = Inr E \<Longrightarrow> reachable W df st E"
| event: "reachable W df st E \<Longrightarrow> heappop (e_heap E) = Some (ev, rest) \<Longrightarrow> ev_time ev \<le> e_cutoff E \<Longrightarrow>
     ev_type ev \<noteq> DecisionTick \<Longrightarrow> handle_event W (ev_type ev) (begin_event ev rest E) = Inr E' \<Longrightarrow>
     reachable W df st E'"
| tick: "reachable W df st E \<Longrightarrow> heappop (e_heap E) = Some (ev, rest) \<Longrightarrow> ev_time ev \<le> e_cutoff E \<Longrightarrow>
     ev_type ev = DecisionTick \<Longrightarrow> handle_decision_tick W external (begin_event ev rest E) = Inr (sn, E1) \<Longrightarrow>
     reachable W df st (push (e_now E1 + DECISION_INTERVAL_SEC) DecisionTick E1)"
| peek: "reachable W df st E \<Longrightarrow> peek_snapshot E = (sn, E') \<Longrightarrow> reachable W df st E'"

definition sound_trace :: "event_row list \<Rightarrow> bool" where
  "sound_trace df \<longleftrightarrow> (\<forall>row \<in> set df. \<bar>row_lat row\<bar> \<le> 90)"

section \<open>The initial state\<close>

definition fresh_servers :: "servers \<Rightarrow> bool" where
  "fresh_servers servers \<longleftrightarrow> wf_servers servers \<and> servers \<noteq> []
     \<and> (\<forall>s \<in> set (dvals servers). hosted_replicas s = [] \<and> srv_state s = SrvOff \<and> 0 < srv_capacity s
            \<and> \<bar>srv_lat s\<bar> \<le> 90 \<and> 0 \<le> srv_p_idle s \<and> srv_p_idle s \<le> srv_p_max s)"

lemma init_servers_fresh: "\<exists>servers. init_servers = Inr servers \<and> fresh_servers servers"
  by (simp add: init_servers_def init_server_def SERVER_INFO_def profile_of_info_def CAPACITY_TO_PROFILE_def
      dlookup_def SERVER_PROFILES_def fresh_servers_def wf_servers_def new_server_def)

lemma init_servers_freshD: "init_servers = Inr servers \<Longrightarrow> fresh_servers servers"
  using init_servers_fresh by (metis sum.inject(2))

lemma new_engine_shape:
  assumes "new_engine df st = Inr E"
  shows "fresh_servers (e_servers E)" "events_df E = df" "replicas_by_service E = []" "e_heap E = []"
    "e_seq E = 0" "next_ref E = 0" "e_store E = (\<lambda>_. new_replica 0 0 0 0 0)" "e_algorithm E = st"
    "pending_migrations E = []" "e_metrics E = new_metrics" "init_servers = Inr (e_servers E)"
    "request_seq E = 0"
  using assms init_servers_freshD by (auto simp: new_engine_def bindE_Inr_iff)

definition loaded :: "event_row list \<Rightarrow> 'a engine \<Rightarrow> bool" where
  "loaded df E \<longleftrightarrow> by_key (e_heap E) \<and> distinct (map ev_seq (e_heap E))
     \<and> (\<forall>e \<in> set (e_heap E). ev_seq e \<le> e_seq E
          \<and> (\<exists>row \<in> set df. ev_time e = row_start row \<and> ev_type e = RequestArrival row))"

lemma loaded_push:
  assumes "loaded df E" and "row \<in> set df"
  shows "loaded df (push (row_start row) (RequestArrival row) E)"
proof -
  have "Suc (e_seq E) \<notin> ev_seq ` set (e_heap E)" using assms(1) by (auto simp: loaded_def dest!: bspec)
  with assms show ?thesis
    by (auto simp: loaded_def push_def heap.ok_push distinct_heappush le_SucI)
qed

lemma loaded_all:
  assumes "loaded df E"
  shows "loaded df (fold (\<lambda>row. push (row_start row) (RequestArrival row)) df E)"
  by (rule fold_invariant_set [where P = "loaded df"]) (auto simp: assms loaded_push)

lemma fold_push_frame:
  "e_servers (fold (\<lambda>row. push (row_start row) (RequestArrival row)) df E) = e_servers E"
  "e_store (fold (\<lambda>row. push (row_start row) (RequestArrival row)) df E) = e_store E"
  "replicas_by_service (fold (\<lambda>row. push (row_start row) (RequestArrival row)) df E) = replicas_by_service E"
  "events_df (fold (\<lambda>row. push (row_start row) (RequestArrival row)) df E) = events_df E"
  "e_algorithm (fold (\<lambda>row. push (row_start row) (RequestArrival row)) df E) = e_algorithm E"
  "e_metrics (fold (\<lambda>row. push (row_start row) (RequestArrival row)) df E) = e_metrics E"
  "request_seq (fold (\<lambda>row. push (row_start row) (RequestArrival row)) df E) = request_seq E"
  by (induction df arbitrary: E) (simp_all add: push_def)

lemma trace_start_le: "row \<in> set df \<Longrightarrow> fst (trace_bounds df) \<le> row_start row"
proof -
  have "fold (\<lambda>r m. min m (row_start r)) rows m0 \<le> m0
        \<and> (\<forall>r \<in> set rows. fold (\<lambda>r m. min m (row_start r)) rows m0 \<le> row_start r)" for rows m0
    by (induction rows arbitrary: m0) (auto, meson min.boundedE order_refl, meson min.bounded_iff order_refl)
  then show "row \<in> set df \<Longrightarrow> ?thesis" by (cases df) (auto simp: trace_bounds_def)
qed

definition primed_core :: "event_row list \<Rightarrow> 'a engine \<Rightarrow> 'a engine" where
  "primed_core df E =
     (let E1 = fold (\<lambda>row. push (row_start row) (RequestArrival row)) df E
      in E1\<lparr>e_now := fst (trace_bounds df),
            energy_last_update := map (\<lambda>(sid, _). (sid, fst (trace_bounds df))) (e_servers E1),
            util_window_start_time := fst (trace_bounds df)\<rparr>)"

lemma prime_alt:
  "prime W E = bindE (initial_placement W (primed_core (events_df E) E)) (\<lambda>E3.
     Inr ((push (fst (trace_bounds (events_df E))) DecisionTick E3)
       \<lparr>e_cutoff := snd (trace_bounds (events_df E)) + 2 * DISPATCH_OVERHEAD_MS / 1000
                    + DECISION_INTERVAL_SEC + SERVER_DRAIN_GRACE_SEC\<rparr>))"
  by (simp add: prime_def primed_core_def Let_def split_beta)

lemma primed_core_inv:
  assumes "new_engine df st = Inr E" and "sound_trace df"
  shows "engine_inv {#} (primed_core df E)" and "tick_times (primed_core df E) = {#}"
    and "e_servers (primed_core df E) = e_servers E" and "e_now (primed_core df E) = fst (trace_bounds df)"
proof -
  note new = new_engine_shape [OF assms(1)]
  let ?E = "primed_core df E"
  have "loaded df E" by (simp add: loaded_def new by_key_def)
  then have l: "loaded df ?E" using loaded_all [of df E] by (simp add: primed_core_def Let_def loaded_def)
  have f: "e_servers ?E = e_servers E" "e_store ?E = e_store E" "replicas_by_service ?E = []"
    "e_now ?E = fst (trace_bounds df)"
    by (simp_all add: primed_core_def Let_def fold_push_frame new)
  show "e_servers ?E = e_servers E" "e_now ?E = fst (trace_bounds df)" by (rule f)+
  have nohost: "\<not> hosts ?E k svc a" for k svc a
    using new(1) by (fastforce simp: hosts_def f fresh_servers_def dest: dget_mem)
  have "agenda_inv ?E"
    using l assms(2) trace_start_le by (fastforce simp: agenda_inv_def loaded_def f sound_trace_def)
  moreover have "store_inv ?E"
    using new(1) nohost
    by (force simp: store_inv_def f fresh_servers_def by_service_def dget_or_def server_inv_def used_cpu_def
        new queue_ok_new dest: dget_mem)
  moreover have "pend {#} ?E ty = 0" if "owed ty" for ty
    using l that by (force simp: pend_def loaded_def owed_def count_eq_zero_iff)
  then have "life_inv {#} ?E"
    using new(1) nohost
    by (force simp: life_inv_def owed_def in_srv_state_def f fresh_servers_def dest: dget_mem)
  ultimately show "engine_inv {#} ?E" by (simp add: engine_inv_def)
  show "tick_times ?E = {#}"
    using l by (fastforce simp: tick_times_def loaded_def)
qed

section \<open>All reachable states\<close>

definition reach_inv :: "'a engine \<Rightarrow> bool" where
  "reach_inv E \<longleftrightarrow> engine_inv {#} E \<and> (\<exists>t. tick_times E = {#t#})"

lemma engine_inv_cutoff: "engine_inv X (E\<lparr>e_cutoff := c\<rparr>) = engine_inv X E"
  by (simp add: engine_inv_def store_inv_def life_inv_def agenda_inv_def hosts_def in_srv_state_def pend_def
      replica_life_def hosted_inv_def by_service_def)

lemma tick_times_push: "tick_times (push t ty E) = (if ty = DecisionTick then add_mset t (tick_times E) else tick_times E)"
  by (simp add: tick_times_def push_def)

lemma tick_times_begin:
  assumes "heappop (e_heap E) = Some (ev, rest)"
  shows "tick_times E = (if ev_type ev = DecisionTick then add_mset (ev_time ev) (tick_times (begin_event ev rest E))
                         else tick_times (begin_event ev rest E))"
  using assms by (auto simp: tick_times_def begin_event_frame heappop_def split: list.splits)

lemma agenda_weight_begin:
  assumes "heappop (e_heap E) = Some (ev, rest)"
  shows "agenda_weight E = event_weight (e_cutoff E) ev + agenda_weight (begin_event ev rest E)"
  using assms by (auto simp: agenda_weight_def begin_event_frame heappop_def split: list.splits)

lemma event_weight_eq: "event_weight c \<lparr>ev_time = ev_time e, ev_seq = n, ev_type = ev_type e\<rparr> = event_weight c e"
  by (simp add: event_weight_def cong: event_type.case_cong)

text \<open>A property of every agenda event's time follows from the invariant.\<close>

lemma tick_not_past: "engine_inv X E \<Longrightarrow> t \<in># tick_times E \<Longrightarrow> e_now E \<le> t"
  by (auto simp: engine_inv_def agenda_inv_def tick_times_def)

lemma fleet_get:
  assumes "fleet E = fleet E0" and "dget (e_servers E) k = Some s"
  shows "\<exists>s0. dget (e_servers E0) k = Some s0 \<and> fixed_data s = fixed_data s0"
proof -
  have "map (\<lambda>(k, s). (k, fixed_data s)) d = map (\<lambda>(k, s). (k, fixed_data s)) d0 \<Longrightarrow> dget d k = Some s \<Longrightarrow>
          \<exists>s0. dget d0 k = Some s0 \<and> fixed_data s = fixed_data s0" for d d0 :: servers
  proof (induction d arbitrary: d0)
    case (Cons x d)
    then show ?case by (cases x; cases d0) (auto split: if_splits)
  qed simp
  with assms show ?thesis unfolding fleet_def by blast
qed

context lawful_algorithm
begin

lemma prime_inv:
  assumes W: "w_alg W = A" "w_cfg W = C" and new: "new_engine df st = Inr E0" and df: "sound_trace df"
    and p: "prime W E0 = Inr E"
  shows "engine_inv {#} E" "tick_times E = {#fst (trace_bounds df)#}" "e_now E = fst (trace_bounds df)"
    "fleet E = fleet E0"
proof -
  let ?P = "primed_core df E0"
  note core = primed_core_inv [OF new df]
  have df0: "events_df E0 = df" by (rule new_engine_shape(2) [OF new])
  obtain E3 c where 3: "initial_placement W ?P = Inr E3"
    and E: "E = (push (fst (trace_bounds df)) DecisionTick E3)\<lparr>e_cutoff := c\<rparr>"
    using p by (auto simp: prime_alt bindE_Inr_iff df0)
  have "srv_state s = SrvOff" if "dget (e_servers ?P) k = Some s" for k s
  proof -
    have "s \<in> set (dvals (e_servers E0))" using that core(3) by (force dest: dget_mem)
    then show ?thesis using new_engine_shape(1) [OF new] unfolding fresh_servers_def by blast
  qed
  then have i: "engine_inv {#} E3 \<and> grows ?P E3" by (intro initial_placement_inv [OF W 3 core(1)])
  then have g: "e_now E3 = fst (trace_bounds df)" "tick_times E3 = {#}" "fleet E3 = fleet E0"
    using core(2,3,4) by (auto simp: grows_def evolves_def fleet_def)
  show "engine_inv {#} E"
    unfolding E engine_inv_cutoff using i g by (intro engine_inv_push) (simp_all add: owed_def)
  show "tick_times E = {#fst (trace_bounds df)#}" "e_now E = fst (trace_bounds df)" "fleet E = fleet E0"
    using g tick_times_push [of "fst (trace_bounds df)" DecisionTick E3]
    by (simp_all add: E tick_times_def fleet_def)
qed

lemma event_step:
  assumes W: "w_alg W = A" "w_cfg W = C" and inv: "engine_inv {#} E" and pop: "heappop (e_heap E) = Some (ev, rest)"
    and le: "ev_time ev \<le> e_cutoff E" and ty: "ev_type ev \<noteq> DecisionTick"
    and h: "handle_event W (ev_type ev) (begin_event ev rest E) = Inr E'"
  shows "engine_inv {#} E'" "tick_times E' = tick_times E" "e_cutoff E' = e_cutoff E" "e_now E' = ev_time ev"
    "fleet E' = fleet E" "agenda_weight E' < agenda_weight E"
proof -
  let ?B = "begin_event ev rest E"
  have B: "engine_inv (add_mset (ev_type ev) {#}) ?B" "sound_event (ev_type ev)"
    using begin_event_inv [OF inv pop] by simp_all
  have "e_now ?B \<le> e_cutoff ?B" using le by (simp add: begin_event_frame)
  note k = handle_event_keeps [OF W h B this]
  show "engine_inv {#} E'" by (rule k(1))
  have e: "evolves (event_weight (e_cutoff E) ev - 1) ?B E'"
    using k(2) [of "ev_seq ev"] by (simp add: begin_event_frame event_weight_eq)
  then show "tick_times E' = tick_times E" "e_cutoff E' = e_cutoff E" "e_now E' = ev_time ev" "fleet E' = fleet E"
    using tick_times_begin [OF pop] ty by (simp_all add: evolves_def begin_event_frame)
  have "0 < event_weight (e_cutoff E) ev" by (simp add: event_weight_def)
  then show "agenda_weight E' < agenda_weight E"
    using e unfolding evolves_def agenda_weight_begin [OF pop] by linarith
qed

lemma tick_step:
  assumes W: "w_alg W = A" "w_cfg W = C" and inv: "engine_inv {#} E" and pop: "heappop (e_heap E) = Some (ev, rest)"
    and ty: "ev_type ev = DecisionTick"
    and h: "handle_decision_tick W ext (begin_event ev rest E) = Inr (sn, E1)"
  defines "E' \<equiv> push (e_now E1 + DECISION_INTERVAL_SEC) DecisionTick E1"
  shows "engine_inv {#} E'" "add_mset (ev_time ev + DECISION_INTERVAL_SEC) (tick_times E) = add_mset (ev_time ev) (tick_times E')"
    "e_cutoff E' = e_cutoff E" "e_now E' = ev_time ev" "fleet E' = fleet E"
proof -
  let ?B = "begin_event ev rest E"
  have "engine_inv (add_mset DecisionTick {#}) ?B" using begin_event_inv(1) [OF inv pop] ty by simp
  then have "engine_inv {#} ?B" by (rule drop_token) (simp_all add: owed_def)
  from keepsD [OF handle_decision_tick_keeps [OF W h] this]
  have 1: "engine_inv {#} E1" "grows ?B E1" by simp_all
  show "engine_inv {#} E'" unfolding E'_def
    by (rule engine_inv_push [OF 1(1)]) (simp_all add: owed_def DECISION_INTERVAL_SEC_def)
  from 1(2) show "add_mset (ev_time ev + DECISION_INTERVAL_SEC) (tick_times E) = add_mset (ev_time ev) (tick_times E')"
    "e_cutoff E' = e_cutoff E" "e_now E' = ev_time ev" "fleet E' = fleet E"
    using tick_times_begin [OF pop] ty begin_event_frame(3) [of ev rest E]
    by (auto simp: E'_def tick_times_push grows_def evolves_def begin_event_frame(1,2) fleet_def)
qed

lemma reachable_inv:
  assumes "reachable W df st E" and W: "w_alg W = A" "w_cfg W = C" and df: "sound_trace df"
  shows "reach_inv E"
  using assms(1)
proof induction
  case (start E0 E)
  from prime_inv [OF W start(1) df start(2)] show ?case by (simp add: reach_inv_def)
next
  case (event E ev rest E')
  from event(6) have "engine_inv {#} E" by (simp add: reach_inv_def)
  from event_step [OF W this event(2-5)] event(6) show ?case by (simp add: reach_inv_def)
next
  case (tick E ev rest ext sn E1)
  from tick(6) have inv: "engine_inv {#} E" by (simp add: reach_inv_def)
  note t = tick_step [OF W inv tick(2) tick(4,5)]
  from tick(6) obtain u where u: "tick_times E = {#u#}" by (auto simp: reach_inv_def)
  have "u = ev_time ev" using tick_times_begin [OF tick(2)] tick(4) u by simp
  with t(2) u have "tick_times (push (e_now E1 + DECISION_INTERVAL_SEC) DecisionTick E1) = {#ev_time ev + DECISION_INTERVAL_SEC#}"
    by (simp add: add_mset_commute)
  with t(1) show ?case unfolding reach_inv_def by blast
next
  case (peek E sn E')
  from peek(3) reads_inv [OF peek_snapshot_reads(1) [OF peek(2)]] peek_snapshot_reads(6) [OF peek(2)]
  show ?case by (simp add: reach_inv_def)
qed

lemma reachable_fleet:
  assumes "reachable W df st E" and W: "w_alg W = A" "w_cfg W = C" and df: "sound_trace df"
  shows "\<exists>E0. new_engine df st = Inr E0 \<and> fleet E = fleet E0"
  using assms(1)
proof induction
  case (start E0 E)
  from prime_inv(4) [OF W start(1) df start(2)] start(1) show ?case by blast
next
  case (event E ev rest E')
  from reachable_inv [OF event(1) W df] have "engine_inv {#} E" by (simp add: reach_inv_def)
  from event_step(5) [OF W this event(2-5)] event(6) show ?case by simp
next
  case (tick E ev rest ext sn E1)
  from reachable_inv [OF tick(1) W df] have "engine_inv {#} E" by (simp add: reach_inv_def)
  from tick_step(5) [OF W this tick(2) tick(4,5)] tick(6) show ?case by simp
next
  case (peek E sn E')
  then show ?case using peek_snapshot_reads(4) [OF peek(2)] by (simp add: fleet_def)
qed

section \<open>The loop of a step\<close>

lemma step_loop_terminates:
  assumes W: "w_alg W = A" "w_cfg W = C" and "engine_inv {#} E" and "agenda_weight E < fuel"
  shows "\<exists>r. step_loop fuel W ext E = Some r"
  using assms(3,4)
proof (induction fuel arbitrary: E)
  case (Suc fuel)
  show ?case
  proof (cases "heappop (e_heap E)")
    case (Some p)
    then obtain ev rest where pop: "heappop (e_heap E) = Some (ev, rest)" by (cases p) auto
    show ?thesis
    proof (cases "e_cutoff E < ev_time ev \<or> ev_type ev = DecisionTick")
      case False
      then have ev: "ev_time ev \<le> e_cutoff E" "ev_type ev \<noteq> DecisionTick" by auto
      show ?thesis
      proof (cases "handle_event W (ev_type ev) (begin_event ev rest E)")
        case (Inr E')
        from event_step [OF W Suc.prems(1) pop ev Inr] Suc.prems(2)
        have "\<exists>r. step_loop fuel W ext E' = Some r" by (intro Suc.IH) auto
        with pop ev Inr show ?thesis by simp
      qed (use pop ev in simp)
    qed (use pop in auto)
  qed simp
qed simp

lemma step_terminates:
  "w_alg W = A \<Longrightarrow> w_cfg W = C \<Longrightarrow> engine_inv {#} E \<Longrightarrow> \<exists>r. step W ext E = Some r"
  unfolding step_def by (rule step_loop_terminates) simp_all

text \<open>A step that is not the last one ends right after the tick that was waiting.\<close>

lemma step_loop_tick:
  assumes W: "w_alg W = A" "w_cfg W = C" and "step_loop fuel W ext E = Some (Inr (sn, is_done, E'))"
    and "reachable W df st E" and "engine_inv {#} E" and "tick_times E = {#t#}"
  shows "(if is_done then sn = None
          else reachable W df st E' \<and> engine_inv {#} E' \<and> t \<le> e_cutoff E \<and> e_now E' = t
               \<and> tick_times E' = {#t + DECISION_INTERVAL_SEC#}) \<and> e_cutoff E' = e_cutoff E"
  using assms(3-6)
proof (induction fuel arbitrary: E)
  case (Suc fuel)
  show ?case
  proof (cases "heappop (e_heap E)")
    case None
    with Suc.prems(1) show ?thesis by simp
  next
    case (Some p)
    then obtain ev rest where pop: "heappop (e_heap E) = Some (ev, rest)" by (cases p) auto
    consider (late) "e_cutoff E < ev_time ev" | (tick) "ev_time ev \<le> e_cutoff E" "ev_type ev = DecisionTick"
      | (other) "ev_time ev \<le> e_cutoff E" "ev_type ev \<noteq> DecisionTick" by fastforce
    then show ?thesis
    proof cases
      case late
      with pop Suc.prems(1) have "is_done \<and> sn = None \<and> E' = E\<lparr>e_heap := rest\<rparr>" by simp
      then show ?thesis by simp
    next
      case tick
      with pop Suc.prems(1) obtain s E1 where h: "handle_decision_tick W ext (begin_event ev rest E) = Inr (s, E1)"
        and E': "E' = push (e_now E1 + DECISION_INTERVAL_SEC) DecisionTick E1" "\<not> is_done"
        by (auto simp: bindE_Inr_iff)
      note t = tick_step [OF W Suc.prems(3) pop tick(2) h]
      have "ev_time ev = t" using tick_times_begin [OF pop] tick(2) Suc.prems(4) by simp
      with t tick E' reachable.tick [OF Suc.prems(2) pop tick h] Suc.prems(4)
      show ?thesis by (simp add: add_mset_commute)
    next
      case other
      with pop Suc.prems(1) obtain E1 where h: "handle_event W (ev_type ev) (begin_event ev rest E) = Inr E1"
        and r: "step_loop fuel W ext E1 = Some (Inr (sn, is_done, E'))"
        by (auto split: sum.splits)
      note e = event_step [OF W Suc.prems(3) pop other h]
      have "reachable W df st E1" by (rule reachable.event [OF Suc.prems(2) pop other h])
      from Suc.IH [OF r this e(1)] e(2,3) Suc.prems(4) show ?thesis by (auto split: if_splits)
    qed
  qed
qed simp

lemma run_loop_terminates:
  assumes W: "w_alg W = A" "w_cfg W = C" and "reachable W df st E" "engine_inv {#} E" "tick_times E = {#t#}"
    and "nat (\<lfloor>(e_cutoff E - t) / DECISION_INTERVAL_SEC\<rfloor> + 1) < n"
  shows "\<exists>r. run_loop n W E = Some r"
  using assms(3-6)
proof (induction n arbitrary: E t)
  case (Suc n)
  obtain r where r: "step W None E = Some r" using step_terminates [OF W Suc.prems(2)] by blast
  show ?case
  proof (cases r)
    case (Inr x)
    obtain sn d E' where x: "x = (sn, d, E')" by (cases x) auto
    show ?thesis
    proof (cases d)
      case False
      have s: "reachable W df st E' \<and> engine_inv {#} E' \<and> t \<le> e_cutoff E \<and> tick_times E' = {#t + DECISION_INTERVAL_SEC#}
          \<and> e_cutoff E' = e_cutoff E"
        using step_loop_tick [OF W _ Suc.prems(1-3)] r Inr x False unfolding step_def by fastforce
      let ?q = "\<lfloor>(e_cutoff E - t) / DECISION_INTERVAL_SEC\<rfloor>"
      have "(e_cutoff E - (t + DECISION_INTERVAL_SEC)) / DECISION_INTERVAL_SEC
              = (e_cutoff E - t) / DECISION_INTERVAL_SEC - 1"
        by (simp add: DECISION_INTERVAL_SEC_def field_simps)
      then have "\<lfloor>(e_cutoff E - (t + DECISION_INTERVAL_SEC)) / DECISION_INTERVAL_SEC\<rfloor> = ?q - 1" by simp
      moreover have "0 \<le> ?q" using s by (simp add: DECISION_INTERVAL_SEC_def)
      ultimately have "nat (\<lfloor>(e_cutoff E' - (t + DECISION_INTERVAL_SEC)) / DECISION_INTERVAL_SEC\<rfloor> + 1) < n"
        using Suc.prems(4) s by (simp add: nat_add_distrib)
      with s have "\<exists>r. run_loop n W E' = Some r" by (intro Suc.IH) auto
      with r Inr x False show ?thesis by simp
    qed (use r Inr x in simp)
  qed (use r in simp)
qed simp

theorem run_terminates:
  assumes W: "w_alg W = A" "w_cfg W = C" and new: "new_engine df st = Inr E0" and df: "sound_trace df"
  shows "\<exists>r. run W E0 = Some r"
proof (cases "prime W E0")
  case (Inr E)
  note p = prime_inv [OF W new df Inr]
  have "\<exists>r. run_loop (tick_bound E + 1) W E = Some r"
    by (rule run_loop_terminates [OF W reachable.start [OF new Inr] p(1,2)]) (simp add: tick_bound_def p(3))
  with Inr show ?thesis by (auto simp: run_def split: sum.splits)
qed (simp add: run_def)

end

end
