(* ===== verification/Greedy.thy ===== *)
theory Greedy
  imports Policy
begin

text \<open>
  \<open>algorithms/greedy/greedy_algorithm.py\<close>: the threshold algorithm. Its state is the last
  snapshot it was shown; routing, initial placement and the scale-down victim are inherited.
\<close>

type_synonym greedy_state = "snapshot option"

definition greedy_scale_decision ::
  "greedy_state \<Rightarrow> int \<Rightarrow> snapshot \<Rightarrow> (scale_action \<times> greedy_state) result" where
  "greedy_scale_decision st service_id sn =
     bindE (dlookup (sn_services sn) service_id) (\<lambda>svc.
       Inr (if 7/10 < occ_ratio svc \<or> 0 < rejection_signal svc then ScaleUp
            else if occ_ratio svc < 1/10 \<and> 1 < sv_n_ready_replicas svc then ScaleDown
            else ScaleNoChange, Some sn))"

definition greedy_provision_action ::
  "cfg \<Rightarrow> servers \<Rightarrow> heap \<Rightarrow> snapshot \<Rightarrow> provision_action result" where
  "greedy_provision_action C servers h sn =
     (let active = in_state SrvActive servers;
          overloaded = overloaded_servers sn active;
          starved_services = capacity_starved_services C h sn servers (7/10);
          util = (\<lambda>s. snap_util sn (srv_id s))
      in if overloaded \<noteq> [] \<or> starved_services \<noteq> []
         then let off_servers = in_state SrvOff servers
              in if off_servers \<noteq> []
                 then bindE (if overloaded \<noteq> [] then Inr (Some (hd overloaded))
                             else if active \<noteq> [] then bindE (max_by util active) (\<lambda>r. Inr (Some r))
                             else Inr None) (\<lambda>ref.
                        let pool = (case ref of
                                      None \<Rightarrow> off_servers
                                    | Some r \<Rightarrow>
                                        sort_key (km_from (srv_lat r, srv_long r))
                                          (filter_by_profile_with_fallback off_servers
                                            (pick_profile_for_overload overloaded (srv_capacity r))))
                        in Inr (turn_on (srv_id (hd pool))))
                 else Inr no_provision
         else if active \<noteq> []
         then bindE (min_by util active) (\<lambda>idle.
                Inr (if util idle < UTIL_SCALE_DOWN_THRESHOLD then turn_off (srv_id idle)
                     else no_provision))
         else Inr no_provision)"

definition greedy_provision_decision ::
  "cfg \<Rightarrow> greedy_state \<Rightarrow> servers \<Rightarrow> heap \<Rightarrow> snapshot \<Rightarrow> real
   \<Rightarrow> (provision_action \<times> greedy_state) result" where
  "greedy_provision_decision C st servers h sn now =
     bindE (greedy_provision_action C servers h sn) (\<lambda>act. Inr (act, Some sn))"

definition demand_centroid_or_none :: "greedy_state \<Rightarrow> int \<Rightarrow> (real \<times> real) option" where
  "demand_centroid_or_none st service_id =
     (case st of
        None \<Rightarrow> None
      | Some sn \<Rightarrow> (case dget (sn_services sn) service_id of
                     None \<Rightarrow> None | Some sv \<Rightarrow> sv_demand_centroid sv))"

definition greedy_select_placement_server ::
  "cfg \<Rightarrow> greedy_state \<Rightarrow> int \<Rightarrow> servers \<Rightarrow> heap \<Rightarrow> int option result" where
  "greedy_select_placement_server C st service_id servers h =
     bindE (service_of service_id) (\<lambda>svc.
     bindE (mean_position (in_state SrvActive servers)) (\<lambda>mean_pos.
       let cpu = resource_mips svc;
           centroid = (case demand_centroid_or_none st service_id of None \<Rightarrow> mean_pos | Some c \<Rightarrow> c);
           candidates = filter (\<lambda>s. srv_state s = SrvActive
                                   \<and> can_host C h s service_id cpu (Some centroid)) (dvals servers)
       in Inr (map_option srv_id (first_by (km_from mean_pos) candidates))))"

definition greedy_migration_target ::
  "cfg \<Rightarrow> greedy_state \<Rightarrow> server \<Rightarrow> servers \<Rightarrow> heap \<Rightarrow> int \<Rightarrow> server option" where
  "greedy_migration_target C st draining servers h service_id =
     (let ref = (case demand_centroid_or_none st service_id of
                   None \<Rightarrow> (srv_lat draining, srv_long draining) | Some c \<Rightarrow> c)
      in first_by (km_from (srv_lat draining, srv_long draining))
           (migration_candidates C h draining servers service_id (Some ref)))"

definition greedy_migration_decision ::
  "cfg \<Rightarrow> greedy_state \<Rightarrow> server \<Rightarrow> servers \<Rightarrow> heap \<Rightarrow> migration_step list result" where
  "greedy_migration_decision C st draining servers h =
     Inr (migration_loop (greedy_migration_target C st draining servers h) h draining servers)"

definition greedy_select_replica ::
  "greedy_state \<Rightarrow> request \<Rightarrow> nat list \<Rightarrow> servers \<Rightarrow> real \<Rightarrow> heap
   \<Rightarrow> (nat option \<times> greedy_state \<times> heap) result" where
  "greedy_select_replica st req cands servers now h =
     bindE (base_select_replica req cands servers now h) (\<lambda>(c, h'). Inr (c, st, h'))"

definition greedy_algorithm :: "cfg \<Rightarrow> greedy_state algorithm" where
  "greedy_algorithm C =
     \<lparr>alg_initial_placement = (\<lambda>_. base_initial_placement),
      alg_select_replica = greedy_select_replica,
      alg_select_scale_down_victim = (\<lambda>_ _ as _ now h. base_select_scale_down_victim as now h),
      alg_scale_decision = greedy_scale_decision,
      alg_provision_decision = greedy_provision_decision C,
      alg_select_placement_server = (\<lambda>st _. greedy_select_placement_server C st),
      alg_migration_decision = (\<lambda>st _. greedy_migration_decision C st),
      alg_bypass_sustain_gate = True\<rparr>"

section \<open>The algorithm keeps the contract\<close>

lemma greedy_provision_sound:
  assumes "greedy_provision_action C servers h sn = Inr act" and "wf_servers servers"
    and "pa_server_id act = Some sid"
  shows "\<exists>s. dget servers sid = Some s
            \<and> (pa_action act = TurnOn \<longrightarrow> srv_state s = SrvOff)
            \<and> (pa_action act = TurnOff \<longrightarrow> srv_state s = SrvActive)"
proof -
  let ?active = "in_state SrvActive servers" and ?off = "in_state SrvOff servers"
  have on: "dget servers (srv_id (hd ss)) = Some (hd ss) \<and> srv_state (hd ss) = SrvOff"
    if "ss \<noteq> []" "set ss \<subseteq> set ?off" for ss
    using that hd_in_set [of ss] by (intro in_state_get [OF assms(2)]) auto
  have pool: "filter_by_profile_with_fallback ?off p \<noteq> []" if "?off \<noteq> []" for p
    using that by (rule filter_by_profile_props)
  have sorted_pool: "sort_key f (filter_by_profile_with_fallback ?off p) \<noteq> []"
    "set (sort_key f (filter_by_profile_with_fallback ?off p)) \<subseteq> set ?off"
    if "?off \<noteq> []" for p and f :: "server \<Rightarrow> real"
    using pool [OF that, of p] filter_by_profile_props(2) [of ?off p]
    by (metis length_0_conv length_sort, simp)
  have off: "dget servers (srv_id idle) = Some idle \<and> srv_state idle = SrvActive"
    if "min_by f ?active = Inr idle" for f :: "server \<Rightarrow> real" and idle
    using min_by_Inr(1) [OF that] by (rule in_state_get [OF assms(2)])
  show ?thesis
    using assms(1,3) on [OF sorted_pool] on [of ?off] off
    unfolding greedy_provision_action_def Let_def
    by (auto simp: bindE_Inr_iff split: if_splits option.splits)
qed

lemma greedy_placement_sound:
  assumes "greedy_select_placement_server C st svc servers h = Inr (Some sid)" and "wf_servers servers"
  shows "\<exists>s. dget servers sid = Some s \<and> srv_state s = SrvActive \<and> can_host_at_some_point C h s svc"
proof -
  obtain info p s where i: "service_of svc = Inr info" and
    r: "sid = srv_id s" "first_by (km_from p) (filter (\<lambda>s. srv_state s = SrvActive
          \<and> can_host C h s svc (resource_mips info)
              (Some (case demand_centroid_or_none st svc of None \<Rightarrow> p | Some c \<Rightarrow> c))) (dvals servers)) = Some s"
    using assms(1) unfolding greedy_select_placement_server_def Let_def
    by (auto simp: bindE_Inr_iff)
  from i have cpu: "resource_mips info = resource_mips_of svc"
    by (simp add: service_of_def dlookup_Inr_iff resource_mips_of_def)
  have "s \<in> set (dvals servers)" "srv_state s = SrvActive" "can_host_at_some_point C h s svc"
    using first_by_Some [OF r(2)] unfolding can_host_at_some_point_def cpu by auto
  with r(1) wf_servers_get [OF assms(2)] show ?thesis by blast
qed

lemma greedy_migration_sound:
  assumes "wf_servers servers" "step \<in> set (migration_loop (greedy_migration_target C st s servers h) h s servers)"
  shows "valid_step C h s servers step"
  by (rule migration_loop_valid [OF assms(1) _ assms(2)])
    (auto simp: greedy_migration_target_def Let_def dest: first_by_Some)

lemma greedy_router:
  assumes "greedy_select_replica st req cands servers now h = Inr (c, st', h')"
  shows "pruned now h h'"
    and "case c of Some a \<Rightarrow> a \<in> set cands \<and> has_room now h a | None \<Rightarrow> \<forall>a \<in> set cands. \<not> has_room now h a"
  using assms base_select_replica_sound by (auto simp: greedy_select_replica_def bindE_Inr_iff)

interpretation greedy: self_checking_algorithm "greedy_algorithm C" C for C
  apply unfold_locales
         apply (simp_all only: greedy_algorithm_def algorithm.simps)
         apply (erule greedy_router(1))
        apply (drule greedy_router(2), simp)
       apply (drule greedy_router(2), simp)
      apply (erule (1) base_initial_lawful)
     apply (blast dest: base_victim_sound(1,2))
    apply (erule (1) greedy_placement_sound)
   apply (auto simp: greedy_migration_decision_def migration_loop_services intro: greedy_migration_sound)[1]
  apply (auto simp: greedy_provision_decision_def bindE_Inr_iff dest: greedy_provision_sound)[1]
  done

section \<open>It never raises\<close>

lemma greedy_scale_total:
  "dget (sn_services sn) svc = Some sv \<Longrightarrow>
     \<exists>d st'. greedy_scale_decision st svc sn = Inr (d, st') \<and> (d = ScaleUp \<longrightarrow> demand_seen sv)"
  by (auto simp: greedy_scale_decision_def dlookup_def demand_seen_def)

lemma greedy_placement_total:
  "svc \<in> set ACTIVE_SERVICES \<Longrightarrow> in_state SrvActive servers \<noteq> [] \<Longrightarrow> \<exists>t. greedy_select_placement_server C st svc servers h = Inr t"
  using service_of_active [of svc] by (auto simp: greedy_select_placement_server_def mean_position_def Let_def)

lemma greedy_provision_total: "\<exists>act. greedy_provision_action C servers h sn = Inr act"
proof -
  let ?active = "in_state SrvActive servers" and ?u = "\<lambda>s. snap_util sn (srv_id s)"
  have "?active \<noteq> [] \<Longrightarrow> \<exists>s. max_by ?u ?active = Inr s" "?active \<noteq> [] \<Longrightarrow> \<exists>s. min_by ?u ?active = Inr s"
    using max_by_total min_by_total by blast+
  then show ?thesis by (auto simp: greedy_provision_action_def Let_def)
qed

interpretation greedy_total: total_algorithm "greedy_algorithm C" C "\<lambda>_ _. True" for C
  apply unfold_locales
        apply (simp_all only: greedy_algorithm_def algorithm.simps)
        apply (erule base_initial_placement_total)
       subgoal for servers st cands h req now
         using base_select_replica_total [of cands h servers req now] by (fastforce simp: greedy_select_replica_def)
      apply (erule base_victim_total)
     apply (metis greedy_scale_total)
    apply (metis greedy_provision_total greedy_provision_decision_def bindE_simps(2))
   apply (erule (1) greedy_placement_total)
  apply (simp add: greedy_migration_decision_def)
  done

section \<open>Properties\<close>

text \<open>
  C18. Greedy provisioning: it turns a server off only when no active server is overloaded
  and no service is starved, and then the least utilized active one, below the scale-down
  threshold; it turns one on only under such pressure, and one that is off; it does nothing
  only if no server is left to turn on, or without pressure if every active server is
  utilized enough.
\<close>

theorem greedy_provision_spec:
  assumes "greedy_provision_action C servers h sn = Inr act"
  defines "active \<equiv> in_state SrvActive servers"
  defines "pressure \<equiv> overloaded_servers sn active \<noteq> [] \<or> capacity_starved_services C h sn servers (7/10) \<noteq> []"
  shows "case pa_action act of
           TurnOff \<Rightarrow> \<not> pressure \<and> (\<exists>s \<in> set active. act = turn_off (srv_id s)
               \<and> snap_util sn (srv_id s) < UTIL_SCALE_DOWN_THRESHOLD
               \<and> (\<forall>t \<in> set active. snap_util sn (srv_id s) \<le> snap_util sn (srv_id t)))
         | TurnOn \<Rightarrow> pressure \<and> (\<exists>s \<in> set (in_state SrvOff servers). act = turn_on (srv_id s))
         | ProvNoChange \<Rightarrow> (if pressure then in_state SrvOff servers = []
               else \<forall>t \<in> set active. UTIL_SCALE_DOWN_THRESHOLD \<le> snap_util sn (srv_id t))"
proof -
  let ?off = "in_state SrvOff servers" and ?util = "\<lambda>s. snap_util sn (srv_id s)"
  have on: "hd (sort_key f (filter_by_profile_with_fallback ?off p)) \<in> set ?off" if "?off \<noteq> []" for p and f :: "server \<Rightarrow> real"
    using filter_by_profile_hd [OF that] .
  show ?thesis
  proof (cases pressure)
    case True
    show ?thesis
    proof (cases "?off = []")
      case True
      with \<open>pressure\<close> assms(1) show ?thesis
        by (auto simp: greedy_provision_action_def Let_def active_def pressure_def)
    next
      case False
      with \<open>pressure\<close> assms(1) have "act = turn_on (srv_id (hd ?off)) \<or>
          (\<exists>(f :: server \<Rightarrow> real) p. act = turn_on (srv_id (hd (sort_key f (filter_by_profile_with_fallback ?off p)))))"
        unfolding greedy_provision_action_def Let_def active_def [symmetric] pressure_def
        by (auto simp: bindE_Inr_iff split: option.splits if_splits)
      then have "\<exists>s \<in> set ?off. act = turn_on (srv_id s)"
        using on [OF False] hd_in_set [OF False] by blast
      with \<open>pressure\<close> show ?thesis by auto
    qed
  next
    case False
    show ?thesis
    proof (cases "active = []")
      case True
      with \<open>\<not> pressure\<close> assms(1) show ?thesis
        by (auto simp: greedy_provision_action_def Let_def active_def pressure_def)
    next
      case False
      with \<open>\<not> pressure\<close> assms(1) obtain s where s: "min_by ?util active = Inr s"
        "act = (if ?util s < UTIL_SCALE_DOWN_THRESHOLD then turn_off (srv_id s) else no_provision)"
        by (auto simp: greedy_provision_action_def Let_def active_def pressure_def bindE_Inr_iff)
      then show ?thesis using \<open>\<not> pressure\<close> min_by_Inr [OF s(1)] by (auto simp: not_less intro: order.trans)
    qed
  qed
qed

lemma greedy_quiet:
  "greedy_provision_action C [(1, (new_server 1 Large 31 121 40320 33 148)\<lparr>srv_state := SrvActive\<rparr>)]
     h (sample_snapshot []) = Inr (turn_off 1)"
  by (simp add: greedy_provision_action_def in_state_def new_server_def overloaded_servers_def snap_util_def
      capacity_starved_services_def sample_snapshot_def UTIL_SCALE_UP_THRESHOLD_def UTIL_SCALE_DOWN_THRESHOLD_def)

theorem greedy_provision_spec_witness:
  "capacity_starved_services \<lparr>enforce_sla_feasibility = True\<rparr> (\<lambda>_. new_replica 0 0 0 0 0) (sample_snapshot [])
     [(1, (new_server 1 Large 31 121 40320 33 148)\<lparr>srv_state := SrvActive\<rparr>)] (7/10) = []"
  using greedy_provision_spec [OF greedy_quiet] by simp

end
