(* ===== verification/Start.thy ===== *)
theory Start
  imports Reach Greedy
begin

text \<open>
  The start of a run does not raise: the initial placement of a fleet of switched-off servers
  returns, so a run has a first state. A concrete world for the witnesses of the properties
  of reachable states.
\<close>

definition knows :: "servers \<Rightarrow> 'a engine \<Rightarrow> bool" where
  "knows d E \<longleftrightarrow> dkeys (e_servers E) = dkeys d \<and> wf_servers (e_servers E)"

lemma knows_get: "knows d E \<Longrightarrow> k \<in> set (dkeys d) \<Longrightarrow> \<exists>s. dget (e_servers E) k = Some s \<and> srv_id s = k"
  unfolding knows_def by (metis map_of_eq_None_iff list.set_map not_None_eq wf_servers_id)

lemma knows_put:
  assumes "knows d E" and "dget (e_servers E) k = Some s" and "srv_id s' = k"
    and "e_servers E' = dset k s' (e_servers E)"
  shows "knows d E'"
proof -
  have "dkeys (e_servers E') = dkeys (e_servers E)"
    using dget_mem [OF assms(2)] unfolding assms(4) by (intro dkeys_dset_mem) force
  then show ?thesis using assms wf_servers_dset [of "e_servers E" s' k] by (simp add: knows_def)
qed

lemma start_server_boot_total:
  assumes "knows d E" and "k \<in> set (dkeys d)"
  shows "\<exists>E'. start_server_boot k em E = Inr E' \<and> knows d E'"
proof -
  obtain s where s: "dget (e_servers E) k = Some s" "srv_id s = k" using knows_get [OF assms] by blast
  then have "\<exists>E'. start_server_boot k em E = Inr E'"
    by (simp add: start_server_boot_def server_at_def dlookup_def Let_def)
  then obtain E' where E': "start_server_boot k em E = Inr E'" ..
  from this have "knows d E'"
  proof (cases rule: start_server_boot_cases)
    case (boot s)
    have "srv_id s = k" using wf_servers_id boot(1) assms(1) unfolding knows_def by blast
    then show ?thesis
      by (intro knows_put [OF assms(1) boot(1), where s' = "s\<lparr>srv_state := SrvBooting, is_emergency_boot := em,
            boot_started_at := Some (e_now E), last_transition_time := e_now E, num_boots := num_boots s + 1,
            cumulative_energy_joule := cumulative_energy_joule s + E_BOOT_SERVER_J\<rparr>"])
        (simp_all add: boot(3) record_metric_def)
  qed (use assms(1) in simp)
  with E' show ?thesis by blast
qed

lemma place_replica_total:
  assumes "knows d E" and "k \<in> set (dkeys d)" and "svc \<in> set ACTIVE_SERVICES"
  shows "\<exists>p E'. place_replica W k svc E = Inr (p, E') \<and> knows d E'"
proof -
  obtain s where s: "dget (e_servers E) k = Some s" "srv_id s = k" using knows_get [OF assms(1,2)] by blast
  obtain info where info: "service_of svc = Inr info" using assms(3) service_of_active by blast
  then have "resource_mips info \<noteq> 0"
    using SERVICES_INFO_ranges [of svc info] by (simp add: service_of_def dlookup_Inr_iff)
  then have "real_of_int (resource_mips info) * (host_mips s / real_of_int REFERENCE_MIPS_PER_CORE) \<noteq> 0"
    using speed_factor_range [of s] unfolding speed_factor_def by auto
  then obtain et where et: "compute_exec_time_sec svc (host_mips s) = Inr et"
    by (simp only: compute_exec_time_sec_def info bindE_simps Let_def if_False)
  have "\<exists>p E'. place_replica W k svc E = Inr (p, E')"
    using s info et by (simp add: place_replica_def server_at_def dlookup_def Let_def)
  then obtain p E' where E': "place_replica W k svc E = Inr (p, E')" by blast
  from this have "knows d E'"
  proof (cases rule: place_replica_cases)
    case (placed s info et)
    have "srv_id s = k" using wf_servers_id placed(1) assms(1) unfolding knows_def by blast
    then show ?thesis
      by (intro knows_put [OF assms(1) placed(1), where s' = "s\<lparr>hosted_replicas := dset svc (next_ref E) (hosted_replicas s),
            cumulative_energy_joule := cumulative_energy_joule s + E_POD_CREATE_J\<rparr>"])
        (simp_all add: placed(6) Let_def record_metric_def)
  qed (use assms(1) in simp)
  with E' show ?thesis by blast
qed

lemma place_initial_total:
  assumes "knows d E" and "set sel \<subseteq> set (dkeys d)" and "svc \<in> set ACTIVE_SERVICES"
  shows "\<exists>E'. place_initial W sel svc E = Inr E' \<and> knows d E'"
proof -
  obtain info where info: "service_of svc = Inr info" using assms(3) service_of_active by blast
  have "\<exists>y. server_at E k = Inr y" if "k \<in> set sel" for k
    using knows_get [OF assms(1)] assms(2) that by (force simp: server_at_def dlookup_def)
  then obtain ss where ss: "mapE (server_at E) sel = Inr ss" by (meson mapE_total)
  let ?cand = "filter (\<lambda>s. can_host (w_cfg W) (e_store E) s svc (resource_mips info) None) ss"
  have "\<exists>t. nearest_capable_server W svc sel E = Inr t"
    using info ss by (auto simp: nearest_capable_server_def mean_position_def Let_def)
  then obtain t where t: "nearest_capable_server W svc sel E = Inr t" by blast
  show ?thesis
  proof (cases t)
    case (Some k)
    have "k \<in> set sel" using nearest_capable_member t assms(1) unfolding Some knows_def by blast
    then have "k \<in> set (dkeys d)" using assms(2) by blast
    from place_replica_total [OF assms(1) this assms(3), of W] t show ?thesis
      by (auto simp: place_initial_def Some)
  qed (use t assms(1) in \<open>simp add: place_initial_def\<close>)
qed

lemma initial_placement_total:
  assumes "wf_servers (e_servers E)"
    and sel: "alg_initial_placement (w_alg W) (e_algorithm E) (e_servers E) (initial_bts W (events_df E)) = Inr sel"
    and "set sel \<subseteq> set (dkeys (e_servers E))"
  shows "\<exists>E'. initial_placement W E = Inr E'"
proof -
  let ?d = "e_servers E"
  have "knows ?d E" using assms(1) by (simp add: knows_def)
  then obtain E1 where 1: "foldE (\<lambda>sid. start_server_boot sid False) sel E = Inr E1" "knows ?d E1"
    using foldE_total [of "knows ?d" E sel "\<lambda>sid. start_server_boot sid False"] start_server_boot_total assms(3) by blast
  obtain E2 where "foldE (place_initial W sel) ACTIVE_SERVICES E1 = Inr E2"
    using foldE_total [of "knows ?d" E1 ACTIVE_SERVICES "place_initial W sel"] 1(2) place_initial_total assms(3) by blast
  with 1 sel show ?thesis by (auto simp: initial_placement_def)
qed

lemma prime_total:
  assumes "new_engine df st = Inr E0" and "alg_initial_placement (w_alg W) = (\<lambda>_. base_initial_placement)"
  shows "\<exists>E. prime W E0 = Inr E"
proof -
  let ?P = "primed_core df E0"
  note new = new_engine_shape [OF assms(1)]
  have p: "e_servers ?P = e_servers E0" "events_df ?P = df"
    by (simp_all add: primed_core_def Let_def fold_push_frame new)
  have wf: "wf_servers (e_servers ?P)" and ne: "e_servers ?P \<noteq> []"
    using new(1) by (simp_all add: p fresh_servers_def)
  obtain sel where sel: "base_initial_placement (e_servers ?P) (initial_bts W df) = Inr sel"
    using base_initial_placement_total [OF ne] by blast
  then have "set sel \<subseteq> set (dkeys (e_servers ?P))" using base_initial_lawful [OF sel wf] by simp
  with sel wf have "\<exists>E3. initial_placement W ?P = Inr E3"
    by (intro initial_placement_total) (simp_all add: assms(2) p)
  then show ?thesis by (auto simp: prime_alt new(2))
qed

lemma new_engine_total: "\<exists>E0. new_engine df st = Inr E0"
  unfolding new_engine_def bindE_Inr_iff using init_servers_fresh by blast

section \<open>A concrete world\<close>

definition sample_world :: "greedy_state world" where
  "sample_world =
     \<lparr>w_cfg = \<lparr>enforce_sla_feasibility = False\<rparr>,
      w_np = \<lparr>np_mean = (\<lambda>xs. sum_list xs / real (length xs)), np_std = (\<lambda>_. 0), np_percentile = (\<lambda>_ _. 0)\<rparr>,
      w_alg = greedy_algorithm \<lparr>enforce_sla_feasibility = False\<rparr>,
      w_iter_set = (\<lambda>xs. xs), w_drop_duplicates = remdups\<rparr>"

lemma sample_lawful: "lawful_algorithm (w_alg sample_world) (w_cfg sample_world)"
  unfolding sample_world_def world.simps by (rule greedy.lawful_algorithm_axioms)

lemma sample_initial_placement: "alg_initial_placement (w_alg sample_world) = (\<lambda>_. base_initial_placement)"
  by (simp only: sample_world_def greedy_algorithm_def world.simps algorithm.simps)

lemma sample_start:
  "\<exists>E0 E. new_engine df None = Inr E0 \<and> prime sample_world E0 = Inr E \<and> reachable sample_world df None E"
proof -
  obtain E0 where 0: "new_engine df (None :: greedy_state) = Inr E0" using new_engine_total [of df None] ..
  have "\<exists>E. prime sample_world E0 = Inr E" by (rule prime_total [OF 0 sample_initial_placement])
  then obtain E where p: "prime sample_world E0 = Inr E" ..
  have "reachable sample_world df None E" by (rule reachable.start [OF 0 p])
  with 0 p show ?thesis by (intro exI conjI)
qed

end
