(* ===== verification/PpoMasks.thy ===== *)
theory PpoMasks
  imports StateVector Start
begin

text \<open>
  \<open>algorithms/ppo/env.py\<close>, first part: the action masks (which of "no change", "up" or "on",
  "down" or "off" the policy may choose for each service and server), the decoding of a
  chosen action, and the proof that a masked-in action passes the gates of the engine.
\<close>

section \<open>Masks\<close>

definition any_server_can_host ::
  "cfg \<Rightarrow> 'a engine \<Rightarrow> snapshot option \<Rightarrow> int \<Rightarrow> bool result" where
  "any_server_can_host C E lsn service_id =
     bindE (service_of service_id) (\<lambda>svc.
     bindE (last_centroid lsn service_id) (\<lambda>centroid.
       Inr (\<exists>s \<in> set (dvals (e_servers E)).
              srv_state s = SrvActive \<and> can_host C (e_store E) s service_id (resource_mips svc) centroid)))"

definition service_mask :: "cfg \<Rightarrow> 'a engine \<Rightarrow> snapshot option \<Rightarrow> int \<Rightarrow> bool list result" where
  "service_mask C E lsn sid =
     (let cooldown = service_in_cooldown sid E
      in bindE (if cooldown then Inr False else any_server_can_host C E lsn sid) (\<lambda>can_up.
         let ready = ready_of E sid;
             mature = mature_of E sid;
             can_down = (\<not> cooldown \<and> 1 < length ready \<and> 0 < length mature)
         in Inr [True, can_up, can_down]))"

definition server_mask :: "'a engine \<Rightarrow> int \<Rightarrow> bool list result" where
  "server_mask E sid =
     bindE (server_at E sid) (\<lambda>s.
       let cooldown = in_cooldown (e_now E) COOLDOWN_SEC s;
           can_on = (srv_state s = SrvOff \<and> \<not> cooldown);
           can_off = (srv_state s = SrvActive \<and> \<not> cooldown \<and> 1 < n_active E
                      \<and> (is_emergency_boot s
                         \<or> MIN_ACTIVE_DURATION_SEC \<le> e_now E - last_transition_time s))
       in Inr [True, can_on, can_off])"

definition compute_action_masks :: "cfg \<Rightarrow> 'a engine \<Rightarrow> snapshot option \<Rightarrow> bool list result" where
  "compute_action_masks C E lsn =
     bindE (mapE (service_mask C E lsn) SERVICE_IDS) (\<lambda>service_masks.
     bindE (mapE (server_mask E) SERVER_IDS) (\<lambda>server_masks.
       Inr (concat service_masks @ concat server_masks)))"

section \<open>Decoding an action\<close>

definition SCALE_MAP :: "(nat, scale_action) pydict" where
  "SCALE_MAP = [(0, ScaleNoChange), (1, ScaleUp), (2, ScaleDown)]"

definition PROVISION_MAP :: "(nat, provision_type) pydict" where
  "PROVISION_MAP = [(0, ProvNoChange), (1, TurnOn), (2, TurnOff)]"

text \<open>\<open>MAP[int(action[i])]\<close>\<close>

definition decode_at :: "(nat, 'x) pydict \<Rightarrow> nat list \<Rightarrow> nat \<Rightarrow> 'x result" where
  "decode_at codes action i =
     (if i < length action then dlookup codes (action ! i) else Inl IndexError)"

definition decode_all :: "(nat, 'x) pydict \<Rightarrow> nat list \<Rightarrow> nat \<Rightarrow> int list \<Rightarrow> (int, 'x) pydict result" where
  "decode_all codes action offset ids =
     mapE (\<lambda>(i, sid). bindE (decode_at codes action (offset + i)) (\<lambda>x. Inr (sid, x))) (enumerate 0 ids)"

definition ids_with :: "provision_type \<Rightarrow> (int, provision_type) pydict \<Rightarrow> int list" where
  "ids_with t server_actions = sort (map fst (filter (\<lambda>(sid, ptype). ptype = t) server_actions))"

text \<open>At most one server per tick: the smallest of those to turn on, else of those to turn off.\<close>

definition choose_provision :: "(int, provision_type) pydict \<Rightarrow> provision_action result" where
  "choose_provision server_actions =
     (let turn_ons = ids_with TurnOn server_actions;
          turn_offs = ids_with TurnOff server_actions;
          chosen_list = (if turn_ons \<noteq> [] then turn_ons else turn_offs)
      in case chosen_list of
           [] \<Rightarrow> Inr no_provision
         | chosen_sid # _ \<Rightarrow>
             bindE (dlookup server_actions chosen_sid) (\<lambda>ptype.
               Inr \<lparr>pa_action = ptype, pa_server_id = Some chosen_sid\<rparr>))"

definition decode_action :: "nat list \<Rightarrow> external_actions result" where
  "decode_action action =
     bindE (decode_all SCALE_MAP action 0 SERVICE_IDS) (\<lambda>service_actions.
     bindE (decode_all PROVISION_MAP action N_SERVICES SERVER_IDS) (\<lambda>server_actions.
     bindE (choose_provision server_actions) (\<lambda>provision.
       Inr (provision, service_actions))))"

section \<open>Reading the masks\<close>

lemma service_mask_length: "service_mask C E lsn k = Inr ms \<Longrightarrow> length ms = 3"
  by (auto simp: service_mask_def bindE_Inr_iff Let_def)

lemma server_mask_length: "server_mask E k = Inr ms \<Longrightarrow> length ms = 3"
  by (auto simp: server_mask_def bindE_Inr_iff Let_def)

definition service_bit :: "bool list \<Rightarrow> nat \<Rightarrow> nat \<Rightarrow> bool" where
  "service_bit masks i code = masks ! (3 * i + code)"

definition server_bit :: "bool list \<Rightarrow> nat \<Rightarrow> nat \<Rightarrow> bool" where
  "server_bit masks j code = masks ! (3 * (N_SERVICES + j) + code)"

lemma nth_blocks:
  assumes "\<forall>ys \<in> set yss. length ys = n" and "i < length yss" and "j < n"
  shows "(concat yss @ zs) ! (n * i + j) = yss ! i ! j"
proof -
  note b = nth_block [OF assms(1,2), of zs]
  have "length (yss ! i) = n" using assms(1,2) by simp
  then have "length (take n (drop (n * i) (concat yss @ zs))) = n" unfolding b .
  from nth_in_block [OF this assms(3)] show ?thesis unfolding b .
qed

lemma masks_read:
  assumes "compute_action_masks C E lsn = Inr masks"
  shows "length masks = 75"
    and "i < length SERVICE_IDS \<Longrightarrow> \<exists>ms. service_mask C E lsn (SERVICE_IDS ! i) = Inr ms
           \<and> (\<forall>code < 3. service_bit masks i code = ms ! code)"
    and "j < length SERVER_IDS \<Longrightarrow> \<exists>ms. server_mask E (SERVER_IDS ! j) = Inr ms
           \<and> (\<forall>code < 3. server_bit masks j code = ms ! code)"
proof -
  from assms obtain svc srv where svc: "mapE (service_mask C E lsn) SERVICE_IDS = Inr svc"
    and srv: "mapE (server_mask E) SERVER_IDS = Inr srv" and m: "masks = concat svc @ concat srv"
    by (auto simp: compute_action_masks_def bindE_Inr_iff)
  have b: "\<forall>ys \<in> set svc. length ys = 3" "length (concat svc) = 3 * length SERVICE_IDS"
    "\<forall>ys \<in> set srv. length ys = 3" "length (concat srv) = 3 * length SERVER_IDS"
    by (rule mapE_blocks [OF svc], erule service_mask_length, rule mapE_blocks [OF svc], erule service_mask_length,
        rule mapE_blocks [OF srv], erule server_mask_length, rule mapE_blocks [OF srv], erule server_mask_length)
  show "length masks = 75" using b(2,4) by (simp add: m SERVICE_IDS_eq SERVER_IDS_eq ACTIVE_SERVICES_eq del: length_concat)
  show "\<exists>ms. service_mask C E lsn (SERVICE_IDS ! i) = Inr ms
           \<and> (\<forall>code < 3. service_bit masks i code = ms ! code)" if "i < length SERVICE_IDS"
    using mapE_nth [OF svc that] nth_blocks [OF b(1), of i] mapE_length [OF svc] that
    by (auto simp: service_bit_def m)
  have off: "length (concat svc) = 3 * N_SERVICES"
    using b(2) by (simp add: SERVICE_IDS_eq ACTIVE_SERVICES_eq dims del: length_concat)
  have "masks ! (3 * (N_SERVICES + j) + code) = concat srv ! (3 * j + code)" for j code
  proof -
    have "3 * (N_SERVICES + j) + code = length (concat svc) + (3 * j + code)" unfolding off by simp
    then show ?thesis unfolding m by (metis nth_append_length_plus)
  qed
  then show "\<exists>ms. server_mask E (SERVER_IDS ! j) = Inr ms
           \<and> (\<forall>code < 3. server_bit masks j code = ms ! code)" if "j < length SERVER_IDS"
    using mapE_nth [OF srv that] nth_blocks [OF b(3), of j _ "[]"] mapE_length [OF srv] that
    by (auto simp: server_bit_def)
qed

section \<open>Masked-in actions pass the gates\<close>

lemma try_turn_on_gate:
  assumes "server_mask E sid = Inr ms" and "alg_bypass_sustain_gate (w_alg W)"
    and "try_turn_on W sn nec act sid E = Inr (b, E')"
  shows "b = ms ! 1"
  using assms by (auto simp: server_mask_def try_turn_on_def bindE_Inr_iff Let_def split: if_splits)

lemma try_turn_off_gate:
  assumes "server_mask E sid = Inr ms" and "alg_bypass_sustain_gate (w_alg W)"
    and "try_turn_off W sn act sid E = Inr (b, E')"
  shows "if ms ! 2 then \<exists>E1. start_server_drain W sid E = Inr (b, E1) else \<not> b \<and> E' = E"
  using assms by (auto simp: server_mask_def try_turn_off_def bindE_Inr_iff Let_def split: if_splits)

lemma try_scale_down_gate:
  assumes "service_mask C E lsn k = Inr ms" and "try_scale_down W nec k E = Inr (b, E')"
  shows "ms ! 2 = (b \<and> \<not> service_in_cooldown k E)"
  using assms by (auto simp: service_mask_def try_scale_down_def bindE_Inr_iff Let_def split: if_splits)

section \<open>The decoded action\<close>

lemma ids_with_eq:
  assumes "distinct (dkeys d)" and "sorted (dkeys d)"
  shows "ids_with t d = filter (\<lambda>k. dget d k = Some t) (dkeys d)"
proof -
  have "map fst (filter (\<lambda>(sid, ptype). ptype = t) d) = filter (\<lambda>k. dget d k = Some t) (dkeys d)"
  proof -
    have "(snd p = t) = (dget d (fst p) = Some t)" if "p \<in> set d" for p
      using that dget_iff_mem [OF assms(1), of "fst p" "snd p"] by auto
    then have "filter (\<lambda>p. snd p = t) d = filter (\<lambda>p. dget d (fst p) = Some t) d" by (rule filter_cong [OF refl])
    then show ?thesis by (simp add: filter_map comp_def split_beta')
  qed
  moreover have "sorted (filter (\<lambda>k. dget d k = Some t) (dkeys d))"
    using sorted_filter [of "\<lambda>x. x"] assms(2) by simp
  ultimately show ?thesis by (simp add: ids_with_def sorted_sort_id)
qed

text \<open>The first element of a filtered list, by its position.\<close>

lemma filter_ConsD:
  assumes "filter P xs = y # ys"
  shows "\<exists>j < length xs. xs ! j = y \<and> P y \<and> (\<forall>i < j. \<not> P (xs ! i))"
  using assms
proof (induction xs)
  case (Cons x xs)
  show ?case
  proof (cases "P x")
    case True
    with Cons.prems show ?thesis by (intro exI [of _ 0]) simp
  next
    case False
    with Cons obtain j where "j < length xs" "xs ! j = y" "P y" "\<forall>i < j. \<not> P (xs ! i)" by auto
    with False show ?thesis by (intro exI [of _ "Suc j"]) (auto simp: nth_Cons split: nat.splits)
  qed
qed simp

lemma choose_provision_spec:
  assumes "distinct (dkeys d)" and "sorted (dkeys d)"
  shows "\<exists>prov. choose_provision d = Inr prov \<and>
    (case pa_server_id prov of
       None \<Rightarrow> prov = no_provision \<and> (\<forall>k. dget d k \<noteq> Some TurnOn \<and> dget d k \<noteq> Some TurnOff)
     | Some sid \<Rightarrow> \<exists>j < length d. dkeys d ! j = sid \<and> dget d sid = Some (pa_action prov)
         \<and> pa_action prov \<noteq> ProvNoChange
         \<and> (pa_action prov = TurnOff \<longrightarrow> (\<forall>k. dget d k \<noteq> Some TurnOn))
         \<and> (\<forall>i < j. dget d (dkeys d ! i) \<noteq> Some (pa_action prov)))"
proof -
  note ids = ids_with_eq [OF assms]
  have empty: "ids_with t d = [] \<longleftrightarrow> (\<forall>k. dget d k \<noteq> Some t)" for t
    unfolding ids filter_empty_conv by (metis not_None_eq map_of_eq_None_iff set_map)
  have first: "\<exists>prov. choose_provision d = Inr prov \<and> pa_server_id prov = Some sid \<and> pa_action prov = t
      \<and> (\<exists>j < length d. dkeys d ! j = sid \<and> dget d sid = Some t \<and> (\<forall>i < j. dget d (dkeys d ! i) \<noteq> Some t))"
    if "(if ids_with TurnOn d \<noteq> [] then ids_with TurnOn d else ids_with TurnOff d) = sid # rest"
      "ids_with t d = sid # rest" for sid rest t
    using filter_ConsD [OF that(2) [unfolded ids]] that(1)
    by (auto simp: choose_provision_def Let_def dlookup_def)
  consider (on) sid rest where "ids_with TurnOn d = sid # rest"
    | (off) sid rest where "ids_with TurnOn d = []" "ids_with TurnOff d = sid # rest"
    | (none) "ids_with TurnOn d = []" "ids_with TurnOff d = []"
    by (metis neq_Nil_conv)
  then show ?thesis
  proof cases
    case on
    with first [of sid rest TurnOn] show ?thesis by fastforce
  next
    case off
    with first [of sid rest TurnOff] empty [of TurnOn] show ?thesis by fastforce
  next
    case none
    then have "choose_provision d = Inr no_provision" by (simp add: choose_provision_def)
    with none empty show ?thesis by auto
  qed
qed

lemma decode_all_spec:
  assumes "\<forall>n < 3. \<exists>x. dget codes n = Some x" and "offset + length ids \<le> length action"
    and "\<forall>a \<in> set action. a < 3"
  shows "\<exists>d. decode_all codes action offset ids = Inr d \<and> dkeys d = ids
     \<and> (\<forall>i < length ids. Some (snd (d ! i)) = dget codes (action ! (offset + i)))"
proof -
  define f where "f = (\<lambda>(i, sid :: int). bindE (decode_at codes action (offset + i)) (\<lambda>x. Inr (sid, x)))"
  have ok: "\<exists>x. dget codes (action ! (offset + i)) = Some x \<and> f (i, sid) = Inr (sid, x)" if "i < length ids" for i sid
  proof -
    have i: "offset + i < length action" using that assms(2) by simp
    then have "action ! (offset + i) < 3" using assms(3) by simp
    then obtain x where "dget codes (action ! (offset + i)) = Some x" using assms(1) by blast
    with i show ?thesis by (simp add: f_def decode_at_def dlookup_def)
  qed
  have "\<exists>d. mapE f (enumerate 0 ids) = Inr d"
    using ok by (intro mapE_total) (fastforce simp: in_set_enumerate_eq)
  then obtain d where d: "mapE f (enumerate 0 ids) = Inr d" ..
  have len: "length d = length ids" using mapE_length [OF d] by simp
  have nth: "fst (d ! i) = ids ! i \<and> Some (snd (d ! i)) = dget codes (action ! (offset + i))" if "i < length ids" for i
  proof -
    have "f (i, ids ! i) = Inr (d ! i)" using mapE_nth [OF d, of i] that by (simp add: nth_enumerate_eq)
    with ok [OF that, of "ids ! i"] show ?thesis by auto
  qed
  have "dkeys d = ids" using len nth by (intro nth_equalityI) simp_all
  with d nth show ?thesis unfolding decode_all_def f_def by blast
qed

lemma ids_sorted:
  "sorted SERVER_IDS" "distinct SERVER_IDS" "sorted SERVICE_IDS" "distinct SERVICE_IDS"
  "length SERVER_IDS = N_SERVERS" "length SERVICE_IDS = N_SERVICES"
  by (simp_all add: SERVER_IDS_eq SERVICE_IDS_eq ACTIVE_SERVICES_eq dims)

lemma dget_nth: "distinct (dkeys d) \<Longrightarrow> i < length d \<Longrightarrow> dget d (dkeys d ! i) = Some (snd (d ! i))"
  by (simp add: dget_iff_mem)

lemma decode_action_ok:
  assumes "length action = N_SERVICES + N_SERVERS" and "\<forall>a \<in> set action. a < 3"
  shows "\<exists>prov scale. decode_action action = Inr (prov, scale) \<and> dkeys scale = SERVICE_IDS
    \<and> (\<forall>i < N_SERVICES. dget scale (SERVICE_IDS ! i) = dget SCALE_MAP (action ! i))
    \<and> (case pa_server_id prov of
         None \<Rightarrow> prov = no_provision \<and> (\<forall>j < N_SERVERS. action ! (N_SERVICES + j) = 0)
       | Some sid \<Rightarrow> \<exists>j < N_SERVERS. SERVER_IDS ! j = sid
           \<and> dget PROVISION_MAP (action ! (N_SERVICES + j)) = Some (pa_action prov)
           \<and> pa_action prov \<noteq> ProvNoChange
           \<and> (pa_action prov = TurnOff \<longrightarrow> (\<forall>i < N_SERVERS. action ! (N_SERVICES + i) \<noteq> 1))
           \<and> (\<forall>i < j. action ! (N_SERVICES + i) \<noteq> action ! (N_SERVICES + j)))"
proof -
  have maps: "\<forall>n < 3. \<exists>x. dget SCALE_MAP n = Some x" "\<forall>n < 3. \<exists>x. dget PROVISION_MAP n = Some x"
    by (auto simp: SCALE_MAP_def PROVISION_MAP_def)
  obtain sc where sc: "decode_all SCALE_MAP action 0 SERVICE_IDS = Inr sc" "dkeys sc = SERVICE_IDS"
    "\<forall>i < N_SERVICES. Some (snd (sc ! i)) = dget SCALE_MAP (action ! i)"
    using decode_all_spec [OF maps(1) _ assms(2), of 0 SERVICE_IDS] assms(1) by (auto simp: ids_sorted)
  obtain d where d: "decode_all PROVISION_MAP action N_SERVICES SERVER_IDS = Inr d" "dkeys d = SERVER_IDS"
    "\<forall>j < N_SERVERS. Some (snd (d ! j)) = dget PROVISION_MAP (action ! (N_SERVICES + j))"
    using decode_all_spec [OF maps(2) _ assms(2), of N_SERVICES SERVER_IDS] assms(1) by (auto simp: ids_sorted)
  have len: "length sc = N_SERVICES" "length d = N_SERVERS"
    using arg_cong [OF sc(2), of length] arg_cong [OF d(2), of length] by (simp_all add: ids_sorted)
  have scale: "dget sc (SERVICE_IDS ! i) = dget SCALE_MAP (action ! i)" if "i < N_SERVICES" for i
    using dget_nth [of sc i] sc(2,3) that len(1) by (simp add: ids_sorted)
  have prov: "dget d (SERVER_IDS ! j) = dget PROVISION_MAP (action ! (N_SERVICES + j))" if "j < N_SERVERS" for j
    using dget_nth [of d j] d(2,3) that len(2) by (simp add: ids_sorted)
  have lt: "action ! (N_SERVICES + j) < 3" if "j < N_SERVERS" for j using that assms by simp
  have code: "dget PROVISION_MAP n = Some TurnOn \<longleftrightarrow> n = 1" "dget PROVISION_MAP n = Some TurnOff \<longleftrightarrow> n = 2"
    "dget PROVISION_MAP n = Some ProvNoChange \<longleftrightarrow> n = 0" for n by (simp_all add: PROVISION_MAP_def)
  obtain pr where pr: "choose_provision d = Inr pr" and spec: "case pa_server_id pr of
       None \<Rightarrow> pr = no_provision \<and> (\<forall>k. dget d k \<noteq> Some TurnOn \<and> dget d k \<noteq> Some TurnOff)
     | Some sid \<Rightarrow> \<exists>j < length d. dkeys d ! j = sid \<and> dget d sid = Some (pa_action pr)
         \<and> pa_action pr \<noteq> ProvNoChange
         \<and> (pa_action pr = TurnOff \<longrightarrow> (\<forall>k. dget d k \<noteq> Some TurnOn))
         \<and> (\<forall>i < j. dget d (dkeys d ! i) \<noteq> Some (pa_action pr))"
    using choose_provision_spec [of d] d(2) by (auto simp: ids_sorted)
  have "case pa_server_id pr of
         None \<Rightarrow> pr = no_provision \<and> (\<forall>j < N_SERVERS. action ! (N_SERVICES + j) = 0)
       | Some sid \<Rightarrow> \<exists>j < N_SERVERS. SERVER_IDS ! j = sid
           \<and> dget PROVISION_MAP (action ! (N_SERVICES + j)) = Some (pa_action pr)
           \<and> pa_action pr \<noteq> ProvNoChange
           \<and> (pa_action pr = TurnOff \<longrightarrow> (\<forall>i < N_SERVERS. action ! (N_SERVICES + i) \<noteq> 1))
           \<and> (\<forall>i < j. action ! (N_SERVICES + i) \<noteq> action ! (N_SERVICES + j))"
  proof (cases "pa_server_id pr")
    case None
    have "action ! (N_SERVICES + j) = 0" if "j < N_SERVERS" for j
    proof -
      have "dget d (SERVER_IDS ! j) \<noteq> Some TurnOn" "dget d (SERVER_IDS ! j) \<noteq> Some TurnOff"
        using spec None by simp_all
      then have "action ! (N_SERVICES + j) \<noteq> 1" "action ! (N_SERVICES + j) \<noteq> 2"
        unfolding prov [OF that] code .
      with lt [OF that] show ?thesis by linarith
    qed
    with spec None show ?thesis by simp
  next
    case (Some sid)
    with spec obtain j where j: "j < N_SERVERS" "SERVER_IDS ! j = sid" "dget d sid = Some (pa_action pr)"
      "pa_action pr \<noteq> ProvNoChange" "pa_action pr = TurnOff \<longrightarrow> (\<forall>k. dget d k \<noteq> Some TurnOn)"
      "\<forall>i < j. dget d (SERVER_IDS ! i) \<noteq> Some (pa_action pr)" unfolding len(2) d(2) by auto
    have "action ! (N_SERVICES + i) \<noteq> action ! (N_SERVICES + j)" if "i < j" for i
    proof -
      have "dget d (SERVER_IDS ! i) \<noteq> dget d (SERVER_IDS ! j)" using j(2,3,6) that by auto
      moreover have "i < N_SERVERS" using that j(1) by simp
      ultimately show ?thesis using prov [OF j(1)] prov [of i] by auto
    qed
    moreover have "action ! (N_SERVICES + i) \<noteq> 1" if "pa_action pr = TurnOff" "i < N_SERVERS" for i
    proof -
      have "dget d (SERVER_IDS ! i) \<noteq> Some TurnOn" using j(5) that(1) by simp
      then show ?thesis unfolding prov [OF that(2)] code(1) .
    qed
    ultimately show ?thesis using j(1-4) prov [OF j(1)] Some by auto
  qed
  with scale sc(1,2) d(1) pr show ?thesis by (auto simp: decode_action_def)
qed

text \<open>In a state that knows all servers the masks exist.\<close>

lemma init_servers_keys: "init_servers = Inr servers \<Longrightarrow> dkeys servers = SERVER_IDS"
  by (auto simp: init_servers_def init_server_def SERVER_INFO_def profile_of_info_def CAPACITY_TO_PROFILE_def
      dlookup_def SERVER_PROFILES_def SERVER_IDS_eq)

lemma masks_total:
  assumes "set SERVER_IDS \<subseteq> set (dkeys (e_servers E))"
    and "\<And>sn. lsn = Some sn \<Longrightarrow> set ACTIVE_SERVICES \<subseteq> set (dkeys (sn_services sn))"
  shows "\<exists>masks. compute_action_masks C E lsn = Inr masks"
proof -
  have "\<exists>ms. service_mask C E lsn k = Inr ms" if k: "k \<in> set SERVICE_IDS" for k
  proof -
    have a: "k \<in> set ACTIVE_SERVICES" using k by (simp add: SERVICE_IDS_eq)
    then obtain svc where "service_of k = Inr svc" using service_of_active by blast
    moreover have "\<exists>c. last_centroid lsn k = Inr c"
    proof (cases lsn)
      case (Some sn)
      with a assms(2) [OF Some] have "k \<in> set (dkeys (sn_services sn))" by blast
      from dlookup_total [OF this] obtain sv where "dlookup (sn_services sn) k = Inr sv" ..
      then show ?thesis by (simp add: last_centroid_def Some)
    qed (simp add: last_centroid_def)
    ultimately show ?thesis by (auto simp: service_mask_def any_server_can_host_def Let_def)
  qed
  then obtain svc where svc: "mapE (service_mask C E lsn) SERVICE_IDS = Inr svc" using mapE_total [of SERVICE_IDS "service_mask C E lsn"] by blast
  have "\<exists>ms. server_mask E k = Inr ms" if k: "k \<in> set SERVER_IDS" for k
  proof -
    have "k \<in> set (dkeys (e_servers E))" using k assms(1) by blast
    from dlookup_total [OF this] obtain s where "server_at E k = Inr s" unfolding server_at_def ..
    then show ?thesis by (simp add: server_mask_def Let_def)
  qed
  then obtain srv where "mapE (server_mask E) SERVER_IDS = Inr srv" using mapE_total [of SERVER_IDS "server_mask E"] by blast
  with svc show ?thesis by (simp add: compute_action_masks_def)
qed

lemma new_engine_knows: "new_engine df st = Inr E \<Longrightarrow> set SERVER_IDS \<subseteq> set (dkeys (e_servers E))"
  using new_engine_shape(11) init_servers_keys by (metis order_refl)

section \<open>Properties\<close>

text \<open>
  C22. The masks of the environment are exactly the gates of the engine, evaluated in the same
  state: a server may be turned on by the mask if and only if the engine applies the action;
  it may be turned off if and only if the engine starts its drain (which may still refuse for
  lack of a place to migrate to), and is left alone otherwise; a service may be scaled down if
  and only if the engine does so, outside its cooldown.
\<close>

theorem masks_are_gates:
  assumes "compute_action_masks C E lsn = Inr masks" and "alg_bypass_sustain_gate (w_alg W)"
  shows "(\<forall>j b E'. j < N_SERVERS \<and> try_turn_on W sn nec act (SERVER_IDS ! j) E = Inr (b, E')
              \<longrightarrow> b = server_bit masks j 1)
    \<and> (\<forall>j b E'. j < N_SERVERS \<and> try_turn_off W sn act (SERVER_IDS ! j) E = Inr (b, E') \<longrightarrow>
          (if server_bit masks j 2 then \<exists>E1. start_server_drain W (SERVER_IDS ! j) E = Inr (b, E1)
           else \<not> b \<and> E' = E))
    \<and> (\<forall>i b E'. i < N_SERVICES \<and> try_scale_down W nec (SERVICE_IDS ! i) E = Inr (b, E') \<longrightarrow>
          service_bit masks i 2 = (b \<and> \<not> service_in_cooldown (SERVICE_IDS ! i) E))"
proof (intro conjI allI impI; elim conjE)
  fix j b E' assume j: "j < N_SERVERS" and t: "try_turn_on W sn nec act (SERVER_IDS ! j) E = Inr (b, E')"
  from masks_read(3) [OF assms(1), of j] j obtain ms where
    "server_mask E (SERVER_IDS ! j) = Inr ms" "server_bit masks j 1 = ms ! 1" by (auto simp: ids_sorted)
  with try_turn_on_gate [OF _ assms(2) t] show "b = server_bit masks j 1" by simp
next
  fix j b E' assume j: "j < N_SERVERS" and t: "try_turn_off W sn act (SERVER_IDS ! j) E = Inr (b, E')"
  from masks_read(3) [OF assms(1), of j] j obtain ms where
    "server_mask E (SERVER_IDS ! j) = Inr ms" "server_bit masks j 2 = ms ! 2" by (auto simp: ids_sorted)
  with try_turn_off_gate [OF _ assms(2) t]
  show "if server_bit masks j 2 then \<exists>E1. start_server_drain W (SERVER_IDS ! j) E = Inr (b, E1)
           else \<not> b \<and> E' = E" by simp
next
  fix i b E' assume i: "i < N_SERVICES" and t: "try_scale_down W nec (SERVICE_IDS ! i) E = Inr (b, E')"
  from masks_read(2) [OF assms(1), of i] i obtain ms where
    "service_mask C E lsn (SERVICE_IDS ! i) = Inr ms" "service_bit masks i 2 = ms ! 2" by (auto simp: ids_sorted)
  with try_scale_down_gate [OF _ t]
  show "service_bit masks i 2 = (b \<and> \<not> service_in_cooldown (SERVICE_IDS ! i) E)" by simp
qed

theorem masks_are_gates_witness:
  "\<exists>E masks. compute_action_masks (w_cfg sample_world) (E :: greedy_state engine) None = Inr masks
     \<and> (\<forall>j b E'. j < N_SERVERS \<and> try_turn_on sample_world (sample_snapshot []) False no_provision (SERVER_IDS ! j) E
            = Inr (b, E') \<longrightarrow> b = server_bit masks j 1)"
proof -
  obtain E where E: "new_engine [] (None :: greedy_state) = Inr E" using new_engine_total [of "[]" "None :: greedy_state"] ..
  have "\<exists>masks. compute_action_masks (w_cfg sample_world) E None = Inr masks"
    by (rule masks_total [OF new_engine_knows [OF E]]) simp
  then obtain masks where m: "compute_action_masks (w_cfg sample_world) E None = Inr masks" ..
  have bp: "alg_bypass_sustain_gate (w_alg sample_world)" by (simp only: sample_world_def greedy_algorithm_def world.simps algorithm.simps)
  have "\<forall>j b E'. j < N_SERVERS \<and> try_turn_on sample_world (sample_snapshot []) False no_provision (SERVER_IDS ! j) E
            = Inr (b, E') \<longrightarrow> b = server_bit masks j 1"
    using masks_are_gates [OF m bp, of "sample_snapshot []" False no_provision] by (elim conjE)
  with m show ?thesis by (intro exI conjI)
qed

text \<open>
  Decoding an action of the action space never fails: every service gets the decision its
  component encodes, and at most one server is acted on: the one with the smallest identifier
  among those to be turned on, or, only if there is none, among those to be turned off.
\<close>

theorem decode_action_spec:
  assumes "length action = N_SERVICES + N_SERVERS" and "\<forall>a \<in> set action. a < 3"
  shows "\<exists>prov scale. decode_action action = Inr (prov, scale) \<and> dkeys scale = SERVICE_IDS
    \<and> (\<forall>i < N_SERVICES. dget scale (SERVICE_IDS ! i) = dget SCALE_MAP (action ! i))
    \<and> (case pa_server_id prov of
         None \<Rightarrow> prov = no_provision \<and> (\<forall>j < N_SERVERS. action ! (N_SERVICES + j) = 0)
       | Some sid \<Rightarrow> \<exists>j < N_SERVERS. SERVER_IDS ! j = sid
           \<and> dget PROVISION_MAP (action ! (N_SERVICES + j)) = Some (pa_action prov)
           \<and> pa_action prov \<noteq> ProvNoChange
           \<and> (pa_action prov = TurnOff \<longrightarrow> (\<forall>i < N_SERVERS. action ! (N_SERVICES + i) \<noteq> 1))
           \<and> (\<forall>i < j. action ! (N_SERVICES + i) \<noteq> action ! (N_SERVICES + j)))"
  by (rule decode_action_ok [OF assms])

theorem decode_action_spec_witness:
  "\<exists>prov scale. decode_action (replicate 15 0 @ [0, 2, 1, 0, 0, 1, 0, 0, 0, 2]) = Inr (prov, scale)
     \<and> dget scale 4 = Some ScaleNoChange"
proof -
  let ?a = "replicate 15 0 @ [0, 2, 1, 0, 0, 1, 0, 0, 0, 2 :: nat]"
  have "length ?a = N_SERVICES + N_SERVERS" "\<forall>a \<in> set ?a. a < 3" by (simp_all add: dims)
  from decode_action_spec [OF this] obtain prov scale where 1: "decode_action ?a = Inr (prov, scale)"
    and "\<forall>i < N_SERVICES. dget scale (SERVICE_IDS ! i) = dget SCALE_MAP (?a ! i)" by blast
  then have "dget scale (SERVICE_IDS ! 3) = dget SCALE_MAP (?a ! 3)" by (simp add: dims)
  with 1 show ?thesis by (auto simp: SERVICE_IDS_eq ACTIVE_SERVICES_eq SCALE_MAP_def nth_append)
qed

end
