(* ===== verification/PpoEnv.thy ===== *)
theory PpoEnv
  imports PpoMasks
begin

text \<open>
  \<open>algorithms/ppo/env.py\<close>, second part: the training environment around the engine (reset,
  step, reward) and the algorithm it gives the engine, which only places and migrates
  replicas while the decisions come from the policy. The attributes of the environment are
  the record \<open>ppo_env\<close>; the two numbers read from environment variables are \<open>ppo_cfg\<close>.
\<close>

section \<open>The reward\<close>

definition W1_RESPONSE_TIME :: real where "W1_RESPONSE_TIME = 8/100"
definition W2_DEADLINE :: real where "W2_DEADLINE = 35/100"
definition W3_ENERGY :: real where "W3_ENERGY = 20/100"
definition W4_LOAD_BALANCE :: real where "W4_LOAD_BALANCE = 12/100"
definition W5_REJECTED :: real where "W5_REJECTED = 25/100"
definition W6_REJECTED_SERVICE_SPREAD :: real where "W6_REJECTED_SERVICE_SPREAD = 15/100"
definition PPO_DEADLINE_FAIRNESS_ALPHA :: real where "PPO_DEADLINE_FAIRNESS_ALPHA = 7/10"

lemmas reward_weights = W1_RESPONSE_TIME_def W2_DEADLINE_def W3_ENERGY_def W4_LOAD_BALANCE_def
  W5_REJECTED_def W6_REJECTED_SERVICE_SPREAD_def PPO_DEADLINE_FAIRNESS_ALPHA_def

record ppo_cfg =
  ppo_penalty_per_action :: real
  norm_rejected_per_tick :: real

record reward_components =
  rc_response_time :: real
  rc_deadline :: real
  rc_energy :: real
  rc_load_balance :: real
  rc_rejected :: real
  rc_rejected_service_spread :: real
  rc_action_penalty :: real
  rc_deadline_weighted_raw :: real
  rc_deadline_unweighted_raw :: real

definition weighted_dv_rate :: "service_snapshot list \<Rightarrow> real" where
  "weighted_dv_rate active_svcs =
     (let total_arrivals = (\<Sum>s\<leftarrow>active_svcs. sv_recent_arrivals s)
      in if total_arrivals \<noteq> 0
         then (\<Sum>s\<leftarrow>active_svcs. sv_deadline_violation_rate s * real (sv_recent_arrivals s)) / real total_arrivals
         else 0)"

definition unweighted_dv_rate :: "service_snapshot list \<Rightarrow> real" where
  "unweighted_dv_rate active_svcs =
     (\<Sum>s\<leftarrow>active_svcs. sv_deadline_violation_rate s) / real (length active_svcs)"

definition dv_rates :: "snapshot \<Rightarrow> real \<times> real \<times> real" where
  "dv_rates sn =
     (let active_svcs = filter (\<lambda>s. 0 < sv_recent_arrivals s) (dvals (sn_services sn))
      in if active_svcs \<noteq> []
         then let w = weighted_dv_rate active_svcs; u = unweighted_dv_rate active_svcs;
                  alpha = PPO_DEADLINE_FAIRNESS_ALPHA
              in (w, u, alpha * w + (1 - alpha) * u)
         else (0, 0, 0))"

definition load_cv :: "np_ops \<Rightarrow> snapshot \<Rightarrow> real" where
  "load_cv N sn =
     (let active_utils = map ss_utilization (filter (\<lambda>s. ss_state s = SrvActive) (dvals (sn_servers sn)))
      in if 2 \<le> length active_utils \<and> 0 < np_mean N active_utils
         then np_std N active_utils / np_mean N active_utils else 0)"

definition compute_reward ::
  "ppo_cfg \<Rightarrow> np_ops \<Rightarrow> snapshot \<Rightarrow> int \<Rightarrow> (real \<times> reward_components) result" where
  "compute_reward K N sn n_actions_applied =
     (let (weighted, unweighted, avg_dv_rate) = dv_rates sn;
          norm_rt = min (sn_avg_response_time_recent sn / NORM_RESPONSE_TIME_SEC) 2;
          norm_energy = min (sn_energy_recent_joule sn / NORM_ENERGY_JOULE) 2;
          norm_lb = min (load_cv N sn) 2
      in if norm_rejected_per_tick K = 0 then Inl ZeroDivisionError
         else let norm_rejected = min (real (sn_num_rejected_recent sn) / norm_rejected_per_tick K) 2;
                  n_services_rejected = length (filter (\<lambda>s. 0 < sv_rejection_rate s) (dvals (sn_services sn)));
                  norm_rejected_services = min (real n_services_rejected / real N_SERVICES) 1;
                  action_penalty = ppo_penalty_per_action K * of_int n_actions_applied;
                  penalty = W1_RESPONSE_TIME * norm_rt + W2_DEADLINE * avg_dv_rate
                            + W3_ENERGY * norm_energy + W4_LOAD_BALANCE * norm_lb
                            + W5_REJECTED * norm_rejected
                            + W6_REJECTED_SERVICE_SPREAD * norm_rejected_services
                            + action_penalty
              in Inr (- penalty,
                   \<lparr>rc_response_time = W1_RESPONSE_TIME * norm_rt, rc_deadline = W2_DEADLINE * avg_dv_rate,
                    rc_energy = W3_ENERGY * norm_energy, rc_load_balance = W4_LOAD_BALANCE * norm_lb,
                    rc_rejected = W5_REJECTED * norm_rejected,
                    rc_rejected_service_spread = W6_REJECTED_SERVICE_SPREAD * norm_rejected_services,
                    rc_action_penalty = action_penalty, rc_deadline_weighted_raw = weighted,
                    rc_deadline_unweighted_raw = unweighted\<rparr>))"

section \<open>The algorithm of the environment\<close>

text \<open>
  Its state is whether an engine is bound to it; a bound one reads the engine's own demand
  centroids. The decisions come from outside, so asking it for one is an error.
\<close>

type_synonym shared_state = bool

definition shared_centroid :: "shared_state \<Rightarrow> centroids \<Rightarrow> int \<Rightarrow> (real \<times> real) option" where
  "shared_centroid bound cs service_id = (if bound then dget_or None cs service_id else None)"

definition shared_select_placement_server ::
  "cfg \<Rightarrow> shared_state \<Rightarrow> centroids \<Rightarrow> int \<Rightarrow> servers \<Rightarrow> heap \<Rightarrow> int option result" where
  "shared_select_placement_server C bound cs service_id servers h =
     bindE (service_of service_id) (\<lambda>svc.
       let centroid = shared_centroid bound cs service_id;
           candidates = filter (\<lambda>s. srv_state s = SrvActive
                                   \<and> can_host C h s service_id (resource_mips svc) centroid) (dvals servers)
       in if candidates = [] then Inr None
          else bindE (case centroid of Some c \<Rightarrow> roomiest_near h c candidates
                      | None \<Rightarrow> max_by (free_capacity h) candidates) (\<lambda>s. Inr (Some (srv_id s))))"

text \<open>The entry of which only \<open>demand_centroid\<close> is set, and read, in the snapshot of the helper.\<close>

definition centroid_entry :: "(real \<times> real) option \<Rightarrow> service_snapshot" where
  "centroid_entry c =
     \<lparr>sv_n_replicas = 0, sv_n_ready_replicas = 0, sv_n_mature_ready_replicas = 0,
      sv_avg_queue_occupancy = 0, sv_queue_len = 0, sv_rejection_rate = 0,
      sv_deadline_violation_rate = 0, sv_rejection_rate_rolling = None, sv_recent_arrivals = 0,
      sv_demand_centroid = c, sv_proximity_violation_rate = 0, sv_scale_cooldown_active = False\<rparr>"

definition helper_snapshot :: "shared_state \<Rightarrow> centroids \<Rightarrow> greedy_state" where
  "helper_snapshot bound cs =
     (if bound then Some (sample_snapshot (map (\<lambda>(sid, c). (sid, centroid_entry c)) cs)) else None)"

definition shared_migration_decision ::
  "cfg \<Rightarrow> shared_state \<Rightarrow> centroids \<Rightarrow> server \<Rightarrow> servers \<Rightarrow> heap \<Rightarrow> migration_step list result" where
  "shared_migration_decision C bound cs draining servers h =
     greedy_migration_decision C (helper_snapshot bound cs) draining servers h"

definition shared_algorithm :: "cfg \<Rightarrow> shared_state algorithm" where
  "shared_algorithm C =
     \<lparr>alg_initial_placement = (\<lambda>_. base_initial_placement),
      alg_select_replica = (\<lambda>st req cands servers now h.
        bindE (base_select_replica req cands servers now h) (\<lambda>(c, h'). Inr (c, st, h'))),
      alg_select_scale_down_victim = (\<lambda>_ _ as _ now h. base_select_scale_down_victim as now h),
      alg_scale_decision = (\<lambda>_ _ _. Inl NotImplementedError),
      alg_provision_decision = (\<lambda>_ _ _ _ _. Inl NotImplementedError),
      alg_select_placement_server = shared_select_placement_server C,
      alg_migration_decision = shared_migration_decision C,
      alg_bypass_sustain_gate = True\<rparr>"

section \<open>The environment\<close>

record 'a ppo_env =
  env_engine :: "'a engine option"
  env_last_snapshot :: "snapshot option"
  env_last_reward :: "reward_components option"

definition new_env :: "'a ppo_env" where
  "new_env = \<lparr>env_engine = None, env_last_snapshot = None, env_last_reward = None\<rparr>"

text \<open>\<open>df\<close> is the trace the provider returns, \<open>st\<close> the algorithm once it is bound.\<close>

definition env_reset ::
  "'a world \<Rightarrow> event_row list \<Rightarrow> 'a \<Rightarrow> 'a ppo_env \<Rightarrow> (real list \<times> 'a ppo_env) result" where
  "env_reset W df st env =
     bindE (new_engine df st) (\<lambda>E0.
     bindE (prime W E0) (\<lambda>E1.
       let (sn, E2) = peek_snapshot E1
       in bindE (build_state_vector sn (e_servers E2)) (\<lambda>obs.
            Inr (obs, env\<lparr>env_engine := Some E2, env_last_snapshot := Some sn\<rparr>))))"

definition action_counts :: "'a engine \<Rightarrow> nat list" where
  "action_counts E =
     (let m = e_metrics E in [num_scale_up m, num_scale_down m, num_turn_on m, num_turn_off m])"

definition n_actions_applied :: "'a engine \<Rightarrow> 'a engine \<Rightarrow> int" where
  "n_actions_applied before after =
     (\<Sum>(a1, a2)\<leftarrow>zip (action_counts before) (action_counts after). int a2 - int a1)"

text \<open>The observation and reward that follow the step of the engine.\<close>

definition observe_step ::
  "'a world \<Rightarrow> ppo_cfg \<Rightarrow> 'a engine \<Rightarrow> snapshot option \<times> bool \<times> 'a engine \<Rightarrow> 'a ppo_env
   \<Rightarrow> (real list \<times> real \<times> bool \<times> 'a ppo_env) result" where
  "observe_step W K E = (\<lambda>(sn, is_done, E') env.
     let env' = env\<lparr>env_engine := Some E', env_last_snapshot := sn\<rparr>
     in if is_done then Inr (replicate STATE_DIM 0, 0, True, env')
        else (case sn of
                None \<Rightarrow> Inl TypeError
              | Some snap \<Rightarrow>
                  bindE (build_state_vector snap (e_servers E')) (\<lambda>obs.
                  bindE (compute_reward K (w_np W) snap (n_actions_applied E E')) (\<lambda>(reward, parts).
                    Inr (obs, reward, False, env'\<lparr>env_last_reward := Some parts\<rparr>)))))"

text \<open>\<open>None\<close> if the engine's step did not return within its fuel.\<close>

definition env_step ::
  "'a world \<Rightarrow> ppo_cfg \<Rightarrow> nat list \<Rightarrow> 'a ppo_env
   \<Rightarrow> (real list \<times> real \<times> bool \<times> 'a ppo_env) result option" where
  "env_step W K action env =
     (case decode_action action of
        Inl err \<Rightarrow> Some (Inl err)
      | Inr external \<Rightarrow>
          (case env_engine env of
             None \<Rightarrow> Some (Inl AttributeError)
           | Some E \<Rightarrow>
               (case step W (Some external) E of
                  None \<Rightarrow> None
                | Some (Inl err) \<Rightarrow> Some (Inl err)
                | Some (Inr r) \<Rightarrow> Some (observe_step W K E r env))))"

definition env_action_masks :: "cfg \<Rightarrow> 'a ppo_env \<Rightarrow> bool list result" where
  "env_action_masks C env =
     (case env_engine env of
        None \<Rightarrow> Inl AttributeError
      | Some E \<Rightarrow> compute_action_masks C E (env_last_snapshot env))"

section \<open>The shared algorithm keeps the contract\<close>

lemma shared_placement_some:
  assumes "shared_select_placement_server C st cs svc servers h = Inr (Some sid)"
  shows "\<exists>s \<in> set (dvals servers). srv_id s = sid \<and> srv_state s = SrvActive
    \<and> can_host C h s svc (resource_mips_of svc) (shared_centroid st cs svc)"
proof -
  let ?c = "shared_centroid st cs svc"
  from assms obtain info where i: "service_of svc = Inr info"
    by (auto simp: shared_select_placement_server_def bindE_Inr_iff)
  then have cpu: "resource_mips info = resource_mips_of svc"
    by (simp add: service_of_def dlookup_Inr_iff resource_mips_of_def)
  let ?cands = "filter (\<lambda>s. srv_state s = SrvActive \<and> can_host C h s svc (resource_mips info) ?c) (dvals servers)"
  from assms i have ne: "?cands \<noteq> []" and
    r: "bindE (case ?c of Some c \<Rightarrow> roomiest_near h c ?cands | None \<Rightarrow> max_by (free_capacity h) ?cands)
          (\<lambda>s. Inr (Some (srv_id s))) = Inr (Some sid)"
    by (auto simp: shared_select_placement_server_def Let_def split: if_splits)
  from r obtain s where s: "(case ?c of Some c \<Rightarrow> roomiest_near h c ?cands | None \<Rightarrow> max_by (free_capacity h) ?cands) = Inr s"
    "srv_id s = sid" by (auto simp: bindE_Inr_iff)
  have "s \<in> set ?cands"
  proof (cases ?c)
    case None
    then have "max_by (free_capacity h) ?cands = Inr s" using s(1) by simp
    then show ?thesis by (rule max_by_Inr(1))
  next
    case (Some c)
    then have "roomiest_near h c ?cands = Inr s" using s(1) by simp
    then show ?thesis by (rule roomiest_near_mem)
  qed
  with s(2) show ?thesis unfolding cpu by auto
qed

lemma shared_placement_none:
  assumes "shared_select_placement_server C st cs svc servers h = Inr None"
  shows "\<not> (\<exists>s \<in> set (dvals servers). srv_state s = SrvActive
    \<and> can_host C h s svc (resource_mips_of svc) (shared_centroid st cs svc))"
  using assms
  by (auto simp: shared_select_placement_server_def bindE_Inr_iff Let_def service_of_def dlookup_Inr_iff
      resource_mips_of_def filter_empty_conv split: if_splits)

lemma shared_router:
  assumes "bindE (base_select_replica req cands servers now h) (\<lambda>(c, h'). Inr (c, st, h')) = Inr (c, st', h')"
  shows "base_select_replica req cands servers now h = Inr (c, h')"
  using assms by (auto simp: bindE_Inr_iff)

interpretation shared: lawful_algorithm "shared_algorithm C" C for C
  apply unfold_locales
        apply (simp_all only: shared_algorithm_def algorithm.simps)
        apply (drule shared_router, erule base_select_replica_sound(1))
       apply (drule shared_router, drule base_select_replica_sound(2), simp)
      apply (drule shared_router, drule base_select_replica_sound(2), simp)
     apply (erule (1) base_initial_lawful)
    apply (blast dest: base_victim_sound(1,2))
   apply (drule shared_placement_some, use wf_servers_get in \<open>fastforce simp: can_host_at_some_point_def\<close>)
  apply (auto simp: shared_migration_decision_def greedy_migration_decision_def migration_loop_services
      intro: greedy_migration_sound)[1]
  done

section \<open>The reward lies in a fixed range\<close>

text \<open>What the statistics of numpy satisfy on non-negative data.\<close>

definition sound_np :: "np_ops \<Rightarrow> bool" where
  "sound_np N \<longleftrightarrow> (\<forall>xs. 0 \<le> np_std N xs)"

text \<open>
  The violation rates of the services. A request that arrives in one tick may be found late in the
  next, so a rate may exceed 1; \<open>M\<close> is any bound on them.
\<close>

definition rate_within :: "real \<Rightarrow> service_snapshot \<Rightarrow> bool" where
  "rate_within M sv \<longleftrightarrow> 0 \<le> sv_deadline_violation_rate sv \<and> sv_deadline_violation_rate sv \<le> M"

lemma mean_within:
  fixes xs :: "real list"
  assumes "\<forall>x \<in> set xs. 0 \<le> x \<and> x \<le> M" and "xs \<noteq> []"
  shows "0 \<le> sum_list xs / real (length xs) \<and> sum_list xs / real (length xs) \<le> M"
proof -
  have "0 \<le> sum_list xs \<and> sum_list xs \<le> M * real (length xs)"
    using assms(1) by (induction xs) (auto simp: algebra_simps)
  with assms(2) show ?thesis by (simp add: divide_le_eq)
qed

lemma weighted_within:
  assumes "\<forall>sv \<in> set svcs. rate_within M sv" and "0 \<le> M"
  shows "0 \<le> weighted_dv_rate svcs \<and> weighted_dv_rate svcs \<le> M"
proof -
  let ?n = "(\<Sum>s\<leftarrow>svcs. sv_recent_arrivals s)"
    and ?w = "(\<Sum>s\<leftarrow>svcs. sv_deadline_violation_rate s * real (sv_recent_arrivals s))"
  have "0 \<le> ?w \<and> ?w \<le> M * real ?n" using assms(1)
  proof (induction svcs)
    case (Cons s svcs)
    then have "sv_deadline_violation_rate s * real (sv_recent_arrivals s) \<le> M * real (sv_recent_arrivals s)"
      "0 \<le> sv_deadline_violation_rate s * real (sv_recent_arrivals s)"
      by (simp_all add: rate_within_def mult_right_mono)
    with Cons show ?case by (simp add: algebra_simps)
  qed simp
  then show ?thesis using assms(2) by (auto simp: weighted_dv_rate_def Let_def divide_le_eq)
qed

lemma dv_rates_within:
  assumes "\<forall>sv \<in> set (dvals (sn_services sn)). rate_within M sv" and "0 \<le> M" and "dv_rates sn = (w, u, a)"
  shows "0 \<le> a" "a \<le> M" "min w u \<le> a" "a \<le> max w u"
proof -
  let ?act = "filter (\<lambda>s. 0 < sv_recent_arrivals s) (dvals (sn_services sn))"
  have b: "\<forall>sv \<in> set ?act. rate_within M sv" using assms(1) by auto
  have "0 \<le> a \<and> a \<le> M \<and> min w u \<le> a \<and> a \<le> max w u"
  proof (cases "?act = []")
    case True
    with assms(2,3) show ?thesis by (auto simp: dv_rates_def)
  next
    case False
    let ?w = "weighted_dv_rate ?act" and ?u = "unweighted_dv_rate ?act"
    have eq: "w = ?w" "u = ?u" "a = 7/10 * ?w + 3/10 * ?u"
      using assms(3) False by (simp_all add: dv_rates_def Let_def PPO_DEADLINE_FAIRNESS_ALPHA_def)
    have "\<forall>x \<in> set (map sv_deadline_violation_rate ?act). 0 \<le> x \<and> x \<le> M" using b by (simp add: rate_within_def)
    then have "0 \<le> u \<and> u \<le> M" unfolding eq unweighted_dv_rate_def
      using mean_within [of "map sv_deadline_violation_rate ?act" M] False by simp
    moreover have "0 \<le> w \<and> w \<le> M" unfolding eq by (rule weighted_within [OF b assms(2)])
    moreover have "a = 7/10 * w + 3/10 * u" using eq by simp
    ultimately show ?thesis by (simp add: min_def max_def)
  qed
  then show "0 \<le> a" "a \<le> M" "min w u \<le> a" "a \<le> max w u" by simp_all
qed

lemma load_cv_nonneg: "sound_np N \<Longrightarrow> 0 \<le> load_cv N sn"
  by (auto simp: load_cv_def sound_np_def Let_def)

text \<open>
  C26. The reward of a tick is never positive, and never below minus 1.45, minus 0.35 times the
  largest violation rate \<open>M\<close> of a service (which may exceed 1), minus the price of the actions
  applied; it is minus the sum of the components the environment records; the deadline term lies
  between the rate weighted by arrivals and the plain mean over the services. For any snapshot
  with non-negative rates, mean response time and energy, a standard deviation that is not
  negative, a positive normaliser of the rejections, and a price and a number of actions that are
  not negative.
\<close>

theorem reward_range:
  assumes "compute_reward K N sn n = Inr (reward, parts)" and "sound_np N"
    and "\<forall>sv \<in> set (dvals (sn_services sn)). rate_within M sv" and "0 \<le> M"
    and "0 \<le> sn_avg_response_time_recent sn" and "0 \<le> sn_energy_recent_joule sn"
    and "0 < norm_rejected_per_tick K" and "0 \<le> ppo_penalty_per_action K" and "0 \<le> n"
  shows "reward \<le> 0 \<and> - (145/100 + 35/100 * M + ppo_penalty_per_action K * of_int n) \<le> reward
    \<and> - reward = rc_response_time parts + rc_deadline parts + rc_energy parts + rc_load_balance parts
                + rc_rejected parts + rc_rejected_service_spread parts + rc_action_penalty parts
    \<and> W2_DEADLINE * min (rc_deadline_weighted_raw parts) (rc_deadline_unweighted_raw parts) \<le> rc_deadline parts
    \<and> rc_deadline parts \<le> W2_DEADLINE * max (rc_deadline_weighted_raw parts) (rc_deadline_unweighted_raw parts)"
proof -
  obtain w u a where d: "dv_rates sn = (w, u, a)" by (metis surj_pair)
  note dv = dv_rates_within [OF assms(3,4) d]
  define rt where "rt = min (sn_avg_response_time_recent sn / NORM_RESPONSE_TIME_SEC) 2"
  define en where "en = min (sn_energy_recent_joule sn / NORM_ENERGY_JOULE) 2"
  define lb where "lb = min (load_cv N sn) 2"
  define rj where "rj = min (real (sn_num_rejected_recent sn) / norm_rejected_per_tick K) 2"
  define sp where "sp = min (real (length (filter (\<lambda>s. 0 < sv_rejection_rate s) (dvals (sn_services sn)))) / real N_SERVICES) 1"
  define ap where "ap = ppo_penalty_per_action K * of_int n"
  have r: "0 \<le> rt" "rt \<le> 2" "0 \<le> en" "en \<le> 2" "0 \<le> lb" "lb \<le> 2" "0 \<le> rj" "rj \<le> 2" "0 \<le> sp" "sp \<le> 1" "0 \<le> ap"
    "0 \<le> a" "a \<le> M"
    using assms(5-9) load_cv_nonneg [OF assms(2)] dv(1,2)
    by (simp_all add: rt_def en_def lb_def rj_def sp_def ap_def norm_defs)
  have eq: "reward = - (8/100 * rt + 35/100 * a + 20/100 * en + 12/100 * lb + 25/100 * rj + 15/100 * sp + ap)"
    "rc_response_time parts = 8/100 * rt" "rc_deadline parts = 35/100 * a" "rc_energy parts = 20/100 * en"
    "rc_load_balance parts = 12/100 * lb" "rc_rejected parts = 25/100 * rj"
    "rc_rejected_service_spread parts = 15/100 * sp" "rc_action_penalty parts = ap"
    "rc_deadline_weighted_raw parts = w" "rc_deadline_unweighted_raw parts = u"
    using assms(1,7) by (auto simp: compute_reward_def d Let_def reward_weights rt_def en_def lb_def rj_def sp_def ap_def)
  have "reward \<le> 0" "- (145/100 + 35/100 * M + ap) \<le> reward" using r unfolding eq(1) by linarith+
  then show ?thesis using dv(3,4) unfolding eq(2-) W2_DEADLINE_def eq(1) ap_def by (simp add: min_def max_def split: if_splits)
qed

theorem reward_range_witness:
  "\<exists>reward parts. compute_reward \<lparr>ppo_penalty_per_action = 1/100, norm_rejected_per_tick = 2\<rparr>
       \<lparr>np_mean = (\<lambda>xs. sum_list xs / real (length xs)), np_std = (\<lambda>_. 0), np_percentile = (\<lambda>_ _. 0)\<rparr>
       full_snapshot 3 = Inr (reward, parts) \<and> - (145/100 + 35/100 + 3/100) \<le> reward \<and> reward \<le> 0"
proof -
  let ?K = "\<lparr>ppo_penalty_per_action = 1/100, norm_rejected_per_tick = 2\<rparr>"
    and ?N = "\<lparr>np_mean = (\<lambda>xs. sum_list xs / real (length xs)), np_std = (\<lambda>_. 0), np_percentile = (\<lambda>_ _. 0)\<rparr>"
  have "\<exists>r. compute_reward ?K ?N full_snapshot 3 = Inr r"
    by (simp add: compute_reward_def Let_def split_beta)
  then obtain reward parts where r: "compute_reward ?K ?N full_snapshot 3 = Inr (reward, parts)" by fast
  have "reward \<le> 0 \<and> - (145/100 + 35/100 * 1 + ppo_penalty_per_action ?K * of_int 3) \<le> reward"
    using reward_range [OF r, of 1] by (simp add: sound_np_def full_snapshot_def sample_snapshot_def rate_within_def
        sample_service_def)
  with r show ?thesis by simp
qed

section \<open>Episodes\<close>

lemma scale_up_gate:
  assumes mask: "service_mask C E lsn k = Inr ms" and W: "w_alg W = shared_algorithm C" "w_cfg W = C"
    and bound: "e_algorithm E" and wf: "wf_servers (e_servers E)"
    and same: "last_centroid lsn k = Inr (centroid_of E k)"
    and up: "try_scale_up W nec k E = Inr (b, E')"
  shows "ms ! 1 = (b \<and> \<not> service_in_cooldown k E)"
proof -
  obtain target where t: "shared_select_placement_server C True (service_demand_centroid E) k (e_servers E) (e_store E)
      = Inr target" using up bound by (auto simp: try_scale_up_def W shared_algorithm_def bindE_Inr_iff)
  have c: "shared_centroid True (service_demand_centroid E) k = centroid_of E k"
    by (simp add: shared_centroid_def centroid_of_def)
  obtain info where i: "service_of k = Inr info" using t by (auto simp: shared_select_placement_server_def bindE_Inr_iff)
  have cpu: "resource_mips info = resource_mips_of k"
    using i by (simp add: service_of_def dlookup_Inr_iff resource_mips_of_def)
  define P where "P \<longleftrightarrow> (\<exists>s \<in> set (dvals (e_servers E)). srv_state s = SrvActive
      \<and> can_host C (e_store E) s k (resource_mips_of k) (centroid_of E k))"
  have "any_server_can_host C E lsn k = Inr P" by (simp add: any_server_can_host_def i same cpu P_def)
  then have mask_eq: "ms ! 1 = (\<not> service_in_cooldown k E \<and> P)"
    using mask by (auto simp: service_mask_def Let_def bindE_Inr_iff split: if_splits)
  show ?thesis
  proof (cases target)
    case None
    with shared_placement_none [of C True "service_demand_centroid E" k "e_servers E" "e_store E"] t
    have "\<not> P" unfolding c P_def by simp
    moreover have "\<not> b" using up t bound by (auto simp: try_scale_up_def W shared_algorithm_def None)
    ultimately show ?thesis using mask_eq by blast
  next
    case (Some sid)
    from shared_placement_some [OF t [unfolded Some]] obtain s where s: "s \<in> set (dvals (e_servers E))" "srv_id s = sid"
      "srv_state s = SrvActive" "can_host C (e_store E) s k (resource_mips_of k) (centroid_of E k)" unfolding c by blast
    have "dget (e_servers E) sid = Some s" using wf_servers_get [OF wf s(1)] s(2) by simp
    then have "\<not> (\<exists>E1. place_replica W sid k E = Inr (None, E1))"
      using s(4) by (auto simp: place_replica_def server_at_def dlookup_def i cpu W bindE_Inr_iff Let_def)
    then have b using up t bound by (auto simp: try_scale_up_def W shared_algorithm_def Some bindE_Inr_iff Let_def split: option.splits)
    moreover have P using s unfolding P_def by blast
    ultimately show ?thesis using mask_eq by blast
  qed
qed

lemma handle_decision_tick_snapshot:
  assumes "handle_decision_tick W ext E = Inr (sn, E')"
  shows "dkeys (sn_servers sn) = dkeys (e_servers E)" and "dkeys (sn_services sn) = ACTIVE_SERVICES"
proof -
  obtain m h where 0: "record_snapshot (w_np W) (e_now E) (e_servers E) (e_store E) (e_metrics E) = (m, h)"
    by (metis surj_pair)
  obtain sn0 E1 where 1: "build_metrics_snapshot (E\<lparr>e_metrics := m, e_store := h\<rparr>) = (sn0, E1)" by (metis surj_pair)
  from assms 0 1 obtain E2 where a: "annotate_provisioning_necessity W E2 sn0 = Inr sn"
    by (auto simp: handle_decision_tick_def bindE_Inr_iff)
  have "dkeys (sn_servers sn) = dkeys (sn_servers sn0)" "sn_services sn = sn_services sn0"
    using a by (auto simp: annotate_provisioning_necessity_def bindE_Inr_iff comp_def split_beta)
  then show "dkeys (sn_servers sn) = dkeys (e_servers E)" "dkeys (sn_services sn) = ACTIVE_SERVICES"
    using build_metrics_snapshot_reads(2,3) [OF 1] by simp_all
qed

lemma fleet_keys: "fleet E = fleet E0 \<Longrightarrow> dkeys (e_servers E) = dkeys (e_servers E0)"
  unfolding fleet_def by (drule arg_cong [where f = "map fst"]) (simp add: comp_def split_beta)

context lawful_algorithm
begin

lemma reachable_server_ids:
  assumes "reachable W df st E" and "w_alg W = A" "w_cfg W = C" and "sound_trace df"
  shows "dkeys (e_servers E) = SERVER_IDS"
proof -
  obtain E0 where E0: "new_engine df st = Inr E0" "fleet E = fleet E0" using reachable_fleet [OF assms] by blast
  have "dkeys (e_servers E0) = SERVER_IDS" by (rule init_servers_keys [OF new_engine_shape(11) [OF E0(1)]])
  with fleet_keys [OF E0(2)] show ?thesis by simp
qed

lemma step_loop_snapshot:
  assumes W: "w_alg W = A" "w_cfg W = C" and df: "sound_trace df"
    and "step_loop fuel W ext E = Some (Inr (sn, False, E'))" and "reachable W df st E"
  shows "\<exists>s. sn = Some s \<and> dkeys (sn_servers s) = SERVER_IDS \<and> dkeys (sn_services s) = ACTIVE_SERVICES"
  using assms(4,5)
proof (induction fuel arbitrary: E)
  case (Suc fuel)
  obtain ev rest where pop: "heappop (e_heap E) = Some (ev, rest)" and le: "ev_time ev \<le> e_cutoff E"
    using Suc.prems(1) by (auto split: option.splits prod.splits if_splits)
  show ?case
  proof (cases "ev_type ev = DecisionTick")
    case True
    with Suc.prems(1) pop le obtain s E1 where s: "handle_decision_tick W ext (begin_event ev rest E) = Inr (s, E1)"
      "sn = Some s" by (auto simp: bindE_Inr_iff)
    have "dkeys (e_servers (begin_event ev rest E)) = SERVER_IDS"
      by (simp only: fleet_keys [OF begin_event_frame(3)] reachable_server_ids [OF Suc.prems(2) W df])
    with handle_decision_tick_snapshot [OF s(1)] s(2) show ?thesis by simp
  next
    case False
    with Suc.prems(1) pop le obtain E1 where h: "handle_event W (ev_type ev) (begin_event ev rest E) = Inr E1"
      and r: "step_loop fuel W ext E1 = Some (Inr (sn, False, E'))" by (auto split: sum.splits)
    from Suc.IH [OF r reachable.event [OF Suc.prems(2) pop le False h]] show ?thesis .
  qed
qed simp

end

text \<open>An environment in the middle of an episode.\<close>

definition env_running :: "'a world \<Rightarrow> event_row list \<Rightarrow> 'a \<Rightarrow> 'a ppo_env \<Rightarrow> bool" where
  "env_running W df st env \<longleftrightarrow>
     (\<exists>E sn. env_engine env = Some E \<and> env_last_snapshot env = Some sn \<and> reachable W df st E
        \<and> dkeys (sn_services sn) = ACTIVE_SERVICES)"

lemma compute_reward_total: "norm_rejected_per_tick K \<noteq> 0 \<Longrightarrow> \<exists>r. compute_reward K N sn n = Inr r"
  by (simp add: compute_reward_def Let_def split_beta)

lemma vector_total:
  assumes "dkeys (sn_servers sn) = SERVER_IDS" "dkeys servers = SERVER_IDS" "dkeys (sn_services sn) = ACTIVE_SERVICES"
  shows "\<exists>vec. build_state_vector sn servers = Inr vec \<and> length vec = STATE_DIM"
  by (rule build_state_vector_total [of sn servers]) (simp_all only: assms order_refl, blast)

lemma decode_total:
  assumes "length action = N_SERVICES + N_SERVERS" and "\<forall>a \<in> set action. a < 3"
  shows "\<exists>ext. decode_action action = Inr ext"
proof -
  have maps: "\<forall>n < 3. \<exists>x. dget SCALE_MAP n = Some x" "\<forall>n < 3. \<exists>x. dget PROVISION_MAP n = Some x"
    by (auto simp: SCALE_MAP_def PROVISION_MAP_def)
  obtain sc where sc: "decode_all SCALE_MAP action 0 SERVICE_IDS = Inr sc"
    using decode_all_spec [OF maps(1) _ assms(2), of 0 SERVICE_IDS] assms(1) by (auto simp: ids_sorted)
  obtain d where d: "decode_all PROVISION_MAP action N_SERVICES SERVER_IDS = Inr d" "dkeys d = SERVER_IDS"
    using decode_all_spec [OF maps(2) _ assms(2), of N_SERVICES SERVER_IDS] assms(1) by (auto simp: ids_sorted)
  obtain pr where "choose_provision d = Inr pr"
    using choose_provision_spec [of d] d(2) by (auto simp: ids_sorted)
  with sc d show ?thesis by (simp add: decode_action_def)
qed

lemma env_reset_runs:
  assumes lawful: "lawful_algorithm (w_alg W) (w_cfg W)" and df: "sound_trace df"
    and "alg_initial_placement (w_alg W) = (\<lambda>_. base_initial_placement)"
  shows "\<exists>obs env'. env_reset W df st env = Inr (obs, env') \<and> length obs = STATE_DIM \<and> env_running W df st env'"
proof -
  obtain E0 where 0: "new_engine df st = Inr E0" using new_engine_total [of df st] ..
  obtain E1 where 1: "prime W E0 = Inr E1" using prime_total [OF 0 assms(3)] ..
  obtain sn E2 where 2: "peek_snapshot E1 = (sn, E2)" by (metis surj_pair)
  have r1: "reachable W df st E1" by (rule reachable.start [OF 0 1])
  have k: "dkeys (e_servers E1) = SERVER_IDS"
    by (rule lawful_algorithm.reachable_server_ids [OF lawful r1 refl refl df])
  note p = peek_snapshot_reads [OF 2]
  obtain vec where v: "build_state_vector sn (e_servers E2) = Inr vec" "length vec = STATE_DIM"
    using vector_total [of sn "e_servers E2"] p(2,3,4) k by auto
  let ?env = "env\<lparr>env_engine := Some E2, env_last_snapshot := Some sn\<rparr>"
  have "env_running W df st ?env" using reachable.peek [OF r1 2] p(3) by (simp add: env_running_def)
  moreover have "env_reset W df st env = Inr (vec, ?env)" by (simp add: env_reset_def 0 1 2 v)
  ultimately show ?thesis using v(2) by blast
qed

lemma env_running_masks:
  assumes "lawful_algorithm (w_alg W) (w_cfg W)" and "sound_trace df" and "env_running W df st env"
  shows "\<exists>masks. env_action_masks C env = Inr masks \<and> length masks = 75"
proof -
  from assms(3) obtain E sn where E: "env_engine env = Some E" "env_last_snapshot env = Some sn" "reachable W df st E"
    "dkeys (sn_services sn) = ACTIVE_SERVICES" by (auto simp: env_running_def)
  have k: "dkeys (e_servers E) = SERVER_IDS"
    by (rule lawful_algorithm.reachable_server_ids [OF assms(1) E(3) refl refl assms(2)])
  have "\<exists>masks. compute_action_masks C E (Some sn) = Inr masks" 
    by (rule masks_total, simp only: k order_refl, metis E(4) option.inject order_refl)
  with masks_read(1) E(1,2) show ?thesis by (fastforce simp: env_action_masks_def)
qed

lemma observe_step_total:
  assumes "dkeys (sn_servers sn) = SERVER_IDS" "dkeys (e_servers E') = SERVER_IDS" "dkeys (sn_services sn) = ACTIVE_SERVICES"
    and "norm_rejected_per_tick K \<noteq> 0"
  shows "\<exists>obs reward parts. observe_step W K E (Some sn, False, E') env
      = Inr (obs, reward, False, env\<lparr>env_engine := Some E', env_last_snapshot := Some sn, env_last_reward := Some parts\<rparr>)
      \<and> length obs = STATE_DIM"
proof -
  obtain vec where v: "build_state_vector sn (e_servers E') = Inr vec" "length vec = STATE_DIM"
    using vector_total [OF assms(1-3)] by blast
  obtain r where "compute_reward K (w_np W) sn (n_actions_applied E E') = Inr r"
    using compute_reward_total [OF assms(4)] ..
  with v show ?thesis by (cases r) (auto simp: observe_step_def Let_def)
qed

section \<open>A concrete environment\<close>

definition sample_env_world :: "shared_state world" where
  "sample_env_world =
     \<lparr>w_cfg = \<lparr>enforce_sla_feasibility = False\<rparr>,
      w_np = \<lparr>np_mean = (\<lambda>xs. sum_list xs / real (length xs)), np_std = (\<lambda>_. 0), np_percentile = (\<lambda>_ _. 0)\<rparr>,
      w_alg = shared_algorithm \<lparr>enforce_sla_feasibility = False\<rparr>,
      w_iter_set = (\<lambda>xs. xs), w_drop_duplicates = remdups\<rparr>"

lemma sample_env_lawful: "lawful_algorithm (w_alg sample_env_world) (w_cfg sample_env_world)"
  unfolding sample_env_world_def world.simps by (rule shared.lawful_algorithm_axioms)

lemma sample_env_placement: "alg_initial_placement (w_alg sample_env_world) = (\<lambda>_. base_initial_placement)"
  by (simp only: sample_env_world_def shared_algorithm_def world.simps algorithm.simps)

lemma sample_env_reset:
  obtains obs env where "env_reset sample_env_world [] True new_env = Inr (obs, env)"
    "env_running sample_env_world [] True env"
  using env_reset_runs [OF sample_env_lawful _ sample_env_placement, of "[]" True new_env]
  by (auto simp: sound_trace_def)

section \<open>Properties\<close>

text \<open>
  C23. For the algorithm of the environment the scale-up mask is the gate of the engine too:
  if the demand centroid of the last snapshot is still the engine's, a service may be scaled
  up by the mask if and only if the engine then finds a server and places the replica.
\<close>

theorem scale_up_mask_is_gate:
  assumes "compute_action_masks C E lsn = Inr masks" and "w_alg W = shared_algorithm C" and "w_cfg W = C"
    and "e_algorithm E" and "wf_servers (e_servers E)" and "i < N_SERVICES"
    and "last_centroid lsn (SERVICE_IDS ! i) = Inr (centroid_of E (SERVICE_IDS ! i))"
    and "try_scale_up W nec (SERVICE_IDS ! i) E = Inr (b, E')"
  shows "service_bit masks i 1 = (b \<and> \<not> service_in_cooldown (SERVICE_IDS ! i) E)"
proof -
  obtain ms where "service_mask C E lsn (SERVICE_IDS ! i) = Inr ms" "service_bit masks i 1 = ms ! 1"
    using masks_read(2) [OF assms(1), of i] assms(6) by (auto simp: ids_sorted)
  with scale_up_gate [OF _ assms(2-5,7,8)] show ?thesis by simp
qed

theorem scale_up_mask_is_gate_witness:
  "\<exists>E masks b E'. compute_action_masks \<lparr>enforce_sla_feasibility = False\<rparr> (E :: shared_state engine) None = Inr masks
     \<and> try_scale_up sample_env_world False 1 E = Inr (b, E')
     \<and> service_bit masks 0 1 = (b \<and> \<not> service_in_cooldown 1 E)"
proof -
  let ?C = "\<lparr>enforce_sla_feasibility = False\<rparr>"
  obtain E where E: "new_engine [] True = Inr E" using new_engine_total [of "[]" True] ..
  have "\<exists>masks. compute_action_masks ?C E None = Inr masks"
    by (rule masks_total [OF new_engine_knows [OF E]]) simp
  then obtain masks where m: "compute_action_masks ?C E None = Inr masks" ..
  have W: "w_alg sample_env_world = shared_algorithm ?C" "w_cfg sample_env_world = ?C"
    unfolding sample_env_world_def world.simps by (rule refl)+
  have off: "filter (\<lambda>s. srv_state s = SrvActive \<and> P s) (dvals (e_servers E)) = []" for P
    using new_engine_shape(1) [OF E] by (auto simp: fresh_servers_def filter_empty_conv)
  have "service_of 1 \<noteq> Inl e" for e by (simp add: service_of_def SERVICES_INFO_def dlookup_def)
  then obtain info where i: "service_of 1 = Inr info" by (cases "service_of 1") auto
  have up: "try_scale_up sample_env_world False 1 E = Inr (False, E)"
    by (simp add: try_scale_up_def W shared_algorithm_def shared_select_placement_server_def i off)
  have e: "e_algorithm E" using new_engine_shape(8) [OF E] by simp
  have wf: "wf_servers (e_servers E)" using new_engine_shape(1) [OF E] by (simp add: fresh_servers_def)
  have first: "SERVICE_IDS ! 0 = 1" "0 < N_SERVICES" by (simp_all add: SERVICE_IDS_eq ACTIVE_SERVICES_eq dims)
  have "service_demand_centroid E = []" using E by (auto simp: new_engine_def bindE_Inr_iff)
  then have c: "last_centroid None (SERVICE_IDS ! 0) = Inr (centroid_of E (SERVICE_IDS ! 0))"
    by (simp add: last_centroid_def centroid_of_def dget_or_def)
  from scale_up_mask_is_gate [OF m W e wf first(2) c up [folded first(1)]] m up first(1) show ?thesis by metis
qed

text \<open>
  C25. An episode of the environment: for a lawful algorithm, a running environment and an
  action of the action space, a step returns; it ends the episode with the zero vector and
  reward 0, or leaves a running environment with an observation of the declared length and
  75 masks; and no exception comes from decoding, observing or rewarding, only from the
  engine's step.
\<close>

theorem env_step_runs:
  assumes "lawful_algorithm (w_alg W) (w_cfg W)" and "sound_trace df" and "env_running W df st env"
    and "length action = N_SERVICES + N_SERVERS" and "\<forall>a \<in> set action. a < 3"
    and "norm_rejected_per_tick K \<noteq> 0"
  shows "\<exists>r. env_step W K action env = Some r
    \<and> (\<forall>obs reward terminated env'. r = Inr (obs, reward, terminated, env') \<longrightarrow> length obs = 152
          \<and> (if terminated then obs = replicate 152 0 \<and> reward = 0
             else env_running W df st env'
                  \<and> (\<exists>masks. env_action_masks C env' = Inr masks \<and> length masks = 75)))
    \<and> (\<forall>err. r = Inl err \<longrightarrow>
          (\<exists>E external. env_engine env = Some E \<and> step W (Some external) E = Some (Inl err)))"
proof -
  obtain external where ext: "decode_action action = Inr external" using decode_total [OF assms(4,5)] ..
  from assms(3) obtain E where E: "env_engine env = Some E" "reachable W df st E" by (auto simp: env_running_def)
  have inv: "reach_inv E" by (rule lawful_algorithm.reachable_inv [OF assms(1) E(2) refl refl assms(2)])
  then have engine: "engine_inv {#} E" by (simp add: reach_inv_def)
  from inv obtain t where t: "tick_times E = {#t#}" by (auto simp: reach_inv_def)
  obtain r where r: "step W (Some external) E = Some r"
    using lawful_algorithm.step_terminates [OF assms(1) refl refl engine] by blast
  show ?thesis
  proof (cases r)
    case (Inl err)
    then have "env_step W K action env = Some (Inl err)" by (simp add: env_step_def ext E r)
    moreover have "\<exists>E external. env_engine env = Some E \<and> step W (Some external) E = Some (Inl err)"
      using E r Inl by blast
    ultimately show ?thesis by simp
  next
    case (Inr x)
    obtain sn d E' where x: "x = (sn, d, E')" by (cases x) auto
    have es: "env_step W K action env = Some (observe_step W K E (sn, d, E') env)"
      by (simp add: env_step_def ext E r Inr x)
    show ?thesis
    proof (cases d)
      case True
      then show ?thesis using es by (auto simp: observe_step_def dims)
    next
      case False
      have loop: "step_loop (agenda_weight E + 1) W (Some external) E = Some (Inr (sn, False, E'))"
        using r Inr x False by (simp add: step_def)
      have E': "reachable W df st E'"
        using lawful_algorithm.step_loop_tick [OF assms(1) refl refl loop E(2) engine t] by simp
      obtain s where s: "sn = Some s" "dkeys (sn_servers s) = SERVER_IDS" "dkeys (sn_services s) = ACTIVE_SERVICES"
        using lawful_algorithm.step_loop_snapshot [OF assms(1) refl refl assms(2) loop E(2)] by blast
      have k: "dkeys (e_servers E') = SERVER_IDS"
        by (rule lawful_algorithm.reachable_server_ids [OF assms(1) E' refl refl assms(2)])
      obtain obs reward parts where o: "observe_step W K E (Some s, False, E') env = Inr (obs, reward, False,
            env\<lparr>env_engine := Some E', env_last_snapshot := Some s, env_last_reward := Some parts\<rparr>)" "length obs = STATE_DIM"
        using observe_step_total [OF s(2) k s(3) assms(6)] by blast
      let ?env = "env\<lparr>env_engine := Some E', env_last_snapshot := Some s, env_last_reward := Some parts\<rparr>"
      have "env_running W df st ?env" using E' s(3) by (simp add: env_running_def)
      moreover from env_running_masks [OF assms(1,2) this]
      have "\<exists>masks. env_action_masks C ?env = Inr masks \<and> length masks = 75" .
      ultimately show ?thesis using es o s(1) False by (simp add: dims)
    qed
  qed
qed

theorem env_step_runs_witness:
  "\<exists>obs env r. env_reset sample_env_world [] True new_env = Inr (obs, env)
     \<and> env_step sample_env_world \<lparr>ppo_penalty_per_action = 1/100, norm_rejected_per_tick = 2\<rparr> (replicate 25 0) env = Some r"
proof -
  obtain obs env where e: "env_reset sample_env_world [] True new_env = Inr (obs, env)"
    "env_running sample_env_world [] True env" by (rule sample_env_reset)
  have df: "sound_trace []" by (simp add: sound_trace_def)
  have "length (replicate 25 (0 :: nat)) = N_SERVICES + N_SERVERS" "\<forall>a \<in> set (replicate 25 (0 :: nat)). a < 3"
    by (simp_all add: dims)
  moreover have "norm_rejected_per_tick \<lparr>ppo_penalty_per_action = 1/100, norm_rejected_per_tick = 2\<rparr> \<noteq> 0" by simp
  ultimately show ?thesis using env_step_runs [OF sample_env_lawful df e(2)] e(1) by blast
qed

end
