(* ===== verification/PpoAlgorithm.thy ===== *)
theory PpoAlgorithm
  imports PpoEnv
begin

text \<open>
  \<open>algorithms/ppo/ppo_algorithm.py\<close>: the algorithm that follows a trained policy. The policy
  network (\<open>MaskablePPO.predict\<close>) and the integer program of the initial placement are
  parameters; the state is the cache of the last prediction, the last snapshot and the
  solution of the integer program. The masks it builds from a snapshot are proved equal to the
  masks of the training environment.
\<close>

record ppo_params =
  ppo_predict :: "real list \<Rightarrow> bool list \<Rightarrow> nat list"
  ppo_solve :: "servers \<Rightarrow> int list result"
  latency_aware_routing :: bool
  use_solver_placement :: bool

record ppo_state =
  cached_tick_key :: "real option"
  cached_scale :: "(int, scale_action) pydict"
  cached_provision :: provision_action
  ppo_last_snapshot :: "snapshot option"
  solver_selected_servers :: "int list option"
  infer_svc_last_scale :: "(int, real) pydict"

definition new_ppo :: ppo_state where
  "new_ppo = \<lparr>cached_tick_key = None, cached_scale = [], cached_provision = no_provision,
     ppo_last_snapshot = None, solver_selected_servers = None,
     infer_svc_last_scale = map (\<lambda>sid. (sid, LONG_AGO)) SERVICE_IDS\<rparr>"

section \<open>Initial placement\<close>

definition ensure_sufficient_capacity :: "servers \<Rightarrow> int list \<Rightarrow> int list result" where
  "ensure_sufficient_capacity servers selected =
     bindE (mapE (dlookup servers) selected) (\<lambda>ss.
       if total_cpu_needed \<le> (\<Sum>s\<leftarrow>ss. srv_capacity s) then Inr selected
       else let remaining = sort_key (dist_to_selected servers selected)
                              (filter (\<lambda>sid. sid \<notin> set selected) (dkeys servers))
            in Inr (capacity_loop servers selected remaining))"

text \<open>Any exception of the solver, and an empty answer, fall back to the shared coverage.\<close>

definition solve_from_training_data ::
  "ppo_params \<Rightarrow> servers \<Rightarrow> (real \<times> real) list \<Rightarrow> int list result" where
  "solve_from_training_data P servers active_bts =
     (case ppo_solve P servers of
        Inr selected \<Rightarrow> if selected \<noteq> [] then Inr selected else base_initial_placement servers active_bts
      | Inl _ \<Rightarrow> base_initial_placement servers active_bts)"

definition ppo_initial_placement ::
  "ppo_params \<Rightarrow> ppo_state \<Rightarrow> servers \<Rightarrow> (real \<times> real) list \<Rightarrow> (int list \<times> ppo_state) result" where
  "ppo_initial_placement P st servers active_bts =
     (if \<not> use_solver_placement P
      then bindE (base_initial_placement servers active_bts) (\<lambda>sids. Inr (sids, st))
      else bindE (case solver_selected_servers st of
                    None \<Rightarrow> solve_from_training_data P servers active_bts
                  | Some sids \<Rightarrow> Inr sids) (\<lambda>selected.
           bindE (ensure_sufficient_capacity servers selected) (\<lambda>sids.
             Inr (sids, st\<lparr>solver_selected_servers := Some selected\<rparr>))))"

section \<open>Masks and prediction\<close>

definition infer_service_mask :: "cfg \<Rightarrow> servers \<Rightarrow> heap \<Rightarrow> snapshot \<Rightarrow> int \<Rightarrow> bool list result" where
  "infer_service_mask C servers h sn sid =
     bindE (dlookup (sn_services sn) sid) (\<lambda>sv.
     bindE (service_of sid) (\<lambda>svc.
       let in_svc_cooldown = sv_scale_cooldown_active sv;
           can_up = (\<not> in_svc_cooldown \<and> (\<exists>s \<in> set (dvals servers). srv_state s = SrvActive
                       \<and> can_host C h s sid (resource_mips svc) (sv_demand_centroid sv)));
           n_mature = sv_n_mature_ready_replicas sv;
           can_down = (\<not> in_svc_cooldown \<and> 1 < sv_n_ready_replicas sv \<and> 0 < n_mature)
       in Inr [True, can_up, can_down]))"

definition infer_server_mask :: "servers \<Rightarrow> snapshot \<Rightarrow> int \<Rightarrow> bool list result" where
  "infer_server_mask servers sn sid =
     bindE (dlookup (sn_servers sn) sid) (\<lambda>e.
     bindE (dlookup servers sid) (\<lambda>s.
       let st = ss_state e;
           can_on = (st = SrvOff \<and> \<not> ss_provision_cooldown_active e);
           can_off = (st = SrvActive \<and> \<not> ss_provision_cooldown_active e
                      \<and> \<not> ss_is_last_active_server e \<and> ss_min_active_duration_met e)
       in Inr [True, can_on, can_off]))"

definition build_action_masks :: "cfg \<Rightarrow> servers \<Rightarrow> heap \<Rightarrow> snapshot \<Rightarrow> bool list result" where
  "build_action_masks C servers h sn =
     bindE (mapE (infer_service_mask C servers h sn) SERVICE_IDS) (\<lambda>service_masks.
     bindE (mapE (infer_server_mask servers sn) SERVER_IDS) (\<lambda>server_masks.
       Inr (concat service_masks @ concat server_masks)))"

definition ppo_choose_provision :: "(int, provision_type) pydict \<Rightarrow> provision_action" where
  "ppo_choose_provision server_actions =
     (let non_noop = filter (\<lambda>(sid, pt). pt \<noteq> ProvNoChange) server_actions
      in if non_noop \<noteq> []
         then let turn_ons = sort_key fst (filter (\<lambda>(sid, pt). pt = TurnOn) non_noop);
                  turn_offs = sort_key fst (filter (\<lambda>(sid, pt). pt = TurnOff) non_noop);
                  (chosen_sid, chosen_ptype) = hd (if turn_ons \<noteq> [] then turn_ons else turn_offs)
              in \<lparr>pa_action = chosen_ptype, pa_server_id = Some chosen_sid\<rparr>
         else no_provision)"

definition note_scale_times :: "real \<Rightarrow> (int, scale_action) pydict \<Rightarrow> (int, real) pydict \<Rightarrow> (int, real) pydict" where
  "note_scale_times now scale d =
     fold (\<lambda>(sid, act) d. if act \<noteq> ScaleNoChange then dset sid now d else d) scale d"

definition predict_and_cache ::
  "cfg \<Rightarrow> ppo_params \<Rightarrow> ppo_state \<Rightarrow> servers \<Rightarrow> heap \<Rightarrow> snapshot \<Rightarrow> real \<Rightarrow> ppo_state result" where
  "predict_and_cache C P st servers h sn now =
     (let st1 = st\<lparr>ppo_last_snapshot := Some sn\<rparr>
      in if cached_tick_key st1 = Some now then Inr st1
         else bindE (build_state_vector sn servers) (\<lambda>obs.
              bindE (build_action_masks C servers h sn) (\<lambda>action_masks.
              let action = ppo_predict P obs action_masks
              in bindE (decode_all SCALE_MAP action 0 SERVICE_IDS) (\<lambda>scale.
                 bindE (decode_all PROVISION_MAP action (length SERVICE_IDS) SERVER_IDS) (\<lambda>server_actions.
                   Inr (st1\<lparr>cached_scale := scale,
                            infer_svc_last_scale := note_scale_times now scale (infer_svc_last_scale st1),
                            cached_provision := ppo_choose_provision server_actions,
                            cached_tick_key := Some now\<rparr>))))))"

definition ppo_scale_decision :: "ppo_state \<Rightarrow> int \<Rightarrow> snapshot \<Rightarrow> (scale_action \<times> ppo_state) result" where
  "ppo_scale_decision st service_id sn = Inr (dget_or ScaleNoChange (cached_scale st) service_id, st)"

definition ppo_provision_decision ::
  "cfg \<Rightarrow> ppo_params \<Rightarrow> ppo_state \<Rightarrow> servers \<Rightarrow> heap \<Rightarrow> snapshot \<Rightarrow> real
   \<Rightarrow> (provision_action \<times> ppo_state) result" where
  "ppo_provision_decision C P st servers h sn now =
     bindE (predict_and_cache C P st servers h sn now) (\<lambda>st'. Inr (cached_provision st', st'))"

section \<open>Placement, migration, routing\<close>

definition ppo_select_placement_server ::
  "cfg \<Rightarrow> ppo_state \<Rightarrow> int \<Rightarrow> servers \<Rightarrow> heap \<Rightarrow> int option result" where
  "ppo_select_placement_server C st service_id servers h =
     bindE (service_of service_id) (\<lambda>svc.
     bindE (last_centroid (ppo_last_snapshot st) service_id) (\<lambda>known.
     bindE (case known of Some c \<Rightarrow> Inr c | None \<Rightarrow> mean_position (in_state SrvActive servers)) (\<lambda>centroid.
       let candidates = filter (\<lambda>s. srv_state s = SrvActive
                                   \<and> can_host C h s service_id (resource_mips svc) (Some centroid)) (dvals servers)
       in if candidates = [] then Inr None
          else bindE (roomiest_near h centroid candidates) (\<lambda>s. Inr (Some (srv_id s))))))"

text \<open>The helper is a Greedy object that is never shown a snapshot.\<close>

definition ppo_migration_decision ::
  "cfg \<Rightarrow> server \<Rightarrow> servers \<Rightarrow> heap \<Rightarrow> migration_step list result" where
  "ppo_migration_decision C draining servers h = greedy_migration_decision C None draining servers h"

definition est_latency :: "request \<Rightarrow> server \<Rightarrow> replica \<Rightarrow> nat \<Rightarrow> real" where
  "est_latency req s r n =
     (let distance_km = haversine_km (bts_lat req) (bts_long req) (srv_lat s) (srv_long s);
          delay_ms = network_delay_ms distance_km BASE_LATENCY_MS K_MS_PER_KM;
          rtt_sec = 2 * delay_ms / 1000;
          est_wait_sec = real n * r_exec_time r
      in rtt_sec + est_wait_sec + r_exec_time r)"

fun latency_ranked ::
  "request \<Rightarrow> servers \<Rightarrow> real \<Rightarrow> nat list \<Rightarrow> heap \<Rightarrow> ((real \<times> nat) list \<times> heap) result" where
  "latency_ranked req servers now [] h = Inr ([], h)"
| "latency_ranked req servers now (a # as) h =
     (let (n, h1) = sim_occupancy now a h
      in if r_queue_len (h1 a) \<le> n then latency_ranked req servers now as h1
         else bindE (dlookup servers (r_server_id (h1 a))) (\<lambda>s.
              bindE (latency_ranked req servers now as h1) (\<lambda>(ranked, h2).
                Inr ((est_latency req s (h1 a) n, a) # ranked, h2))))"

definition ppo_select_replica ::
  "ppo_params \<Rightarrow> ppo_state \<Rightarrow> request \<Rightarrow> nat list \<Rightarrow> servers \<Rightarrow> real \<Rightarrow> heap
   \<Rightarrow> (nat option \<times> ppo_state \<times> heap) result" where
  "ppo_select_replica P st req candidates servers now h =
     (if candidates = [] then Inr (None, st, h)
      else if \<not> latency_aware_routing P
      then bindE (base_select_replica req candidates servers now h) (\<lambda>(c, h'). Inr (c, st, h'))
      else bindE (latency_ranked req servers now candidates h) (\<lambda>(ranked, h1).
             let (chosen, h2) = find_st (sim_admit now) (map snd (sort_key fst ranked)) h1
             in Inr (chosen, st, h2)))"

text \<open>
  The solver's answer is kept for a second initial placement by the same object
  (\<open>ppo_placement_cached\<close>). An engine asks once, so the record has the first call, before
  anything is kept.
\<close>

definition ppo_algorithm :: "cfg \<Rightarrow> ppo_params \<Rightarrow> ppo_state algorithm" where
  "ppo_algorithm C P =
     \<lparr>alg_initial_placement = (\<lambda>st servers bts.
        bindE (ppo_initial_placement P (st\<lparr>solver_selected_servers := None\<rparr>) servers bts) (\<lambda>(sids, _). Inr sids)),
      alg_select_replica = ppo_select_replica P,
      alg_select_scale_down_victim = (\<lambda>_ _ as _ now h. base_select_scale_down_victim as now h),
      alg_scale_decision = ppo_scale_decision,
      alg_provision_decision = ppo_provision_decision C P,
      alg_select_placement_server = (\<lambda>st _. ppo_select_placement_server C st),
      alg_migration_decision = (\<lambda>_ _. ppo_migration_decision C),
      alg_bypass_sustain_gate = True\<rparr>"

section \<open>The algorithm keeps the contract\<close>

lemma ensure_sufficient_capacity_spec:
  assumes "ensure_sufficient_capacity servers selected = Inr sids"
    and "distinct selected" and "distinct (dkeys servers)"
  shows "distinct sids" "set selected \<subseteq> set sids" "set sids \<subseteq> set (dkeys servers)"
    "\<exists>extra. sids = selected @ extra"
    "total_cpu_needed \<le> fleet_capacity servers sids \<or> set sids = set (dkeys servers)"
proof -
  from assms(1) obtain ss where ss: "mapE (dlookup servers) selected = Inr ss"
    by (auto simp: ensure_sufficient_capacity_def bindE_Inr_iff)
  have get: "dget servers (selected ! i) = Some (ss ! i)" if "i < length selected" for i
    using mapE_nth [OF ss that] by (simp add: dlookup_Inr_iff)
  have len: "length ss = length selected" by (rule mapE_length [OF ss])
  have sub: "set selected \<subseteq> set (dkeys servers)"
  proof
    fix k assume "k \<in> set selected"
    then obtain i where "i < length selected" "selected ! i = k" by (auto simp: in_set_conv_nth)
    with get show "k \<in> set (dkeys servers)" by (force dest: dget_mem)
  qed
  have "map (\<lambda>k. case dget servers k of None \<Rightarrow> 0 | Some s \<Rightarrow> srv_capacity s) selected = map srv_capacity ss"
    using get len by (intro nth_equalityI) auto
  then have cap: "fleet_capacity servers selected = (\<Sum>s\<leftarrow>ss. srv_capacity s)" unfolding fleet_capacity_def by simp
  let ?rest = "sort_key (dist_to_selected servers selected) (filter (\<lambda>sid. sid \<notin> set selected) (dkeys servers))"
  have rest: "distinct ?rest" "set ?rest = set (dkeys servers) - set selected"
    using assms(3) by (auto simp del: set_map)
  obtain k where k: "sids = selected @ take k ?rest"
    "total_cpu_needed \<le> fleet_capacity servers sids \<or> length ?rest \<le> k"
  proof (cases "total_cpu_needed \<le> fleet_capacity servers selected")
    case True
    then have "sids = selected @ take 0 ?rest" using assms(1) ss cap by (simp add: ensure_sufficient_capacity_def)
    with True show thesis by (intro that [of 0]) simp_all
  next
    case False
    then have "sids = capacity_loop servers selected ?rest"
      using assms(1) ss cap by (simp add: ensure_sufficient_capacity_def Let_def)
    with capacity_loop_spec [of servers selected ?rest] show thesis using that by blast
  qed
  have tk: "set (take k ?rest) \<subseteq> set (dkeys servers) - set selected" using set_take_subset rest(2) by fast
  show "distinct sids" using k(1) assms(2) rest(1) tk by (auto simp del: set_map)
  show "set selected \<subseteq> set sids" "\<exists>extra. sids = selected @ extra" using k(1) by auto
  show "set sids \<subseteq> set (dkeys servers)" using k(1) sub tk by auto
  show "total_cpu_needed \<le> fleet_capacity servers sids \<or> set sids = set (dkeys servers)"
    using k rest(2) sub by (auto simp del: set_map)
qed

text \<open>What the code relies on of the solver: it selects among the variables it was given.\<close>

definition solver_sound :: "ppo_params \<Rightarrow> bool" where
  "solver_sound P \<longleftrightarrow>
     (\<forall>servers sids. ppo_solve P servers = Inr sids \<longrightarrow> distinct sids \<and> set sids \<subseteq> set (dkeys servers))"

lemma solve_from_training_data_sound:
  assumes "solver_sound P" and "wf_servers servers" and "solve_from_training_data P servers bts = Inr sids"
  shows "distinct sids \<and> sids \<noteq> []"
  using assms base_initial_lawful [OF _ assms(2), of bts sids]
  by (auto simp: solve_from_training_data_def solver_sound_def split: sum.splits if_splits)

lemma ppo_placement_sound:
  assumes "ppo_select_placement_server C st svc servers h = Inr (Some sid)" and "wf_servers servers"
  shows "\<exists>s. dget servers sid = Some s \<and> srv_state s = SrvActive \<and> can_host_at_some_point C h s svc"
proof -
  from assms(1) obtain info c where i: "service_of svc = Inr info" and
    r: "(let candidates = filter (\<lambda>s. srv_state s = SrvActive \<and> can_host C h s svc (resource_mips info) (Some c)) (dvals servers)
         in if candidates = [] then Inr None
            else bindE (roomiest_near h c candidates) (\<lambda>s. Inr (Some (srv_id s)))) = Inr (Some sid)"
    unfolding ppo_select_placement_server_def bindE_Inr_iff by blast
  have cpu: "resource_mips info = resource_mips_of svc"
    using i by (simp add: service_of_def dlookup_Inr_iff resource_mips_of_def)
  let ?cands = "filter (\<lambda>s. srv_state s = SrvActive \<and> can_host C h s svc (resource_mips info) (Some c)) (dvals servers)"
  have ne: "?cands \<noteq> []" using r by (auto simp: Let_def)
  with r obtain s where s: "roomiest_near h c ?cands = Inr s" "srv_id s = sid" by (auto simp: Let_def bindE_Inr_iff)
  have "s \<in> set ?cands" by (rule roomiest_near_mem [OF s(1)])
  with s(2) wf_servers_get [OF assms(2)] show ?thesis
    unfolding can_host_at_some_point_def cpu by (auto simp del: set_map)
qed

lemma latency_ranked_spec:
  assumes "latency_ranked req servers now as h = Inr (ranked, h')" and "pruned now h0 h"
  shows "pruned now h0 h' \<and> map snd ranked = filter (has_room now h0) as
    \<and> (\<forall>(e, a) \<in> set ranked. \<exists>s. dget servers (r_server_id (h0 a)) = Some s
          \<and> e = est_latency req s (h0 a) (occ now (h0 a)))"
  using assms
proof (induction as arbitrary: h ranked)
  case (Cons a as)
  let ?h1 = "h(a := prune now (h a))"
  have h1: "pruned now h0 ?h1" using Cons.prems(2) sim_occupancy_pruned [of now h0 h a] by (simp add: sim_occupancy_eq)
  have occ: "occ now (h a) = occ now (h0 a)" using Cons.prems(2) by (simp add: prunedD)
  have same: "r_queue_len (h a) = r_queue_len (h0 a)" "r_server_id (h a) = r_server_id (h0 a)"
    "r_exec_time (h a) = r_exec_time (h0 a)" using prunedD(2-4) [OF Cons.prems(2)] by simp_all
  have est: "est_latency req s (prune now (h a)) n = est_latency req s (h0 a) n" for s n
    by (simp add: est_latency_def same)
  show ?case
  proof (cases "has_room now h0 a")
    case False
    with Cons.prems(1) have "latency_ranked req servers now as ?h1 = Inr (ranked, h')"
      by (simp add: sim_occupancy_eq occ same)
    with Cons.IH [OF this h1] False show ?thesis by simp
  next
    case True
    with Cons.prems(1) obtain s ranked' where s: "dget servers (r_server_id (h0 a)) = Some s"
      "latency_ranked req servers now as ?h1 = Inr (ranked', h')"
      "ranked = (est_latency req s (h0 a) (occ now (h0 a)), a) # ranked'"
      by (auto simp: sim_occupancy_eq occ same est bindE_Inr_iff dlookup_Inr_iff split: if_splits)
    with Cons.IH [OF s(2) h1] True show ?thesis by auto
  qed
qed simp

lemma ppo_router:
  assumes "ppo_select_replica P st req cands servers now h = Inr (c, st', h')"
  shows "pruned now h h'"
    and "case c of Some a \<Rightarrow> a \<in> set cands \<and> has_room now h a | None \<Rightarrow> \<forall>a \<in> set cands. \<not> has_room now h a"
proof -
  have "pruned now h h' \<and>
    (case c of Some a \<Rightarrow> a \<in> set cands \<and> has_room now h a | None \<Rightarrow> \<forall>a \<in> set cands. \<not> has_room now h a)"
  proof (cases "cands = [] \<or> \<not> latency_aware_routing P")
    case True
    with assms show ?thesis using base_select_replica_sound [of req cands servers now h c h']
      by (auto simp: ppo_select_replica_def bindE_Inr_iff split: if_splits)
  next
    case False
    with assms obtain ranked h1 where r: "latency_ranked req servers now cands h = Inr (ranked, h1)"
      and s: "(case find_st (sim_admit now) (map snd (sort_key fst ranked)) h1 of (chosen, h2) \<Rightarrow> Inr (chosen, st, h2))
                = (Inr (c, st', h') :: (nat option \<times> ppo_state \<times> heap) result)"
      by (auto simp: ppo_select_replica_def bindE_Inr_iff)
    have f: "find_st (sim_admit now) (map snd (sort_key fst ranked)) h1 = (c, h')"
      using s by (cases "find_st (sim_admit now) (map snd (sort_key fst ranked)) h1") simp
    note spec = latency_ranked_spec [OF r pruned_refl]
    have "set (map snd (sort_key fst ranked)) = set (map snd ranked)" by simp
    then have s: "set (map snd (sort_key fst ranked)) = {a \<in> set cands. has_room now h a}"
      using spec by (simp add: set_filter del: set_map) 
    have same: "has_room now h1 a = has_room now h a" for a using prunedD [where now = now and h = h and h' = h1 and a = a] spec by simp
    note fa = find_admit [OF f, unfolded s same]
    have "pruned now h h'" using spec fa(1) by (blast intro: pruned_trans)
    with fa(2) show ?thesis by (auto split: option.splits)
  qed
  then show "pruned now h h'"
    "case c of Some a \<Rightarrow> a \<in> set cands \<and> has_room now h a | None \<Rightarrow> \<forall>a \<in> set cands. \<not> has_room now h a" by simp_all
qed

lemma ppo_initial_sound:
  assumes "solver_sound P" and "wf_servers servers"
    and "ppo_initial_placement P (st\<lparr>solver_selected_servers := None\<rparr>) servers bts = Inr (sids, st')"
  shows "distinct sids \<and> set sids \<subseteq> set (dkeys servers) \<and> sids \<noteq> []"
proof (cases "use_solver_placement P")
  case False
  with assms(3) base_initial_lawful [OF _ assms(2)] show ?thesis
    by (auto simp: ppo_initial_placement_def bindE_Inr_iff)
next
  case True
  with assms(3) obtain sel where s: "solve_from_training_data P servers bts = Inr sel"
    "ensure_sufficient_capacity servers sel = Inr sids" by (auto simp: ppo_initial_placement_def bindE_Inr_iff)
  have sel: "distinct sel" "sel \<noteq> []" using solve_from_training_data_sound [OF assms(1,2) s(1)] by simp_all
  have "sids \<noteq> []" using ensure_sufficient_capacity_spec(2) [OF s(2) sel(1) wf_servers_keys [OF assms(2)]] sel(2) by auto
  with ensure_sufficient_capacity_spec(1,3) [OF s(2) sel(1) wf_servers_keys [OF assms(2)]] show ?thesis by blast
qed

text \<open>A second placement by the same object repeats the first one's answer.\<close>

lemma ppo_placement_cached:
  assumes "use_solver_placement P" and "ppo_initial_placement P st servers bts = Inr (sids, st')"
  shows "ppo_initial_placement P st' servers bts' = Inr (sids, st')"
  using assms by (auto simp: ppo_initial_placement_def bindE_Inr_iff)

lemma ppo_initial_lawful:
  assumes "bindE (ppo_initial_placement P (st\<lparr>solver_selected_servers := None\<rparr>) servers bts) (\<lambda>(sids, _). Inr sids) = Inr sids"
    and "wf_servers servers" and "solver_sound P"
  shows "distinct sids \<and> set sids \<subseteq> set (dkeys servers) \<and> sids \<noteq> []"
proof -
  from assms(1) obtain st' where "ppo_initial_placement P (st\<lparr>solver_selected_servers := None\<rparr>) servers bts = Inr (sids, st')"
    by (auto simp: bindE_Inr_iff)
  from ppo_initial_sound [OF assms(3,2) this] show ?thesis .
qed

lemma ppo_lawful: "solver_sound P \<Longrightarrow> lawful_algorithm (ppo_algorithm C P) C"
  apply unfold_locales
        apply (simp_all only: ppo_algorithm_def algorithm.simps)
        apply (erule ppo_router(1))
       apply (drule ppo_router(2), simp)
      apply (drule ppo_router(2), simp)
     apply (erule (2) ppo_initial_lawful)
    apply (blast dest: base_victim_sound(1,2))
   apply (erule (1) ppo_placement_sound)
  apply (auto simp: ppo_migration_decision_def greedy_migration_decision_def migration_loop_services
      intro: greedy_migration_sound)[1]
  done

text \<open>Without the solver the contract holds for every policy network.\<close>

definition plain_ppo :: "(real list \<Rightarrow> bool list \<Rightarrow> nat list) \<Rightarrow> bool \<Rightarrow> ppo_params" where
  "plain_ppo net latency = \<lparr>ppo_predict = net, ppo_solve = (\<lambda>_. Inl ValueError),
     latency_aware_routing = latency, use_solver_placement = False\<rparr>"

interpretation ppo: lawful_algorithm "ppo_algorithm C (plain_ppo net latency)" C for C net latency
  by (rule ppo_lawful) (simp add: solver_sound_def plain_ppo_def)

section \<open>The masks of training and of inference\<close>

text \<open>What the masks read of a snapshot, as the engine's own state.\<close>

definition snapshot_describes :: "'a engine \<Rightarrow> snapshot \<Rightarrow> bool" where
  "snapshot_describes E sn \<longleftrightarrow>
     (\<forall>k \<in> set SERVER_IDS. \<exists>s e. dget (e_servers E) k = Some s \<and> dget (sn_servers sn) k = Some e
        \<and> ss_state e = srv_state s
        \<and> ss_provision_cooldown_active e = in_cooldown (e_now E) COOLDOWN_SEC s
        \<and> ss_min_active_duration_met e
            = (is_emergency_boot s \<or> MIN_ACTIVE_DURATION_SEC \<le> e_now E - last_transition_time s)
        \<and> ss_is_last_active_server e = (srv_state s = SrvActive \<and> n_active E \<le> 1))
     \<and> (\<forall>k \<in> set ACTIVE_SERVICES. \<exists>sv. dget (sn_services sn) k = Some sv
        \<and> sv_n_ready_replicas sv = length (ready_of E k)
        \<and> sv_n_mature_ready_replicas sv = length (mature_of E k)
        \<and> sv_scale_cooldown_active sv = service_in_cooldown k E)"

lemma mapE_cong: "(\<And>x. x \<in> set xs \<Longrightarrow> f x = g x) \<Longrightarrow> mapE f xs = mapE g xs"
  by (induction xs) auto

lemma masks_agree:
  assumes "snapshot_describes E sn"
  shows "build_action_masks C (e_servers E) (e_store E) sn = compute_action_masks C E (Some sn)"
proof -
  have svc: "infer_service_mask C (e_servers E) (e_store E) sn k = service_mask C E (Some sn) k"
    if k: "k \<in> set SERVICE_IDS" for k
  proof -
    have "k \<in> set ACTIVE_SERVICES" using k by (simp add: SERVICE_IDS_eq)
    with assms obtain sv where sv: "dget (sn_services sn) k = Some sv"
      "sv_n_ready_replicas sv = length (ready_of E k)" "sv_n_mature_ready_replicas sv = length (mature_of E k)"
      "sv_scale_cooldown_active sv = service_in_cooldown k E" unfolding snapshot_describes_def by blast
    obtain info where i: "service_of k = Inr info" using \<open>k \<in> set ACTIVE_SERVICES\<close> service_of_active by blast
    show ?thesis
      using sv by (simp add: infer_service_mask_def service_mask_def any_server_can_host_def last_centroid_def
          dlookup_def Let_def i)
  qed
  have srv: "infer_server_mask (e_servers E) sn k = server_mask E k" if k: "k \<in> set SERVER_IDS" for k
  proof -
    from assms k obtain s e where "dget (e_servers E) k = Some s" "dget (sn_servers sn) k = Some e"
      "ss_state e = srv_state s" "ss_provision_cooldown_active e = in_cooldown (e_now E) COOLDOWN_SEC s"
      "ss_min_active_duration_met e
            = (is_emergency_boot s \<or> MIN_ACTIVE_DURATION_SEC \<le> e_now E - last_transition_time s)"
      "ss_is_last_active_server e = (srv_state s = SrvActive \<and> n_active E \<le> 1)"
      unfolding snapshot_describes_def by blast
    then show ?thesis by (auto simp: infer_server_mask_def server_mask_def server_at_def dlookup_def Let_def)
  qed
  show ?thesis
    unfolding build_action_masks_def compute_action_masks_def
    using mapE_cong [of SERVICE_IDS, OF svc] mapE_cong [of SERVER_IDS, OF srv] by simp
qed

text \<open>Every element of a threaded map comes from a state of the thread.\<close>

lemma map_st_elem:
  assumes "map_st f xs st = (ys, st')" and "P st" and "x \<in> set xs"
    and "\<And>x u y v. x \<in> set xs \<Longrightarrow> P u \<Longrightarrow> f x u = (y, v) \<Longrightarrow> P v"
  shows "\<exists>u. P u \<and> fst (f x u) \<in> set ys"
  using assms
proof (induction xs arbitrary: st ys)
  case (Cons z xs)
  obtain y u where u: "f z st = (y, u)" by (cases "f z st") auto
  obtain zs v where v: "map_st f xs u = (zs, v)" by (cases "map_st f xs u") auto
  have ys: "ys = y # zs" "st' = v" using Cons.prems(1) u v by simp_all
  have "P u" using Cons.prems(2,4) u by auto
  show ?case
  proof (cases "x = z")
    case True
    with u ys Cons.prems(2) show ?thesis by (intro exI [of _ st]) simp
  next
    case False
    have "\<exists>w. P w \<and> fst (f x w) \<in> set zs"
    proof (rule Cons.IH)
      show "map_st f xs u = (zs, st')" using v ys by simp
      show "x \<in> set xs" using False Cons.prems(3) by simp
      show "P v" if "x \<in> set xs" "P u" "f x u = (y, v)" for x u y v
        by (rule Cons.prems(4) [OF _ that(2,3)]) (simp add: that(1))
    qed (rule \<open>P u\<close>)
    then show ?thesis unfolding ys by auto
  qed
qed simp

lemma ready_of_pruned:
  assumes "pruned (e_now E) (e_store E) h"
  shows "ready_of (E\<lparr>e_store := h\<rparr>) k = ready_of E k" and "mature_of (E\<lparr>e_store := h\<rparr>) k = mature_of E k"
  using assms by (simp_all add: ready_of_def mature_of_def by_service_def prunedD)

lemma reads_ready:
  assumes "reads E E'"
  shows "ready_of E' k = ready_of E k" "mature_of E' k = mature_of E k" "e_now E' = e_now E"
    "service_in_cooldown k E' = service_in_cooldown k E" "e_servers E' = e_servers E"
proof -
  have p: "pruned (e_now E) (e_store E) (e_store E')" and c: "same_core (E\<lparr>e_store := e_store E'\<rparr>) E'"
    and t: "service_last_scale_time E' = service_last_scale_time E" using assms by (auto simp: reads_def)
  have "ready_of E' k = ready_of (E\<lparr>e_store := e_store E'\<rparr>) k" "mature_of E' k = mature_of (E\<lparr>e_store := e_store E'\<rparr>) k"
    using c by (simp_all add: same_core_def ready_of_def mature_of_def by_service_def)
  with ready_of_pruned [OF p] show "ready_of E' k = ready_of E k" "mature_of E' k = mature_of E k" by simp_all
  show "e_now E' = e_now E" "service_in_cooldown k E' = service_in_cooldown k E" "e_servers E' = e_servers E"
    using c t by (simp_all add: same_core_def service_in_cooldown_def)
qed

lemma reads_describes: "reads E E' \<Longrightarrow> snapshot_describes E sn \<Longrightarrow> snapshot_describes E' sn"
  by (simp add: snapshot_describes_def reads_ready n_active_def)

lemma dget_of_mem: "distinct (dkeys d) \<Longrightarrow> p \<in> set d \<Longrightarrow> dget d (fst p) = Some (snd p)"
  by (simp add: dget_iff_mem)

lemma service_entry_describes:
  assumes "reads E E'"
  shows "sv_n_ready_replicas (service_entry E' k avg r) = length (ready_of E k)"
    "sv_n_mature_ready_replicas (service_entry E' k avg r) = length (mature_of E k)"
    "sv_scale_cooldown_active (service_entry E' k avg r) = service_in_cooldown k E"
  using reads_ready [OF assms] assms
  by (simp_all add: service_entry_def Let_def service_in_cooldown_def reads_def)

lemma server_entry_simps:
  "ss_state (server_entry E s h u) = srv_state s"
  "ss_provision_cooldown_active (server_entry E s h u) = in_cooldown (e_now E) COOLDOWN_SEC s"
  "ss_min_active_duration_met (server_entry E s h u)
     = (is_emergency_boot s \<or> MIN_ACTIVE_DURATION_SEC \<le> e_now E - last_transition_time s)"
  "ss_is_last_active_server (server_entry E s h u) = (srv_state s = SrvActive \<and> n_active E \<le> 1)"
  unfolding server_entry_def server_snapshot.simps by (rule refl)+

text \<open>A snapshot whose entries were built along the thread describes the engine.\<close>

lemma entries_describe:
  assumes wf: "wf_servers (e_servers E)" and keys: "dkeys (e_servers E) = SERVER_IDS"
    and srv: "dkeys (sn_servers sn) = SERVER_IDS"
      "\<And>k s. (k, s) \<in> set (e_servers E) \<Longrightarrow> \<exists>h u. (k, server_entry E s h u) \<in> set (sn_servers sn)"
    and svc: "dkeys (sn_services sn) = ACTIVE_SERVICES"
      "\<And>k. k \<in> set ACTIVE_SERVICES \<Longrightarrow> \<exists>E' avg r. reads E E' \<and> (k, service_entry E' k avg r) \<in> set (sn_services sn)"
  shows "snapshot_describes E sn"
proof -
  have 1: "\<exists>s e. dget (e_servers E) k = Some s \<and> dget (sn_servers sn) k = Some e
        \<and> ss_state e = srv_state s
        \<and> ss_provision_cooldown_active e = in_cooldown (e_now E) COOLDOWN_SEC s
        \<and> ss_min_active_duration_met e
            = (is_emergency_boot s \<or> MIN_ACTIVE_DURATION_SEC \<le> e_now E - last_transition_time s)
        \<and> ss_is_last_active_server e = (srv_state s = SrvActive \<and> n_active E \<le> 1)" if k: "k \<in> set SERVER_IDS" for k
  proof -
    have "k \<in> set (dkeys (e_servers E))" using k keys by simp
    then obtain s where s: "(k, s) \<in> set (e_servers E)" by auto
    from srv(2) [OF this] obtain h u where e: "(k, server_entry E s h u) \<in> set (sn_servers sn)" by blast
    have "distinct (dkeys (sn_servers sn))" unfolding srv(1) by (rule ids_sorted)
    from dget_of_mem [OF this e] dget_of_mem [OF wf_servers_keys [OF wf] s]
    have "dget (e_servers E) k = Some s" "dget (sn_servers sn) k = Some (server_entry E s h u)" by simp_all
    then show ?thesis using server_entry_simps [of E s h u] by blast
  qed
  have 2: "\<exists>sv. dget (sn_services sn) k = Some sv
        \<and> sv_n_ready_replicas sv = length (ready_of E k)
        \<and> sv_n_mature_ready_replicas sv = length (mature_of E k)
        \<and> sv_scale_cooldown_active sv = service_in_cooldown k E" if k: "k \<in> set ACTIVE_SERVICES" for k
  proof -
    from svc(2) [OF k] obtain E' avg r where r: "reads E E'" "(k, service_entry E' k avg r) \<in> set (sn_services sn)" by blast
    have "distinct (dkeys (sn_services sn))" unfolding svc(1) by (simp add: ACTIVE_SERVICES_def SERVICES_INFO_def)
    from dget_of_mem [OF this r(2)] have "dget (sn_services sn) k = Some (service_entry E' k avg r)" by simp
    with service_entry_describes [OF r(1)] show ?thesis by blast
  qed
  show ?thesis unfolding snapshot_describes_def using 1 2 by blast
qed

lemma peek_describes:
  assumes peek: "peek_snapshot E = (sn, E')" and wf: "wf_servers (e_servers E)" and keys: "dkeys (e_servers E) = SERVER_IDS"
  shows "snapshot_describes E' sn"
proof -
  note p = peek_snapshot_reads [OF peek]
  obtain srvs h1 where 1: "map_st (readonly_server_entry E) (e_servers E) (e_store E) = (srvs, h1)"
    by (cases "map_st (readonly_server_entry E) (e_servers E) (e_store E)") auto
  obtain svcs h2 where 2: "map_st (readonly_service_entry E) ACTIVE_SERVICES h1 = (svcs, h2)"
    by (cases "map_st (readonly_service_entry E) ACTIVE_SERVICES h1") auto
  have sn: "sn_servers sn = srvs" "sn_services sn = svcs"
    using peek 1 2 by (auto simp: peek_snapshot_def build_metrics_snapshot_readonly_def Let_def)
  let ?P = "pruned (e_now E) (e_store E)"
  have step1: "?P v" if "?P u" "readonly_server_entry E x u = (y, v)" for x u y v
    using that pruned_instantaneous_utilization [of "e_now E" u "snd x"]
    by (auto simp: readonly_server_entry_def split_beta intro: pruned_trans)
  have step2: "?P v" if "?P u" "readonly_service_entry E x u = (y, v)" for x u y v
    using that avg_occupancy_pruned [of "e_now E" u "ready_of (E\<lparr>e_store := u\<rparr>) x"]
    by (auto simp: readonly_service_entry_def Let_def split_beta intro: pruned_trans)
  have h1: "?P h1" by (rule map_st_invariant [OF 1 pruned_refl]) (rule step1)
  have "snapshot_describes E sn"
  proof (rule entries_describe [OF wf keys])
    show "dkeys (sn_servers sn) = SERVER_IDS" "dkeys (sn_services sn) = ACTIVE_SERVICES" using p(2,3) keys by simp_all
    show "\<exists>h u. (k, server_entry E s h u) \<in> set (sn_servers sn)" if "(k, s) \<in> set (e_servers E)" for k s
      using map_st_elem [OF 1, of ?P "(k, s)"] that step1 unfolding sn
      by (fastforce simp: readonly_server_entry_def split_beta)
    show "\<exists>E' avg r. reads E E' \<and> (k, service_entry E' k avg r) \<in> set (sn_services sn)" if k: "k \<in> set ACTIVE_SERVICES" for k
    proof -
      obtain u where u: "?P u" "fst (readonly_service_entry E k u) \<in> set svcs"
        using map_st_elem [OF 2, of ?P k] h1 k step2 by blast
      then have "\<exists>avg r. (k, service_entry (E\<lparr>e_store := u\<rparr>) k avg r) \<in> set svcs"
        by (auto simp: readonly_service_entry_def Let_def split_beta)
      with reads_store [OF u(1)] show ?thesis unfolding sn by blast
    qed
  qed
  from reads_describes [OF p(1) this] show ?thesis .
qed

lemma metrics_describes:
  assumes build: "build_metrics_snapshot E = (sn, E')" and wf: "wf_servers (e_servers E)" and keys: "dkeys (e_servers E) = SERVER_IDS"
  shows "snapshot_describes E' sn"
proof -
  note p = build_metrics_snapshot_reads [OF build]
  obtain srvs h1 where 1: "map_st (window_server_entry E) (e_servers E) (e_store E) = (srvs, h1)"
    by (cases "map_st (window_server_entry E) (e_servers E) (e_store E)") auto
  obtain svcs E2 where 2: "map_st window_service_entry ACTIVE_SERVICES (E\<lparr>e_store := h1\<rparr>) = (svcs, E2)"
    by (cases "map_st window_service_entry ACTIVE_SERVICES (E\<lparr>e_store := h1\<rparr>)") auto
  have sn: "sn_servers sn = srvs" "sn_services sn = svcs"
    using build 1 2 by (auto simp: build_metrics_snapshot_def Let_def)
  let ?P = "pruned (e_now E) (e_store E)"
  have step1: "?P v" if "?P u" "window_server_entry E x u = (y, v)" for x u y v
    using that window_server_entry_pruned [of E u x] by (auto intro: pruned_trans)
  have step2: "reads E v" if "reads E u" "window_service_entry x u = (y, v)" for x u y v
    using that window_service_entry_reads [of u x] by (auto intro: reads_trans)
  have h1: "reads E (E\<lparr>e_store := h1\<rparr>)" by (intro reads_store map_st_invariant [OF 1 pruned_refl]) (rule step1)
  have "snapshot_describes E sn"
  proof (rule entries_describe [OF wf keys])
    show "dkeys (sn_servers sn) = SERVER_IDS" "dkeys (sn_services sn) = ACTIVE_SERVICES" using p(2,3) keys by simp_all
    show "\<exists>h u. (k, server_entry E s h u) \<in> set (sn_servers sn)" if "(k, s) \<in> set (e_servers E)" for k s
      using map_st_elem [OF 1, of ?P "(k, s)"] that step1 unfolding sn
      by (fastforce simp: window_server_entry_def Let_def split_beta split: if_splits)
    show "\<exists>E' avg r. reads E E' \<and> (k, service_entry E' k avg r) \<in> set (sn_services sn)" if k: "k \<in> set ACTIVE_SERVICES" for k
    proof -
      obtain u where u: "reads E u" "fst (window_service_entry k u) \<in> set svcs"
        using map_st_elem [OF 2, of "reads E" k] h1 k step2 by blast
      have "\<exists>avg r. fst (window_service_entry k u) = (k, service_entry (snd (window_service_entry k u)) k avg r)"
        unfolding window_service_entry_def Let_def split_beta fst_conv snd_conv by blast
      with u reads_trans [OF u(1) window_service_entry_reads [of u k]] show ?thesis unfolding sn by metis
    qed
  qed
  from reads_describes [OF p(1) this] show ?thesis .
qed

section \<open>Following the policy\<close>

lemma hd_filter_ids:
  assumes "distinct (dkeys d)" and "sorted (dkeys d)"
  shows "sort_key fst (filter (\<lambda>(sid, pt). pt = t) d) = map (\<lambda>k. (k, t)) (ids_with t d)"
proof -
  let ?f = "filter (\<lambda>(sid, pt). pt = t) d"
  have f: "map (\<lambda>k. (k, t)) (map fst ?f) = ?f" by (induction d) auto
  have s: "sorted (map fst ?f)" using assms(2) by (induction d) auto
  have "sort_key fst ?f = ?f" using s by (simp add: sorted_sort_id sort_key_id_if_sorted)
  moreover have "ids_with t d = map fst ?f" using s by (simp add: ids_with_def sorted_sort_id)
  ultimately show ?thesis using f by simp
qed

lemma ppo_choose_provision_eq:
  assumes "distinct (dkeys d)" and "sorted (dkeys d)"
  shows "choose_provision d = Inr (ppo_choose_provision d)"
proof -
  let ?n = "filter (\<lambda>(sid, pt). pt \<noteq> ProvNoChange) d"
  have n: "filter (\<lambda>(sid, pt). pt = TurnOn) ?n = filter (\<lambda>(sid, pt). pt = TurnOn) d"
    "filter (\<lambda>(sid, pt). pt = TurnOff) ?n = filter (\<lambda>(sid, pt). pt = TurnOff) d"
    by (induction d) auto
  note h = hd_filter_ids [OF assms]
  have get: "dget d k = Some t" if "k \<in> set (ids_with t d)" for k t
    using that unfolding ids_with_eq [OF assms] by simp
  have ids_none: "ids_with t d = [] \<longleftrightarrow> (\<forall>p \<in> set d. snd p \<noteq> t)" for t
  proof -
    have "set (ids_with t d) = fst ` {p \<in> set d. snd p = t}" by (auto simp: ids_with_def image_iff)
    moreover have "ids_with t d = [] \<longleftrightarrow> set (ids_with t d) = {}" by simp
    ultimately show ?thesis by auto
  qed
  have "(pt = ProvNoChange) = (pt \<noteq> TurnOn \<and> pt \<noteq> TurnOff)" for pt by (cases pt) simp_all
  then have "(\<forall>p \<in> set d. snd p = ProvNoChange) = (\<forall>p \<in> set d. snd p \<noteq> TurnOn \<and> snd p \<noteq> TurnOff)"
    by (intro ball_cong refl)
  then have empty: "?n = [] \<longleftrightarrow> ids_with TurnOn d = [] \<and> ids_with TurnOff d = []"
    unfolding ids_none filter_empty_conv ball_conj_distrib split_beta' by simp
  have eq: "ppo_choose_provision d =
      (if ?n \<noteq> []
       then (case hd (if ids_with TurnOn d \<noteq> [] then map (\<lambda>k. (k, TurnOn)) (ids_with TurnOn d)
                      else map (\<lambda>k. (k, TurnOff)) (ids_with TurnOff d)) of
               (sid, pt) \<Rightarrow> \<lparr>pa_action = pt, pa_server_id = Some sid\<rparr>)
       else no_provision)"
    unfolding ppo_choose_provision_def Let_def n h map_is_Nil_conv ..
  consider (on) k ks where "ids_with TurnOn d = k # ks"
    | (off) k ks where "ids_with TurnOn d = []" "ids_with TurnOff d = k # ks"
    | (none) "ids_with TurnOn d = []" "ids_with TurnOff d = []"
    by (metis neq_Nil_conv)
  then show ?thesis
  proof cases
    case on
    with get [of k TurnOn] empty show ?thesis
      by (auto simp: choose_provision_def eq dlookup_def)
  next
    case off
    with get [of k TurnOff] empty show ?thesis
      by (auto simp: choose_provision_def eq dlookup_def)
  next
    case none
    with empty have "?n = []" by simp
    with none show ?thesis by (simp add: choose_provision_def eq)
  qed
qed

lemma decode_all_keys: "decode_all codes action offset ids = Inr d \<Longrightarrow> dkeys d = ids"
proof -
  assume "decode_all codes action offset ids = Inr d"
  then have m: "mapE (\<lambda>(i, sid). bindE (decode_at codes action (offset + i)) (\<lambda>x. Inr (sid, x))) (enumerate 0 ids) = Inr d"
    by (simp add: decode_all_def)
  have "length d = length ids" using mapE_length [OF m] by simp
  moreover have "fst (d ! i) = ids ! i" if i: "i < length ids" for i
  proof -
    obtain x where "(ids ! i, x) = d ! i"
      using mapE_nth [OF m, of i] i by (auto simp: nth_enumerate_eq bindE_Inr_iff)
    then show ?thesis by (metis fst_conv)
  qed
  ultimately show ?thesis by (intro nth_equalityI) simp_all
qed

lemma predict_decodes:
  assumes "predict_and_cache C P st servers h sn now = Inr st'" and "cached_tick_key st \<noteq> Some now"
  obtains obs masks where "build_state_vector sn servers = Inr obs" "build_action_masks C servers h sn = Inr masks"
    "decode_action (ppo_predict P obs masks) = Inr (cached_provision st', cached_scale st')"
    "cached_tick_key st' = Some now" "ppo_last_snapshot st' = Some sn"
proof -
  from assms obtain obs masks sc d where o: "build_state_vector sn servers = Inr obs"
    "build_action_masks C servers h sn = Inr masks"
    and d: "decode_all SCALE_MAP (ppo_predict P obs masks) 0 SERVICE_IDS = Inr sc"
      "decode_all PROVISION_MAP (ppo_predict P obs masks) N_SERVICES SERVER_IDS = Inr d"
    and st': "cached_scale st' = sc" "cached_provision st' = ppo_choose_provision d" "cached_tick_key st' = Some now"
      "ppo_last_snapshot st' = Some sn"
    by (auto simp: predict_and_cache_def Let_def bindE_Inr_iff ids_sorted)
  have "choose_provision d = Inr (cached_provision st')"
    unfolding st' using decode_all_keys [OF d(2)] by (intro ppo_choose_provision_eq) (simp_all add: ids_sorted)
  with d st' have "decode_action (ppo_predict P obs masks) = Inr (cached_provision st', cached_scale st')"
    by (simp add: decode_action_def)
  with o st' show thesis by (intro that)
qed

text \<open>The documented behaviour of masked prediction: a masked-out choice is never taken.\<close>

definition respects_masks :: "(real list \<Rightarrow> bool list \<Rightarrow> nat list) \<Rightarrow> bool" where
  "respects_masks net \<longleftrightarrow> (\<forall>obs masks. length masks = 75 \<and> (\<forall>i < 25. masks ! (3 * i)) \<longrightarrow>
     length (net obs masks) = 25 \<and> (\<forall>i < 25. net obs masks ! i < 3 \<and> masks ! (3 * i + net obs masks ! i)))"

lemma service_mask_head: "service_mask C E lsn k = Inr ms \<Longrightarrow> ms ! 0"
  by (auto simp: service_mask_def Let_def bindE_Inr_iff)

lemma server_mask_head: "server_mask E k = Inr ms \<Longrightarrow> ms ! 0"
  by (auto simp: server_mask_def Let_def bindE_Inr_iff)

lemma masks_noop:
  assumes "compute_action_masks C E lsn = Inr masks" and "i < 25"
  shows "masks ! (3 * i)"
proof (cases "i < 15")
  case True
  with masks_read(2) [OF assms(1), of i] show ?thesis
    using service_mask_head by (fastforce simp: ids_sorted dims service_bit_def)
next
  case False
  define j where "j = i - 15"
  have j: "i = 15 + j" "j < 10" using False assms(2) by (simp_all add: j_def)
  with masks_read(3) [OF assms(1), of j] show ?thesis
    using server_mask_head by (fastforce simp: ids_sorted dims server_bit_def)
qed

lemma sort_latency_hd:
  assumes "find_st (sim_admit now) (map snd (sort_key fst ranked)) h = (Some a, h')"
    and "\<forall>(e, b) \<in> set ranked. has_room now h b"
  shows "\<exists>e. (e, a) \<in> set ranked \<and> (\<forall>(e', b) \<in> set ranked. e \<le> e')"
proof -
  obtain p ps where s: "sort_key fst ranked = p # ps" using assms(1) by (cases "sort_key fst ranked") auto
  then have p: "p \<in> set ranked" by (metis list.set_intros(1) set_sort)
  have "has_room now h (snd p)" using assms(2) p by (cases p) auto
  then have "a = snd p" using assms(1) s sim_admit_pruned [OF pruned_refl [of now h], of "snd p"]
    by (auto simp: split_beta)
  have "sorted (map fst (sort_key fst ranked))" by simp
  then have "\<forall>q \<in> set (sort_key fst ranked). fst p \<le> fst q" unfolding s by auto
  then have "\<forall>q \<in> set ranked. fst p \<le> fst q" by simp
  with p \<open>a = snd p\<close> show ?thesis by (intro exI [of _ "fst p"]) (auto simp: split_beta)
qed

section \<open>A concrete policy\<close>

text \<open>Turns the first server on whenever its mask allows it.\<close>

definition eager_net :: "real list \<Rightarrow> bool list \<Rightarrow> nat list" where
  "eager_net obs masks = map (\<lambda>i. if i = 15 \<and> masks ! 46 then 1 else 0) [0..<25]"

lemma eager_respects: "respects_masks eager_net"
  by (auto simp: respects_masks_def eager_net_def)

definition eager_params :: ppo_params where
  "eager_params = plain_ppo eager_net True"

lemma eager_predict: "ppo_predict eager_params = eager_net"
  by (simp add: eager_params_def plain_ppo_def)

lemma sample_described:
  obtains E sn where "reachable sample_world [] (None :: greedy_state) E" "snapshot_describes E sn"
    "dkeys (e_servers E) = SERVER_IDS" "dkeys (sn_servers sn) = SERVER_IDS" "dkeys (sn_services sn) = ACTIVE_SERVICES"
    "\<exists>E0. peek_snapshot E0 = (sn, E) \<and> reachable sample_world [] None E0"
proof -
  obtain E1 where r: "reachable sample_world [] (None :: greedy_state) E1" using sample_start [of "[]"] by blast
  have df: "sound_trace []" by (simp add: sound_trace_def)
  obtain sn E where p: "peek_snapshot E1 = (sn, E)" by (metis surj_pair)
  note k = lawful_algorithm.reachable_server_ids [OF sample_lawful r refl refl df]
  have "engine_inv {#} E1"
    using lawful_algorithm.reachable_inv [OF sample_lawful r refl refl df] by (simp add: reach_inv_def)
  then have "wf_servers (e_servers E1)" by (simp add: engine_inv_def store_inv_def)
  from peek_describes [OF p this k] have "snapshot_describes E sn" .
  moreover have "dkeys (e_servers E) = SERVER_IDS" "dkeys (sn_servers sn) = SERVER_IDS" "dkeys (sn_services sn) = ACTIVE_SERVICES"
    using peek_snapshot_reads(2-4) [OF p] k by simp_all
  ultimately show thesis using that reachable.peek [OF r p] p r by blast
qed

lemma eager_decides:
  assumes "snapshot_describes E sn" and "dkeys (e_servers E) = SERVER_IDS" and "dkeys (sn_servers sn) = SERVER_IDS"
    and "dkeys (sn_services sn) = ACTIVE_SERVICES"
  shows "\<exists>act st'. ppo_provision_decision C eager_params new_ppo (e_servers E) (e_store E) sn (e_now E) = Inr (act, st')"
proof -
  obtain obs where o: "build_state_vector sn (e_servers E) = Inr obs" using vector_total [OF assms(3,2,4)] by blast
  have "\<exists>masks. compute_action_masks C E (Some sn) = Inr masks"
    by (rule masks_total, simp only: assms(2) order_refl, metis assms(4) option.inject order_refl)
  then obtain masks where m: "build_action_masks C (e_servers E) (e_store E) sn = Inr masks"
    using masks_agree [OF assms(1)] by auto
  let ?a = "eager_net obs masks"
  have a: "length ?a = 25" "\<forall>x \<in> set ?a. x < 3" by (auto simp: eager_net_def)
  have maps: "\<forall>n < 3. \<exists>x. dget SCALE_MAP n = Some x" "\<forall>n < 3. \<exists>x. dget PROVISION_MAP n = Some x"
    by (auto simp: SCALE_MAP_def PROVISION_MAP_def)
  obtain sc where "decode_all SCALE_MAP ?a 0 SERVICE_IDS = Inr sc"
    using decode_all_spec [OF maps(1) _ a(2), of 0 SERVICE_IDS] a(1) by (auto simp: ids_sorted dims)
  moreover obtain d where "decode_all PROVISION_MAP ?a (length SERVICE_IDS) SERVER_IDS = Inr d"
    using decode_all_spec [OF maps(2) _ a(2), of "length SERVICE_IDS" SERVER_IDS] a(1) by (auto simp: ids_sorted dims)
  ultimately show ?thesis
    by (simp add: ppo_provision_decision_def predict_and_cache_def new_ppo_def o m eager_predict Let_def)
qed

section \<open>Properties\<close>

text \<open>
  C21. Training and inference use the same masks: in every reachable state, for the snapshot of
  a reset (\<open>peek_snapshot\<close>) and for that of a decision tick, the masks the algorithm builds from
  the snapshot alone are the masks the training environment computes from the engine.
\<close>

theorem training_inference_masks_agree:
  assumes "lawful_algorithm (w_alg W) (w_cfg W)" and "sound_trace df" and "reachable W df st E"
    and "peek_snapshot E = (sn, E') \<or> build_metrics_snapshot E = (sn, E')"
  shows "\<exists>masks. build_action_masks C (e_servers E') (e_store E') sn = Inr masks
     \<and> compute_action_masks C E' (Some sn) = Inr masks \<and> length masks = 75"
proof -
  have k: "dkeys (e_servers E) = SERVER_IDS"
    by (rule lawful_algorithm.reachable_server_ids [OF assms(1,3) refl refl assms(2)])
  have "engine_inv {#} E"
    using lawful_algorithm.reachable_inv [OF assms(1,3) refl refl assms(2)] by (simp add: reach_inv_def)
  then have wf: "wf_servers (e_servers E)" by (simp add: engine_inv_def store_inv_def)
  have d: "snapshot_describes E' sn" using assms(4) peek_describes [OF _ wf k] metrics_describes [OF _ wf k] by blast
  have r: "reads E E'" and s: "dkeys (sn_services sn) = ACTIVE_SERVICES"
    using assms(4) peek_snapshot_reads(1,3) build_metrics_snapshot_reads(1,3) by blast+
  have "dkeys (e_servers E') = SERVER_IDS" using reads_ready(5) [OF r] k by simp
  then have "\<exists>masks. compute_action_masks C E' (Some sn) = Inr masks"
    by (intro masks_total) (simp_all only: order_refl, metis s option.inject order_refl)
  with masks_agree [OF d] masks_read(1) show ?thesis by metis
qed

theorem training_inference_masks_agree_witness:
  "\<exists>E sn masks. build_action_masks \<lparr>enforce_sla_feasibility = True\<rparr> (e_servers (E :: greedy_state engine)) (e_store E) sn = Inr masks
     \<and> compute_action_masks \<lparr>enforce_sla_feasibility = True\<rparr> E (Some sn) = Inr masks"
proof -
  obtain E sn where "\<exists>E0. peek_snapshot E0 = (sn, E) \<and> reachable sample_world [] None E0" by (rule sample_described)
  then obtain E0 where E0: "peek_snapshot E0 = (sn, E)" "reachable sample_world [] None E0" by blast
  have "sound_trace []" by (simp add: sound_trace_def)
  from training_inference_masks_agree [OF sample_lawful this E0(2) disjI1 [OF E0(1)]] show ?thesis by blast
qed

text \<open>
  C29. The algorithm follows the policy: with no prediction cached for the tick, the decisions
  it caches are the decoded choice of the policy network on the state vector and the masks of
  the snapshot, decoded as in training; asked again in the same tick, whatever the snapshot,
  it repeats them without another prediction.
\<close>

theorem ppo_follows_policy:
  assumes "ppo_provision_decision C P st servers h sn now = Inr (act, st')" and "cached_tick_key st \<noteq> Some now"
  shows "(\<exists>obs masks. build_state_vector sn servers = Inr obs \<and> build_action_masks C servers h sn = Inr masks
            \<and> decode_action (ppo_predict P obs masks) = Inr (act, cached_scale st'))
     \<and> (\<forall>servers' h' sn'. ppo_provision_decision C P st' servers' h' sn' now = Inr (act, st'\<lparr>ppo_last_snapshot := Some sn'\<rparr>))
     \<and> (\<forall>k. ppo_scale_decision st' k sn = Inr (dget_or ScaleNoChange (cached_scale st') k, st'))"
proof -
  from assms(1) have p: "predict_and_cache C P st servers h sn now = Inr st'" "act = cached_provision st'"
    by (auto simp: ppo_provision_decision_def bindE_Inr_iff)
  from predict_decodes [OF p(1) assms(2)] obtain obs masks where o: "build_state_vector sn servers = Inr obs"
    "build_action_masks C servers h sn = Inr masks"
    "decode_action (ppo_predict P obs masks) = Inr (cached_provision st', cached_scale st')"
    "cached_tick_key st' = Some now" by metis
  then show ?thesis
    by (simp add: p(2) ppo_provision_decision_def predict_and_cache_def ppo_scale_decision_def Let_def)
qed

theorem ppo_follows_policy_witness:
  "\<exists>(E :: greedy_state engine) sn act st'.
     ppo_provision_decision \<lparr>enforce_sla_feasibility = True\<rparr> eager_params new_ppo (e_servers E) (e_store E) sn (e_now E) = Inr (act, st')
     \<and> (\<exists>obs masks. decode_action (eager_net obs masks) = Inr (act, cached_scale st'))"
proof -
  obtain E :: "greedy_state engine" and sn where E: "snapshot_describes E sn" "dkeys (e_servers E) = SERVER_IDS"
    "dkeys (sn_servers sn) = SERVER_IDS" "dkeys (sn_services sn) = ACTIVE_SERVICES" by (rule sample_described)
  obtain act st' where d: "ppo_provision_decision \<lparr>enforce_sla_feasibility = True\<rparr> eager_params new_ppo
      (e_servers E) (e_store E) sn (e_now E) = Inr (act, st')" using eager_decides [OF E] by blast
  have "cached_tick_key new_ppo \<noteq> Some (e_now E)" by (simp add: new_ppo_def)
  from ppo_follows_policy [OF d this] d show ?thesis unfolding eager_predict by blast
qed

text \<open>
  C24. If the policy network never takes a masked-out choice, what the algorithm decides passes
  the gates of the engine in the state of the decision: a server it turns on boots, the drain
  of a server it turns off is started, and no service it scales is in its cooldown.
\<close>

theorem ppo_decisions_pass_gates:
  assumes "snapshot_describes E sn" and "respects_masks (ppo_predict P)" and "cached_tick_key st \<noteq> Some (e_now E)"
    and "ppo_provision_decision C P st (e_servers E) (e_store E) sn (e_now E) = Inr (act, st')"
    and "alg_bypass_sustain_gate (w_alg W)"
  shows "(\<forall>sid nec b E'. act = turn_on sid \<and> try_turn_on W sn nec act sid E = Inr (b, E') \<longrightarrow> b)
     \<and> (\<forall>sid b E'. act = turn_off sid \<and> try_turn_off W sn act sid E = Inr (b, E') \<longrightarrow>
            (\<exists>E1. start_server_drain W sid E = Inr (b, E1)))
     \<and> (\<forall>k \<in> set ACTIVE_SERVICES. dget (cached_scale st') k \<noteq> Some ScaleNoChange \<longrightarrow> \<not> service_in_cooldown k E)"
proof -
  from assms(4) have p: "predict_and_cache C P st (e_servers E) (e_store E) sn (e_now E) = Inr st'" "act = cached_provision st'"
    by (auto simp: ppo_provision_decision_def bindE_Inr_iff)
  from predict_decodes [OF p(1) assms(3)] obtain obs masks where
    m: "compute_action_masks C E (Some sn) = Inr masks" and
    d: "decode_action (ppo_predict P obs masks) = Inr (act, cached_scale st')"
    unfolding p(2) masks_agree [OF assms(1)] by metis
  define a where "a = ppo_predict P obs masks"
  have a: "length a = N_SERVICES + N_SERVERS" "\<forall>i < 25. a ! i < 3 \<and> masks ! (3 * i + a ! i)"
    using assms(2) masks_noop [OF m] masks_read(1) [OF m] unfolding respects_masks_def a_def by (simp_all add: dims)
  then have "\<forall>x \<in> set a. x < 3" by (auto simp: in_set_conv_nth dims)
  from decode_action_ok [OF a(1) this] d have sc: "\<forall>i < N_SERVICES. dget (cached_scale st') (SERVICE_IDS ! i) = dget SCALE_MAP (a ! i)"
    and pr: "case pa_server_id act of None \<Rightarrow> act = no_provision \<and> (\<forall>j < N_SERVERS. a ! (N_SERVICES + j) = 0)
       | Some sid \<Rightarrow> \<exists>j < N_SERVERS. SERVER_IDS ! j = sid \<and> dget PROVISION_MAP (a ! (N_SERVICES + j)) = Some (pa_action act)
           \<and> pa_action act \<noteq> ProvNoChange \<and> (pa_action act = TurnOff \<longrightarrow> (\<forall>i < N_SERVERS. a ! (N_SERVICES + i) \<noteq> 1))
           \<and> (\<forall>i < j. a ! (N_SERVICES + i) \<noteq> a ! (N_SERVICES + j))" by (auto simp: a_def)
  have bit: "\<exists>ms. server_mask E sid = Inr ms \<and> ms ! n"
    if act: "pa_server_id act = Some sid" "dget PROVISION_MAP n = Some (pa_action act)" for sid n
  proof -
    from pr act(1) obtain j where j: "j < N_SERVERS" "SERVER_IDS ! j = sid"
      "dget PROVISION_MAP (a ! (N_SERVICES + j)) = Some (pa_action act)" by auto
    have "a ! (N_SERVICES + j) = n" using j(3) act(2) by (auto simp: PROVISION_MAP_def split: if_splits)
    moreover have "a ! (N_SERVICES + j) < 3 \<and> server_bit masks j (a ! (N_SERVICES + j))"
      using a(2) [rule_format, of "15 + j"] j(1) by (simp add: server_bit_def dims)
    ultimately show ?thesis using masks_read(3) [OF m, of j] j(1,2) by (auto simp: ids_sorted)
  qed
  have "\<not> service_in_cooldown k E" if k: "k \<in> set ACTIVE_SERVICES" "dget (cached_scale st') k \<noteq> Some ScaleNoChange" for k
  proof -
    from k(1) obtain i where i: "i < N_SERVICES" "SERVICE_IDS ! i = k"
      by (metis SERVICE_IDS_eq in_set_conv_nth ids_sorted(6))
    have "a ! i \<noteq> 0"
    proof
      assume "a ! i = 0"
      then have "dget (cached_scale st') k = Some ScaleNoChange"
        using sc [rule_format, OF i(1)] i(2) by (simp add: SCALE_MAP_def)
      with k(2) show False by simp
    qed
    moreover have "a ! i < 3 \<and> service_bit masks i (a ! i)" using a(2) [rule_format, of i] i(1) by (simp add: service_bit_def dims)
    ultimately have "a ! i \<noteq> 0" "a ! i < 3" "service_bit masks i (a ! i)" by simp_all
    with masks_read(2) [OF m, of i] i obtain ms where "service_mask C E (Some sn) k = Inr ms" "ms ! (a ! i)"
      by (auto simp: ids_sorted)
    moreover have "a ! i = 1 \<or> a ! i = 2" using \<open>a ! i \<noteq> 0\<close> \<open>a ! i < 3\<close> by linarith
    ultimately show ?thesis by (auto simp: service_mask_def Let_def bindE_Inr_iff split: if_splits)
  qed
  moreover have "b" if "act = turn_on sid" "try_turn_on W sn nec act sid E = Inr (b, E')" for sid nec b E'
  proof -
    have "\<exists>ms. server_mask E sid = Inr ms \<and> ms ! 1" using that(1) by (intro bit) (simp_all add: PROVISION_MAP_def)
    then obtain ms where "server_mask E sid = Inr ms" "ms ! 1" by blast
    with try_turn_on_gate [OF _ assms(5) that(2)] show ?thesis by blast
  qed
  moreover have "\<exists>E1. start_server_drain W sid E = Inr (b, E1)"
    if "act = turn_off sid" "try_turn_off W sn act sid E = Inr (b, E')" for sid b E'
  proof -
    have "\<exists>ms. server_mask E sid = Inr ms \<and> ms ! 2" using that(1) by (intro bit) (simp_all add: PROVISION_MAP_def)
    then obtain ms where "server_mask E sid = Inr ms" "ms ! 2" by blast
    with try_turn_off_gate [OF _ assms(5) that(2)] show ?thesis by auto
  qed
  ultimately show ?thesis by blast
qed

theorem ppo_decisions_pass_gates_witness:
  "\<exists>E sn act st'. reachable sample_world [] None E
     \<and> ppo_provision_decision (w_cfg sample_world) eager_params new_ppo (e_servers E) (e_store E) sn (e_now E) = Inr (act, st')
     \<and> (\<forall>k \<in> set ACTIVE_SERVICES. dget (cached_scale st') k \<noteq> Some ScaleNoChange \<longrightarrow> \<not> service_in_cooldown k E)"
proof -
  obtain E sn where r: "reachable sample_world [] (None :: greedy_state) E" and
    E: "snapshot_describes E sn" "dkeys (e_servers E) = SERVER_IDS" "dkeys (sn_servers sn) = SERVER_IDS"
    "dkeys (sn_services sn) = ACTIVE_SERVICES" by (rule sample_described)
  obtain act st' where d: "ppo_provision_decision (w_cfg sample_world) eager_params new_ppo
      (e_servers E) (e_store E) sn (e_now E) = Inr (act, st')" using eager_decides [OF E] by blast
  have t: "cached_tick_key new_ppo \<noteq> Some (e_now E)" by (simp add: new_ppo_def)
  have b: "alg_bypass_sustain_gate (w_alg sample_world)"
    by (simp only: sample_world_def greedy_algorithm_def world.simps algorithm.simps)
  have n: "respects_masks (ppo_predict eager_params)" unfolding eager_predict by (rule eager_respects)
  have "\<forall>k \<in> set ACTIVE_SERVICES. dget (cached_scale st') k \<noteq> Some ScaleNoChange \<longrightarrow> \<not> service_in_cooldown k E"
    using ppo_decisions_pass_gates [OF E(1) n t d b] by (elim conjE)
  with r d show ?thesis by blast
qed

text \<open>
  Topping up a selection of servers keeps it as a prefix, adds only known servers, none
  twice, and stops as soon as the selected capacity covers one replica of every service, or
  with the whole fleet.
\<close>

theorem sufficient_capacity:
  assumes "ensure_sufficient_capacity servers selected = Inr sids"
    and "distinct selected" and "distinct (dkeys servers)"
  shows "distinct sids \<and> set sids \<subseteq> set (dkeys servers) \<and> (\<exists>extra. sids = selected @ extra)
     \<and> (total_cpu_needed \<le> fleet_capacity servers sids \<or> set sids = set (dkeys servers))"
  using ensure_sufficient_capacity_spec [OF assms] by blast

theorem sufficient_capacity_witness:
  "\<exists>sids extra. ensure_sufficient_capacity full_servers [4] = Inr sids \<and> sids = [4] @ extra \<and> distinct sids"
proof -
  have "dlookup full_servers 4 \<noteq> Inl e" for e by (simp add: full_servers_def SERVER_IDS_eq dlookup_def)
  then obtain s where "dlookup full_servers 4 = Inr s" by (cases "dlookup full_servers 4") auto
  then have "\<exists>sids. ensure_sufficient_capacity full_servers [4] = Inr sids"
    by (simp add: ensure_sufficient_capacity_def Let_def)
  then obtain sids where s: "ensure_sufficient_capacity full_servers [4] = Inr sids" ..
  have "distinct [4 :: int]" "distinct (dkeys full_servers)" unfolding full_keys by (simp_all add: ids_sorted)
  from sufficient_capacity [OF s this] s show ?thesis by blast
qed

text \<open>
  C30. Latency-aware routing sends a request to a candidate with room whose estimated latency
  (round trip, waiting behind its queue, execution) is the least of all candidates with room.
\<close>

theorem latency_routing_optimal:
  assumes "ppo_select_replica P st req cands servers now h = Inr (Some a, st', h')" and "latency_aware_routing P"
    and "b \<in> set cands" and "has_room now h b"
  shows "a \<in> set cands \<and> has_room now h a
    \<and> (\<exists>sa sb. dget servers (r_server_id (h a)) = Some sa \<and> dget servers (r_server_id (h b)) = Some sb
         \<and> est_latency req sa (h a) (occ now (h a)) \<le> est_latency req sb (h b) (occ now (h b)))"
proof -
  from assms(1-3) obtain ranked h1 where r: "latency_ranked req servers now cands h = Inr (ranked, h1)"
    and s: "(case find_st (sim_admit now) (map snd (sort_key fst ranked)) h1 of (chosen, h2) \<Rightarrow> Inr (chosen, st, h2))
                = (Inr (Some a, st', h') :: (nat option \<times> ppo_state \<times> heap) result)"
    by (auto simp: ppo_select_replica_def bindE_Inr_iff split: if_splits)
  have f: "find_st (sim_admit now) (map snd (sort_key fst ranked)) h1 = (Some a, h')"
    using s by (cases "find_st (sim_admit now) (map snd (sort_key fst ranked)) h1") simp
  note spec = latency_ranked_spec [OF r pruned_refl]
  have same: "has_room now h1 x = has_room now h x" for x
    using prunedD [where now = now and h = h and h' = h1 and a = x] spec by simp
  have mem: "x \<in> set cands \<and> has_room now h x" if "(e, x) \<in> set ranked" for e x
  proof -
    have "x \<in> set (map snd ranked)" using that by force
    then show ?thesis using spec by simp
  qed
  then have "\<forall>(e, x) \<in> set ranked. has_room now h1 x" unfolding same by blast
  from sort_latency_hd [OF f this] obtain e where e: "(e, a) \<in> set ranked" "\<forall>(e', x) \<in> set ranked. e \<le> e'" by blast
  have "b \<in> set (map snd ranked)" using spec assms(3,4) by simp
  then obtain eb where eb: "(eb, b) \<in> set ranked" by auto
  have est: "\<exists>s. dget servers (r_server_id (h x)) = Some s \<and> y = est_latency req s (h x) (occ now (h x))"
    if "(y, x) \<in> set ranked" for x y using spec that by blast
  obtain sa sb where "dget servers (r_server_id (h a)) = Some sa" "e = est_latency req sa (h a) (occ now (h a))"
    "dget servers (r_server_id (h b)) = Some sb" "eb = est_latency req sb (h b) (occ now (h b))"
    using est [OF e(1)] est [OF eb] by blast
  with mem [OF e(1)] e(2) eb show ?thesis by fastforce
qed

theorem latency_routing_optimal_witness:
  "\<exists>st' h'. ppo_select_replica eager_params new_ppo (new_request 1 31 121 2 0) [0]
          [(1, new_server 1 Large 31 121 40320 33 148)] 0 (\<lambda>_. new_replica 2 1 2 3 0) = Inr (Some 0, st', h')
     \<and> has_room 0 (\<lambda>_. new_replica 2 1 2 3 0) 0"
proof -
  have room: "has_room 0 (\<lambda>_. new_replica 2 1 2 3 0) 0" by (simp add: new_replica_def occ_def)
  have l: "latency_aware_routing eager_params" by (simp add: eager_params_def plain_ppo_def)
  have "\<exists>st' h'. ppo_select_replica eager_params new_ppo (new_request 1 31 121 2 0) [0]
          [(1, new_server 1 Large 31 121 40320 33 148)] 0 (\<lambda>_. new_replica 2 1 2 3 0) = Inr (Some 0, st', h')"
    by (simp add: ppo_select_replica_def l dlookup_def sim_occupancy_eq sim_admit_def)
       (simp add: new_replica_def occ_def)
  then obtain st' h' where s: "ppo_select_replica eager_params new_ppo (new_request 1 31 121 2 0) [0]
          [(1, new_server 1 Large 31 121 40320 33 148)] 0 (\<lambda>_. new_replica 2 1 2 3 0) = Inr (Some 0, st', h')" by blast
  have "0 \<in> set [0 :: nat]" by simp
  from latency_routing_optimal [OF s l this room] s show ?thesis by blast
qed

end
