(* ===== verification/Accounts.thy ===== *)
theory Accounts
  imports Start
begin

text \<open>
  The books of a run: no request of the trace is lost. Every row of the trace is on the agenda
  as an arrival, on its way to a replica, or recorded by the metrics in exactly one class; at
  the end of a run all of them are recorded, because the run does not end before the last
  request that may still be on its way.
\<close>

section \<open>The ledger\<close>

definition is_request :: "event_type \<Rightarrow> bool" where
  "is_request ty \<longleftrightarrow> (case ty of RequestArrival _ \<Rightarrow> True | RequestRouted _ \<Rightarrow> True | _ \<Rightarrow> False)"

definition requests_of :: "'a engine \<Rightarrow> event multiset" where
  "requests_of E = filter_mset (\<lambda>e. is_request (ev_type e)) (mset (e_heap E))"

text \<open>Everything the books are about; an operation that leaves it alone is none of a request.\<close>

definition ledger :: "'a engine \<Rightarrow> event multiset \<times> nat \<times> bool \<times> int \<times> real" where
  "ledger E = (requests_of E, total_requests (e_metrics E), accounted (e_metrics E), request_seq E, e_cutoff E)"

named_theorems ledger_simps "operations that leave the ledger alone"

lemma requests_of_push:
  "requests_of (push t ty E) =
     (if is_request ty then add_mset \<lparr>ev_time = t, ev_seq = e_seq E + 1, ev_type = ty\<rparr> (requests_of E)
      else requests_of E)"
  by (simp add: requests_of_def push_def)

lemma ledger_push [ledger_simps]: "\<not> is_request ty \<Longrightarrow> ledger (push t ty E) = ledger E"
  by (simp add: ledger_def requests_of_push) (simp add: push_def)

lemma not_request [simp]:
  "\<not> is_request DecisionTick" "\<not> is_request (ServerBootDone k)" "\<not> is_request (ServerDrainDone k)"
  "\<not> is_request (ReplicaReady k s)" "\<not> is_request (ReplicaTerminated k s)" "\<not> is_request EnergyResync"
  by (simp_all add: is_request_def)

lemma ledger_put [ledger_simps]:
  "ledger (put_server k s E) = ledger E" "ledger (put_replica a r E) = ledger E"
  by (simp_all add: ledger_def requests_of_def put_server_def put_replica_def)

text \<open>Only \<open>record_request\<close> writes what the ledger reads of the metrics.\<close>

definition quiet :: "(metrics \<Rightarrow> metrics) \<Rightarrow> bool" where
  "quiet f \<longleftrightarrow> (\<forall>m. total_requests (f m) = total_requests m \<and> accounted (f m) = accounted m)"

lemma quiet_records [simp]:
  "quiet (record_transition t)" "quiet (record_scale_action k)" "quiet (record_decision_correctness k b)"
  "quiet (record_missed_opportunity k)" "quiet (record_blocked_opportunity k)"
  by (simp_all add: quiet_def)

lemma ledger_record [ledger_simps]: "quiet f \<Longrightarrow> ledger (record_metric f E) = ledger E"
  by (simp add: ledger_def requests_of_def record_metric_def quiet_def)

lemma ledger_update [ledger_simps]:
  "ledger (E\<lparr>e_store := h\<rparr>) = ledger E" "ledger (E\<lparr>e_algorithm := st\<rparr>) = ledger E"
  "ledger (E\<lparr>next_ref := a\<rparr>) = ledger E"
  "ledger (E\<lparr>replicas_by_service := d\<rparr>) = ledger E" "ledger (E\<lparr>pending_migrations := p\<rparr>) = ledger E"
  "ledger (E\<lparr>emergency_boot_for_service := b\<rparr>) = ledger E"
  "ledger (E\<lparr>last_tick_applied_actions := ta\<rparr>) = ledger E" "ledger (E\<lparr>last_tick_decisions := ta\<rparr>) = ledger E"
  "ledger (E\<lparr>service_last_scale_time := u\<rparr>) = ledger E" "ledger (E\<lparr>service_last_scale_up_time := u\<rparr>) = ledger E"
  "ledger (E\<lparr>low_util_since := l\<rparr>) = ledger E" "ledger (E\<lparr>high_util_since := l\<rparr>) = ledger E"
  "ledger (E\<lparr>energy_last_update := v\<rparr>) = ledger E" "ledger (E\<lparr>energy_at_last_tick := x\<rparr>) = ledger E"
  "ledger (E\<lparr>tick_response_times := xs\<rparr>) = ledger E" "ledger (E\<lparr>tick_violated := nv\<rparr>) = ledger E"
  "ledger (E\<lparr>tick_rejected := nv\<rparr>) = ledger E" "ledger (E\<lparr>tick_proximity_violated := nv\<rparr>) = ledger E"
  "ledger (E\<lparr>e_now := x\<rparr>) = ledger E" "ledger (E\<lparr>util_window_start_time := x\<rparr>) = ledger E"
  by (simp_all add: ledger_def requests_of_def)

lemma foldE_ledger:
  assumes "foldE f xs E = Inr E'" and "\<And>x u v. x \<in> set xs \<Longrightarrow> f x u = Inr v \<Longrightarrow> ledger v = ledger u"
  shows "ledger E' = ledger E"
  by (rule foldE_invariant [OF assms(1), where P = "\<lambda>u. ledger u = ledger E"]) (auto dest: assms(2))

lemma fold_ledger: "(\<And>x u. x \<in> set xs \<Longrightarrow> ledger (f x u) = ledger u) \<Longrightarrow> ledger (fold f xs E) = ledger E"
  by (rule fold_invariant_set [where P = "\<lambda>u. ledger u = ledger E"]) auto

section \<open>Replicas and servers are none of a request\<close>

lemma ledger_ready [ledger_simps]: "ledger (schedule_replica_ready a E) = ledger E"
  "ledger (ready_if_starting a E) = ledger E"
  by (simp_all add: schedule_replica_ready_def ready_if_starting_def ledger_simps Let_def)

lemma ledger_drain [ledger_simps]: "ledger (start_replica_drain a E) = ledger E"
  "ledger (drain_unmigrated ks a E) = ledger E"
  by (simp_all add: start_replica_drain_def drain_unmigrated_def ledger_simps Let_def)

lemma ledger_place: "place_replica W k svc E = Inr (p, E') \<Longrightarrow> ledger E' = ledger E"
  by (cases rule: place_replica_cases) (auto simp: Let_def ledger_simps)

lemma ledger_replica_ready: "handle_replica_ready k svc E = Inr E' \<Longrightarrow> ledger E' = ledger E"
  by (auto simp: handle_replica_ready_def bindE_Inr_iff Let_def ledger_simps split: option.splits)

lemma ledger_replica_terminated: "handle_replica_terminated k svc E = Inr E' \<Longrightarrow> ledger E' = ledger E"
  by (auto simp: handle_replica_terminated_def bindE_Inr_iff Let_def ledger_simps split: option.splits)

lemma ledger_boot: "start_server_boot k em E = Inr E' \<Longrightarrow> ledger E' = ledger E"
  by (cases rule: start_server_boot_cases) (auto simp: ledger_simps)

lemma ledger_boot_done: "handle_boot_done k E = Inr E' \<Longrightarrow> ledger E' = ledger E"
  by (auto simp: handle_boot_done_def bindE_Inr_iff Let_def ledger_simps fold_ledger split: if_splits)

lemma ledger_emergency: 
  assumes "emergency_boot_step offs d svc (res, E) = Inr (res', E')" shows "ledger E' = ledger E"
  using assms by (cases rule: emergency_boot_step_cases) (auto dest: ledger_boot simp: ledger_simps)

lemma ledger_trigger: 
  assumes "trigger_emergency_boot W ks d E = Inr E'" shows "ledger E' = ledger E"
proof -
  from assms obtain res where "foldE (emergency_boot_step (in_state SrvOff (e_servers E)) d) (w_iter_set W ks) ([], E) = Inr (res, E')"
    by (auto simp: trigger_emergency_boot_def bindE_Inr_iff)
  then have "ledger (snd (res, E')) = ledger E"
    by (rule foldE_invariant [where P = "\<lambda>p. ledger (snd p) = ledger E"]) (auto dest: ledger_emergency)
  then show ?thesis by simp
qed

lemma ledger_migrate: "migrate_step W k st E = Inr E' \<Longrightarrow> ledger E' = ledger E"
  by (auto simp: migrate_step_def bindE_Inr_iff ledger_simps dest: ledger_place split: option.splits)

lemma ledger_migrates: "foldE (migrate_step W k) steps E = Inr E' \<Longrightarrow> ledger E' = ledger E"
  by (erule foldE_ledger) (rule ledger_migrate)

lemma ledger_server_drain:
  assumes "start_server_drain W k E = Inr (b, E')" shows "ledger E' = ledger E"
  using assms
proof (cases rule: start_server_drain_cases)
  case (drain s proposed r steps E2)
  then show ?thesis using ledger_migrates [OF drain(7)] by (simp add: ledger_simps fold_ledger)
qed (simp_all add: ledger_trigger)

lemma ledger_drain_done: "handle_drain_done k E = Inr E' \<Longrightarrow> ledger E' = ledger E"
  by (auto simp: handle_drain_done_def bindE_Inr_iff Let_def ledger_simps split: if_splits)

section \<open>Decisions are none of a request\<close>

lemma ledger_note [ledger_simps]: "ledger (note_applied_provision a E) = ledger E"
  "ledger (note_applied_scale k d E) = ledger E" "ledger (account_opportunity kind x y z E) = ledger E"
  by (simp_all add: note_applied_provision_def note_applied_scale_def account_opportunity_def ledger_simps)

lemma ledger_reads: "reads E E' \<Longrightarrow> ledger E' = ledger E"
  by (simp add: reads_def same_core_def ledger_def requests_of_def)

lemma ledger_turn_on: "try_turn_on W sn nec act k E = Inr (b, E') \<Longrightarrow> ledger E' = ledger E"
  by (auto simp: try_turn_on_def bindE_Inr_iff ledger_simps dest: ledger_boot split: if_split_asm)

lemma ledger_turn_off: "try_turn_off W sn act k E = Inr (b, E') \<Longrightarrow> ledger E' = ledger E"
  by (auto simp: try_turn_off_def bindE_Inr_iff ledger_simps dest: ledger_server_drain split: if_split_asm)

lemma ledger_provisioning: 
  assumes "apply_provisioning W act sn E = Inr E'" shows "ledger E' = ledger E"
proof -
  obtain nec b E1 x y z x' y' z' where 
    "(case pa_server_id act of None \<Rightarrow> Inr (False, E\<lparr>last_tick_decisions := (last_tick_decisions E)\<lparr>ta_provision := Some act\<rparr>\<rparr>)
      | Some k \<Rightarrow> (case pa_action act of
          TurnOn \<Rightarrow> try_turn_on W sn nec act k (E\<lparr>last_tick_decisions := (last_tick_decisions E)\<lparr>ta_provision := Some act\<rparr>\<rparr>)
        | TurnOff \<Rightarrow> try_turn_off W sn act k (E\<lparr>last_tick_decisions := (last_tick_decisions E)\<lparr>ta_provision := Some act\<rparr>\<rparr>)
        | ProvNoChange \<Rightarrow> Inr (False, E\<lparr>last_tick_decisions := (last_tick_decisions E)\<lparr>ta_provision := Some act\<rparr>\<rparr>)))
      = Inr (b, E1)" "E' = account_opportunity KTurnOff x y z (account_opportunity KTurnOn x' y' z' E1)"
    using assms unfolding apply_provisioning_def Let_def bindE_Inr_iff by (auto simp: bindE_Inr_iff)
  then show ?thesis
    by (auto simp: ledger_simps dest!: ledger_turn_on ledger_turn_off split: option.splits provision_type.splits)
qed

lemma ledger_scale_up: "try_scale_up W nec k E = Inr (b, E') \<Longrightarrow> ledger E' = ledger E"
  by (auto simp: try_scale_up_def bindE_Inr_iff Let_def ledger_simps dest!: ledger_place split: option.splits)

lemma ledger_scale_down: "try_scale_down W nec k E = Inr (b, E') \<Longrightarrow> ledger E' = ledger E"
  by (auto simp: try_scale_down_def bindE_Inr_iff Let_def ledger_simps split: if_splits)

lemma ledger_scale:
  assumes "apply_scale_decision W k d sn E = Inr E'" shows "ledger E' = ledger E"
  using assms unfolding apply_scale_decision_def Let_def
  by (cases d) (auto simp: bindE_Inr_iff ledger_simps dest!: ledger_scale_up ledger_scale_down split: if_splits)

lemma ledger_decisions:
  assumes "take_decisions W ext sn E = Inr E'" shows "ledger E' = ledger E"
proof (cases ext)
  case None
  with assms obtain act st' E1 where 1: "apply_provisioning W act sn (E\<lparr>e_algorithm := st'\<rparr>) = Inr E1"
    "foldE (decide_and_scale W sn) ACTIVE_SERVICES E1 = Inr E'"
    by (auto simp: take_decisions_def bindE_Inr_iff)
  have "ledger v = ledger u" if "decide_and_scale W sn k u = Inr v" for k u v
    using that by (auto simp: decide_and_scale_def bindE_Inr_iff ledger_simps dest: ledger_scale)
  from foldE_ledger [OF 1(2) this] ledger_provisioning [OF 1(1)] show ?thesis by (simp add: ledger_simps)
next
  case (Some x)
  with assms obtain E1 where 1: "apply_provisioning W (fst x) sn E = Inr E1"
    "foldE (\<lambda>(k, d). apply_scale_decision W k d sn) (snd x) E1 = Inr E'"
    by (cases x) (auto simp: take_decisions_def bindE_Inr_iff)
  have "ledger E' = ledger E1" by (rule foldE_ledger [OF 1(2)]) (auto dest: ledger_scale)
  with ledger_provisioning [OF 1(1)] show ?thesis by simp
qed

lemma ledger_sustain: "update_sustain_tracking sn E = Inr E' \<Longrightarrow> ledger E' = ledger E"
  unfolding update_sustain_tracking_def
  by (erule foldE_ledger, erule track_server_shape) (simp add: ledger_simps)

lemma ledger_tick:
  assumes "handle_decision_tick W ext E = Inr (sn, E')" shows "ledger E' = ledger E"
proof -
  obtain m h sn0 E1 E2 E3 where m: "record_snapshot (w_np W) (e_now E) (e_servers E) (e_store E) (e_metrics E) = (m, h)"
    and b: "build_metrics_snapshot (E\<lparr>e_metrics := m, e_store := h\<rparr>) = (sn0, E1)"
    and 3: "update_sustain_tracking sn0 E1 = Inr E2"
    "take_decisions W ext sn (E2\<lparr>last_tick_decisions := no_actions, last_tick_applied_actions := no_actions\<rparr>) = Inr E3"
    "E' = reset_tick E3"
    by (rule decision_tick_shape [OF assms]) blast
  let ?E = "E\<lparr>e_metrics := m, e_store := h\<rparr>"
  have "total_requests m = total_requests (e_metrics E)" "accounted m = accounted (e_metrics E)"
    using total_requests_snapshot [of "w_np W" "e_now E" "e_servers E" "e_store E" "e_metrics E"]
      record_snapshot_frame(2) [of "w_np W" "e_now E" "e_servers E" "e_store E" "e_metrics E"]
    by (simp_all add: m)
  then have "ledger ?E = ledger E" by (simp add: ledger_def requests_of_def)
  moreover have "ledger (reset_tick E3) = ledger E3" by (simp add: reset_tick_def ledger_def requests_of_def)
  ultimately show ?thesis
    using ledger_reads [OF build_metrics_snapshot_reads(1) [OF b]] ledger_sustain [OF 3(1)] ledger_decisions [OF 3(2)]
    by (simp add: 3(3) ledger_simps)
qed

lemma ledger_advance: "ledger (advance_server t k E) = ledger E"
  by (simp add: advance_server_def Let_def split_beta ledger_simps split: option.splits)

lemma ledger_begin: "ledger (begin_event ev rest E) = ledger (E\<lparr>e_heap := rest\<rparr>)"
  by (simp add: begin_event_def advance_energy_to_def ledger_simps fold_ledger ledger_advance)

lemma ledger_placement: "initial_placement W E = Inr E' \<Longrightarrow> ledger E' = ledger E"
proof -
  assume "initial_placement W E = Inr E'"
  then obtain sel E1 where 1: "foldE (\<lambda>k. start_server_boot k False) sel E = Inr E1"
    "foldE (place_initial W sel) ACTIVE_SERVICES E1 = Inr E'"
    by (auto simp: initial_placement_def bindE_Inr_iff)
  have "ledger E1 = ledger E" by (rule foldE_ledger [OF 1(1)]) (rule ledger_boot)
  moreover have "ledger E' = ledger E1"
    by (rule foldE_ledger [OF 1(2)]) (auto simp: place_initial_def bindE_Inr_iff dest: ledger_place split: option.splits)
  ultimately show ?thesis by simp
qed

section \<open>A request on its way\<close>

text \<open>One request is recorded, in one class; nothing else about the books changes.\<close>

definition recorded :: "'a engine \<Rightarrow> 'a engine \<Rightarrow> bool" where
  "recorded E E' \<longleftrightarrow> requests_of E' = requests_of E \<and> total_requests (e_metrics E') = total_requests (e_metrics E) + 1
     \<and> (accounted (e_metrics E) \<longrightarrow> accounted (e_metrics E')) \<and> request_seq E' = request_seq E
     \<and> e_cutoff E' = e_cutoff E"

lemma recorded_ledger: "ledger E1 = ledger E \<Longrightarrow> recorded E1 E' \<Longrightarrow> recorded E E'"
  by (simp add: recorded_def ledger_def)

lemma recorded_finalize: "req_status req \<noteq> Pending \<Longrightarrow> recorded E (finalize_request req E)"
  by (simp add: recorded_def finalize_request_def record_metric_def requests_of_def total_record_request
      accounted_record_request)

lemma recorded_reject: "st \<noteq> Pending \<Longrightarrow> recorded E (reject_request req st E)"
  unfolding reject_request_def Let_def
  by (rule recorded_ledger [rotated], rule recorded_finalize) (simp_all add: ledger_simps)

lemma recorded_complete:
  assumes "complete_request req d adm E = Inr E'" shows "recorded E E'"
proof -
  obtain svc where svc: "service_of (req_service_id req) = Inr svc"
    using assms by (auto simp: complete_request_def bindE_Inr_iff)
  from assms show ?thesis
    by (auto simp: complete_request_def svc Let_def intro!: recorded_ledger [rotated, OF recorded_finalize]
        simp: ledger_simps)
qed

lemma recorded_serve:
  assumes "serve_request req a E = Inr E'" shows "recorded E E'"
proof -
  obtain E1 d req' adm r' where "E1 = E \<or> (\<exists>x. E1 = E\<lparr>tick_proximity_violated := x\<rparr>)"
    and E': "(case adm of None \<Rightarrow> Inr (reject_request req' RejectedQueueFull (put_replica a r' E1))
        | Some ad \<Rightarrow> complete_request req' d ad (put_replica a r' E1)) = Inr E'"
    by (rule serve_request_shape [OF assms]) blast
  then have "ledger E1 = ledger E" by (auto simp: ledger_simps)
  with E' show ?thesis
    by (auto intro: recorded_ledger [of "put_replica a r' E1"] recorded_reject recorded_complete
        simp: ledger_put split: option.splits)
qed

lemma recorded_routed:
  assumes "handle_routed W req E = Inr E'" shows "recorded E E'"
proof -
  obtain c st h where E': "(case c of
       None \<Rightarrow> Inr (reject_request req (if routing_candidates E (req_service_id req) = [] then RejectedNoReplica
                    else RejectedQueueFull) (E\<lparr>e_algorithm := st, e_store := h\<rparr>))
     | Some a \<Rightarrow> serve_request req a (E\<lparr>e_algorithm := st, e_store := h\<rparr>)) = Inr E'"
    by (rule handle_routed_shape [OF assms]) blast
  have "recorded (E\<lparr>e_algorithm := st, e_store := h\<rparr>) E'"
    using E' by (cases c) (auto intro: recorded_reject recorded_serve)
  then show ?thesis by (rule recorded_ledger [rotated]) (simp add: ledger_def requests_of_def)
qed

section \<open>The books of a reachable state\<close>

definition is_arrival :: "event_type \<Rightarrow> bool" where
  "is_arrival ty \<longleftrightarrow> (case ty of RequestArrival _ \<Rightarrow> True | _ \<Rightarrow> False)"

definition arrivals_of :: "'a engine \<Rightarrow> event multiset" where
  "arrivals_of E = filter_mset (\<lambda>e. is_arrival (ev_type e)) (mset (e_heap E))"

definition run_end :: "event_row list \<Rightarrow> real" where
  "run_end df = snd (trace_bounds df) + 2 * DISPATCH_OVERHEAD_MS / 1000 + DECISION_INTERVAL_SEC + SERVER_DRAIN_GRACE_SEC"

text \<open>
  Every row of the trace is waiting, on its way, or recorded; a waiting arrival is not later
  than the last row of the trace and a request on its way not later than the end of the run.
\<close>

definition books :: "event_row list \<Rightarrow> 'a engine \<Rightarrow> bool" where
  "books df E \<longleftrightarrow>
     size (requests_of E) + total_requests (e_metrics E) = length df
     \<and> int (size (arrivals_of E)) + request_seq E = int (length df)
     \<and> accounted (e_metrics E)
     \<and> (\<forall>e \<in># arrivals_of E. ev_time e \<le> snd (trace_bounds df))
     \<and> (\<forall>e \<in># requests_of E. ev_time e \<le> run_end df) \<and> e_cutoff E = run_end df"

lemma arrivals_requests: "arrivals_of E = filter_mset (\<lambda>e. is_arrival (ev_type e)) (requests_of E)"
  unfolding arrivals_of_def requests_of_def filter_filter_mset
  by (rule filter_mset_cong) (auto simp: is_arrival_def is_request_def split: event_type.splits)

lemma books_ledger: "ledger E' = ledger E \<Longrightarrow> books df E \<Longrightarrow> books df E'"
  by (simp add: books_def arrivals_requests ledger_def)

lemma trace_le_end: "row \<in> set df \<Longrightarrow> row_start row \<le> snd (trace_bounds df)"
proof -
  have "m0 \<le> fold (\<lambda>r m. max m (row_start r)) rows m0
        \<and> (\<forall>r \<in> set rows. row_start r \<le> fold (\<lambda>r m. max m (row_start r)) rows m0)" for rows m0
    by (induction rows arbitrary: m0) (auto, meson max.boundedE order_refl, meson max.bounded_iff order_refl)
  then show "row \<in> set df \<Longrightarrow> ?thesis" by (cases df) (auto simp: trace_bounds_def)
qed

lemma loaded_size:
  "size (mset (e_heap (fold (\<lambda>row. push (row_start row) (RequestArrival row)) rows E))) = size (mset (e_heap E)) + length rows"
  by (induction rows arbitrary: E) (simp_all add: push_def heappush_def)

lemma filter_mset_all: "(\<And>x. x \<in># M \<Longrightarrow> P x) \<Longrightarrow> filter_mset P M = M"
  by (induction M) auto

lemma primed_requests:
  assumes "new_engine df st = Inr E0"
  shows "requests_of (primed_core df E0) = mset (e_heap (primed_core df E0))"
    "arrivals_of (primed_core df E0) = mset (e_heap (primed_core df E0))"
    "size (mset (e_heap (primed_core df E0))) = length df"
    "e \<in># mset (e_heap (primed_core df E0)) \<Longrightarrow> ev_time e \<le> snd (trace_bounds df)"
proof -
  note new = new_engine_shape [OF assms]
  have "loaded df E0" by (simp add: loaded_def new by_key_def)
  then have l: "loaded df (primed_core df E0)"
    using loaded_all [of df E0] by (simp add: primed_core_def Let_def loaded_def)
  then show "requests_of (primed_core df E0) = mset (e_heap (primed_core df E0))"
    "arrivals_of (primed_core df E0) = mset (e_heap (primed_core df E0))"
    unfolding requests_of_def arrivals_of_def
    by (auto simp: loaded_def is_request_def is_arrival_def intro!: filter_mset_all dest: bspec)
  show "size (mset (e_heap (primed_core df E0))) = length df"
    using loaded_size [of df E0] by (simp add: primed_core_def Let_def new)
  show "e \<in># mset (e_heap (primed_core df E0)) \<Longrightarrow> ev_time e \<le> snd (trace_bounds df)"
    using l trace_le_end by (force simp: loaded_def)
qed

lemma prime_books:
  assumes new: "new_engine df st = Inr E0" and p: "prime W E0 = Inr E"
  shows "books df E"
proof -
  let ?P = "primed_core df E0"
  note n = new_engine_shape [OF new] and r = primed_requests [OF new]
  obtain E3 where 3: "initial_placement W ?P = Inr E3"
    and E: "E = (push (fst (trace_bounds df)) DecisionTick E3)
\<lparr>e_cutoff := run_end df\<rparr>"
    using p by (auto simp: prime_alt bindE_Inr_iff n(2) run_end_def)
  have P: "e_metrics ?P = new_metrics" "request_seq ?P = 0"
    by (simp_all add: primed_core_def Let_def fold_push_frame n)
  have l: "ledger E3 = ledger ?P" by (rule ledger_placement [OF 3])
  have "requests_of E = requests_of E3" by (simp add: E requests_of_def push_def)
  moreover have "requests_of E3 = requests_of ?P" "total_requests (e_metrics E3) = 0" "accounted (e_metrics E3)"
    "request_seq E3 = 0"
    using l P accounted_new by (simp_all add: ledger_def) (simp_all add: new_metrics_def)
  moreover have "e_metrics E = e_metrics E3" "request_seq E = request_seq E3" by (simp_all add: E push_def)
  moreover have "e_cutoff E = run_end df" by (simp add: E)
  moreover have "snd (trace_bounds df) \<le> run_end df" by (simp add: run_end_def config_constants)
  ultimately show ?thesis
    using r(3,4) arrivals_requests [of ?P] unfolding books_def arrivals_requests [of E] by (force simp: r(1,2))
qed

section \<open>An event keeps the books\<close>

text \<open>What taking an event from the agenda does to the two multisets.\<close>

lemma requests_begin:
  assumes "heappop (e_heap E) = Some (ev, rest)"
  shows "requests_of E = (if is_request (ev_type ev) then add_mset ev (requests_of (begin_event ev rest E))
                          else requests_of (begin_event ev rest E))"
    and "e_metrics (begin_event ev rest E) = e_metrics E" and "request_seq (begin_event ev rest E) = request_seq E"
proof -
  have h: "e_heap E = ev # rest" using assms by (simp add: heappop_def split: list.splits)
  then show "requests_of E = (if is_request (ev_type ev) then add_mset ev (requests_of (begin_event ev rest E))
                          else requests_of (begin_event ev rest E))"
    by (simp add: requests_of_def begin_event_frame)
  have "e_metrics (fold (advance_server t) ks E) = e_metrics E \<and> request_seq (fold (advance_server t) ks E) = request_seq E"
    for t ks and E :: "'a engine"
    by (rule fold_invariant_set [where P = "\<lambda>u. e_metrics u = e_metrics E \<and> request_seq u = request_seq E"])
      (auto simp: advance_server_def Let_def split_beta put_server_def split: option.splits)
  then show "e_metrics (begin_event ev rest E) = e_metrics E" "request_seq (begin_event ev rest E) = request_seq E"
    by (simp_all add: begin_event_def advance_energy_to_def)
qed

lemma routing_in_time:
  assumes "\<bar>x\<bar> \<le> 90" and "\<bar>u\<bar> \<le> 90"
  shows "2 * (BASE_LATENCY_MS + K_MS_PER_KM * haversine_km x y u v + DISPATCH_OVERHEAD_MS) / 1000
       \<le> 2 * DISPATCH_OVERHEAD_MS / 1000 + DECISION_INTERVAL_SEC"
proof -
  have "pi * EARTH_RADIUS_KM \<le> 4 * 6371" using pi_less_4 by (simp add: EARTH_RADIUS_KM_def)
  then have "haversine_km x y u v \<le> 25484" using haversine_km_le_antipodal [OF assms, of y v] by linarith
  then show ?thesis by (simp add: config_constants)
qed

lemma books_arrival:
  assumes h: "handle_arrival row (begin_event ev rest E) = Inr E'" and ty: "ev_type ev = RequestArrival row"
    and pop: "heappop (e_heap E) = Some (ev, rest)" and books: "books df E" and inv: "engine_inv {#} E"
  shows "books df E'"
proof -
  let ?B = "begin_event ev rest E"
  have B: "engine_inv (add_mset (ev_type ev) {#}) ?B" and row: "\<bar>row_lat row\<bar> \<le> 90"
    using begin_event_inv [OF inv pop] by (simp_all add: ty)
  obtain E1 p req where core: "same_core ?B E1" and p: "mean_position (dvals (e_servers ?B)) = Inr p"
    and d: "routing_delay_sec req = 2 * (BASE_LATENCY_MS + K_MS_PER_KM * haversine_km (row_lat row) (row_long row) (fst p) (snd p)
        + DISPATCH_OVERHEAD_MS) / 1000"
    and E': "E' = push (e_now E1 + routing_delay_sec req) (RequestRouted req) E1"
    and seq: "request_seq E1 = request_seq ?B + 1" "e_metrics E1 = e_metrics ?B"
    by (rule handle_arrival_shape [OF h]) blast
  let ?e = "\<lparr>ev_time = e_now E1 + routing_delay_sec req, ev_seq = e_seq E1 + 1, ev_type = RequestRouted req\<rparr>"
  have R1: "requests_of E1 = requests_of ?B" and now: "e_now E1 = ev_time ev"
    using core by (simp_all add: same_core_def requests_of_def begin_event_frame)
  have R: "requests_of E' = add_mset ?e (requests_of ?B)" "requests_of E = add_mset ev (requests_of ?B)"
    using requests_begin(1) [OF pop] by (simp_all add: E' requests_of_push R1 ty is_request_def)
  have fr: "e_metrics E' = e_metrics E" "request_seq E' = request_seq E + 1" "e_cutoff E' = e_cutoff E"
    using core requests_begin(2,3) [OF pop] by (simp_all add: E' push_def seq same_core_def begin_event_frame)
  have "\<forall>s \<in> set (dvals (e_servers ?B)). \<bar>srv_lat s\<bar> \<le> 90"
    by (rule servers_on_globe) (use B in \<open>simp add: engine_inv_def\<close>)
  then have "routing_delay_sec req \<le> 2 * DISPATCH_OVERHEAD_MS / 1000 + DECISION_INTERVAL_SEC"
    unfolding d by (intro routing_in_time row mean_lat_range [OF p])
  moreover have "ev_time ev \<le> snd (trace_bounds df)"
    using books R(2) by (simp add: books_def arrivals_requests ty is_arrival_def)
  ultimately have "ev_time ?e \<le> run_end df" by (simp add: now run_end_def config_constants)
  with books show ?thesis
    unfolding books_def arrivals_requests R fr by (simp add: ty is_arrival_def)
qed

lemma books_routed:
  assumes h: "handle_routed W req (begin_event ev rest E) = Inr E'" and ty: "ev_type ev = RequestRouted req"
    and pop: "heappop (e_heap E) = Some (ev, rest)" and books: "books df E"
  shows "books df E'"
proof -
  note b = requests_begin [OF pop] and r = recorded_routed [OF h]
  have "requests_of E = add_mset ev (requests_of E')" using b(1) r by (simp add: ty is_request_def recorded_def)
  with books r b(2,3) show ?thesis
    by (simp add: books_def arrivals_requests recorded_def ty is_arrival_def begin_event_frame)
qed

lemma ledger_begin_other: 
  assumes "heappop (e_heap E) = Some (ev, rest)" and "\<not> is_request (ev_type ev)"
  shows "ledger (begin_event ev rest E) = ledger E"
  using requests_begin [OF assms(1)] assms(2) by (simp add: ledger_def begin_event_frame)

lemma books_event:
  assumes h: "handle_event W (ev_type ev) (begin_event ev rest E) = Inr E'" 
    and pop: "heappop (e_heap E) = Some (ev, rest)" and books: "books df E" and inv: "engine_inv {#} E"
  shows "books df E'"
proof (cases "is_request (ev_type ev)")
  case True
  then consider row where "ev_type ev = RequestArrival row" | req where "ev_type ev = RequestRouted req"
    by (auto simp: is_request_def split: event_type.splits)
  then show ?thesis
    using h books_arrival [OF _ _ pop books inv] books_routed [OF _ _ pop books] by cases (simp_all add: handle_event_def)
next
  case False
  then have "ledger E' = ledger (begin_event ev rest E)"
    using h by (auto simp: handle_event_def is_request_def split: event_type.splits
        intro: ledger_boot_done ledger_drain_done ledger_replica_ready ledger_replica_terminated)
  with ledger_begin_other [OF pop False] books show ?thesis by (auto intro: books_ledger)
qed

context lawful_algorithm
begin

lemma reachable_books:
  assumes "reachable W df st E" and W: "w_alg W = A" "w_cfg W = C" and df: "sound_trace df"
  shows "books df E"
  using assms(1)
proof induction
  case (start E0 E)
  then show ?case by (rule prime_books)
next
  case (event E ev rest E')
  have "engine_inv {#} E" using reachable_inv [OF event(1) W df] by (simp add: reach_inv_def)
  from books_event [OF event(5,2,6) this] show ?case .
next
  case (tick E ev rest ext sn E1)
  have "ledger (push (e_now E1 + DECISION_INTERVAL_SEC) DecisionTick E1) = ledger E"
    using ledger_tick [OF tick(5)] ledger_begin_other [OF tick(2)] tick(4) by (simp add: ledger_simps)
  then show ?case by (rule books_ledger [OF _ tick(6)])
next
  case (peek E sn E')
  from books_ledger [OF ledger_reads [OF peek_snapshot_reads(1) [OF peek(2)]] peek(3)] show ?case .
qed

end

section \<open>The end of a run\<close>

definition over :: "'a engine \<Rightarrow> bool" where
  "over E \<longleftrightarrow> (case heappop (e_heap E) of None \<Rightarrow> True | Some (ev, _) \<Rightarrow> e_cutoff E < ev_time ev)"

lemma step_loop_over:
  assumes "step_loop fuel W ext E = Some (Inr (sn, True, E'))" and "reachable W df st E"
  shows "\<exists>E1. reachable W df st E1 \<and> over E1 \<and> e_metrics E' = e_metrics E1 \<and> e_servers E' = e_servers E1"
  using assms
proof (induction fuel arbitrary: E)
  case (Suc fuel)
  show ?case
  proof (cases "over E")
    case True
    with Suc.prems(1) have "e_metrics E' = e_metrics E \<and> e_servers E' = e_servers E"
      by (auto simp: over_def split: option.splits prod.splits)
    with True Suc.prems(2) show ?thesis by blast
  next
    case False
    then obtain ev rest where pop: "heappop (e_heap E) = Some (ev, rest)" "ev_time ev \<le> e_cutoff E"
      by (auto simp: over_def split: option.splits)
    with Suc.prems(1) obtain E1 where ty: "ev_type ev \<noteq> DecisionTick"
      and h: "handle_event W (ev_type ev) (begin_event ev rest E) = Inr E1"
      and r: "step_loop fuel W ext E1 = Some (Inr (sn, True, E'))"
      by (auto simp: bindE_Inr_iff Let_def split: sum.splits if_splits)
    show ?thesis by (rule Suc.IH [OF r reachable.event [OF Suc.prems(2) pop ty h]])
  qed
qed simp

text \<open>Nothing of a request waits any more: all of it would be before the end of the run.\<close>

lemma over_no_requests:
  assumes "over E" and "books df E" and "agenda_inv E"
  shows "requests_of E = {#}"
proof (rule ccontr)
  assume "requests_of E \<noteq> {#}"
  then obtain e where e: "e \<in># requests_of E" by blast
  then have "e \<in> set (e_heap E)" by (simp add: requests_of_def)
  then obtain ev rest where pop: "heappop (e_heap E) = Some (ev, rest)" by (cases "e_heap E") (auto simp: heappop_def)
  have ok: "by_key (e_heap E)" using assms(3) by (simp add: agenda_inv_def)
  have "ev_time ev \<le> ev_time e"
    by (rule ev_key_le_time, rule heap.pop_min [OF ok pop]) (use \<open>e \<in> set (e_heap E)\<close> in simp)
  moreover have "ev_time e \<le> e_cutoff E" using assms(2) e by (simp add: books_def)
  ultimately show False using assms(1) pop by (simp add: over_def)
qed

context lawful_algorithm
begin

lemma run_loop_over:
  assumes W: "w_alg W = A" "w_cfg W = C" and "run_loop n W E = Some (Inr E')"
    and "reachable W df st E" and df: "sound_trace df"
  shows "\<exists>E1. reachable W df st E1 \<and> over E1 \<and> e_metrics E' = e_metrics E1 \<and> e_servers E' = e_servers E1"
  using assms(3,4)
proof (induction n arbitrary: E)
  case (Suc n)
  then obtain sn d E2 where s: "step W None E = Some (Inr (sn, d, E2))" and r: "if d then E2 = E' else run_loop n W E2 = Some (Inr E')"
    by (auto split: option.splits sum.splits if_splits)
  note loop = s [unfolded step_def]
  show ?case
  proof (cases d)
    case True
    with loop have "step_loop (agenda_weight E + 1) W None E = Some (Inr (sn, True, E2))" by (simp only:)
    from step_loop_over [OF this Suc.prems(2)] True r show ?thesis by (simp only: if_True)
  next
    case False
    obtain t where "engine_inv {#} E" "tick_times E = {#t#}"
      using reachable_inv [OF Suc.prems(2) W df] by (auto simp: reach_inv_def)
    from step_loop_tick [OF W loop Suc.prems(2) this] False have "reachable W df st E2" by simp
    with r False show ?thesis by (intro Suc.IH) simp_all
  qed
qed simp

lemma run_over:
  assumes W: "w_alg W = A" "w_cfg W = C" and new: "new_engine df st = Inr E0" and df: "sound_trace df"
    and run: "run W E0 = Some (Inr rep)"
  shows "\<exists>E. reachable W df st E \<and> over E \<and> rep = finalize (w_np W) (e_servers E) (e_metrics E)"
proof -
  obtain E1 E2 where p: "prime W E0 = Inr E1" and l: "run_loop (tick_bound E1 + 1) W E1 = Some (Inr E2)"
    and rep: "rep = finalize (w_np W) (e_servers E2) (e_metrics E2)"
    using run by (auto simp: run_def split: sum.splits option.splits)
  from run_loop_over [OF W l reachable.start [OF new p] df] rep show ?thesis by auto
qed

end

section \<open>Properties\<close>

text \<open>
  C7. No request is lost or counted twice: in every reachable state each row of the trace is on
  the agenda, as an arrival or as a request being routed, or recorded in exactly one class of
  the metrics; the numbers given out are the arrivals handled; and no request on the agenda is
  later than the end of the run.
\<close>

theorem requests_conserved:
  assumes "lawful_algorithm (w_alg W) (w_cfg W)" and "sound_trace df" and "reachable W df st E"
  shows "size (requests_of E) + total_requests (e_metrics E) = length df
    \<and> int (size (arrivals_of E)) + request_seq E = int (length df)
    \<and> total_requests (e_metrics E) = completed_requests (e_metrics E) + rejected_queue_full (e_metrics E)
          + rejected_no_replica (e_metrics E) + lost_no_completion (e_metrics E)
    \<and> length (response_times (e_metrics E)) = completed_requests (e_metrics E)
    \<and> deadline_violations (e_metrics E) \<le> total_requests (e_metrics E)
    \<and> (\<forall>e. e \<in># requests_of E \<longrightarrow> ev_time e \<le> e_cutoff E)"
  using lawful_algorithm.reachable_books [OF assms(1,3) refl refl assms(2)]
  by (simp add: books_def accounted_def)

theorem requests_conserved_witness:
  "\<exists>E. reachable sample_world [\<lparr>row_start = 0, row_lat = 31, row_long = 121, row_service_id = 1\<rparr>] None E
     \<and> size (requests_of E) + total_requests (e_metrics E) = 1"
proof -
  let ?df = "[\<lparr>row_start = 0, row_lat = 31, row_long = 121, row_service_id = 1\<rparr>]"
  obtain E where r: "reachable sample_world ?df None E" using sample_start by blast
  have "sound_trace ?df" by (simp add: sound_trace_def)
  from requests_conserved [OF sample_lawful this r] r show ?thesis by auto
qed

end
