(* ===== verification/Alive.thy ===== *)
theory Alive
  imports Accounts
begin

text \<open>
  The system does not go dark: once the servers of the initial placement have booted, a server
  is active at every moment, since the only operation that takes a server out of service is
  the \<open>TURN_OFF\<close> of a tick, which keeps the last one. Before that no request has been rejected
  when the first tick asks for decisions.
\<close>

section \<open>What an operation leaves running\<close>

text \<open>No event is lost, and no active server stops except those of \<open>K\<close>.\<close>

definition spares :: "int set \<Rightarrow> 'a engine \<Rightarrow> 'a engine \<Rightarrow> bool" where
  "spares K E E' \<longleftrightarrow> set (e_heap E) \<subseteq> set (e_heap E')
     \<and> (\<forall>k. k \<notin> K \<longrightarrow> in_srv_state E k SrvActive \<longrightarrow> in_srv_state E' k SrvActive)"

named_theorems spares_intros "operations that stop no active server"

lemma spares_refl [spares_intros]: "spares K E E"
  by (simp add: spares_def)

lemma spares_trans: "spares K E E' \<Longrightarrow> spares K E' E'' \<Longrightarrow> spares K E E''"
  by (auto simp: spares_def)

lemma spares_mono: "spares {} E E' \<Longrightarrow> spares K E E'"
  by (auto simp: spares_def)

lemma spares_push [spares_intros]: "spares K E E' \<Longrightarrow> spares K E (push t ty E')"
  by (auto simp: spares_def) (auto simp: push_def)

lemma spares_put [spares_intros]:
  "spares K E E' \<Longrightarrow> spares K E (put_replica a r E')"
  "spares K E E' \<Longrightarrow> k \<in> K \<or> srv_state s = SrvActive \<or> \<not> in_srv_state E k SrvActive \<Longrightarrow> spares K E (put_server k s E')"
  by (auto simp: spares_def in_srv_state_put_server)

lemma spares_core: "same_core E1 E2 \<Longrightarrow> spares K E E1 \<Longrightarrow> spares K E E2"
  using in_srv_state_core [of E1 E2] by (simp add: spares_def same_core_def)

lemma spares_record [spares_intros]: "spares K E E' \<Longrightarrow> spares K E (record_metric f E')"
  by (rule spares_core [OF same_core_record_metric])

lemma spares_update [spares_intros]:
  "spares K E E' \<Longrightarrow> spares K E (E'\<lparr>e_store := h\<rparr>)"
  "spares K E E' \<Longrightarrow> spares K E (E'\<lparr>next_ref := a\<rparr>)"
  "spares K E E' \<Longrightarrow> spares K E (E'\<lparr>replicas_by_service := d\<rparr>)"
  "spares K E E' \<Longrightarrow> spares K E (E'\<lparr>pending_migrations := p\<rparr>)"
  "spares K E E' \<Longrightarrow> spares K E (E'\<lparr>emergency_boot_for_service := b\<rparr>)"
  "spares K E E' \<Longrightarrow> spares K E (E'\<lparr>e_algorithm := st\<rparr>)"
  by (simp_all add: spares_def in_srv_state_def)

lemma foldE_spares:
  assumes "foldE f xs E = Inr E'" and "\<And>x u v. x \<in> set xs \<Longrightarrow> f x u = Inr v \<Longrightarrow> spares K u v"
  shows "spares K E E'"
  by (rule foldE_invariant [OF assms(1), where P = "spares K E"])
    (auto intro: spares_refl spares_trans assms(2))

lemma fold_spares: "(\<And>x u. x \<in> set xs \<Longrightarrow> spares K u (f x u)) \<Longrightarrow> spares K E (fold f xs E)"
  by (rule fold_invariant_set [where P = "spares K E"]) (auto intro: spares_refl spares_trans)

section \<open>Replicas, boots and drains\<close>

lemma spares_ready: "spares K E (schedule_replica_ready a E)" "spares K E (ready_if_starting a E)"
  by (auto simp: schedule_replica_ready_def ready_if_starting_def Let_def intro!: spares_intros)

lemma spares_drain: "spares K E (start_replica_drain a E)" "spares K E (drain_unmigrated ks a E)"
  by (auto simp: start_replica_drain_def drain_unmigrated_def Let_def intro!: spares_intros)

lemma spares_place:
  assumes "place_replica W k svc E = Inr (p, E')" shows "spares K E E'"
  using assms
proof (cases rule: place_replica_cases)
  case (placed s info et)
  have k: "srv_state s \<noteq> SrvActive \<Longrightarrow> \<not> in_srv_state E k SrvActive"
    using placed(1) by (auto simp: in_srv_state_def)
  show ?thesis unfolding placed(6) Let_def
    by (cases "srv_state s = SrvActive")
      (auto simp: k intro!: spares_trans [OF _ spares_ready(1)] spares_intros)
qed (simp add: spares_refl)

lemma spares_replica_ready:
  assumes "handle_replica_ready k svc E = Inr E'" shows "spares K E E'"
  using assms
proof (cases rule: handle_replica_ready_cases)
  case (ready a E2)
  have "spares K E E2" unfolding ready(3) by (intro spares_intros)
  with ready(4) show ?thesis by (auto intro: spares_trans [OF _ spares_drain(1)])
qed (simp add: spares_refl)

lemma spares_replica_terminated: "handle_replica_terminated k svc E = Inr E' \<Longrightarrow> spares K E E'"
  by (auto simp: handle_replica_terminated_def server_at_def dlookup_Inr_iff bindE_Inr_iff Let_def in_srv_state_def
      intro!: spares_intros split: option.splits)

lemma spares_boot: "start_server_boot k em E = Inr E' \<Longrightarrow> spares K E E'"
  by (cases rule: start_server_boot_cases) (auto simp: in_srv_state_def intro!: spares_intros)

lemma spares_boot_done: 
  assumes "handle_boot_done k E = Inr E'" shows "spares K E E' \<and> in_srv_state E' k SrvActive"
  using assms
proof (rule handle_boot_done_shape)
  fix s E2 assume s: "dget (e_servers E) k = Some s"
    and E2: "E2 = fold ready_if_starting (dvals (hosted_replicas s))
            (put_server k (s\<lparr>srv_state := SrvActive, last_transition_time := e_now E\<rparr>) E)"
    and E': "same_core E2 E' \<or> (\<exists>E3. same_core E2 E3 \<and>
        E' = put_server k (s\<lparr>srv_state := SrvActive, last_transition_time := e_now E, is_emergency_boot := False\<rparr>) E3)"
  have "spares K E E2" unfolding E2
    by (rule spares_trans [OF _ fold_spares]) (auto intro!: spares_intros spares_ready)
  moreover have "in_srv_state E2 k SrvActive" unfolding in_srv_state_def E2 fold_ready_frame by (simp add: dict_simps)
  ultimately show ?thesis
    using E' by (auto simp: in_srv_state_core in_srv_state_put_server intro!: spares_intros intro: spares_core)
qed

lemma spares_trigger:
  assumes "trigger_emergency_boot W ks d E = Inr E'" shows "spares K E E'"
proof -
  from assms obtain res where "foldE (emergency_boot_step (in_state SrvOff (e_servers E)) d) (w_iter_set W ks) ([], E) = Inr (res, E')"
    by (auto simp: trigger_emergency_boot_def bindE_Inr_iff)
  then have "spares K E (snd (res, E'))"
  proof (rule foldE_invariant [where P = "\<lambda>p. spares K E (snd p)"])
    fix svc u v assume u: "spares K E (snd u)"
      and "emergency_boot_step (in_state SrvOff (e_servers E)) d svc u = Inr v"
    then have "emergency_boot_step (in_state SrvOff (e_servers E)) d svc (fst u, snd u) = Inr (fst v, snd v)" by simp
    then show "spares K E (snd v)"
    proof (cases rule: emergency_boot_step_cases)
      case (boot t m)
      have "spares K E ((snd u)\<lparr>emergency_boot_for_service := m\<rparr>)" using u by (rule spares_intros)
      then show ?thesis using spares_boot [OF boot] by (rule spares_trans)
    qed (use u in simp)
  qed (simp add: spares_refl)
  then show ?thesis by simp
qed

lemma spares_migrate: "migrate_step W k st E = Inr E' \<Longrightarrow> spares K E E'"
  by (erule migrate_step_cases) (rule spares_core, assumption, erule spares_place)

lemma spares_server_drain:
  assumes "start_server_drain W k E = Inr (b, E')" shows "spares {k} E E'"
  using assms
proof (cases rule: start_server_drain_cases)
  case (drain s proposed r steps E2)
  have "spares {k} E E2"
    by (rule spares_trans [OF _ foldE_spares [OF drain(7)]]) (auto intro!: spares_intros intro: spares_migrate)
  then show ?thesis unfolding drain(8)
    by (intro spares_push) (auto intro: spares_trans [OF _ fold_spares] spares_drain)
qed (auto intro: spares_refl spares_trigger)

lemma spares_drain_done: 
  assumes "handle_drain_done k E = Inr E'" and "\<not> in_srv_state E k SrvActive" shows "spares K E E'"
  using assms by (auto simp: handle_drain_done_def bindE_Inr_iff Let_def intro!: spares_intros split: if_splits)

section \<open>A tick keeps the last server\<close>

definition lit :: "'a engine \<Rightarrow> bool" where
  "lit E \<longleftrightarrow> 1 \<le> n_active E"

lemma lit_iff: 
  assumes "wf_servers (e_servers E)" shows "lit E \<longleftrightarrow> (\<exists>k. in_srv_state E k SrvActive)"
proof -
  have "lit E \<longleftrightarrow> (\<exists>s. s \<in> set (in_state SrvActive (e_servers E)))"
    unfolding lit_def n_active_def by (cases "in_state SrvActive (e_servers E)") auto
  also have "\<dots> \<longleftrightarrow> (\<exists>k. in_srv_state E k SrvActive)"
    using in_state_get [OF assms] by (force simp: in_srv_state_def in_state_def dest: dget_mem)
  finally show ?thesis .
qed

lemma other_active:
  assumes "wf_servers (e_servers E)" and "1 < n_active E"
  shows "\<exists>k. k \<noteq> sid \<and> in_srv_state E k SrvActive"
proof (rule ccontr)
  let ?ss = "in_state SrvActive (e_servers E)"
  assume "\<not> ?thesis"
  then have "srv_id s = sid" if "s \<in> set ?ss" for s
    using in_state_get [OF assms(1) that] by (auto simp: in_srv_state_def)
  then have "set (map srv_id ?ss) \<subseteq> {sid}" by auto
  moreover have "distinct (map srv_id ?ss)"
  proof -
    have "map srv_id (dvals (e_servers E)) = dkeys (e_servers E)"
      using assms(1) by (auto simp: wf_servers_def)
    then have "distinct (map srv_id (dvals (e_servers E)))" using assms(1) by (simp only: wf_servers_def)
    then show ?thesis unfolding in_state_def by (rule distinct_map_filter)
  qed
  ultimately have "length (map srv_id ?ss) \<le> 1"
    by (metis card_mono card_1_singleton_iff distinct_card finite.emptyI finite.insertI is_singletonI is_singleton_altdef One_nat_def)
  then show False using assms(2) by (simp add: n_active_def)
qed

text \<open>No event is lost and the system stays lit.\<close>

definition glows :: "'a engine \<Rightarrow> 'a engine \<Rightarrow> bool" where
  "glows E E' \<longleftrightarrow> set (e_heap E) \<subseteq> set (e_heap E')
     \<and> ((\<exists>k. in_srv_state E k SrvActive) \<longrightarrow> (\<exists>k. in_srv_state E' k SrvActive))"

lemma glowsI: "spares {} E E' \<Longrightarrow> glows E E'"
  by (auto simp: glows_def spares_def)

lemma glows_trans: "glows E E' \<Longrightarrow> glows E' E'' \<Longrightarrow> glows E E''"
  by (auto simp: glows_def)

lemma glows_core: "same_core E E' \<Longrightarrow> glows E E'"
  by (rule glowsI, erule spares_core, rule spares_refl)

lemma spares_turn_on: "try_turn_on W sn nec act sid E = Inr (b, E') \<Longrightarrow> spares K E E'"
  by (cases rule: try_turn_on_cases) (auto intro: spares_refl spares_core spares_boot)

lemma turn_off_glows:
  assumes "try_turn_off W sn act sid E = Inr (b, E')" and wf: "wf_servers (e_servers E)"
  shows "glows E E'"
  using assms(1)
proof (cases rule: try_turn_off_cases)
  case (drain d E1)
  have "spares {sid} E E'" by (rule spares_core [OF drain(2) spares_server_drain [OF drain(1)]])
  with other_active [OF wf drain(3), of sid] show ?thesis by (auto simp: spares_def glows_def)
qed (simp add: glows_core)

lemma provisioning_glows:
  assumes "apply_provisioning W act sn E = Inr E'" and wf: "wf_servers (e_servers E)"
  shows "glows E E'"
  using assms(1)
proof (cases rule: apply_provisioning_cases)
  case (on nec sid b E1 E2)
  then show ?thesis by (blast intro: glows_trans glows_core glowsI spares_turn_on)
next
  case (off sid b E1 E2)
  then have "wf_servers (e_servers E1)" using wf by (simp add: same_core_def)
  with off show ?thesis by (blast intro: glows_trans glows_core turn_off_glows)
qed (rule glows_core)

lemma spares_scale_up: "try_scale_up W nec svc E = Inr (b, E') \<Longrightarrow> spares K E E'"
  by (cases rule: try_scale_up_cases) (auto intro: spares_refl spares_core spares_place)

lemma spares_scale_down: "try_scale_down W nec svc E = Inr (b, E') \<Longrightarrow> spares K E E'"
  by (cases rule: try_scale_down_cases)
    (auto intro!: spares_intros intro: spares_core spares_trans [OF _ spares_drain(1)])

lemma spares_scale: "apply_scale_decision W svc d sn E = Inr E' \<Longrightarrow> spares K E E'"
  by (cases rule: apply_scale_cases)
    (blast intro: spares_refl spares_trans spares_core spares_scale_up spares_scale_down)+

lemma decisions_glow:
  assumes t: "take_decisions W ext sn E = Inr E'" and wf: "wf_servers (e_servers E)" shows "glows E E'"
proof (cases ext)
  case None
  with t obtain act st' E1 where 1: "apply_provisioning W act sn (E\<lparr>e_algorithm := st'\<rparr>) = Inr E1"
    "foldE (decide_and_scale W sn) ACTIVE_SERVICES E1 = Inr E'"
    by (auto simp: take_decisions_def bindE_Inr_iff)
  have "spares {} E1 E'"
  proof (rule foldE_spares [OF 1(2)])
    fix svc u v assume "decide_and_scale W sn svc u = Inr v"
    then obtain d st' where "apply_scale_decision W svc d sn (u\<lparr>e_algorithm := st'\<rparr>) = Inr v"
      by (auto simp: decide_and_scale_def bindE_Inr_iff)
    moreover have "same_core u (u\<lparr>e_algorithm := st'\<rparr>)" by (simp add: same_core_def)
    ultimately show "spares {} u v" by (blast intro: spares_trans spares_core spares_refl spares_scale)
  qed
  moreover have "glows E (E\<lparr>e_algorithm := st'\<rparr>)" by (rule glows_core) (simp add: same_core_def)
  moreover have "glows (E\<lparr>e_algorithm := st'\<rparr>) E1" by (rule provisioning_glows [OF 1(1)]) (simp add: wf)
  ultimately show ?thesis by (blast intro: glows_trans glowsI)
next
  case (Some x)
  with t obtain E1 where 1: "apply_provisioning W (fst x) sn E = Inr E1"
    "foldE (\<lambda>(svc_id, d). apply_scale_decision W svc_id d sn) (snd x) E1 = Inr E'"
    by (cases x) (auto simp: take_decisions_def bindE_Inr_iff)
  have "spares {} E1 E'" by (rule foldE_spares [OF 1(2)]) (auto intro: spares_scale)
  then show ?thesis using provisioning_glows [OF 1(1) wf] by (blast intro: glows_trans glowsI)
qed

lemma reads_glows:
  assumes "reads E E'" shows "glows E E'"
proof -
  have "same_core (E\<lparr>e_store := e_store E'\<rparr>) E'" using assms by (simp add: reads_def)
  moreover have "glows E (E\<lparr>e_store := e_store E'\<rparr>)" by (simp add: glows_def in_srv_state_def)
  ultimately show ?thesis by (blast intro: glows_trans glows_core)
qed

lemma tick_glows:
  assumes t: "handle_decision_tick W ext E = Inr (sn, E')" and wf: "wf_servers (e_servers E)"
  shows "glows E E'"
proof -
  obtain m h sn0 E1 E2 E3 where 
    2: "build_metrics_snapshot (E\<lparr>e_metrics := m, e_store := h\<rparr>) = (sn0, E1)"
    and 3: "update_sustain_tracking sn0 E1 = Inr E2"
    "take_decisions W ext sn (E2\<lparr>last_tick_decisions := no_actions, last_tick_applied_actions := no_actions\<rparr>) = Inr E3"
    "E' = reset_tick E3"
    by (rule decision_tick_shape [OF t]) blast
  let ?E = "E\<lparr>e_metrics := m, e_store := h\<rparr>"
  let ?E2 = "E2\<lparr>last_tick_decisions := no_actions, last_tick_applied_actions := no_actions\<rparr>"
  note r = build_metrics_snapshot_reads(1) [OF 2] and c = update_sustain_tracking_core [OF 3(1)]
  have "glows E ?E" by (simp add: glows_def in_srv_state_def)
  moreover have "glows E1 ?E2" using c by (intro glows_core) (simp add: same_core_def)
  moreover have "wf_servers (e_servers ?E2)" using r c wf by (simp add: reads_def same_core_def)
  then have "glows ?E2 E3" by (rule decisions_glow [OF 3(2)])
  moreover have "glows E3 E'" unfolding 3(3) by (rule glows_core) (simp add: same_core_def reset_tick_def)
  ultimately show ?thesis using reads_glows [OF r] by (meson glows_trans)
qed

section \<open>An event stops no active server\<close>

lemma spares_complete:
  assumes "complete_request req d adm E = Inr E'" shows "spares K E E'"
  using assms by (rule complete_request_shape) (auto intro: spares_core spares_push spares_refl)

lemma spares_serve:
  assumes "serve_request req a E = Inr E'" shows "spares K E E'"
proof -
  obtain E1 adm r' req1 d where E1: "E1 = E \<or> (\<exists>x. E1 = E\<lparr>tick_proximity_violated := x\<rparr>)"
    and E': "(case adm of None \<Rightarrow> Inr (reject_request req1 RejectedQueueFull (put_replica a r' E1))
               | Some ad \<Rightarrow> complete_request req1 d ad (put_replica a r' E1)) = Inr E'"
    by (rule serve_request_shape [OF assms]) blast
  have core: "same_core E E1" using E1 by (auto simp: same_core_def)
  have 1: "spares K E (put_replica a r' E1)" by (intro spares_put(1) spares_core [OF core] spares_refl)
  show ?thesis
  proof (cases adm)
    case None
    with E' show ?thesis using spares_core [OF reject_request_core 1] by auto
  next
    case (Some ad)
    with E' show ?thesis using spares_trans [OF 1 spares_complete] by auto
  qed
qed

lemma spares_routed:
  assumes "handle_routed W req E = Inr E'" shows "spares K E E'"
proof -
  obtain c st h where E': "(case c of
       None \<Rightarrow> Inr (reject_request req (if routing_candidates E (req_service_id req) = [] then RejectedNoReplica
                    else RejectedQueueFull) (E\<lparr>e_algorithm := st, e_store := h\<rparr>))
     | Some a \<Rightarrow> serve_request req a (E\<lparr>e_algorithm := st, e_store := h\<rparr>)) = Inr E'"
    by (rule handle_routed_shape [OF assms]) blast
  have 1: "spares K E (E\<lparr>e_algorithm := st, e_store := h\<rparr>)" by (intro spares_intros)
  show ?thesis
  proof (cases c)
    case None
    with E' show ?thesis using spares_core [OF reject_request_core 1] by auto
  next
    case (Some a)
    with E' show ?thesis using spares_trans [OF 1 spares_serve] by auto
  qed
qed

lemma spares_arrival: "handle_arrival row E = Inr E' \<Longrightarrow> spares K E E'"
  by (erule handle_arrival_shape) (auto intro: spares_push spares_core spares_refl)

lemma spares_event:
  assumes "handle_event W ty E = Inr E'" and "\<And>k. ty = ServerDrainDone k \<Longrightarrow> \<not> in_srv_state E k SrvActive"
  shows "spares K E E'"
  using assms
  by (cases ty) (auto simp: handle_event_def spares_refl spares_arrival spares_routed spares_drain_done
      spares_replica_ready spares_replica_terminated dest: spares_boot_done)

lemma advance_states: "in_srv_state (advance_server t k E) = in_srv_state E"
proof (cases "dget (e_servers E) k")
  case (Some s)
  then have "in_srv_state (put_server k (s\<lparr>cumulative_energy_joule := a, cumulative_busy_cpu_seconds := b\<rparr>) (E\<lparr>e_store := h, energy_last_update := d\<rparr>)) = in_srv_state E"
    for a b h d by (simp add: fun_eq_iff in_srv_state_put_server) (simp add: in_srv_state_def)
  with Some show ?thesis by (simp add: advance_server_def Let_def split_beta)
qed (simp add: advance_server_def)

lemma begin_event_states: "in_srv_state (begin_event ev rest E) = in_srv_state E"
proof -
  have "in_srv_state (fold (advance_server t) ks E) = in_srv_state E" for t ks and E :: "'a engine"
    by (rule fold_invariant_set [where P = "\<lambda>u. in_srv_state u = in_srv_state E"]) (simp_all add: advance_states)
  then show ?thesis by (simp add: begin_event_def advance_energy_to_def in_srv_state_def fun_eq_iff)
qed

text \<open>A drain that ends is one of a draining server, so what is active stays active.\<close>

lemma event_spares:
  assumes h: "handle_event W (ev_type ev) (begin_event ev rest E) = Inr E'" and inv: "engine_inv {#} E"
    and pop: "heappop (e_heap E) = Some (ev, rest)"
  shows "spares {} (begin_event ev rest E) E'"
proof (rule spares_event [OF h])
  fix k assume ty: "ev_type ev = ServerDrainDone k"
  have "engine_inv (add_mset (ev_type ev) {#}) (begin_event ev rest E)" by (rule begin_event_inv(1) [OF inv pop])
  then have "pend (add_mset (ServerDrainDone k) {#}) (begin_event ev rest E) (ServerDrainDone k)
      = (if in_srv_state (begin_event ev rest E) k SrvDraining then 1 else 0)"
    by (simp add: engine_inv_def life_inv_def ty)
  then have "in_srv_state (begin_event ev rest E) k SrvDraining" by (simp only: pend_add split: if_splits) simp_all
  then show "\<not> in_srv_state (begin_event ev rest E) k SrvActive" by (auto simp: in_srv_state_def)
qed

section \<open>The start of a run\<close>

definition boot_waits :: "real \<Rightarrow> 'a engine \<Rightarrow> bool" where
  "boot_waits s E \<longleftrightarrow> (\<exists>e \<in> set (e_heap E). (\<exists>k. ev_type e = ServerBootDone k) \<and> ev_time e \<le> s + BOOT_DELAY_SEC)"

text \<open>Nothing has happened yet but arrivals: no rejection is counted and no replica is ready.\<close>

definition cold :: "real \<Rightarrow> 'a engine \<Rightarrow> bool" where
  "cold s E \<longleftrightarrow> (\<forall>e \<in> set (e_heap E). ev_time e \<le> s \<longrightarrow> is_arrival (ev_type e) \<or> ev_type e = DecisionTick)
     \<and> tick_rejected E = [] \<and> tick_proximity_violated E = []
     \<and> (\<forall>svc. sum_list (rt_rejected (rolling_rejection E) svc) = 0) \<and> (\<forall>svc. ready_of E svc = [])"

definition settles :: "'a engine \<Rightarrow> 'a engine \<Rightarrow> bool" where
  "settles E E' \<longleftrightarrow> e_now E' = e_now E \<and> tick_rejected E' = tick_rejected E
     \<and> tick_proximity_violated E' = tick_proximity_violated E \<and> rolling_rejection E' = rolling_rejection E
     \<and> (\<forall>e \<in> set (e_heap E'). e \<in> set (e_heap E) \<or> e_now E < ev_time e)
     \<and> (\<forall>svc. set (ready_of E' svc) \<subseteq> set (ready_of E svc))"

lemma settles_refl: "settles E E"
  by (simp add: settles_def)

lemma settles_trans: "settles E E' \<Longrightarrow> settles E' E'' \<Longrightarrow> settles E E''"
  unfolding settles_def by (intro conjI ballI allI) (simp_all, metis, metis subset_trans)

lemma foldE_settles:
  assumes "foldE f xs E = Inr E'" and "\<And>x u v. x \<in> set xs \<Longrightarrow> f x u = Inr v \<Longrightarrow> settles u v"
  shows "settles E E'"
  by (rule foldE_invariant [OF assms(1), where P = "settles E"]) (auto intro: settles_refl settles_trans assms(2))

lemma settles_cold: "settles E E' \<Longrightarrow> cold (e_now E) E \<Longrightarrow> cold (e_now E) E'"
  unfolding settles_def cold_def by (auto simp: not_le)

lemma ready_of_put: "ready_of (put_server k s E) = ready_of E" "ready_of (push t ty E) = ready_of E"
  "ready_of (record_metric f E) = ready_of E"
  by (simp_all add: ready_of_def fun_eq_iff record_metric_def by_service_def)

lemma settles_boot:
  assumes "start_server_boot k em E = Inr E'" shows "settles E E'"
  using assms
proof (cases rule: start_server_boot_cases)
  case (boot s)
  then show ?thesis
    by (auto simp: settles_def ready_of_put) (auto simp: push_def record_metric_def put_server_def BOOT_DELAY_SEC_def)
qed (simp add: settles_refl)

lemma settles_place:
  assumes "place_replica W k svc E = Inr (p, E')" shows "settles E E'"
  using assms
proof (cases rule: place_replica_cases)
  case (placed s info et)
  show ?thesis unfolding placed(6) settles_def Let_def
    by (auto simp: schedule_replica_ready_def ready_of_def by_service_def dict_simps new_replica_def record_metric_def
        push_def put_server_def put_replica_def POD_STARTUP_DELAY_SEC_def split: if_splits)
qed (simp add: settles_refl)

lemma boots_wait:
  assumes "foldE (\<lambda>k. start_server_boot k False) sel E = Inr E'" and "sel \<noteq> []"
    and "in_srv_state E (hd sel) SrvOff"
  shows "boot_waits (e_now E) E'"
proof -
  obtain k ks where sel: "sel = k # ks" using assms(2) by (cases sel) auto
  then obtain E1 where 1: "start_server_boot k False E = Inr E1" "foldE (\<lambda>k. start_server_boot k False) ks E1 = Inr E'"
    using assms(1) by (auto simp: bindE_Inr_iff)
  from 1(1) have "boot_waits (e_now E) E1"
    by (cases rule: start_server_boot_cases) (use assms(3) sel in \<open>auto simp: in_srv_state_def boot_waits_def push_def record_metric_def put_server_def\<close>)
  moreover have "spares {} E1 E'" by (rule foldE_spares [OF 1(2)]) (rule spares_boot)
  ultimately show ?thesis by (auto simp: boot_waits_def spares_def)
qed

text \<open>Before the first boot has finished: the first tick finds the system cold, the others are later.\<close>

definition warming :: "real \<Rightarrow> 'a engine \<Rightarrow> bool" where
  "warming s E \<longleftrightarrow> boot_waits s E \<and> e_now E \<le> s + BOOT_DELAY_SEC
     \<and> (e_now E = s \<and> tick_times E = {#s#} \<and> cold s E \<or> (\<forall>t \<in># tick_times E. s + DECISION_INTERVAL_SEC \<le> t))"

definition bright :: "real \<Rightarrow> 'a engine \<Rightarrow> bool" where
  "bright s E \<longleftrightarrow> (\<exists>k. in_srv_state E k SrvActive) \<or> warming s E"

lemma primed_cold:
  assumes "new_engine df st = Inr E0" shows "cold (fst (trace_bounds df)) (primed_core df E0)"
proof -
  let ?P = "primed_core df E0"
  note n = new_engine_shape [OF assms]
  have "rolling_rejection E0 = new_tracker ROLLING_TICKS" "tick_rejected E0 = []" "tick_proximity_violated E0 = []"
    using assms by (auto simp: new_engine_def bindE_Inr_iff)
  moreover have "rolling_rejection ?P = rolling_rejection E0 \<and> tick_rejected ?P = tick_rejected E0
      \<and> tick_proximity_violated ?P = tick_proximity_violated E0"
  proof -
    let ?E = "fold (\<lambda>row. push (row_start row) (RequestArrival row)) df E0"
    have "rolling_rejection ?E = rolling_rejection E0 \<and> tick_rejected ?E = tick_rejected E0
      \<and> tick_proximity_violated ?E = tick_proximity_violated E0"
      by (rule fold_invariant_set [where P = "\<lambda>u. rolling_rejection u = rolling_rejection E0 \<and> tick_rejected u = tick_rejected E0
      \<and> tick_proximity_violated u = tick_proximity_violated E0"]) (simp_all add: push_def)
    then show ?thesis by (simp add: primed_core_def Let_def)
  qed
  moreover have "ready_of ?P svc = []" for svc
    by (simp add: ready_of_def by_service_def primed_core_def Let_def fold_push_frame n dget_or_def)
  moreover have "is_arrival (ev_type e)" if "e \<in> set (e_heap ?P)" for e
  proof -
    have "e \<in># arrivals_of ?P" using that primed_requests(2) [OF assms] by simp
    then show ?thesis by (simp add: arrivals_of_def)
  qed
  ultimately show ?thesis by (simp add: cold_def new_tracker_def)
qed

context lawful_algorithm
begin

lemma prime_warming:
  assumes W: "w_alg W = A" "w_cfg W = C" and new: "new_engine df st = Inr E0" and df: "sound_trace df"
    and p: "prime W E0 = Inr E"
  shows "warming (fst (trace_bounds df)) E"
proof -
  let ?P = "primed_core df E0" and ?s = "fst (trace_bounds df)"
  note n = new_engine_shape [OF new] and core = primed_core_inv [OF new df]
  obtain E3 c where 3: "initial_placement W ?P = Inr E3" and E: "E = (push ?s DecisionTick E3)\<lparr>e_cutoff := c\<rparr>"
    using p by (auto simp: prime_alt bindE_Inr_iff n(2))
  obtain sel E1 where sel: "alg_initial_placement A (e_algorithm ?P) (e_servers ?P) (initial_bts W (events_df ?P)) = Inr sel"
    and E1: "foldE (\<lambda>k. start_server_boot k False) sel ?P = Inr E1"
    and E3: "foldE (place_initial W sel) ACTIVE_SERVICES E1 = Inr E3"
    using 3 by (auto simp: initial_placement_def bindE_Inr_iff W)
  have wf: "wf_servers (e_servers ?P)" using core(1) by (simp add: engine_inv_def store_inv_def)
  note sound = initial_sound [OF sel wf]
  then have "hd sel \<in> set (dkeys (e_servers ?P))" using hd_in_set by blast
  then obtain u where u: "dget (e_servers ?P) (hd sel) = Some u" by (metis map_of_eq_None_iff not_None_eq set_map)
  have "srv_state u = SrvOff"
    using n(1) u core(3) unfolding fresh_servers_def by (force dest: dget_mem)
  with u have "in_srv_state ?P (hd sel) SrvOff" by (simp add: in_srv_state_def)
  then have w1: "boot_waits ?s E1" using boots_wait [OF E1] sound core(4) by simp
  have "spares {} E1 E3 \<and> settles E1 E3"
  proof
    show "spares {} E1 E3"
      by (rule foldE_spares [OF E3]) (auto simp: place_initial_def bindE_Inr_iff split: option.splits
          intro: spares_refl spares_place)
    show "settles E1 E3"
      by (rule foldE_settles [OF E3]) (auto simp: place_initial_def bindE_Inr_iff split: option.splits
          intro: settles_refl settles_place)
  qed
  moreover have "settles ?P E1" by (rule foldE_settles [OF E1]) (rule settles_boot)
  ultimately have 4: "settles ?P E3" "boot_waits ?s E3"
    using w1 by (auto simp: boot_waits_def spares_def intro: settles_trans)
  have "cold ?s E3" using settles_cold [OF 4(1)] primed_cold [OF new] core(4) by simp
  then have "cold ?s E" by (auto simp: cold_def E ready_of_def by_service_def) (auto simp: push_def)
  moreover have "boot_waits ?s E" using 4(2) by (auto simp: boot_waits_def E push_def)
  ultimately show ?thesis
    using prime_inv(2,3) [OF W new df p] by (simp add: warming_def BOOT_DELAY_SEC_def)
qed

end

section \<open>Every reachable state\<close>

lemma agenda_min:
  assumes "agenda_inv E" and "heappop (e_heap E) = Some (ev, rest)" and "e \<in> set (e_heap E)"
  shows "ev_time ev \<le> ev_time e" and "e = ev \<or> e \<in> set rest" and "e_now E \<le> ev_time ev"
proof -
  have ok: "by_key (e_heap E)" using assms(1) by (simp add: agenda_inv_def)
  show "ev_time ev \<le> ev_time e"
    by (rule ev_key_le_time, rule heap.pop_min [OF ok assms(2)]) (use assms(3) in simp)
  have h: "e_heap E = ev # rest" using assms(2) by (simp add: heappop_def split: list.splits)
  with assms(3) show "e = ev \<or> e \<in> set rest" by simp
  show "e_now E \<le> ev_time ev" using assms(1) h by (simp add: agenda_inv_def)
qed

text \<open>An arrival at the start leaves the system cold.\<close>

lemma advance_ready: "ready_of (advance_server t k E) = ready_of E"
  "tick_rejected (advance_server t k E) = tick_rejected E" "rolling_rejection (advance_server t k E) = rolling_rejection E"
  "tick_proximity_violated (advance_server t k E) = tick_proximity_violated E"
proof -
  have "r_state (snd (instantaneous_power_w l (snd (instantaneous_utilization l h s)) s) a) = r_state (h a)" for l h s a
    using pruned_trans [OF pruned_instantaneous_utilization pruned_instantaneous_power_w, of l h s s] by (simp add: prunedD)
  then show "ready_of (advance_server t k E) = ready_of E"
    by (auto simp: advance_server_def Let_def split_beta ready_of_put split: option.splits)
      (simp add: ready_of_def by_service_def fun_eq_iff)
qed (simp_all add: advance_server_def Let_def split_beta put_server_def split: option.splits)

lemma cold_begin:
  assumes "cold s E" and "heappop (e_heap E) = Some (ev, rest)" shows "cold s (begin_event ev rest E)"
proof -
  let ?P = "\<lambda>u. ready_of u = ready_of E \<and> tick_rejected u = tick_rejected E \<and> rolling_rejection u = rolling_rejection E
      \<and> tick_proximity_violated u = tick_proximity_violated E"
  have "?P (fold (advance_server (ev_time ev)) (dkeys (e_servers E)) (E\<lparr>e_heap := rest\<rparr>))"
    by (rule fold_invariant_set [where P = ?P]) (simp_all add: advance_ready, simp add: ready_of_def by_service_def fun_eq_iff)
  then have "?P (begin_event ev rest E)"
    by (simp add: begin_event_def advance_energy_to_def) (simp add: ready_of_def by_service_def fun_eq_iff)
  moreover have "set rest \<subseteq> set (e_heap E)" using assms(2) by (auto simp: heappop_def split: list.splits)
  ultimately show ?thesis using assms(1) by (auto simp: cold_def begin_event_frame)
qed

lemma cold_arrival:
  assumes h: "handle_arrival row (begin_event ev rest E) = Inr E'" and c: "cold s E" and "ev_time ev = s"
    and inv: "engine_inv {#} E" and pop: "heappop (e_heap E) = Some (ev, rest)" and row: "\<bar>row_lat row\<bar> \<le> 90"
  shows "cold s E'"
proof -
  let ?B = "begin_event ev rest E"
  have B: "store_inv ?B" using begin_event_inv(1) [OF inv pop] by (simp add: engine_inv_def)
  obtain E1 p req where core: "same_core ?B E1" and p: "mean_position (dvals (e_servers ?B)) = Inr p"
    and d: "routing_delay_sec req = 2 * (BASE_LATENCY_MS + K_MS_PER_KM * haversine_km (row_lat row) (row_long row) (fst p) (snd p)
        + DISPATCH_OVERHEAD_MS) / 1000"
    and E': "E' = push (e_now E1 + routing_delay_sec req) (RequestRouted req) E1"
    and f: "tick_rejected E1 = tick_rejected ?B" "tick_proximity_violated E1 = tick_proximity_violated ?B"
      "rolling_rejection E1 = rolling_rejection ?B"
    by (rule handle_arrival_shape [OF h]) blast
  have "0 \<le> haversine_km (row_lat row) (row_long row) (fst p) (snd p)"
    by (rule haversine_km_nonneg [OF row mean_lat_range [OF p servers_on_globe [OF B]]])
  then have "0 < routing_delay_sec req" by (simp add: d config_constants add_pos_nonneg)
  moreover have "e_now E1 = s" using core assms(3) by (simp add: same_core_def begin_event_frame)
  moreover have "ready_of E1 = ready_of ?B"
    using core by (simp add: same_core_def ready_of_def by_service_def fun_eq_iff)
  ultimately show ?thesis
    using cold_begin [OF c pop] core f unfolding E' cold_def same_core_def ready_of_put by (simp add: push_def)
qed

lemma event_bright:
  assumes h: "handle_event W (ev_type ev) (begin_event ev rest E) = Inr E'" and inv: "engine_inv {#} E" "engine_inv {#} E'"
    and pop: "heappop (e_heap E) = Some (ev, rest)" and b: "bright s E" and ty: "ev_type ev \<noteq> DecisionTick"
    and ticks: "tick_times E' = tick_times E" and now: "e_now E' = ev_time ev"
  shows "bright s E'"
proof (cases "\<exists>k. in_srv_state E k SrvActive")
  case True
  then show ?thesis
    using event_spares [OF h inv(1) pop] by (auto simp: bright_def spares_def begin_event_states)
next
  case False
  with b have w: "warming s E" by (simp add: bright_def)
  have agenda: "agenda_inv E" using inv(1) by (simp add: engine_inv_def)
  obtain e k where e: "e \<in> set (e_heap E)" "ev_type e = ServerBootDone k" "ev_time e \<le> s + BOOT_DELAY_SEC"
    using w by (auto simp: warming_def boot_waits_def)
  note m = agenda_min [OF agenda pop e(1)]
  show ?thesis
  proof (cases "e = ev")
    case True
    then have "handle_boot_done k (begin_event ev rest E) = Inr E'" using h e(2) by (simp add: handle_event_def)
    from spares_boot_done [OF this] show ?thesis by (auto simp: bright_def)
  next
    case False
    then have "e \<in> set (e_heap E')"
      using m(2) event_spares [OF h inv(1) pop] by (auto simp: spares_def begin_event_frame)
    then have bw: "boot_waits s E'" using e by (auto simp: boot_waits_def)
    have le: "e_now E' \<le> s + BOOT_DELAY_SEC" using m(1) e(3) now by simp
    consider (late) "\<forall>t \<in># tick_times E. s + DECISION_INTERVAL_SEC \<le> t"
      | (first) "e_now E = s" "tick_times E = {#s#}" "cold s E" using w by (auto simp: warming_def)
    then show ?thesis
    proof cases
      case late
      with bw le ticks show ?thesis by (simp add: bright_def warming_def)
    next
      case first
      have "s \<in># tick_times E" using first(2) by simp
      then obtain t where "t \<in> set (e_heap E)" "ev_time t = s" by (auto simp: tick_times_def)
      then have s: "ev_time ev = s" using agenda_min [OF agenda pop] first(1) by force
      have "ev \<in> set (e_heap E)" using pop by (auto simp: heappop_def split: list.splits)
      then have "is_arrival (ev_type ev)" using first(3) s ty by (auto simp: cold_def)
      then obtain row where row: "ev_type ev = RequestArrival row" by (auto simp: is_arrival_def split: event_type.splits)
      then have "\<bar>row_lat row\<bar> \<le> 90" using begin_event_inv(3) [OF inv(1) pop] by simp
      with h row have "cold s E'" by (intro cold_arrival [OF _ first(3) s inv(1) pop]) (simp_all add: handle_event_def)
      with bw le first(2) ticks now s show ?thesis by (simp add: bright_def warming_def)
    qed
  qed
qed

text \<open>The only tick without an active server is the first one, and the system is cold.\<close>

lemma dark_tick:
  assumes "bright s E" and "agenda_inv E" and pop: "heappop (e_heap E) = Some (ev, rest)" and ty: "ev_type ev = DecisionTick"
    and one: "tick_times E = {#u#}" and "\<nexists>k. in_srv_state E k SrvActive"
  shows "ev_time ev = s" and "u = s" and "cold s E"
    and "\<exists>e k. e \<in> set (e_heap E) \<and> ev_type e = ServerBootDone k \<and> ev_time e \<le> s + BOOT_DELAY_SEC"
proof -
  from assms(1,6) have w: "warming s E" by (simp add: bright_def)
  then obtain e k where e: "e \<in> set (e_heap E)" "ev_type e = ServerBootDone k" "ev_time e \<le> s + BOOT_DELAY_SEC"
    by (auto simp: warming_def boot_waits_def)
  have u: "ev_time ev = u" using tick_times_begin [OF pop] ty one by simp
  have "u = s \<and> cold s E" using w one agenda_min(1) [OF assms(2) pop e(1)] e(3) u by (auto simp: warming_def config_constants)
  with u e show "ev_time ev = s" "u = s" "cold s E"
    "\<exists>e k. e \<in> set (e_heap E) \<and> ev_type e = ServerBootDone k \<and> ev_time e \<le> s + BOOT_DELAY_SEC" by auto
qed

context lawful_algorithm
begin

lemma tick_bright:
  assumes W: "w_alg W = A" "w_cfg W = C" and h: "handle_decision_tick W ext (begin_event ev rest E) = Inr (sn, E1)" and inv: "engine_inv {#} E"
    and pop: "heappop (e_heap E) = Some (ev, rest)" and b: "bright s E" and ty: "ev_type ev = DecisionTick"
    and one: "tick_times E = {#u#}"
  shows "bright s (push (e_now E1 + DECISION_INTERVAL_SEC) DecisionTick E1)"
proof -
  let ?B = "begin_event ev rest E" and ?E' = "push (e_now E1 + DECISION_INTERVAL_SEC) DecisionTick E1"
  note t = tick_step [OF W inv pop ty h]
  have "engine_inv (add_mset (ev_type ev) {#}) ?B" by (rule begin_event_inv(1) [OF inv pop])
  then have "wf_servers (e_servers ?B)" by (simp add: engine_inv_def store_inv_def)
  note g = tick_glows [OF h this, unfolded glows_def begin_event_states begin_event_frame]
  show ?thesis
  proof (cases "\<exists>k. in_srv_state E k SrvActive")
    case True
    with g show ?thesis by (simp add: bright_def)
  next
    case False
    have agenda: "agenda_inv E" using inv by (simp add: engine_inv_def)
    note d = dark_tick [OF b agenda pop ty one False]
    obtain e k where e: "e \<in> set (e_heap E)" "ev_type e = ServerBootDone k" "ev_time e \<le> s + BOOT_DELAY_SEC"
      using d(4) by blast
    note m = agenda_min [OF agenda pop e(1)]
    have u: "ev_time ev = u" and "u = s" using d(1,2) by simp_all
    have "e \<in> set (e_heap ?E')" using g m(2) e(2) ty by (auto simp: push_def)
    then have "boot_waits s ?E'" using e by (auto simp: boot_waits_def)
    moreover have "tick_times ?E' = {#s + DECISION_INTERVAL_SEC#}"
      using t(2) one u \<open>u = s\<close> by (simp add: add_mset_commute)
    moreover have "e_now ?E' \<le> s + BOOT_DELAY_SEC" using t(4) u \<open>u = s\<close> by (simp add: BOOT_DELAY_SEC_def)
    ultimately show ?thesis by (simp add: bright_def warming_def)
  qed
qed

lemma reachable_bright:
  assumes "reachable W df st E" and W: "w_alg W = A" "w_cfg W = C" and df: "sound_trace df"
  shows "bright (fst (trace_bounds df)) E"
  using assms(1)
proof induction
  case (start E0 E)
  show ?case using prime_warming [OF W start(1) df start(2)] by (simp add: bright_def)
next
  case (event E ev rest E')
  have inv: "engine_inv {#} E" using reachable_inv [OF event(1) W df] by (simp add: reach_inv_def)
  note e = event_step [OF W inv event(2-5)]
  from event_bright [OF event(5) inv e(1) event(2,6,4) e(2,4)] show ?case .
next
  case (tick E ev rest ext sn E1)
  have "reach_inv E" by (rule reachable_inv [OF tick(1) W df])
  then obtain u where inv: "engine_inv {#} E" "tick_times E = {#u#}" by (auto simp: reach_inv_def)
  from tick_bright [OF W tick(5) inv(1) tick(2,6,4) inv(2)] show ?case .
next
  case (peek E sn E')
  note r = peek_snapshot_reads [OF peek(2)]
  have "E' = E\<lparr>e_store := e_store E'\<rparr>"
    using peek(2) by (auto simp: peek_snapshot_def build_metrics_snapshot_readonly_def Let_def split_beta)
  then obtain h where E': "E' = E\<lparr>e_store := h\<rparr>" by blast
  have "pruned (e_now E) (e_store E) h" using r(1) by (simp add: reads_def E')
  then have "ready_of E' = ready_of E" by (simp add: E' ready_of_def by_service_def prunedD fun_eq_iff)
  then show ?case
    using peek(3) r(4-6) by (simp add: E' bright_def warming_def boot_waits_def cold_def in_srv_state_def)
qed

end

section \<open>Properties\<close>

text \<open>
  C8. The system does not go dark: in every state a run reaches later than the boot delay after
  its first instant, at least one server is active, whatever the algorithm and the external
  actions asked for; before that, a state without an active server still has the end of a boot
  waiting.
\<close>

theorem one_server_stays_active:
  assumes "lawful_algorithm (w_alg W) (w_cfg W)" and "sound_trace df" and "reachable W df st E"
  shows "1 \<le> n_active E
    \<or> e_now E \<le> fst (trace_bounds df) + BOOT_DELAY_SEC
      \<and> (\<exists>e \<in> set (e_heap E). \<exists>k. ev_type e = ServerBootDone k \<and> ev_time e \<le> fst (trace_bounds df) + BOOT_DELAY_SEC)"
proof -
  have "store_inv E" using lawful_algorithm.reachable_inv [OF assms(1,3) refl refl assms(2)]
    by (simp add: reach_inv_def engine_inv_def)
  then have "wf_servers (e_servers E)" by (simp add: store_inv_def)
  from lit_iff [OF this] lawful_algorithm.reachable_bright [OF assms(1,3) refl refl assms(2)]
  show ?thesis by (auto simp: bright_def lit_def warming_def boot_waits_def)
qed

theorem one_server_stays_active_witness:
  "\<exists>E. reachable sample_world [] None E
     \<and> (1 \<le> n_active E \<or> (\<exists>e \<in> set (e_heap E). \<exists>k. ev_type e = ServerBootDone k \<and> ev_time e \<le> 30))"
proof -
  obtain E where r: "reachable sample_world [] None E" using sample_start by blast
  have "sound_trace []" by (simp add: sound_trace_def)
  from one_server_stays_active [OF sample_lawful this r] r show ?thesis
    by (auto simp: trace_bounds_def BOOT_DELAY_SEC_def)
qed

end
