(* ===== verification/Wiring.thy ===== *)
theory Wiring
  imports Alive
begin

text \<open>
  Every event of the agenda names servers of the fleet and services of the table: the lookups
  of the handlers find what they look for.
\<close>

section \<open>Known servers and services\<close>

definition event_known :: "int list \<Rightarrow> event_type \<Rightarrow> bool" where
  "event_known ks ty \<longleftrightarrow>
     (case ty of
        RequestArrival row \<Rightarrow> row_service_id row \<in> set ACTIVE_SERVICES
      | RequestRouted req \<Rightarrow> req_service_id req \<in> set ACTIVE_SERVICES
      | DecisionTick \<Rightarrow> True
      | ServerBootDone k \<Rightarrow> k \<in> set ks
      | ServerDrainDone k \<Rightarrow> k \<in> set ks
      | ReplicaReady k _ \<Rightarrow> k \<in> set ks
      | ReplicaTerminated k _ \<Rightarrow> k \<in> set ks
      | EnergyResync \<Rightarrow> True)"

definition wired :: "int list \<Rightarrow> 'a engine \<Rightarrow> bool" where
  "wired ks E \<longleftrightarrow> dkeys (e_servers E) = ks \<and> (\<forall>e \<in> set (e_heap E). event_known ks (ev_type e))
     \<and> (\<forall>a < next_ref E. r_server_id (e_store E a) \<in> set ks)"

named_theorems wired_intros "operations that keep the agenda wired"

lemma event_known_simps [simp]:
  "event_known ks DecisionTick" "event_known ks EnergyResync"
  "event_known ks (ServerBootDone k) = (k \<in> set ks)" "event_known ks (ServerDrainDone k) = (k \<in> set ks)"
  "event_known ks (ReplicaReady k svc) = (k \<in> set ks)" "event_known ks (ReplicaTerminated k svc) = (k \<in> set ks)"
  "event_known ks (RequestArrival row) = (row_service_id row \<in> set ACTIVE_SERVICES)"
  "event_known ks (RequestRouted req) = (req_service_id req \<in> set ACTIVE_SERVICES)"
  by (simp_all add: event_known_def)

lemma wired_push [wired_intros]: "wired ks E \<Longrightarrow> event_known ks ty \<Longrightarrow> wired ks (push t ty E)"
  by (simp add: wired_def) (simp add: push_def)

lemma wired_put_server [wired_intros]: "wired ks E \<Longrightarrow> k \<in> set ks \<Longrightarrow> wired ks (put_server k s E)"
  by (auto simp: wired_def dkeys_dset_mem)

lemma wired_put_replica [wired_intros]:
  "wired ks E \<Longrightarrow> r_server_id r \<in> set ks \<or> r_server_id r = r_server_id (e_store E a) \<Longrightarrow> wired ks (put_replica a r E)"
  by (auto simp: wired_def)

lemma wired_core: "same_core E E' \<Longrightarrow> wired ks E \<Longrightarrow> wired ks E'"
  by (simp add: same_core_def wired_def)

lemma wired_record [wired_intros]: "wired ks E \<Longrightarrow> wired ks (record_metric f E)"
  by (rule wired_core [OF same_core_record_metric])

lemma wired_store: "wired ks E \<Longrightarrow> pruned now (e_store E) h \<Longrightarrow> wired ks (E\<lparr>e_store := h\<rparr>)"
  by (simp add: wired_def prunedD)

lemma wired_update [wired_intros]:
  "wired ks E \<Longrightarrow> wired ks (E\<lparr>replicas_by_service := d\<rparr>)"
  "wired ks E \<Longrightarrow> wired ks (E\<lparr>pending_migrations := p\<rparr>)"
  "wired ks E \<Longrightarrow> wired ks (E\<lparr>emergency_boot_for_service := b\<rparr>)"
  by (simp_all add: wired_def)

lemma wired_get: "wired ks E \<Longrightarrow> dget (e_servers E) k = Some s \<Longrightarrow> k \<in> set ks"
  by (force simp: wired_def dest: dget_mem)

lemma wired_known: "wired ks E \<Longrightarrow> server_at E k = Inr s \<Longrightarrow> k \<in> set ks"
  by (simp add: wired_get server_at_def dlookup_Inr_iff)

lemma wired_ref: "wired ks E \<Longrightarrow> a < next_ref E \<Longrightarrow> r_server_id (e_store E a) \<in> set ks"
  by (simp add: wired_def)

lemma wired_hosts: "store_inv E \<Longrightarrow> hosts E k svc a \<Longrightarrow> a < next_ref E"
  by (simp add: store_inv_def hosted_inv_def)

lemma hosted_refs:
  assumes "store_inv E" and "dget (e_servers E) k = Some s" and "a \<in> set (dvals (hosted_replicas s))"
  shows "a < next_ref E"
proof -
  have "distinct (dkeys (hosted_replicas s))" using assms(1,2) by (auto simp: store_inv_def server_inv_def)
  with assms(3) obtain svc where "dget (hosted_replicas s) svc = Some a" by (auto simp: dget_iff_mem)
  with assms(2) have "hosts E k svc a" by (auto simp: hosts_def)
  with assms(1) show ?thesis by (rule wired_hosts)
qed

lemma listed_refs: "store_inv E \<Longrightarrow> a \<in> set (by_service E svc) \<Longrightarrow> a < next_ref E"
  by (meson store_inv_def wired_hosts)

section \<open>The operations\<close>

lemma wired_ready: "wired ks E \<Longrightarrow> a < next_ref E \<Longrightarrow> wired ks (schedule_replica_ready a E)"
  "wired ks E \<Longrightarrow> a < next_ref E \<Longrightarrow> wired ks (ready_if_starting a E)"
  by (simp_all add: schedule_replica_ready_def ready_if_starting_def Let_def wired_push wired_ref)

lemma wired_drain: "wired ks E \<Longrightarrow> a < next_ref E \<Longrightarrow> wired ks (start_replica_drain a E)"
  "wired ks E \<Longrightarrow> a < next_ref E \<Longrightarrow> wired ks (drain_unmigrated ms a E)"
proof -
  show d: "wired ks (start_replica_drain a E)" if "wired ks E" "a < next_ref E"
  proof -
    have "r_server_id (e_store E a) \<in> set ks" by (rule wired_ref [OF that])
    with that show ?thesis by (auto simp: start_replica_drain_def Let_def intro!: wired_intros)
  qed
  show "wired ks E \<Longrightarrow> a < next_ref E \<Longrightarrow> wired ks (drain_unmigrated ms a E)"
    by (simp add: drain_unmigrated_def d)
qed

lemma next_ref_drain: "next_ref (start_replica_drain a E) = next_ref E" "next_ref (drain_unmigrated ms a E) = next_ref E"
  "next_ref (ready_if_starting a E) = next_ref E"
  by (simp_all add: start_replica_drain_def drain_unmigrated_def ready_if_starting_def schedule_replica_ready_def Let_def)

lemma wired_place:
  assumes "place_replica W k svc E = Inr (p, E')" and w: "wired ks E"
  shows "wired ks E' \<and> next_ref E \<le> next_ref E'"
  using assms(1)
proof (cases rule: place_replica_cases)
  case (placed s info et)
  let ?a = "next_ref E"
  let ?P = "record_metric (record_transition PodCreate)
     (put_server k (s\<lparr>hosted_replicas := dset svc ?a (hosted_replicas s),
         cumulative_energy_joule := cumulative_energy_joule s + E_POD_CREATE_J\<rparr>)
       (put_replica ?a (new_replica svc k (svc_queue_len info) et (e_now E))
        (E\<lparr>next_ref := ?a + 1,
           replicas_by_service := dset svc (by_service E svc @ [?a]) (replicas_by_service E)\<rparr>)))"
  have k: "k \<in> set ks" by (rule wired_get [OF w placed(1)])
  have "wired ks ?P"
    using w k by (intro wired_record wired_put_server) (auto simp: wired_def new_replica_def less_Suc_eq)
  moreover have "next_ref ?P = Suc ?a" by (simp add: record_metric_def)
  moreover have "E' = ?P \<or> E' = schedule_replica_ready ?a ?P" using placed(6) by (simp add: Let_def)
  ultimately show ?thesis using wired_ready(1) [of ks ?P ?a] by (auto simp: schedule_replica_ready_def)
qed (simp add: w)

lemma wired_replica_ready:
  assumes "handle_replica_ready k svc E = Inr E'" and w: "wired ks E" and inv: "store_inv E"
  shows "wired ks E'"
  using assms(1)
proof (cases rule: handle_replica_ready_cases)
  case (ready a E2)
  have "wired ks E2" unfolding ready(3) by (intro wired_intros w) simp
  moreover have "next_ref E2 = next_ref E" by (simp add: ready(3))
  ultimately show ?thesis using ready(4) wired_drain(1) [of ks E2] wired_hosts [OF inv] by auto
qed (simp add: w)

lemma wired_replica_terminated: "handle_replica_terminated k svc E = Inr E' \<Longrightarrow> wired ks E \<Longrightarrow> wired ks E'"
  by (auto simp: handle_replica_terminated_def bindE_Inr_iff Let_def intro!: wired_intros dest: wired_known split: option.splits)

lemma wired_boot: "start_server_boot k em E = Inr E' \<Longrightarrow> wired ks E \<Longrightarrow> wired ks E'"
  by (cases rule: start_server_boot_cases) (auto intro!: wired_intros intro: wired_get)

lemma wired_boot_done:
  assumes "handle_boot_done k E = Inr E'" and w: "wired ks E" and inv: "store_inv E"
  shows "wired ks E'"
  using assms(1)
proof (rule handle_boot_done_shape)
  fix s E2 assume s: "dget (e_servers E) k = Some s"
    and E2: "E2 = fold ready_if_starting (dvals (hosted_replicas s))
            (put_server k (s\<lparr>srv_state := SrvActive, last_transition_time := e_now E\<rparr>) E)"
    and E': "same_core E2 E' \<or> (\<exists>E3. same_core E2 E3 \<and>
        E' = put_server k (s\<lparr>srv_state := SrvActive, last_transition_time := e_now E, is_emergency_boot := False\<rparr>) E3)"
  have k: "k \<in> set ks" by (rule wired_get [OF w s])
  have "wired ks E2 \<and> next_ref E2 = next_ref E" unfolding E2
  proof (rule fold_invariant_set [where P = "\<lambda>u. wired ks u \<and> next_ref u = next_ref E"])
    fix a u assume "a \<in> set (dvals (hosted_replicas s))" and u: "wired ks u \<and> next_ref u = next_ref E"
    from hosted_refs [OF inv s this(1)] u
    show "wired ks (ready_if_starting a u) \<and> next_ref (ready_if_starting a u) = next_ref E"
      by (simp add: next_ref_drain wired_ready(2))
  qed (simp add: wired_put_server w k)
  with E' show ?thesis by (auto intro: wired_core wired_put_server [OF _ k])
qed

lemma wired_trigger:
  assumes "trigger_emergency_boot W svcs d E = Inr E'" and w: "wired ks E" shows "wired ks E'"
proof -
  from assms obtain res where "foldE (emergency_boot_step (in_state SrvOff (e_servers E)) d) (w_iter_set W svcs) ([], E) = Inr (res, E')"
    by (auto simp: trigger_emergency_boot_def bindE_Inr_iff)
  then have "wired ks (snd (res, E'))"
  proof (rule foldE_invariant [where P = "\<lambda>p. wired ks (snd p)"])
    fix svc u v assume u: "wired ks (snd u)"
      and "emergency_boot_step (in_state SrvOff (e_servers E)) d svc u = Inr v"
    then have "emergency_boot_step (in_state SrvOff (e_servers E)) d svc (fst u, snd u) = Inr (fst v, snd v)" by simp
    then show "wired ks (snd v)"
    proof (cases rule: emergency_boot_step_cases)
      case (boot t m)
      show ?thesis by (rule wired_boot [OF boot]) (intro wired_intros u)
    qed (use u in simp)
  qed (simp add: w)
  then show ?thesis by simp
qed

lemma wired_server_drain:
  assumes "start_server_drain W k E = Inr (b, E')" and w: "wired ks E" and inv: "store_inv E" shows "wired ks E'"
  using assms(1)
proof (cases rule: start_server_drain_cases)
  case (drain s proposed r steps E2)
  have k: "k \<in> set ks" by (rule wired_get [OF w drain(1)])
  have "wired ks E2 \<and> next_ref E \<le> next_ref E2"
  proof (rule foldE_invariant [OF drain(7), where P = "\<lambda>u. wired ks u \<and> next_ref E \<le> next_ref u"])
    fix st u v assume u: "wired ks u \<and> next_ref E \<le> next_ref u" and m: "migrate_step W k st u = Inr v"
    from m obtain p u1 where "place_replica W (ms_target_server_id st) (ms_service_id st) u = Inr (p, u1)" "same_core u1 v"
      by (rule migrate_step_cases)
    with u wired_place [of W "ms_target_server_id st" "ms_service_id st" u p u1 ks]
    show "wired ks v \<and> next_ref E \<le> next_ref v" by (auto intro: wired_core simp: same_core_def)
  qed (simp add: wired_put_server w k)
  moreover have "wired ks (fold (drain_unmigrated ms) as E2)" if "\<forall>a \<in> set as. a < next_ref E2" "wired ks E2" for as ms
  proof -
    have "wired ks (fold (drain_unmigrated ms) as E2) \<and> next_ref (fold (drain_unmigrated ms) as E2) = next_ref E2"
      by (rule fold_invariant_set [where P = "\<lambda>u. wired ks u \<and> next_ref u = next_ref E2"])
        (use that in \<open>auto simp: next_ref_drain intro: wired_drain(2)\<close>)
    then show ?thesis by simp
  qed
  ultimately show ?thesis
    using hosted_refs [OF inv drain(1)] k unfolding drain(8) by (intro wired_push) fastforce+
qed (auto intro: w wired_trigger)

lemma wired_drain_done: "handle_drain_done k E = Inr E' \<Longrightarrow> wired ks E \<Longrightarrow> wired ks E'"
  by (auto simp: handle_drain_done_def bindE_Inr_iff Let_def intro!: wired_intros dest: wired_known split: if_splits)

section \<open>Requests and decisions\<close>

lemma wired_arrival:
  assumes "handle_arrival row E = Inr E'" and "wired ks E" and "row_service_id row \<in> set ACTIVE_SERVICES"
  shows "wired ks E'"
  using assms(1)
proof (rule handle_arrival_shape)
  fix E1 p req assume "same_core E E1" "E' = push (e_now E1 + routing_delay_sec req) (RequestRouted req) E1"
    "req_service_id req = row_service_id row"
  with assms(3) show ?thesis by (simp add: wired_push wired_core [OF _ assms(2)])
qed

lemma wired_serve:
  assumes "serve_request req a E = Inr E'" and w: "wired ks E" shows "wired ks E'"
proof -
  obtain E1 extra adm r' req1 d where E1: "E1 = E \<or> (\<exists>x. E1 = E\<lparr>tick_proximity_violated := x\<rparr>)"
    and t: "try_admit (e_now E1) extra (e_store E1 a) = (adm, r')"
    and E': "(case adm of None \<Rightarrow> Inr (reject_request req1 RejectedQueueFull (put_replica a r' E1))
               | Some ad \<Rightarrow> complete_request req1 d ad (put_replica a r' E1)) = Inr E'"
    by (rule serve_request_shape [OF assms(1)]) blast
  have "same_core E E1" using E1 by (auto simp: same_core_def)
  then have 1: "wired ks (put_replica a r' E1)"
    by (intro wired_put_replica wired_core [OF _ w]) (simp_all add: try_admit_frame(2) [OF t])
  show ?thesis
  proof (cases adm)
    case None
    with E' show ?thesis using wired_core [OF reject_request_core 1] by auto
  next
    case (Some ad)
    with E' have "complete_request req1 d ad (put_replica a r' E1) = Inr E'" by simp
    then have "same_core (push (adm_service_end_time ad) EnergyResync (put_replica a r' E1)) E'"
      by (rule complete_request_shape) assumption
    then show ?thesis by (rule wired_core) (simp add: wired_push 1)
  qed
qed

lemma wired_turn_on: "try_turn_on W sn nec act sid E = Inr (b, E') \<Longrightarrow> wired ks E \<Longrightarrow> wired ks E'"
  by (cases rule: try_turn_on_cases) (auto intro: wired_core wired_boot)

lemma wired_turn_off: "try_turn_off W sn act sid E = Inr (b, E') \<Longrightarrow> wired ks E \<Longrightarrow> store_inv E \<Longrightarrow> wired ks E'"
  by (cases rule: try_turn_off_cases) (auto intro: wired_core wired_server_drain)

lemma store_inv_core: "same_core E E' \<Longrightarrow> store_inv E' = store_inv E"
  by (simp add: same_core_def store_inv_def hosts_def hosted_inv_def by_service_def)

lemma wired_provisioning:
  assumes "apply_provisioning W act sn E = Inr E'" and w: "wired ks E" and inv: "store_inv E" shows "wired ks E'"
  using assms(1)
proof (cases rule: apply_provisioning_cases)
  case (on nec sid b E1 E2)
  then show ?thesis using w by (blast intro: wired_core wired_turn_on)
next
  case (off sid b E1 E2)
  then have "store_inv E1" using inv store_inv_core by blast
  with off show ?thesis using w by (blast intro: wired_core wired_turn_off)
qed (rule wired_core [OF _ w])

lemma wired_scale_up: "try_scale_up W nec svc E = Inr (b, E') \<Longrightarrow> wired ks E \<Longrightarrow> wired ks E'"
  by (cases rule: try_scale_up_cases) (auto intro: wired_core dest: wired_place)

context lawful_algorithm
begin

lemma wired_routed:
  assumes W: "w_alg W = A" and r: "handle_routed W req E = Inr E'" and w: "wired ks E" shows "wired ks E'"
proof -
  obtain c st h where sel: "alg_select_replica A (e_algorithm E) req (routing_candidates E (req_service_id req))
        (e_servers E) (e_now E) (e_store E) = Inr (c, st, h)"
    and E': "(case c of
       None \<Rightarrow> Inr (reject_request req (if routing_candidates E (req_service_id req) = [] then RejectedNoReplica
                    else RejectedQueueFull) (E\<lparr>e_algorithm := st, e_store := h\<rparr>))
     | Some a \<Rightarrow> serve_request req a (E\<lparr>e_algorithm := st, e_store := h\<rparr>)) = Inr E'"
    by (rule handle_routed_shape [OF r]) (simp add: W)
  have "wired ks (E\<lparr>e_store := h\<rparr>)" by (rule wired_store [OF w select_reads [OF sel]])
  then have 1: "wired ks (E\<lparr>e_algorithm := st, e_store := h\<rparr>)" by (simp add: wired_def)
  show ?thesis
  proof (cases c)
    case None
    with E' show ?thesis using wired_core [OF reject_request_core 1] by auto
  next
    case (Some a)
    with E' show ?thesis using wired_serve [OF _ 1] by auto
  qed
qed

lemma wired_scale_down:
  assumes W: "w_alg W = A" and t: "try_scale_down W nec svc E = Inr (b, E')" and w: "wired ks E" and inv: "store_inv E"
  shows "wired ks E'"
  using t
proof (cases rule: try_scale_down_cases)
  case (drain v h)
  note v = victim_sound [OF drain(1) [unfolded W]]
  then have "v \<in> set (by_service E svc)" by (auto simp: mature_of_def ready_of_def)
  then have "v < next_ref E" by (rule listed_refs [OF inv])
  moreover have "wired ks (E\<lparr>e_store := h\<rparr>)" using v by (intro wired_store [OF w]) blast
  ultimately have "wired ks (start_replica_drain v (E\<lparr>e_store := h\<rparr>))" by (intro wired_drain(1)) simp_all
  with drain(2) show ?thesis by (rule wired_core)
qed (simp add: w)

lemma wired_scale:
  assumes W: "w_alg W = A" and "apply_scale_decision W svc d sn E = Inr E'" and w: "wired ks E" and inv: "store_inv E"
  shows "wired ks E'"
  using assms(2)
proof (cases rule: apply_scale_cases)
  case (up nec b E1 E2)
  then show ?thesis using w by (blast intro: wired_core wired_scale_up)
next
  case (down nec b E1 E2)
  then have "store_inv E1" using inv store_inv_core by blast
  with down show ?thesis using w by (blast intro: wired_core wired_scale_down [OF W])
qed (rule wired_core [OF _ w])

lemma same_algorithm: "u\<lparr>e_algorithm := e_algorithm u\<rparr> = u"
  by simp

text \<open>The scaling decisions one after the other, each from a sound state.\<close>

lemma wired_scales:
  assumes W: "w_alg W = A" "w_cfg W = C" and f: "foldE f xs E = Inr E'"
    and step: "\<And>x u v. f x u = Inr v \<Longrightarrow> \<exists>svc d st. apply_scale_decision W svc d sn (u\<lparr>e_algorithm := st\<rparr>) = Inr v"
    and w: "wired ks E" and inv: "engine_inv X E"
  shows "wired ks E'"
proof -
  have "wired ks E' \<and> engine_inv X E'"
  proof (rule foldE_invariant [OF f, where P = "\<lambda>u. wired ks u \<and> engine_inv X u"])
    fix x u v assume u: "wired ks u \<and> engine_inv X u" and "f x u = Inr v"
    from step [OF this(2)] obtain svc d st where s: "apply_scale_decision W svc d sn (u\<lparr>e_algorithm := st\<rparr>) = Inr v" by blast
    have core: "same_core u (u\<lparr>e_algorithm := st\<rparr>)" by (simp add: same_core_def)
    have 1: "wired ks (u\<lparr>e_algorithm := st\<rparr>)" "engine_inv X (u\<lparr>e_algorithm := st\<rparr>)"
      using u wired_core [OF core] same_core_inv [OF core] by simp_all
    then have "store_inv (u\<lparr>e_algorithm := st\<rparr>)" by (simp add: engine_inv_def)
    with wired_scale [OF W(1) s 1(1)] keepsD [OF apply_scale_decision_keeps [OF W s] 1(2)]
    show "wired ks v \<and> engine_inv X v" by simp
  qed (simp add: w inv)
  then show ?thesis ..
qed

lemma wired_decisions:
  assumes W: "w_alg W = A" "w_cfg W = C" and t: "take_decisions W ext sn E = Inr E'" and w: "wired ks E" and inv: "engine_inv X E"
  shows "wired ks E'"
proof (cases ext)
  case None
  with t obtain act st' E1 where 1: "apply_provisioning W act sn (E\<lparr>e_algorithm := st'\<rparr>) = Inr E1"
    "foldE (decide_and_scale W sn) ACTIVE_SERVICES E1 = Inr E'"
    by (auto simp: take_decisions_def bindE_Inr_iff)
  have core: "same_core E (E\<lparr>e_algorithm := st'\<rparr>)" by (simp add: same_core_def)
  have i: "engine_inv X (E\<lparr>e_algorithm := st'\<rparr>)" using inv same_core_inv [OF core] by simp
  have "wired ks E1"
    by (rule wired_provisioning [OF 1(1) wired_core [OF core w]]) (use i in \<open>simp add: engine_inv_def\<close>)
  moreover have "engine_inv X E1" using keepsD [OF apply_provisioning_keeps [OF W 1(1)] i] by simp
  ultimately show ?thesis
    by (rule wired_scales [OF W 1(2), rotated]) (auto simp: decide_and_scale_def bindE_Inr_iff)
next
  case (Some x)
  with t obtain E1 where 1: "apply_provisioning W (fst x) sn E = Inr E1"
    "foldE (\<lambda>(svc_id, d). apply_scale_decision W svc_id d sn) (snd x) E1 = Inr E'"
    by (cases x) (auto simp: take_decisions_def bindE_Inr_iff)
  have "wired ks E1"
    by (rule wired_provisioning [OF 1(1) w]) (use inv in \<open>simp add: engine_inv_def\<close>)
  moreover have "engine_inv X E1" using keepsD [OF apply_provisioning_keeps [OF W 1(1)] inv] by simp
  ultimately show ?thesis
    by (rule wired_scales [OF W 1(2), where sn = sn, rotated]) (metis same_algorithm split_beta)
qed

lemma reads_wired: "reads E E' \<Longrightarrow> wired ks E \<Longrightarrow> wired ks E'"
  unfolding reads_def by (blast intro: wired_core wired_store)

lemma wired_tick:
  assumes W: "w_alg W = A" "w_cfg W = C" and t: "handle_decision_tick W ext E = Inr (sn, E')" and w: "wired ks E"
    and inv: "engine_inv X E"
  shows "wired ks E'"
proof -
  obtain m h sn0 E1 E2 E3 where 
    1: "record_snapshot (w_np W) (e_now E) (e_servers E) (e_store E) (e_metrics E) = (m, h)"
    and 2: "build_metrics_snapshot (E\<lparr>e_metrics := m, e_store := h\<rparr>) = (sn0, E1)"
    and 3: "update_sustain_tracking sn0 E1 = Inr E2"
    "take_decisions W ext sn (E2\<lparr>last_tick_decisions := no_actions, last_tick_applied_actions := no_actions\<rparr>) = Inr E3"
    "E' = reset_tick E3"
    by (rule decision_tick_shape [OF t]) blast
  let ?E = "E\<lparr>e_metrics := m, e_store := h\<rparr>"
    and ?E2 = "E2\<lparr>last_tick_decisions := no_actions, last_tick_applied_actions := no_actions\<rparr>"
  have h: "pruned (e_now E) (e_store E) h" using record_snapshot_frame(1) [of "e_now E" "e_store E"] 1 by (metis snd_conv)
  have c: "same_core (E\<lparr>e_store := h\<rparr>) ?E" by (simp add: same_core_def)
  have "wired ks ?E" "engine_inv X ?E"
    using wired_core [OF c wired_store [OF w h]] engine_inv_pruned [OF inv h] same_core_inv [OF c] by simp_all
  then have "wired ks E1" "engine_inv X E1"
    using reads_wired reads_inv build_metrics_snapshot_reads(1) [OF 2] by blast+
  moreover have "same_core E1 ?E2" using update_sustain_tracking_core [OF 3(1)] by (simp add: same_core_def)
  ultimately have "wired ks ?E2" "engine_inv X ?E2" using wired_core same_core_inv by blast+
  then have "wired ks E3" by (rule wired_decisions [OF W 3(2)])
  then show ?thesis unfolding 3(3) by (simp add: wired_def reset_tick_def)
qed

end

end
