(* ===== verification/Totality.thy ===== *)
theory Totality
  imports Wiring
begin

text \<open>
  The handlers return: from a wired state each operation of the engine finds the servers,
  services and replicas it looks up, so none of the lookups of the source raises. No operation
  but a decision touches the state of the algorithm.
\<close>

section \<open>The state of the algorithm\<close>

named_theorems alg_simps "operations that leave the state of the algorithm alone"

lemma alg_basic [alg_simps]:
  "e_algorithm (push t ty E) = e_algorithm E" "e_algorithm (put_server k s E) = e_algorithm E"
  "e_algorithm (put_replica a r E) = e_algorithm E" "e_algorithm (record_metric f E) = e_algorithm E"
  "e_algorithm (note_applied_provision act E) = e_algorithm E" "e_algorithm (note_applied_scale svc d E) = e_algorithm E"
  "e_algorithm (account_opportunity kind x y z E) = e_algorithm E" "e_algorithm (reset_tick E) = e_algorithm E"
  by (simp_all add: push_def put_server_def put_replica_def record_metric_def note_applied_provision_def
      note_applied_scale_def account_opportunity_def reset_tick_def)

lemma alg_replica [alg_simps]:
  "e_algorithm (schedule_replica_ready a E) = e_algorithm E" "e_algorithm (ready_if_starting a E) = e_algorithm E"
  "e_algorithm (start_replica_drain a E) = e_algorithm E" "e_algorithm (drain_unmigrated ms a E) = e_algorithm E"
  by (simp_all add: schedule_replica_ready_def ready_if_starting_def start_replica_drain_def drain_unmigrated_def
      alg_simps Let_def)

lemma alg_fold: "(\<And>x u. e_algorithm (f x u) = e_algorithm u) \<Longrightarrow> e_algorithm (fold f xs E) = e_algorithm E"
  by (rule fold_invariant_set [where P = "\<lambda>u. e_algorithm u = e_algorithm E"]) auto

lemma alg_foldE:
  assumes "foldE f xs E = Inr E'" and "\<And>x u v. f x u = Inr v \<Longrightarrow> e_algorithm v = e_algorithm u"
  shows "e_algorithm E' = e_algorithm E"
  by (rule foldE_invariant [OF assms(1), where P = "\<lambda>u. e_algorithm u = e_algorithm E"]) (auto dest: assms(2))

lemma alg_place: "place_replica W k svc E = Inr (p, E') \<Longrightarrow> e_algorithm E' = e_algorithm E"
  by (cases rule: place_replica_cases) (auto simp: alg_simps Let_def)

lemma alg_replica_ready: "handle_replica_ready k svc E = Inr E' \<Longrightarrow> e_algorithm E' = e_algorithm E"
  by (cases rule: handle_replica_ready_cases) (auto simp: alg_simps)

lemma alg_replica_terminated: "handle_replica_terminated k svc E = Inr E' \<Longrightarrow> e_algorithm E' = e_algorithm E"
  by (auto simp: handle_replica_terminated_def bindE_Inr_iff alg_simps Let_def split: option.splits)

lemma alg_boot: "start_server_boot k em E = Inr E' \<Longrightarrow> e_algorithm E' = e_algorithm E"
  by (cases rule: start_server_boot_cases) (auto simp: alg_simps)

lemma alg_boot_done: "handle_boot_done k E = Inr E' \<Longrightarrow> e_algorithm E' = e_algorithm E"
  by (auto simp: handle_boot_done_def bindE_Inr_iff alg_simps Let_def alg_fold split: if_splits)

lemma alg_drain_done: "handle_drain_done k E = Inr E' \<Longrightarrow> e_algorithm E' = e_algorithm E"
  by (auto simp: handle_drain_done_def bindE_Inr_iff alg_simps Let_def split: if_splits)

lemma alg_trigger:
  assumes "trigger_emergency_boot W svcs d E = Inr E'" shows "e_algorithm E' = e_algorithm E"
proof -
  from assms obtain res where "foldE (emergency_boot_step (in_state SrvOff (e_servers E)) d) (w_iter_set W svcs) ([], E) = Inr (res, E')"
    by (auto simp: trigger_emergency_boot_def bindE_Inr_iff)
  then have "e_algorithm (snd (res, E')) = e_algorithm E"
  proof (rule foldE_invariant [where P = "\<lambda>p. e_algorithm (snd p) = e_algorithm E"])
    fix svc u v assume u: "e_algorithm (snd u) = e_algorithm E"
      and "emergency_boot_step (in_state SrvOff (e_servers E)) d svc u = Inr v"
    then have "emergency_boot_step (in_state SrvOff (e_servers E)) d svc (fst u, snd u) = Inr (fst v, snd v)" by simp
    then show "e_algorithm (snd v) = e_algorithm E"
      by (cases rule: emergency_boot_step_cases) (use u in \<open>auto dest: alg_boot\<close>)
  qed simp
  then show ?thesis by simp
qed

lemma alg_migrate: "migrate_step W k st E = Inr E' \<Longrightarrow> e_algorithm E' = e_algorithm E"
  by (auto simp: migrate_step_def bindE_Inr_iff dest: alg_place split: option.splits)

lemma alg_server_drain:
  assumes "start_server_drain W k E = Inr (b, E')" shows "e_algorithm E' = e_algorithm E"
  using assms
proof (cases rule: start_server_drain_cases)
  case (drain s proposed r steps E2)
  have "e_algorithm E2 = e_algorithm E" using alg_foldE [OF drain(7) alg_migrate] by (simp add: alg_simps)
  then show ?thesis by (simp add: drain(8) alg_simps alg_fold)
qed (simp_all add: alg_trigger)

lemma alg_turn_on: "try_turn_on W sn nec act sid E = Inr (b, E') \<Longrightarrow> e_algorithm E' = e_algorithm E"
  by (auto simp: try_turn_on_def bindE_Inr_iff alg_simps dest: alg_boot split: if_split_asm)

lemma alg_turn_off: "try_turn_off W sn act sid E = Inr (b, E') \<Longrightarrow> e_algorithm E' = e_algorithm E"
  by (auto simp: try_turn_off_def bindE_Inr_iff alg_simps dest: alg_server_drain split: if_split_asm)

lemma alg_provisioning:
  assumes "apply_provisioning W act sn E = Inr E'" shows "e_algorithm E' = e_algorithm E"
proof -
  let ?E = "E\<lparr>last_tick_decisions := (last_tick_decisions E)\<lparr>ta_provision := Some act\<rparr>\<rparr>"
  obtain nec b E1 where 1: "(case pa_server_id act of None \<Rightarrow> Inr (False, ?E)
        | Some sid \<Rightarrow> (case pa_action act of TurnOn \<Rightarrow> try_turn_on W sn nec act sid ?E
            | TurnOff \<Rightarrow> try_turn_off W sn act sid ?E | ProvNoChange \<Rightarrow> Inr (False, ?E))) = Inr (b, E1)"
    and E': "e_algorithm E' = e_algorithm E1"
    using assms unfolding apply_provisioning_def Let_def by (auto simp: bindE_Inr_iff alg_simps)
  have "e_algorithm E1 = e_algorithm ?E"
    using 1 by (auto dest: alg_turn_on alg_turn_off split: option.splits provision_type.splits)
  with E' show ?thesis by simp
qed

lemma alg_scale_up:
  assumes "try_scale_up W nec svc E = Inr (b, E')" shows "e_algorithm E' = e_algorithm E"
proof -
  obtain t where t: "alg_select_placement_server (w_alg W) (e_algorithm E) (service_demand_centroid E) svc (e_servers E)
      (e_store E) = Inr t" using assms by (auto simp: try_scale_up_def bindE_Inr_iff)
  show ?thesis
  proof (cases t)
    case (Some k)
    with assms t obtain p E1 where p: "place_replica W k svc E = Inr (p, E1)" by (auto simp: try_scale_up_def bindE_Inr_iff)
    with assms t Some have "e_algorithm E' = e_algorithm E1" by (cases p) (auto simp: try_scale_up_def Let_def alg_simps)
    then show ?thesis by (simp add: alg_place [OF p])
  qed (use assms t in \<open>simp add: try_scale_up_def\<close>)
qed

lemma alg_scale_down: "try_scale_down W nec svc E = Inr (b, E') \<Longrightarrow> e_algorithm E' = e_algorithm E"
  by (auto simp: try_scale_down_def bindE_Inr_iff alg_simps Let_def split: if_split_asm)

lemma alg_scale:
  assumes "apply_scale_decision W svc d sn E = Inr E'" shows "e_algorithm E' = e_algorithm E"
proof -
  let ?E = "E\<lparr>last_tick_decisions := (last_tick_decisions E)\<lparr>ta_scale := dset svc d (ta_scale (last_tick_decisions E))\<rparr>\<rparr>"
  obtain n m b E1 where 1: "(case d of ScaleNoChange \<Rightarrow> Inr (False, ?E)
        | ScaleUp \<Rightarrow> if service_in_cooldown svc ?E then Inr (False, ?E) else try_scale_up W n svc ?E
        | ScaleDown \<Rightarrow> if service_in_cooldown svc ?E then Inr (False, ?E) else try_scale_down W m svc ?E) = Inr (b, E1)"
    and E': "e_algorithm E' = e_algorithm E1"
    using assms unfolding apply_scale_decision_def Let_def by (auto simp: bindE_Inr_iff alg_simps)
  have "e_algorithm E1 = e_algorithm ?E"
    using 1 by (cases d) (auto dest: alg_scale_up alg_scale_down split: if_splits)
  with E' show ?thesis by simp
qed

lemma alg_arrival: "handle_arrival row E = Inr E' \<Longrightarrow> e_algorithm E' = e_algorithm E"
  by (auto simp: handle_arrival_def bindE_Inr_iff alg_simps Let_def)

lemma alg_reject [alg_simps]: "e_algorithm (reject_request req st E) = e_algorithm E"
  by (simp add: reject_request_def finalize_request_def alg_simps Let_def)

lemma alg_serve:
  assumes "serve_request req a E = Inr E'" shows "e_algorithm E' = e_algorithm E"
proof -
  have "e_algorithm E2 = e_algorithm E1" if "complete_request r d ad E1 = Inr E2" for r d ad and E1 E2 :: "'a engine"
    using that by (auto simp: complete_request_def finalize_request_def bindE_Inr_iff alg_simps Let_def)
  note c = this
  show ?thesis
    by (rule serve_request_shape [OF assms]) (auto simp: alg_simps dest: c split: option.splits)
qed

lemma alg_begin [alg_simps]: "e_algorithm (begin_event ev rest E) = e_algorithm E"
proof -
  have "e_algorithm (advance_server t k u) = e_algorithm u" for t k and u :: "'a engine"
    by (simp add: advance_server_def alg_simps Let_def split_beta split: option.splits)
  then show ?thesis by (simp add: begin_event_def advance_energy_to_def alg_fold)
qed

lemma alg_snapshot:
  assumes "build_metrics_snapshot E = (sn, E')" shows "e_algorithm E' = e_algorithm E"
proof -
  obtain srvs h1 where 1: "map_st (window_server_entry E) (e_servers E) (e_store E) = (srvs, h1)" by (metis surj_pair)
  obtain svcs E2 where 2: "map_st window_service_entry ACTIVE_SERVICES (E\<lparr>e_store := h1\<rparr>) = (svcs, E2)" by (metis surj_pair)
  have "e_algorithm E2 = e_algorithm E"
    by (rule map_st_invariant [OF 2, where P = "\<lambda>u. e_algorithm u = e_algorithm E"])
      (auto simp: window_service_entry_def Let_def split_beta)
  with assms 1 2 show ?thesis by (auto simp: build_metrics_snapshot_def Let_def)
qed

lemma alg_track: 
  assumes "update_sustain_tracking sn E = Inr E'" shows "e_algorithm E' = e_algorithm E"
  using assms unfolding update_sustain_tracking_def by (rule alg_foldE) (erule track_server_shape, simp)

section \<open>The handlers return\<close>

lemma knows_server: "knows d E \<Longrightarrow> k \<in> set (dkeys d) \<Longrightarrow> \<exists>s. server_at E k = Inr s"
  using knows_get [of d E k] by (auto simp: server_at_def dlookup_def)

lemma server_handlers_total:
  assumes "knows d E" and "k \<in> set (dkeys d)"
  shows "\<exists>E'. handle_replica_ready k svc E = Inr E'" "\<exists>E'. handle_replica_terminated k svc E = Inr E'"
    "\<exists>E'. handle_boot_done k E = Inr E'" "\<exists>E'. handle_drain_done k E = Inr E'"
  using knows_server [OF assms]
  by (auto simp: handle_replica_ready_def handle_replica_terminated_def handle_boot_done_def handle_drain_done_def Let_def)

lemma arrival_total:
  assumes "e_servers E \<noteq> []" shows "\<exists>E'. handle_arrival row E = Inr E'"
proof -
  obtain p where "mean_position (dvals (e_servers E)) = Inr p" using assms by (auto simp: mean_position_def)
  then show ?thesis by (cases p) (simp add: handle_arrival_def Let_def)
qed

lemma exec_time_total:
  assumes "svc \<in> set ACTIVE_SERVICES" shows "\<exists>et. compute_exec_time_sec svc (host_mips s) = Inr et"
proof -
  obtain info where info: "service_of svc = Inr info" using assms service_of_active by blast
  then have "resource_mips info \<noteq> 0"
    using SERVICES_INFO_ranges [of svc info] by (simp add: service_of_def dlookup_Inr_iff)
  then have "real_of_int (resource_mips info) * (host_mips s / real_of_int REFERENCE_MIPS_PER_CORE) \<noteq> 0"
    using speed_factor_range [of s] unfolding speed_factor_def by auto
  then show ?thesis by (simp only: compute_exec_time_sec_def info bindE_simps Let_def if_False) blast
qed

lemma cold_start_total:
  assumes "req_service_id req \<in> set ACTIVE_SERVICES" shows "\<exists>x. cold_start_extra_of now req s r = Inr x"
proof -
  obtain info et where "service_of (req_service_id req) = Inr info" "compute_exec_time_sec (req_service_id req) (host_mips s) = Inr et"
    using assms service_of_active [of "req_service_id req"] exec_time_total [OF assms, of s] by blast
  then show ?thesis
    by (cases "r_ready_since r")
      (simp_all add: cold_start_extra_of_def compute_cold_start_window_sec_def compute_cold_start_penalty_sec_def Let_def)
qed

lemma complete_total: "req_service_id req \<in> set ACTIVE_SERVICES \<Longrightarrow> \<exists>E'. complete_request req d ad E = Inr E'"
  using service_of_active [of "req_service_id req"] by (auto simp: complete_request_def Let_def)

lemma serve_total:
  assumes "knows d E" and "r_server_id (e_store E a) \<in> set (dkeys d)" and svc: "req_service_id req \<in> set ACTIVE_SERVICES"
  shows "\<exists>E'. serve_request req a E = Inr E'"
proof -
  obtain s where s: "server_at E (r_server_id (e_store E a)) = Inr s" using knows_server [OF assms(1,2)] ..
  have fin: "\<exists>z. (case p of (admitted, r') \<Rightarrow>
        case admitted of None \<Rightarrow> Inr (g r') | Some adm \<Rightarrow> complete_request rq v adm (f r')) = Inr z"
    if "req_service_id rq = req_service_id req" for p :: "admit option \<times> replica" and g f rq v
    using that complete_total [of rq v] svc by (cases p) (auto split: option.splits)
  show ?thesis
    unfolding serve_request_def s bindE_simps Let_def
    by (rule bindE_total, rule cold_start_total, simp add: svc) (rule fin, simp)
qed

section \<open>Boots and drains return\<close>

lemma sort_key_head: "sort_key f xs = t # ts \<Longrightarrow> t \<in> set xs"
  by (metis list.set_intros(1) set_sort)

lemma boot_step_total:
  assumes "knows d (snd u)" and "svc \<in> set ACTIVE_SERVICES" and offs: "\<forall>s \<in> set offs. srv_id s \<in> set (dkeys d)"
  shows "\<exists>v. emergency_boot_step offs ds svc u = Inr v \<and> knows d (snd v)"
proof (cases "svc \<in> set (dkeys (emergency_boot_for_service (snd u)))")
  case True
  with assms(1) show ?thesis by (simp add: emergency_boot_step_def split_beta)
next
  case False
  obtain info where i: "service_of svc = Inr info" using assms(2) service_of_active [of svc] by blast
  let ?sorted = "sort_key (km_from (srv_lat ds, srv_long ds))
      (filter (\<lambda>x. resource_mips info \<le> srv_capacity x - dget_or 0 (fst u) (srv_id x)) offs)"
  show ?thesis
  proof (cases ?sorted)
    case Nil
    with False i assms(1) show ?thesis by (simp add: emergency_boot_step_def split_beta Let_def)
  next
    case (Cons t ts)
    then have "srv_id t \<in> set (dkeys d)" using sort_key_head [OF Cons] offs by simp
    moreover have "knows d ((snd u)\<lparr>emergency_boot_for_service := m\<rparr>)" for m using assms(1) by (simp add: knows_def)
    ultimately obtain E' where "start_server_boot (srv_id t) True ((snd u)\<lparr>emergency_boot_for_service :=
        dset svc (srv_id t) (emergency_boot_for_service (snd u))\<rparr>) = Inr E'" "knows d E'"
      using start_server_boot_total by blast
    with False i Cons show ?thesis by (simp add: emergency_boot_step_def split_beta Let_def)
  qed
qed

lemma in_state_known:
  assumes "wf_servers servers" and "s \<in> set (in_state st servers)" shows "srv_id s \<in> set (dkeys servers)"
proof -
  have "dget servers (srv_id s) = Some s" using in_state_get [OF assms] by blast
  then show ?thesis using dget_mem by force
qed

lemma trigger_total:
  assumes k: "knows d E" and "set (w_iter_set W svcs) \<subseteq> set ACTIVE_SERVICES"
  shows "\<exists>E'. trigger_emergency_boot W svcs ds E = Inr E'"
proof -
  let ?offs = "in_state SrvOff (e_servers E)"
  have "srv_id s \<in> set (dkeys d)" if "s \<in> set ?offs" for s
    using in_state_known [OF _ that] k unfolding knows_def by metis
  then obtain v where "foldE (emergency_boot_step ?offs ds) (w_iter_set W svcs) ([], E) = Inr v"
    using foldE_total [of "\<lambda>u. knows d (snd u)" "([], E)" "w_iter_set W svcs" "emergency_boot_step ?offs ds"]
      boot_step_total [of d _ _ ?offs ds] k assms(2) by (metis snd_conv subsetD)
  then show ?thesis by (cases v) (simp add: trigger_emergency_boot_def)
qed

lemma validate_total:
  assumes k: "knows d E" and "\<forall>st \<in> set steps. ms_target_server_id st \<in> set (dkeys d) \<and> ms_service_id st \<in> set ACTIVE_SERVICES"
  shows "\<exists>r. foldE (validate_step E) steps u = Inr r"
proof -
  have "\<exists>v. validate_step E st w = Inr v \<and> True" if st: "st \<in> set steps" for st w
  proof -
    obtain t info where "server_at E (ms_target_server_id st) = Inr t" "service_of (ms_service_id st) = Inr info"
      using knows_server [OF k] service_of_active [of "ms_service_id st"] assms(2) st by blast
    then show ?thesis by (cases w) (simp add: validate_step_def Let_def)
  qed
  then show ?thesis using foldE_total [of "\<lambda>_. True" u steps "validate_step E"] by blast
qed

lemma migrate_total:
  assumes "knows d E" and "\<forall>st \<in> set steps. ms_target_server_id st \<in> set (dkeys d) \<and> ms_service_id st \<in> set ACTIVE_SERVICES"
  shows "\<exists>E'. foldE (migrate_step W k) steps E = Inr E'"
proof -
  have "\<exists>v. migrate_step W k st u = Inr v \<and> knows d v" if st: "st \<in> set steps" "knows d u" for st u
  proof -
    obtain p v where v: "place_replica W (ms_target_server_id st) (ms_service_id st) u = Inr (p, v)" "knows d v"
      using place_replica_total [OF st(2)] assms(2) st(1) by blast
    moreover have "knows d (v\<lparr>pending_migrations := m\<rparr>)" for m using v(2) by (simp add: knows_def)
    ultimately show ?thesis by (auto simp: migrate_step_def split: option.splits)
  qed
  then show ?thesis using foldE_total [of "knows d" E steps "migrate_step W k"] assms(1) by blast
qed

lemma validate_subset:
  assumes "foldE (validate_step E) proposed ([], []) = Inr (r, steps)" shows "set steps \<subseteq> set proposed"
proof -
  have "set (snd (r, steps)) \<subseteq> set proposed"
    by (rule foldE_invariant [OF assms, where P = "\<lambda>u. set (snd u) \<subseteq> set proposed"])
      (auto simp: validate_step_def split_beta bindE_Inr_iff Let_def split: if_split_asm)
  then show ?thesis by simp
qed

context total_algorithm
begin

lemma server_drain_total:
  assumes W: "w_alg W = A" "\<forall>xs. set (w_iter_set W xs) \<subseteq> set xs" and inv: "store_inv E"
    and ok: "ok (dkeys (e_servers E)) (e_algorithm E)" and k: "k \<in> set (dkeys (e_servers E))"
  shows "\<exists>b E'. start_server_drain W k E = Inr (b, E')"
proof -
  let ?d = "e_servers E"
  have kn: "knows ?d E" and wf: "wf_servers ?d" using inv by (simp_all add: knows_def store_inv_def)
  obtain s where s: "dget ?d k = Some s" "srv_id s = k" using knows_get [OF kn k] by blast
  have si: "distinct (dkeys (hosted_replicas s))" "set (dkeys (hosted_replicas s)) \<subseteq> set ACTIVE_SERVICES"
    using inv s(1) by (auto simp: store_inv_def server_inv_def)
  obtain proposed where p: "alg_migration_decision (w_alg W) (e_algorithm E) (service_demand_centroid E) s ?d (e_store E) = Inr proposed"
    using migration_total [OF ok] W(1) by blast
  have st: "\<forall>st \<in> set proposed. ms_target_server_id st \<in> set (dkeys ?d) \<and> ms_service_id st \<in> set ACTIVE_SERVICES"
  proof
    fix st assume "st \<in> set proposed"
    then have "valid_step C (e_store E) s ?d st" using migration_sound [OF p [unfolded W(1)] wf si(1)] by blast
    then show "ms_target_server_id st \<in> set (dkeys ?d) \<and> ms_service_id st \<in> set ACTIVE_SERVICES"
      using si(2) dget_mem by (force simp: valid_step_def)
  qed
  obtain r steps where v: "foldE (validate_step E) proposed ([], []) = Inr (r, steps)"
    using validate_total [OF kn st] by (metis surj_pair)
  then have st2: "\<forall>st \<in> set steps. ms_target_server_id st \<in> set (dkeys ?d) \<and> ms_service_id st \<in> set ACTIVE_SERVICES"
    using validate_subset st by blast
  define un where "un = filter (\<lambda>k. k \<notin> set (map ms_service_id steps)) (sole_hosted E s)"
  have "set (w_iter_set W un) \<subseteq> set ACTIVE_SERVICES"
  proof -
    have "set (w_iter_set W un) \<subseteq> set un" using W(2) by blast
    also have "\<dots> \<subseteq> set (dkeys (hosted_replicas s))" by (auto simp: un_def sole_hosted_def)
    finally show ?thesis using si(2) by blast
  qed
  then obtain E1 where t: "trigger_emergency_boot W un s E = Inr E1" using trigger_total [OF kn] by blast
  let ?E = "put_server k (s\<lparr>srv_state := SrvDraining, drain_started_at := Some (e_now E), last_transition_time := e_now E\<rparr>) E"
  have "knows ?d ?E" by (rule knows_put [OF kn s(1)]) (simp_all add: s(2) put_server_def)
  then obtain E2 where m: "foldE (migrate_step W k) steps ?E = Inr E2" using migrate_total st2 by blast
  show ?thesis
    using s(1) p v t m
    by (cases "srv_state s = SrvActive"; cases "un = []")
      (simp_all add: start_server_drain_def server_at_def dlookup_def Let_def un_def [symmetric] del: set_map, blast+)
qed

end

end
