(* ===== verification/Hpa.thy ===== *)
theory Hpa
  imports Policy
begin

text \<open>
  \<open>algorithms/hpa/hpa_algorithm.py\<close>: the Kubernetes autoscaler as a baseline. It is
  location-unaware (\<open>can_host\<close> without a base station) and keeps no state.
\<close>

definition TARGET_UTILIZATION :: real where "TARGET_UTILIZATION = 70/100"

definition hpa_current :: "service_snapshot \<Rightarrow> int" where
  "hpa_current sv = max (int (sv_n_ready_replicas sv)) 1"

definition hpa_desired :: "service_snapshot \<Rightarrow> int" where
  "hpa_desired sv =
     (let current_replicas = hpa_current sv;
          current_util = occ_ratio sv;
          desired = (if current_util \<le> 0 \<and> rejection_signal sv \<le> 0 then 1
                     else \<lceil>of_int current_replicas * (current_util / TARGET_UTILIZATION)\<rceil>);
          desired = max 1 desired
      in if 0 < rejection_signal sv then max desired (current_replicas + 1) else desired)"

definition hpa_scale_decision :: "unit \<Rightarrow> int \<Rightarrow> snapshot \<Rightarrow> (scale_action \<times> unit) result" where
  "hpa_scale_decision st service_id sn =
     bindE (dlookup (sn_services sn) service_id) (\<lambda>sv.
       let current_replicas = hpa_current sv; desired = hpa_desired sv
       in Inr (if current_replicas < desired then ScaleUp
               else if desired < current_replicas \<and> 1 < current_replicas then ScaleDown
               else ScaleNoChange, st))"

definition hpa_select_placement_server ::
  "cfg \<Rightarrow> int \<Rightarrow> servers \<Rightarrow> heap \<Rightarrow> int option result" where
  "hpa_select_placement_server C service_id servers h =
     bindE (service_of service_id) (\<lambda>svc.
       let candidates = filter (\<lambda>s. srv_state s = SrvActive
                                   \<and> can_host C h s service_id (resource_mips svc) None) (dvals servers)
       in if candidates = [] then Inr None
          else bindE (max_by (free_capacity h) candidates) (\<lambda>s. Inr (Some (srv_id s))))"

definition hpa_provision_decision :: "cfg \<Rightarrow> servers \<Rightarrow> heap \<Rightarrow> snapshot \<Rightarrow> provision_action result" where
  "hpa_provision_decision C servers h sn =
     (let active = in_state SrvActive servers
      in if active = [] then Inr no_provision
         else let util = (\<lambda>s. snap_util sn (srv_id s));
                  avg_util = (\<Sum>s\<leftarrow>active. util s) / real (length active);
                  overloaded = overloaded_servers sn active;
                  starved_services = capacity_starved_services C h sn servers (7/10)
              in if UTIL_SCALE_UP_THRESHOLD < avg_util \<or> starved_services \<noteq> []
                 then let off_servers = sort_key srv_id (in_state SrvOff servers)
                      in if off_servers \<noteq> []
                         then let desired_profile =
                                    pick_profile_for_overload overloaded (srv_capacity (hd active));
                                  pool = sort_key srv_id
                                    (filter_by_profile_with_fallback off_servers desired_profile)
                              in Inr (turn_on (srv_id (hd pool)))
                         else Inr no_provision
                 else if avg_util < UTIL_SCALE_DOWN_THRESHOLD
                 then bindE (min_by util active) (\<lambda>idle. Inr (turn_off (srv_id idle)))
                 else Inr no_provision)"

text \<open>\<open>max(candidates, key=free_capacity)\<close>, after the test that there is a candidate.\<close>

definition hpa_migration_target ::
  "cfg \<Rightarrow> server \<Rightarrow> servers \<Rightarrow> heap \<Rightarrow> int \<Rightarrow> server option" where
  "hpa_migration_target C draining servers h service_id =
     (case max_by (free_capacity h) (migration_candidates C h draining servers service_id None) of
        Inl _ \<Rightarrow> None | Inr s \<Rightarrow> Some s)"

definition hpa_migration_decision ::
  "cfg \<Rightarrow> server \<Rightarrow> servers \<Rightarrow> heap \<Rightarrow> migration_step list result" where
  "hpa_migration_decision C draining servers h =
     Inr (migration_loop (hpa_migration_target C draining servers h) h draining servers)"

definition hpa_algorithm :: "cfg \<Rightarrow> unit algorithm" where
  "hpa_algorithm C =
     \<lparr>alg_initial_placement = (\<lambda>_. base_initial_placement),
      alg_select_replica = (\<lambda>st req cands servers now h.
        bindE (base_select_replica req cands servers now h) (\<lambda>(c, h'). Inr (c, st, h'))),
      alg_select_scale_down_victim = (\<lambda>_ _ as _ now h. base_select_scale_down_victim as now h),
      alg_scale_decision = hpa_scale_decision,
      alg_provision_decision = (\<lambda>st servers h sn now.
        bindE (hpa_provision_decision C servers h sn) (\<lambda>act. Inr (act, st))),
      alg_select_placement_server = (\<lambda>_ _. hpa_select_placement_server C),
      alg_migration_decision = (\<lambda>_ _. hpa_migration_decision C),
      alg_bypass_sustain_gate = True\<rparr>"

section \<open>The replica count it asks for\<close>

lemma hpa_desired_scales_to_target:
  assumes "rejection_signal sv \<le> 0" and "0 < occ_ratio sv"
  shows "hpa_desired sv = \<lceil>of_int (hpa_current sv) * (occ_ratio sv / TARGET_UTILIZATION)\<rceil>"
proof -
  have "0 < hpa_current sv" by (simp add: hpa_current_def)
  then have "0 < of_int (hpa_current sv) * (occ_ratio sv / TARGET_UTILIZATION)"
    using assms(2) by (simp add: TARGET_UTILIZATION_def)
  then have "1 \<le> \<lceil>of_int (hpa_current sv) * (occ_ratio sv / TARGET_UTILIZATION)\<rceil>" by linarith
  then show ?thesis using assms by (simp add: hpa_desired_def Let_def)
qed

text \<open>Spread over the desired number of replicas, the present load is at most the target.\<close>

lemma hpa_desired_load:
  assumes "rejection_signal sv \<le> 0" and "0 < occ_ratio sv"
  shows "of_int (hpa_current sv) * occ_ratio sv / of_int (hpa_desired sv) \<le> TARGET_UTILIZATION"
    and "1 < hpa_desired sv \<Longrightarrow>
           TARGET_UTILIZATION < of_int (hpa_current sv) * occ_ratio sv / of_int (hpa_desired sv - 1)"
proof -
  let ?x = "of_int (hpa_current sv) * (occ_ratio sv / TARGET_UTILIZATION)"
  have d: "hpa_desired sv = \<lceil>?x\<rceil>" by (rule hpa_desired_scales_to_target [OF assms])
  have x: "0 < ?x" using assms(2) by (simp add: hpa_current_def TARGET_UTILIZATION_def)
  have le: "?x \<le> of_int (hpa_desired sv)" and lt: "of_int (hpa_desired sv - 1) < ?x"
    unfolding d by linarith+
  have "0 < (of_int (hpa_desired sv) :: real)" using x le by linarith
  with le show "of_int (hpa_current sv) * occ_ratio sv / of_int (hpa_desired sv) \<le> TARGET_UTILIZATION"
    by (simp add: TARGET_UTILIZATION_def field_simps)
  assume "1 < hpa_desired sv"
  then have "0 < (of_int (hpa_desired sv - 1) :: real)" by simp
  with lt show "TARGET_UTILIZATION < of_int (hpa_current sv) * occ_ratio sv / of_int (hpa_desired sv - 1)"
    by (simp add: TARGET_UTILIZATION_def field_simps)
qed

section \<open>The algorithm keeps the contract\<close>

lemma hpa_provision_sound:
  assumes "hpa_provision_decision C servers h sn = Inr act" and "wf_servers servers"
    and "pa_server_id act = Some sid"
  shows "\<exists>s. dget servers sid = Some s
            \<and> (pa_action act = TurnOn \<longrightarrow> srv_state s = SrvOff)
            \<and> (pa_action act = TurnOff \<longrightarrow> srv_state s = SrvActive)"
proof -
  let ?active = "in_state SrvActive servers" and ?off = "in_state SrvOff servers"
  let ?pool = "\<lambda>p. sort_key srv_id (filter_by_profile_with_fallback (sort_key srv_id ?off) p)"
  have on: "dget servers (srv_id (hd (?pool p))) = Some (hd (?pool p)) \<and> srv_state (hd (?pool p)) = SrvOff"
    if "?off \<noteq> []" for p
  proof -
    have "sort_key srv_id ?off \<noteq> []" using that by (metis length_0_conv length_sort)
    then have "?pool p \<noteq> []" using filter_by_profile_props(1) by (metis length_0_conv length_sort)
    then have "hd (?pool p) \<in> set ?off"
      using filter_by_profile_props(2) [of "sort_key srv_id ?off" p] hd_in_set [of "?pool p"] by auto
    then show ?thesis by (rule in_state_get [OF assms(2)])
  qed
  have off: "dget servers (srv_id idle) = Some idle \<and> srv_state idle = SrvActive"
    if "min_by f ?active = Inr idle" for f :: "server \<Rightarrow> real" and idle
    using min_by_Inr(1) [OF that] by (rule in_state_get [OF assms(2)])
  have sn: "sort_key srv_id ?off \<noteq> [] \<longleftrightarrow> ?off \<noteq> []" by (metis length_0_conv length_sort)
  show ?thesis
    using assms(1,3) on off
    unfolding hpa_provision_decision_def Let_def sn
    by (auto simp: bindE_Inr_iff split: if_splits)
qed

lemma hpa_placement_sound:
  assumes "hpa_select_placement_server C svc servers h = Inr (Some sid)" and "wf_servers servers"
  shows "\<exists>s. dget servers sid = Some s \<and> srv_state s = SrvActive \<and> can_host_at_some_point C h s svc"
proof -
  obtain info s where i: "service_of svc = Inr info" and
    r: "sid = srv_id s" "max_by (free_capacity h) (filter (\<lambda>s. srv_state s = SrvActive
          \<and> can_host C h s svc (resource_mips info) None) (dvals servers)) = Inr s"
    using assms(1) unfolding hpa_select_placement_server_def Let_def
    by (auto simp: bindE_Inr_iff split: if_splits)
  from i have cpu: "resource_mips info = resource_mips_of svc"
    by (simp add: service_of_def dlookup_Inr_iff resource_mips_of_def)
  have "s \<in> set (dvals servers)" "srv_state s = SrvActive" "can_host_at_some_point C h s svc"
    using max_by_Inr(1) [OF r(2)] unfolding can_host_at_some_point_def cpu by auto
  with r(1) wf_servers_get [OF assms(2)] show ?thesis by blast
qed

lemma hpa_migration_sound:
  assumes "wf_servers servers"
    and "step \<in> set (migration_loop (hpa_migration_target C s servers h) h s servers)"
  shows "valid_step C h s servers step"
  by (rule migration_loop_valid [OF assms(1) _ assms(2)])
     (auto simp: hpa_migration_target_def dest: max_by_Inr(1) split: sum.splits)

interpretation hpa: self_checking_algorithm "hpa_algorithm C" C for C
  apply unfold_locales
         apply (simp_all only: hpa_algorithm_def algorithm.simps bindE_Inr_iff)
         apply (auto dest: base_select_replica_sound(1))[1]
        apply (auto dest: base_select_replica_sound(2))[1]
       apply (auto dest: base_select_replica_sound(2))[1]
      apply (erule (1) base_initial_lawful)
     apply (blast dest: base_victim_sound(1,2))
    apply (erule (1) hpa_placement_sound)
   apply (auto simp: hpa_migration_decision_def migration_loop_services intro: hpa_migration_sound)[1]
  apply (auto dest: hpa_provision_sound)[1]
  done

section \<open>It never raises\<close>

lemma hpa_scale_total:
  assumes "dget (sn_services sn) svc = Some sv"
  shows "\<exists>d. hpa_scale_decision st svc sn = Inr (d, st) \<and> (d = ScaleUp \<longrightarrow> demand_seen sv)"
proof -
  have "hpa_desired sv \<le> hpa_current sv" if "\<not> demand_seen sv"
    using that by (simp add: demand_seen_def hpa_desired_def hpa_current_def Let_def)
  then have "hpa_current sv < hpa_desired sv \<Longrightarrow> demand_seen sv" by fastforce
  with assms show ?thesis by (simp add: hpa_scale_decision_def dlookup_def Let_def)
qed

lemma hpa_placement_total:
  assumes "svc \<in> set ACTIVE_SERVICES" shows "\<exists>t. hpa_select_placement_server C svc servers h = Inr t"
proof -
  obtain info where i: "service_of svc = Inr info" using service_of_active [of svc] assms by blast
  let ?cands = "filter (\<lambda>s. srv_state s = SrvActive \<and> can_host C h s svc (resource_mips info) None) (dvals servers)"
  show ?thesis
  proof (cases "?cands = []")
    case False
    then obtain s where "max_by (free_capacity h) ?cands = Inr s" using max_by_total by blast
    with False i show ?thesis by (simp only: hpa_select_placement_server_def Let_def bindE_simps if_False) simp
  qed (simp add: hpa_select_placement_server_def i)
qed

lemma hpa_provision_total: "\<exists>act. hpa_provision_decision C servers h sn = Inr act"
  using min_by_total [of "in_state SrvActive servers" "\<lambda>s. snap_util sn (srv_id s)"]
  by (auto simp: hpa_provision_decision_def Let_def)

interpretation hpa_total: total_algorithm "hpa_algorithm C" C "\<lambda>_ _. True" for C
  apply unfold_locales
        apply (simp_all only: hpa_algorithm_def algorithm.simps)
        apply (erule base_initial_placement_total)
       subgoal for servers st cands h req now
         using base_select_replica_total [of cands h servers req now] by fastforce
      apply (erule base_victim_total)
     apply (metis hpa_scale_total)
    apply (metis hpa_provision_total bindE_simps(2))
   apply (erule hpa_placement_total)
  apply (simp add: hpa_migration_decision_def)
  done

section \<open>Properties\<close>

text \<open>
  C17. Without rejections the horizontal-pod-autoscaler rule is a threshold rule: it scales up
  exactly when the mean occupancy exceeds the target, and down exactly when there is more than
  one replica and one replica fewer would still keep the present load within the target.
\<close>

theorem hpa_scale_decision_thresholds:
  assumes "dget (sn_services sn) svc = Some sv" and "rejection_signal sv \<le> 0" and "0 \<le> occ_ratio sv"
  shows "hpa_scale_decision () svc sn =
    Inr (if TARGET_UTILIZATION < occ_ratio sv then ScaleUp
         else if 1 < hpa_current sv
              \<and> of_int (hpa_current sv) * occ_ratio sv \<le> TARGET_UTILIZATION * of_int (hpa_current sv - 1)
         then ScaleDown else ScaleNoChange, ())"
proof -
  let ?c = "hpa_current sv" and ?u = "occ_ratio sv"
  have c: "1 \<le> ?c" by (simp add: hpa_current_def)
  have T: "0 < TARGET_UTILIZATION" by (simp add: TARGET_UTILIZATION_def)
  show ?thesis
  proof (cases "?u = 0")
    case True
    then have "hpa_desired sv = 1" using assms(2) by (simp add: hpa_desired_def Let_def)
    moreover have "0 \<le> TARGET_UTILIZATION * of_int (?c - 1)" using c T by simp
    ultimately show ?thesis
      using assms(1) True T c by (simp add: hpa_scale_decision_def dlookup_def Let_def)
  next
    case False
    with assms(3) have u: "0 < ?u" by simp
    have d: "hpa_desired sv = \<lceil>of_int ?c * (?u / TARGET_UTILIZATION)\<rceil>"
      by (rule hpa_desired_scales_to_target [OF assms(2) u])
    have up: "?c < hpa_desired sv \<longleftrightarrow> TARGET_UTILIZATION < ?u"
      unfolding d less_ceiling_iff using c T by (simp add: field_simps)
    have down: "hpa_desired sv < ?c \<longleftrightarrow> of_int ?c * ?u \<le> TARGET_UTILIZATION * of_int (?c - 1)"
    proof -
      have "hpa_desired sv < ?c \<longleftrightarrow> hpa_desired sv \<le> ?c - 1" by linarith
      also have "\<dots> \<longleftrightarrow> of_int ?c * (?u / TARGET_UTILIZATION) \<le> of_int (?c - 1)"
        unfolding d by (rule ceiling_le_iff)
      also have "\<dots> \<longleftrightarrow> of_int ?c * ?u \<le> TARGET_UTILIZATION * of_int (?c - 1)"
        using T by (simp add: field_simps)
      finally show ?thesis .
    qed
    show ?thesis
      using assms(1) by (simp add: hpa_scale_decision_def dlookup_def Let_def up down)
  qed
qed

theorem hpa_scale_decision_thresholds_witness:
  "hpa_scale_decision () 1 (sample_snapshot [(1, sample_service)]) = Inr (ScaleDown, ())"
  using hpa_scale_decision_thresholds [of "sample_snapshot [(1, sample_service)]" 1 sample_service]
  by (simp add: sample_defs rejection_signal_def occ_ratio_def hpa_current_def TARGET_UTILIZATION_def)

end
