(* ===== verification/Vivaldi.thy ===== *)
theory Vivaldi
  imports Policy
begin

text \<open>
  \<open>common/network_coordinates.py\<close>: Vivaldi network coordinates. Every server and base station
  has a point in the plane, a height and an error estimate; the predicted round trip is the
  distance of the points plus both heights, and an observation moves one of the points.
  numpy's generator is a parameter: \<open>uni a b g\<close> draws from \<open>[a, b)\<close> and returns the next
  generator. \<open>numpy.linalg.norm\<close> of a vector of two is written out.
\<close>

type_synonym 'g uniform = "real \<Rightarrow> real \<Rightarrow> 'g \<Rightarrow> real \<times> 'g"

definition uniform_ok :: "'g uniform \<Rightarrow> bool" where
  "uniform_ok uni \<longleftrightarrow> (\<forall>a b g. a \<le> b \<longrightarrow> a \<le> fst (uni a b g) \<and> fst (uni a b g) \<le> b)"

record coordinate =
  vec :: "real \<times> real"
  height :: real
  error_estimate :: real

definition new_coordinate :: "'g uniform \<Rightarrow> 'g \<Rightarrow> coordinate \<times> 'g" where
  "new_coordinate uni g =
     (let (x, g1) = uni (- 1) 1 g; (y, g2) = uni (- 1) 1 g1; (h, g3) = uni (5/100) (3/10) g2
      in (\<lparr>vec = (x * (1/100), y * (1/100)), height = h, error_estimate = 2\<rparr>, g3))"

definition norm2 :: "real \<times> real \<Rightarrow> real" where
  "norm2 v = sqrt ((fst v)\<^sup>2 + (snd v)\<^sup>2)"

definition vsub :: "real \<times> real \<Rightarrow> real \<times> real \<Rightarrow> real \<times> real" where
  "vsub u v = (fst u - fst v, snd u - snd v)"

definition predicted_rtt_ms :: "coordinate \<Rightarrow> coordinate \<Rightarrow> real" where
  "predicted_rtt_ms c other = norm2 (vsub (vec c) (vec other)) + height c + height other"

definition CE :: real where "CE = 25/100"
definition CC :: real where "CC = 1/2"

definition weight_of :: "coordinate \<Rightarrow> coordinate \<Rightarrow> real" where
  "weight_of c other = error_estimate c / (error_estimate c + error_estimate other + 1 / 10 ^ 9)"

definition coordinate_update :: "'g uniform \<Rightarrow> coordinate \<Rightarrow> coordinate \<Rightarrow> real \<Rightarrow> 'g \<Rightarrow> coordinate \<times> 'g" where
  "coordinate_update uni c other observed_rtt_ms g =
     (let predicted = predicted_rtt_ms c other;
          error = \<bar>predicted - observed_rtt_ms\<bar>;
          w = weight_of c other;
          rel_error = min (error / max observed_rtt_ms (1 / 10 ^ 6)) 1;
          alpha = CE * w;
          e1 = alpha * rel_error * error_estimate c + (1 - alpha) * error_estimate c;
          delta = CC * w;
          direction = vsub (vec c) (vec other);
          nrm = norm2 direction;
          (unit, g') =
            (if nrm < 1 / 10 ^ 6
             then let (x, g1) = uni (- 1) 1 g; (y, g2) = uni (- 1) 1 g1;
                      n = norm2 (x, y) + 1 / 10 ^ 9
                  in ((x / n, y / n), g2)
             else ((fst direction / nrm, snd direction / nrm), g));
          k = delta * (observed_rtt_ms - predicted)
      in (c\<lparr>error_estimate := max e1 (5/100),
            vec := (fst (vec c) + k * fst unit, snd (vec c) + k * snd unit)\<rparr>, g'))"

record 'g vivaldi =
  viv_rng :: 'g
  server_coords :: "(int, coordinate) pydict"
  bts_coords :: "((real \<times> real) \<times> coordinate) list"
  bts_observations :: "(real \<times> real, nat) pydict"

fun new_coords :: "'g uniform \<Rightarrow> int list \<Rightarrow> 'g \<Rightarrow> (int, coordinate) pydict \<times> 'g" where
  "new_coords uni [] g = ([], g)"
| "new_coords uni (sid # sids) g =
     (let (c, g1) = new_coordinate uni g; (cs, g2) = new_coords uni sids g1 in ((sid, c) # cs, g2))"

definition true_rtt_ms :: "real \<Rightarrow> real \<Rightarrow> real \<Rightarrow> real \<Rightarrow> real" where
  "true_rtt_ms lat lon lat' lon' = 2 * network_delay_ms (haversine_km lat lon lat' lon') BASE_LATENCY_MS K_MS_PER_KM"

text \<open>One pair of the bootstrap: server \<open>i\<close> observes server \<open>j\<close>.\<close>

definition bootstrap_pair ::
  "'g uniform \<Rightarrow> servers \<Rightarrow> int \<times> int \<Rightarrow> (int, coordinate) pydict \<times> 'g \<Rightarrow> (int, coordinate) pydict \<times> 'g" where
  "bootstrap_pair uni servers = (\<lambda>(i, j) (coords, g).
     if i = j then (coords, g)
     else (case (dget servers i, dget servers j, dget coords i, dget coords j) of
             (Some si, Some sj, Some ci, Some cj) \<Rightarrow>
               let (c, g') = coordinate_update uni ci cj
                               (true_rtt_ms (srv_lat si) (srv_long si) (srv_lat sj) (srv_long sj)) g
               in (dset i c coords, g')
           | _ \<Rightarrow> (coords, g)))"

definition bootstrap_rounds :: nat where "bootstrap_rounds = 20"

definition new_vivaldi :: "'g uniform \<Rightarrow> servers \<Rightarrow> 'g \<Rightarrow> 'g vivaldi" where
  "new_vivaldi uni servers g =
     (let (coords, g1) = new_coords uni (dkeys servers) g;
          ids = dkeys servers;
          pairs = concat (replicate bootstrap_rounds (concat (map (\<lambda>i. map (Pair i) ids) ids)));
          (coords', g2) = fold (bootstrap_pair uni servers) pairs (coords, g1)
      in \<lparr>viv_rng = g2, server_coords = coords', bts_coords = [], bts_observations = []\<rparr>)"

text \<open>\<open>round(x, 5)\<close>\<close>

definition round5 :: "real \<Rightarrow> real" where
  "round5 x = of_int (py_round (x * 10 ^ 5)) / 10 ^ 5"

definition bts_key :: "real \<Rightarrow> real \<Rightarrow> real \<times> real" where
  "bts_key lat lon = (round5 lat, round5 lon)"

definition get_or_create_bts_coord ::
  "'g uniform \<Rightarrow> real \<Rightarrow> real \<Rightarrow> 'g vivaldi \<Rightarrow> coordinate \<times> 'g vivaldi" where
  "get_or_create_bts_coord uni lat lon v =
     (case dget (bts_coords v) (bts_key lat lon) of
        Some c \<Rightarrow> (c, v)
      | None \<Rightarrow> let (c, g) = new_coordinate uni (viv_rng v)
                in (c, v\<lparr>viv_rng := g, bts_coords := dset (bts_key lat lon) c (bts_coords v)\<rparr>))"

definition estimate_rtt_ms ::
  "'g uniform \<Rightarrow> real \<Rightarrow> real \<Rightarrow> int \<Rightarrow> 'g vivaldi \<Rightarrow> (real \<times> 'g vivaldi) result" where
  "estimate_rtt_ms uni lat lon sid v =
     (let (c, v') = get_or_create_bts_coord uni lat lon v
      in bindE (dlookup (server_coords v') sid) (\<lambda>s. Inr (predicted_rtt_ms c s, v')))"

definition observe :: "'g uniform \<Rightarrow> real \<Rightarrow> real \<Rightarrow> int \<Rightarrow> real \<Rightarrow> 'g vivaldi \<Rightarrow> 'g vivaldi result" where
  "observe uni lat lon sid rtt v =
     (let (c, v1) = get_or_create_bts_coord uni lat lon v
      in bindE (dlookup (server_coords v1) sid) (\<lambda>s.
           let (c', g) = coordinate_update uni c s rtt (viv_rng v1)
           in Inr (v1\<lparr>viv_rng := g, bts_coords := dset (bts_key lat lon) c' (bts_coords v1),
                      bts_observations := dadd (bts_key lat lon) 1 (bts_observations v1)\<rparr>)))"

definition observation_count :: "real \<Rightarrow> real \<Rightarrow> 'g vivaldi \<Rightarrow> nat" where
  "observation_count lat lon v = dget_or 0 (bts_observations v) (bts_key lat lon)"

section \<open>What an observation does\<close>

definition coord_ok :: "coordinate \<Rightarrow> bool" where
  "coord_ok c \<longleftrightarrow> 5/100 \<le> error_estimate c \<and> error_estimate c \<le> 2 \<and> 5/100 \<le> height c \<and> height c \<le> 3/10"

lemma norm2_nonneg [simp]: "0 \<le> norm2 v"
  by (simp add: norm2_def)

lemma norm2_scale: "norm2 (k * fst v, k * snd v) = \<bar>k\<bar> * norm2 v"
proof -
  have "(k * fst v)\<^sup>2 + (k * snd v)\<^sup>2 = k\<^sup>2 * ((fst v)\<^sup>2 + (snd v)\<^sup>2)" by (simp add: power_mult_distrib algebra_simps)
  then show ?thesis by (simp add: norm2_def real_sqrt_mult)
qed

lemma coord_ok_new: "uniform_ok uni \<Longrightarrow> coord_ok (fst (new_coordinate uni g))"
proof -
  assume "uniform_ok uni"
  then have "5/100 \<le> fst (uni (5/100) (3/10) g')" "fst (uni (5/100) (3/10) g') \<le> 3/10" for g'
    by (simp_all add: uniform_ok_def del: divide_le_eq_numeral1 le_divide_eq_numeral1)
  then show ?thesis by (simp add: new_coordinate_def split_beta Let_def coord_ok_def)
qed

lemma weight_range:
  assumes "coord_ok c" and "coord_ok d" shows "0 < weight_of c d" and "weight_of c d < 1"
  using assms by (simp_all add: weight_of_def coord_ok_def divide_less_eq add_pos_pos)

lemma coord_ok_update:
  assumes "coord_ok c" and "coord_ok d"
  shows "coord_ok (fst (coordinate_update uni c d rtt g))"
proof -
  let ?a = "CE * weight_of c d"
  let ?r = "min (\<bar>predicted_rtt_ms c d - rtt\<bar> / max rtt (1 / 10 ^ 6)) 1"
  have a: "0 \<le> ?a" "?a \<le> 1" using weight_range [OF assms] by (simp_all add: CE_def)
  have r: "?r \<le> 1" by simp
  have e: "0 \<le> error_estimate c" "error_estimate c \<le> 2" using assms(1) by (simp_all add: coord_ok_def)
  have "?a * ?r * error_estimate c \<le> ?a * 1 * error_estimate c"
    using a(1) r e(1) by (intro mult_right_mono mult_left_mono) auto
  then have "?a * ?r * error_estimate c + (1 - ?a) * error_estimate c \<le> error_estimate c"
    by (simp add: algebra_simps)
  with assms(1) e show ?thesis
    by (simp add: coordinate_update_def Let_def split_beta coord_ok_def)
qed

text \<open>Unless the points coincide, the prediction moves towards what was observed.\<close>

lemma coordinate_update_moves:
  assumes "1 / 10 ^ 6 \<le> norm2 (vsub (vec c) (vec d))"
  shows "predicted_rtt_ms (fst (coordinate_update uni c d rtt g)) d =
           \<bar>norm2 (vsub (vec c) (vec d)) + CC * weight_of c d * (rtt - predicted_rtt_ms c d)\<bar> + height c + height d"
proof -
  let ?v = "vsub (vec c) (vec d)"
  let ?n = "norm2 ?v" and ?k = "CC * weight_of c d * (rtt - predicted_rtt_ms c d)"
  have n: "0 < ?n" by (rule less_le_trans [OF _ assms]) simp
  let ?c = "fst (coordinate_update uni c d rtt g)"
  have v': "vec ?c = (fst (vec c) + ?k * (fst ?v / ?n), snd (vec c) + ?k * (snd ?v / ?n))"
    "height ?c = height c"
    using assms by (simp_all add: coordinate_update_def Let_def split_beta)
  have "vsub (vec ?c) (vec d) = ((1 + ?k / ?n) * fst ?v, (1 + ?k / ?n) * snd ?v)"
    by (simp add: v' vsub_def algebra_simps)
  then have "norm2 (vsub (vec ?c) (vec d)) = \<bar>1 + ?k / ?n\<bar> * ?n" by (simp only: norm2_scale)
  also have "\<dots> = \<bar>?n + ?k\<bar>"
  proof -
    have "\<bar>1 + ?k / ?n\<bar> * ?n = \<bar>(1 + ?k / ?n) * ?n\<bar>" using n by (simp add: abs_mult)
    also have "(1 + ?k / ?n) * ?n = ?n + ?k" using n by (simp add: field_simps)
    finally show ?thesis .
  qed
  finally show ?thesis by (simp add: predicted_rtt_ms_def v'(2))
qed

lemma coordinate_update_improves:
  assumes "coord_ok c" and "coord_ok d" and far: "1 / 10 ^ 6 \<le> norm2 (vsub (vec c) (vec d))"
    and reach: "height c + height d \<le> rtt"
  shows "predicted_rtt_ms (fst (coordinate_update uni c d rtt g)) d - rtt
           = (1 - CC * weight_of c d) * (predicted_rtt_ms c d - rtt)"
proof -
  let ?n = "norm2 (vsub (vec c) (vec d))" and ?w = "CC * weight_of c d"
  have w: "0 \<le> ?w" "?w \<le> 1" using weight_range [OF assms(1,2)] by (simp_all add: CC_def)
  have p: "predicted_rtt_ms c d = ?n + height c + height d" by (simp add: predicted_rtt_ms_def)
  have "0 \<le> (1 - ?w) * ?n" using w(2) by (simp del: mult_le_cancel_right1)
  moreover have "0 \<le> ?w * (rtt - height c - height d)" using w(1) reach by (intro mult_nonneg_nonneg [OF w(1)]) simp
  ultimately have "0 \<le> (1 - ?w) * ?n + ?w * (rtt - height c - height d)" by linarith
  then have "0 \<le> ?n + ?w * (rtt - predicted_rtt_ms c d)" unfolding p by (simp add: algebra_simps)
  then show ?thesis
    unfolding coordinate_update_moves [OF far] by (simp add: p algebra_simps)
qed

definition vivaldi_ok :: "'g vivaldi \<Rightarrow> bool" where
  "vivaldi_ok v \<longleftrightarrow> (\<forall>c \<in> set (dvals (server_coords v)). coord_ok c) \<and> (\<forall>c \<in> set (dvals (bts_coords v)). coord_ok c)"

lemma dvals_dset: "set (dvals (dset k x d)) \<subseteq> insert x (set (dvals d))"
  by (induction d) auto

lemma dget_dvals: "dget d k = Some x \<Longrightarrow> x \<in> set (dvals d)"
  by (force dest: dget_mem)

lemma get_or_create_ok:
  assumes "vivaldi_ok v" and "uniform_ok uni" and "get_or_create_bts_coord uni lat lon v = (c, v')"
  shows "coord_ok c \<and> vivaldi_ok v'"
proof (cases "dget (bts_coords v) (bts_key lat lon)")
  case (Some x)
  with assms dget_dvals [OF Some] show ?thesis by (auto simp: get_or_create_bts_coord_def vivaldi_ok_def)
next
  case None
  obtain x g where x: "new_coordinate uni (viv_rng v) = (x, g)" by (metis surj_pair)
  have "coord_ok x" using coord_ok_new [OF assms(2), of "viv_rng v"] x by simp
  with None assms x dvals_dset show ?thesis
    by (fastforce simp: get_or_create_bts_coord_def vivaldi_ok_def dest!: subsetD [OF dvals_dset])
qed

lemma observe_ok:
  assumes "vivaldi_ok v" and "uniform_ok uni" and "observe uni lat lon sid rtt v = Inr v'"
  shows "vivaldi_ok v'"
    and "observation_count lat' lon' v' =
           observation_count lat' lon' v + (if bts_key lat' lon' = bts_key lat lon then 1 else 0)"
proof -
  obtain c v1 where 1: "get_or_create_bts_coord uni lat lon v = (c, v1)" by (metis surj_pair)
  have ok: "coord_ok c" "vivaldi_ok v1" using get_or_create_ok [OF assms(1,2) 1] by simp_all
  obtain s where s: "dget (server_coords v1) sid = Some s"
    using assms(3) 1 by (auto simp: observe_def bindE_Inr_iff dlookup_Inr_iff)
  obtain c' g where u: "coordinate_update uni c s rtt (viv_rng v1) = (c', g)" by (metis surj_pair)
  have v': "v' = v1\<lparr>viv_rng := g, bts_coords := dset (bts_key lat lon) c' (bts_coords v1),
                      bts_observations := dadd (bts_key lat lon) 1 (bts_observations v1)\<rparr>"
    using assms(3) 1 s u by (simp add: observe_def dlookup_def)
  have f: "server_coords v' = server_coords v1" "bts_coords v' = dset (bts_key lat lon) c' (bts_coords v1)"
    by (simp_all add: v')
  have "coord_ok s" using ok(2) dget_dvals [OF s] unfolding vivaldi_ok_def by blast
  then have "coord_ok c'" using coord_ok_update [OF ok(1), of s uni rtt "viv_rng v1"] u by simp
  then show "vivaldi_ok v'"
    using ok(2) dvals_dset [of "bts_key lat lon" c' "bts_coords v1"]
    unfolding vivaldi_ok_def f by blast
  have "bts_observations v1 = bts_observations v"
    using 1 by (auto simp: get_or_create_bts_coord_def split_beta split: option.splits)
  then show "observation_count lat' lon' v' =
           observation_count lat' lon' v + (if bts_key lat' lon' = bts_key lat lon then 1 else 0)"
    by (simp add: observation_count_def v' dict_simps)
qed

section \<open>Properties\<close>

text \<open>
  C19. One observation moves the predicted round trip towards the observed one by the factor
  \<open>1 - CC * weight\<close>, between one half and one, whenever the two points do not coincide and
  the observation is not below the two heights: the prediction error strictly shrinks and
  never changes its sign.
\<close>

theorem vivaldi_update_contracts:
  assumes "coord_ok c" and "coord_ok d" and "1 / 10 ^ 6 \<le> norm2 (vsub (vec c) (vec d))"
    and "height c + height d \<le> rtt"
  shows "predicted_rtt_ms (fst (coordinate_update uni c d rtt g)) d - rtt
           = (1 - CC * weight_of c d) * (predicted_rtt_ms c d - rtt)
       \<and> 1/2 \<le> 1 - CC * weight_of c d \<and> 1 - CC * weight_of c d < 1
       \<and> coord_ok (fst (coordinate_update uni c d rtt g))"
  using coordinate_update_improves [OF assms(1-4), of uni g] weight_range [OF assms(1,2)]
    coord_ok_update [OF assms(1,2), of uni rtt g]
  by (simp add: CC_def)

theorem vivaldi_update_contracts_witness:
  "let uni = (\<lambda>a b (g::nat). (a, g)); c = \<lparr>vec = (0, 0), height = 1/10, error_estimate = 2\<rparr>;
       d = \<lparr>vec = (3, 4), height = 1/10, error_estimate = 2\<rparr>
   in coord_ok (fst (coordinate_update uni c d 9 0))"
proof -
  define c d where "c = \<lparr>vec = (0, 0), height = 1/10, error_estimate = (2::real)\<rparr>"
    and "d = \<lparr>vec = (3, 4), height = 1/10, error_estimate = (2::real)\<rparr>"
  have "coord_ok c" "coord_ok d" by (simp_all add: c_def d_def coord_ok_def)
  moreover have "norm2 (vsub (vec c) (vec d)) = 5"
    by (simp add: c_def d_def norm2_def vsub_def)
  moreover have "height c + height d \<le> 9" by (simp add: c_def d_def)
  ultimately show ?thesis
    using vivaldi_update_contracts [of c d 9 "\<lambda>a b (g::nat). (a, g)" 0] by (simp add: Let_def c_def d_def)
qed

text \<open>
  Observing keeps every coordinate within its bounds (error estimate between 0.05 and 2,
  height between 0.05 and 0.3, so no division by zero occurs), and counts exactly the
  observations of the base station's rounded position.
\<close>

theorem vivaldi_observe_sound:
  assumes "vivaldi_ok v" and "uniform_ok uni" and "observe uni lat lon sid rtt v = Inr v'"
  shows "vivaldi_ok v' \<and> observation_count lat' lon' v' =
           observation_count lat' lon' v + (if bts_key lat' lon' = bts_key lat lon then 1 else 0)"
  using observe_ok [OF assms] by simp

theorem vivaldi_observe_sound_witness:
  "\<exists>v'. observe (\<lambda>a b (g::nat). (a, g)) 31 121 1 9
       \<lparr>viv_rng = 0, server_coords = [(1, \<lparr>vec = (3, 4), height = 1/10, error_estimate = 2\<rparr>)],
        bts_coords = [], bts_observations = []\<rparr> = Inr v' \<and> observation_count 31 121 v' = 1"
proof -
  define v where "v = \<lparr>viv_rng = 0::nat, server_coords = [(1::int, \<lparr>vec = (3, 4), height = 1/10, error_estimate = 2\<rparr>)],
        bts_coords = [], bts_observations = []\<rparr>"
  let ?u = "\<lambda>a b (g::nat). (a::real, g)"
  obtain v' where v': "observe ?u 31 121 1 9 v = Inr v'"
    by (auto simp: observe_def v_def get_or_create_bts_coord_def split_beta Let_def dlookup_def)
  have "vivaldi_ok v" by (simp add: vivaldi_ok_def v_def coord_ok_def)
  moreover have "uniform_ok ?u" by (simp add: uniform_ok_def)
  moreover have "observation_count 31 121 v = 0" by (simp add: v_def observation_count_def dget_or_def)
  ultimately show ?thesis
    using vivaldi_observe_sound [OF _ _ v', of 31 121] v' by (auto simp: v_def)
qed

end
