(* ===== verification/Voila.thy ===== *)
theory Voila
  imports Vivaldi
begin

text \<open>
  \<open>algorithms/voila/voila_algorithm.py\<close>: the proximity-aware algorithm. Its state is the
  streaks of good and of proximity-violating ticks per service, the last snapshot it was
  shown, and the network coordinates it routes by, created on the first request.
\<close>

definition OCC_UP_TRIGGER :: real where "OCC_UP_TRIGGER = 1 - 20/100"
definition OCC_DOWN_THRESHOLD :: real where "OCC_DOWN_THRESHOLD = 20/100"
definition SCALE_DOWN_PATIENCE_TICKS :: nat where "SCALE_DOWN_PATIENCE_TICKS = 3"
definition PROXIMITY_SUSTAIN_TICKS :: nat where "PROXIMITY_SUSTAIN_TICKS = 2"
definition PROXIMITY_PROTECTION_TICKS :: nat where "PROXIMITY_PROTECTION_TICKS = 5"

lemmas voila_constants = OCC_UP_TRIGGER_def OCC_DOWN_THRESHOLD_def SCALE_DOWN_PATIENCE_TICKS_def
  PROXIMITY_SUSTAIN_TICKS_def PROXIMITY_PROTECTION_TICKS_def

record 'g voila_state =
  good_streak :: "(int, nat) pydict"
  last_snapshot :: "snapshot option"
  proximity_violation_streak :: "(int, nat) pydict"
  proximity_recent :: "(int, nat) pydict"
  voila_vivaldi :: "'g vivaldi option"

definition new_voila :: "'g voila_state" where
  "new_voila = \<lparr>good_streak = [], last_snapshot = None, proximity_violation_streak = [],
     proximity_recent = [], voila_vivaldi = None\<rparr>"

definition capacity_violation :: "service_snapshot \<Rightarrow> bool" where
  "capacity_violation sv \<longleftrightarrow> OCC_UP_TRIGGER < occ_ratio sv \<or> 0 < rejection_signal sv"

definition proximity_violation :: "service_snapshot \<Rightarrow> bool" where
  "proximity_violation sv \<longleftrightarrow> \<not> capacity_violation sv \<and> 0 < sv_proximity_violation_rate sv"

definition voila_decide :: "int \<Rightarrow> service_snapshot \<Rightarrow> 'g voila_state \<Rightarrow> scale_action \<times> 'g voila_state" where
  "voila_decide k sv st =
     (if capacity_violation sv
      then (ScaleUp, st\<lparr>good_streak := dset k 0 (good_streak st),
                       proximity_violation_streak := dset k 0 (proximity_violation_streak st)\<rparr>)
      else if proximity_violation sv
      then let streak = dget_or 0 (proximity_violation_streak st) k + 1;
               st1 = st\<lparr>proximity_violation_streak := dset k streak (proximity_violation_streak st),
                       good_streak := dset k 0 (good_streak st)\<rparr>
           in if streak < PROXIMITY_SUSTAIN_TICKS then (ScaleNoChange, st1)
              else (ScaleUp, st1\<lparr>proximity_violation_streak := dset k 0 (proximity_violation_streak st1),
                               proximity_recent := dset k PROXIMITY_PROTECTION_TICKS (proximity_recent st1)\<rparr>)
      else let streak = dget_or 0 (good_streak st) k + 1;
               recent = dget_or 0 (proximity_recent st) k - 1;
               st1 = st\<lparr>proximity_violation_streak := dset k 0 (proximity_violation_streak st),
                       good_streak := dset k streak (good_streak st),
                       proximity_recent := dset k recent (proximity_recent st)\<rparr>
           in if 0 < recent then (ScaleNoChange, st1)
              else if SCALE_DOWN_PATIENCE_TICKS \<le> streak \<and> occ_ratio sv < OCC_DOWN_THRESHOLD
                      \<and> 1 < sv_n_ready_replicas sv
              then (ScaleDown, st1\<lparr>good_streak := dset k 0 (good_streak st1)\<rparr>)
              else (ScaleNoChange, st1))"

definition voila_scale_decision ::
  "'g voila_state \<Rightarrow> int \<Rightarrow> snapshot \<Rightarrow> (scale_action \<times> 'g voila_state) result" where
  "voila_scale_decision st service_id sn =
     bindE (dlookup (sn_services sn) service_id) (\<lambda>sv.
       Inr (voila_decide service_id sv (st\<lparr>last_snapshot := Some sn\<rparr>)))"

section \<open>Routing\<close>

fun estimates ::
  "'g uniform \<Rightarrow> request \<Rightarrow> heap \<Rightarrow> nat list \<Rightarrow> 'g vivaldi \<Rightarrow> ((real \<times> nat) list \<times> 'g vivaldi) result" where
  "estimates uni req h [] v = Inr ([], v)"
| "estimates uni req h (a # as) v =
     bindE (estimate_rtt_ms uni (bts_lat req) (bts_long req) (r_server_id (h a)) v) (\<lambda>(rtt, v1).
     bindE (estimates uni req h as v1) (\<lambda>(keyed, v2). Inr ((rtt, a) # keyed, v2)))"

definition voila_select_replica ::
  "'g uniform \<Rightarrow> 'g \<Rightarrow> 'g voila_state \<Rightarrow> request \<Rightarrow> nat list \<Rightarrow> servers \<Rightarrow> real \<Rightarrow> heap
   \<Rightarrow> (nat option \<times> 'g voila_state \<times> heap) result" where
  "voila_select_replica uni seed st req candidates servers now h =
     (if candidates = [] then Inr (None, st, h)
      else let v0 = (case voila_vivaldi st of None \<Rightarrow> new_vivaldi uni servers seed | Some v \<Rightarrow> v)
           in bindE (estimates uni req h candidates v0) (\<lambda>(keyed, v1).
                let ranked = map snd (sort_key fst keyed);
                    (chosen, h') = find_st (sim_admit now) ranked h
                in case chosen of
                     None \<Rightarrow> Inr (None, st\<lparr>voila_vivaldi := Some v1\<rparr>, h')
                   | Some a \<Rightarrow>
                       bindE (dlookup servers (r_server_id (h' a))) (\<lambda>s.
                       bindE (observe uni (bts_lat req) (bts_long req) (r_server_id (h' a))
                                (true_rtt_ms (bts_lat req) (bts_long req) (srv_lat s) (srv_long s)) v1) (\<lambda>v2.
                         Inr (Some a, st\<lparr>voila_vivaldi := Some v2\<rparr>, h')))))"

section \<open>Placement, provisioning, migration\<close>

definition voila_select_placement_server ::
  "cfg \<Rightarrow> 'g voila_state \<Rightarrow> int \<Rightarrow> servers \<Rightarrow> heap \<Rightarrow> int option result" where
  "voila_select_placement_server C st service_id servers h =
     bindE (service_of service_id) (\<lambda>svc.
     bindE (last_centroid (last_snapshot st) service_id) (\<lambda>known.
     bindE (case known of Some c \<Rightarrow> Inr c | None \<Rightarrow> mean_position (in_state SrvActive servers)) (\<lambda>centroid.
       let candidates = filter (\<lambda>s. srv_state s = SrvActive
                                   \<and> can_host C h s service_id (resource_mips svc) (Some centroid)) (dvals servers)
       in if candidates = [] then Inr None
          else bindE (roomiest_near h centroid candidates) (\<lambda>s. Inr (Some (srv_id s))))))"

definition worst_starved :: "snapshot \<Rightarrow> int list \<Rightarrow> int result" where
  "worst_starved sn starved =
     max_by (\<lambda>k. case dget (sn_services sn) k of None \<Rightarrow> 0 | Some sv \<Rightarrow> sv_rejection_rate sv) starved"

text \<open>The reference position and server of a \<open>TURN_ON\<close>.\<close>

definition turn_on_reference ::
  "snapshot \<Rightarrow> server list \<Rightarrow> server list \<Rightarrow> int list \<Rightarrow> ((real \<times> real) option \<times> server option) result" where
  "turn_on_reference sn active overloaded starved =
     (case overloaded of
        r # _ \<Rightarrow> Inr (Some (srv_lat r, srv_long r), Some r)
      | [] \<Rightarrow>
          bindE (worst_starved sn starved) (\<lambda>worst.
          bindE (dlookup (sn_services sn) worst) (\<lambda>sv.
            let centroid = sv_demand_centroid sv
            in if active = [] then Inr (centroid, None)
               else bindE (max_by (\<lambda>s. snap_util sn (srv_id s)) active) (\<lambda>ref.
                      Inr (case centroid of None \<Rightarrow> Some (srv_lat ref, srv_long ref) | Some c \<Rightarrow> Some c,
                           Some ref)))))"

definition voila_provision_action ::
  "cfg \<Rightarrow> servers \<Rightarrow> heap \<Rightarrow> snapshot \<Rightarrow> provision_action result" where
  "voila_provision_action C servers h sn =
     (let active = in_state SrvActive servers;
          overloaded = overloaded_servers sn active;
          starved = capacity_starved_services C h sn servers OCC_UP_TRIGGER;
          util = (\<lambda>s. snap_util sn (srv_id s))
      in if overloaded \<noteq> [] \<or> starved \<noteq> []
         then let off_servers = in_state SrvOff servers
              in if off_servers = [] then Inr no_provision
                 else bindE (turn_on_reference sn active overloaded starved) (\<lambda>(pos, ref).
                   let fallback = (case ref of Some r \<Rightarrow> srv_capacity r | None \<Rightarrow> srv_capacity (hd off_servers));
                       pool = filter_by_profile_with_fallback off_servers
                                (pick_profile_for_overload overloaded fallback);
                       sorted_pool = (case pos of Some p \<Rightarrow> sort_key (km_from p) pool
                                      | None \<Rightarrow> sort_key (\<lambda>s. real_of_int (srv_id s)) pool)
                   in Inr (turn_on (srv_id (hd sorted_pool))))
         else if active \<noteq> []
         then bindE (min_by util active) (\<lambda>idle.
                Inr (if util idle < UTIL_SCALE_DOWN_THRESHOLD then turn_off (srv_id idle) else no_provision))
         else Inr no_provision)"

text \<open>Snapshots have an entry for every service, so the lookup does not fail here.\<close>

definition voila_migration_target ::
  "cfg \<Rightarrow> 'g voila_state \<Rightarrow> server \<Rightarrow> servers \<Rightarrow> heap \<Rightarrow> int \<Rightarrow> server option" where
  "voila_migration_target C st draining servers h service_id =
     (let ref = (case last_centroid (last_snapshot st) service_id of
                   Inr (Some c) \<Rightarrow> c | _ \<Rightarrow> (srv_lat draining, srv_long draining))
      in first_by (km_from ref) (migration_candidates C h draining servers service_id (Some ref)))"

definition voila_migration_decision ::
  "cfg \<Rightarrow> 'g voila_state \<Rightarrow> server \<Rightarrow> servers \<Rightarrow> heap \<Rightarrow> migration_step list result" where
  "voila_migration_decision C st draining servers h =
     Inr (migration_loop (voila_migration_target C st draining servers h) h draining servers)"

text \<open>Among the less loaded half, the replica farthest from the demand.\<close>

definition voila_select_scale_down_victim ::
  "'g voila_state \<Rightarrow> int \<Rightarrow> nat list \<Rightarrow> servers \<Rightarrow> real \<Rightarrow> heap \<Rightarrow> (nat \<times> heap) result" where
  "voila_select_scale_down_victim st service_id ready servers now h =
     bindE (last_centroid (last_snapshot st) service_id) (\<lambda>centroid.
       case centroid of
         None \<Rightarrow> base_select_scale_down_victim ready now h
       | Some c \<Rightarrow>
           if length ready \<le> 1 then base_select_scale_down_victim ready now h
           else let (keyed, h') = occupancy_keys now ready h;
                    by_load = map snd (sort_key fst keyed);
                    pool = take (max 1 (length by_load div 2)) by_load
                in bindE (mapE (\<lambda>a. bindE (dlookup servers (r_server_id (h' a))) (\<lambda>s. Inr (km_from c s, a))) pool)
                     (\<lambda>dists. bindE (max_by fst dists) (\<lambda>p. Inr (snd p, h'))))"

definition voila_algorithm :: "'g uniform \<Rightarrow> 'g \<Rightarrow> cfg \<Rightarrow> 'g voila_state algorithm" where
  "voila_algorithm uni seed C =
     \<lparr>alg_initial_placement = (\<lambda>_. base_initial_placement),
      alg_select_replica = voila_select_replica uni seed,
      alg_select_scale_down_victim = voila_select_scale_down_victim,
      alg_scale_decision = voila_scale_decision,
      alg_provision_decision = (\<lambda>st servers h sn now.
        bindE (voila_provision_action C servers h sn) (\<lambda>act. Inr (act, st\<lparr>last_snapshot := Some sn\<rparr>))),
      alg_select_placement_server = (\<lambda>st _. voila_select_placement_server C st),
      alg_migration_decision = (\<lambda>st _. voila_migration_decision C st),
      alg_bypass_sustain_gate = True\<rparr>"

section \<open>The streaks\<close>

text \<open>The decisions of consecutive ticks for one service.\<close>

fun voila_run :: "int \<Rightarrow> service_snapshot list \<Rightarrow> 'g voila_state \<Rightarrow> scale_action list \<times> 'g voila_state" where
  "voila_run k [] st = ([], st)"
| "voila_run k (sv # svs) st =
     (let (a, st1) = voila_decide k sv st; (as, st2) = voila_run k svs st1 in (a # as, st2))"

definition calm :: "service_snapshot \<Rightarrow> bool" where
  "calm sv \<longleftrightarrow> \<not> capacity_violation sv \<and> \<not> proximity_violation sv"

text \<open>How many of the last ticks were calm.\<close>

definition calm_ticks :: "service_snapshot list \<Rightarrow> nat" where
  "calm_ticks svs = length (takeWhile calm (rev svs))"

lemma calm_ticks_snoc: "calm_ticks (svs @ [sv]) = (if calm sv then calm_ticks svs + 1 else 0)"
  by (simp add: calm_ticks_def)

lemma calm_ticks_nth: "i < calm_ticks svs \<Longrightarrow> calm (svs ! (length svs - 1 - i))"
proof -
  assume i: "i < calm_ticks svs"
  then have len: "i < length svs" using length_takeWhile_le [of calm "rev svs"] by (simp add: calm_ticks_def)
  from i have "calm (takeWhile calm (rev svs) ! i)" by (metis calm_ticks_def nth_mem set_takeWhileD)
  also have "takeWhile calm (rev svs) ! i = rev svs ! i" using i by (simp add: calm_ticks_def takeWhile_nth)
  finally show ?thesis using len by (simp add: rev_nth)
qed

lemma voila_decide_streaks:
  assumes "voila_decide k sv st = (a, st')"
  shows "dget_or 0 (good_streak st') k \<le> (if calm sv then dget_or 0 (good_streak st) k + 1 else 0)"
    and "a = ScaleDown \<Longrightarrow> calm sv \<and> 3 \<le> dget_or 0 (good_streak st) k + 1
           \<and> occ_ratio sv < OCC_DOWN_THRESHOLD \<and> 1 < sv_n_ready_replicas sv
           \<and> dget_or 0 (proximity_recent st) k \<le> 1 \<and> dget_or 0 (good_streak st') k = 0"
    and "a = ScaleUp \<Longrightarrow> capacity_violation sv \<or>
           (proximity_violation sv \<and> 2 \<le> dget_or 0 (proximity_violation_streak st) k + 1)"
  using assms
  by (auto simp: voila_decide_def Let_def calm_def dict_simps voila_constants split: if_splits)

lemma voila_run_snoc:
  "voila_run k (svs @ [sv]) st =
     (let (as, st1) = voila_run k svs st; (a, st2) = voila_decide k sv st1 in (as @ [a], st2))"
  by (induction svs arbitrary: st) (simp_all add: Let_def split_beta)

lemma voila_run_length: "length (fst (voila_run k svs st)) = length svs"
  by (induction svs arbitrary: st) (simp_all add: Let_def split_beta)

lemma voila_run_streak:
  assumes "dget_or 0 (good_streak st) k = 0"
  shows "dget_or 0 (good_streak (snd (voila_run k svs st))) k \<le> calm_ticks svs"
proof (induction svs rule: rev_induct)
  case Nil
  then show ?case by (simp add: assms)
next
  case (snoc sv svs)
  obtain as st1 where 1: "voila_run k svs st = (as, st1)" by (metis surj_pair)
  obtain a st2 where 2: "voila_decide k sv st1 = (a, st2)" by (metis surj_pair)
  from voila_decide_streaks(1) [OF 2] snoc 1 2 show ?case
    by (auto simp: voila_run_snoc calm_ticks_snoc split: if_splits)
qed

section \<open>The algorithm keeps the contract\<close>

lemma estimates_addresses:
  "estimates uni req h as v = Inr (keyed, v') \<Longrightarrow> map snd keyed = as"
  by (induction as arbitrary: v keyed) (auto simp: bindE_Inr_iff split: prod.splits)

lemma voila_router:
  assumes "voila_select_replica uni seed st req cands servers now h = Inr (c, st', h')"
  shows "pruned now h h'"
    and "case c of Some a \<Rightarrow> a \<in> set cands \<and> has_room now h a | None \<Rightarrow> \<forall>a \<in> set cands. \<not> has_room now h a"
proof -
  have "pruned now h h' \<and>
    (case c of Some a \<Rightarrow> a \<in> set cands \<and> has_room now h a | None \<Rightarrow> \<forall>a \<in> set cands. \<not> has_room now h a)"
  proof (cases "cands = []")
    case True
    with assms show ?thesis by (simp add: voila_select_replica_def)
  next
    case False
    with assms obtain v0 keyed v1 where e: "estimates uni req h cands v0 = Inr (keyed, v1)"
      and r: "(case find_st (sim_admit now) (map snd (sort_key fst keyed)) h of (chosen, h') \<Rightarrow>
        (case chosen of None \<Rightarrow> Inr (None, st\<lparr>voila_vivaldi := Some v1\<rparr>, h')
         | Some a \<Rightarrow> bindE (dlookup servers (r_server_id (h' a))) (\<lambda>s.
             bindE (observe uni (bts_lat req) (bts_long req) (r_server_id (h' a))
                (true_rtt_ms (bts_lat req) (bts_long req) (srv_lat s) (srv_long s)) v1) (\<lambda>v2.
             Inr (Some a, st\<lparr>voila_vivaldi := Some v2\<rparr>, h'))))) = Inr (c, st', h')"
      by (auto simp: voila_select_replica_def Let_def bindE_Inr_iff)
    obtain c0 h0 where f: "find_st (sim_admit now) (map snd (sort_key fst keyed)) h = (c0, h0)" by (metis surj_pair)
    have "c0 = c \<and> h0 = h'" using r f by (cases c0) (auto simp: bindE_Inr_iff)
    moreover have "set (map snd (sort_key fst keyed)) = set cands"
      using estimates_addresses [OF e] by (metis set_map set_sort)
    ultimately show ?thesis using find_admit [OF f] by (simp only: simp_thms)
  qed
  then show "pruned now h h'"
    "case c of Some a \<Rightarrow> a \<in> set cands \<and> has_room now h a | None \<Rightarrow> \<forall>a \<in> set cands. \<not> has_room now h a"
    by simp_all
qed

lemma voila_victim:
  assumes "voila_select_scale_down_victim st svc ready servers now h = Inr (a, h')"
  shows "a \<in> set ready \<and> pruned now h h'"
proof -
  from assms obtain c where c: "last_centroid (last_snapshot st) svc = Inr c"
    by (auto simp: voila_select_scale_down_victim_def bindE_Inr_iff)
  show ?thesis
  proof (cases "c = None \<or> length ready \<le> 1")
    case True
    with assms c have "base_select_scale_down_victim ready now h = Inr (a, h')"
      by (auto simp: voila_select_scale_down_victim_def split: option.splits if_splits)
    then show ?thesis using base_victim_sound(1,2) by blast
  next
    case False
    then obtain p where p: "c = Some p" by auto
    obtain keyed h1 where k: "occupancy_keys now ready h = (keyed, h1)" by (metis surj_pair)
    define pool where
      "pool = take (max 1 (length (map snd (sort_key fst keyed)) div 2)) (map snd (sort_key fst keyed))"
    from assms c False p k obtain dists d where
      d: "mapE (\<lambda>a. bindE (dlookup servers (r_server_id (h1 a))) (\<lambda>s. Inr (km_from p s, a))) pool = Inr dists"
      "max_by fst dists = Inr d" "a = snd d" "h' = h1"
      by (auto simp: voila_select_scale_down_victim_def Let_def bindE_Inr_iff pool_def)
    have keys: "fst (occupancy_keys now ready h) = map (\<lambda>a. (occ now (h a), a)) ready
        \<and> pruned now h (snd (occupancy_keys now ready h))"
      by (rule occupancy_keys_eq)
    have "d \<in> set dists" by (rule max_by_Inr(1) [OF d(2)])
    then obtain i where i: "i < length dists" "d = dists ! i" by (auto simp: in_set_conv_nth)
    have "bindE (dlookup servers (r_server_id (h1 (pool ! i)))) (\<lambda>s. Inr (km_from p s, pool ! i)) = Inr d"
      and len: "i < length pool"
      using d(1) i unfolding mapE_Inr list_all2_conv_all_nth by auto
    then have "a = pool ! i" using d(3) by (auto simp: bindE_Inr_iff)
    then have "a \<in> set pool" using len nth_mem by metis
    then have "a \<in> set (map snd (sort_key fst keyed))" unfolding pool_def by (rule in_set_takeD)
    then have "a \<in> snd ` set keyed" by simp
    then show ?thesis using keys k d(4) by auto
  qed
qed

lemma voila_placement_sound:
  assumes "voila_select_placement_server C st svc servers h = Inr (Some sid)" and "wf_servers servers"
  shows "\<exists>s. dget servers sid = Some s \<and> srv_state s = SrvActive \<and> can_host_at_some_point C h s svc"
proof -
  obtain info p s where i: "service_of svc = Inr info" and r: "sid = srv_id s"
    "roomiest_near h p (filter (\<lambda>s. srv_state s = SrvActive
          \<and> can_host C h s svc (resource_mips info) (Some p)) (dvals servers)) = Inr s"
    using assms(1) unfolding voila_select_placement_server_def Let_def
    by (auto simp: bindE_Inr_iff split: if_splits)
  from i have cpu: "resource_mips info = resource_mips_of svc"
    by (simp add: service_of_def dlookup_Inr_iff resource_mips_of_def)
  have "s \<in> set (dvals servers)" "srv_state s = SrvActive" "can_host_at_some_point C h s svc"
    using roomiest_near_mem [OF r(2)] unfolding can_host_at_some_point_def cpu by auto
  with r(1) wf_servers_get [OF assms(2)] show ?thesis by blast
qed

lemma voila_provision_sound:
  assumes "voila_provision_action C servers h sn = Inr act" and "wf_servers servers"
    and "pa_server_id act = Some sid"
  shows "\<exists>s. dget servers sid = Some s
            \<and> (pa_action act = TurnOn \<longrightarrow> srv_state s = SrvOff)
            \<and> (pa_action act = TurnOff \<longrightarrow> srv_state s = SrvActive)"
proof -
  let ?active = "in_state SrvActive servers" and ?off = "in_state SrvOff servers"
  have on: "dget servers (srv_id (hd (sort_key f (filter_by_profile_with_fallback ?off p))))
              = Some (hd (sort_key f (filter_by_profile_with_fallback ?off p)))
          \<and> srv_state (hd (sort_key f (filter_by_profile_with_fallback ?off p))) = SrvOff"
    if "?off \<noteq> []" for p and f :: "server \<Rightarrow> real"
  proof -
    have "sort_key f (filter_by_profile_with_fallback ?off p) \<noteq> []"
      using filter_by_profile_props(1) [OF that, of p] by (metis length_0_conv length_sort)
    then have "hd (sort_key f (filter_by_profile_with_fallback ?off p)) \<in> set ?off"
      using filter_by_profile_props(2) [of ?off p] hd_in_set by fastforce
    then show ?thesis by (rule in_state_get [OF assms(2)])
  qed
  have off: "dget servers (srv_id idle) = Some idle \<and> srv_state idle = SrvActive"
    if "min_by f ?active = Inr idle" for f :: "server \<Rightarrow> real" and idle
    using min_by_Inr(1) [OF that] by (rule in_state_get [OF assms(2)])
  show ?thesis
    using assms(1,3) on off
    unfolding voila_provision_action_def Let_def
    by (auto simp: bindE_Inr_iff split: if_splits option.splits)
qed

lemma voila_migration_sound:
  assumes "wf_servers servers"
    and "step \<in> set (migration_loop (voila_migration_target C st s servers h) h s servers)"
  shows "valid_step C h s servers step"
  by (rule migration_loop_valid [OF assms(1) _ assms(2)])
     (auto simp: voila_migration_target_def Let_def dest: first_by_Some)

interpretation voila: self_checking_algorithm "voila_algorithm uni seed C" C for uni seed C
  apply unfold_locales
         apply (simp_all only: voila_algorithm_def algorithm.simps)
         apply (erule voila_router(1))
        apply (drule voila_router(2), simp)
       apply (drule voila_router(2), simp)
      apply (erule (1) base_initial_lawful)
     apply (erule voila_victim)
    apply (erule (1) voila_placement_sound)
   apply (auto simp: voila_migration_decision_def migration_loop_services intro: voila_migration_sound)[1]
  apply (auto simp: bindE_Inr_iff dest: voila_provision_sound)[1]
  done

section \<open>It never raises\<close>

text \<open>The coordinates cover the fleet and the last snapshot the services, once there are any.\<close>

definition voila_ok :: "int list \<Rightarrow> 'g voila_state \<Rightarrow> bool" where
  "voila_ok ks st \<longleftrightarrow>
     (case last_snapshot st of None \<Rightarrow> True | Some sn \<Rightarrow> dkeys (sn_services sn) = ACTIVE_SERVICES)
     \<and> (case voila_vivaldi st of None \<Rightarrow> True | Some v \<Rightarrow> dkeys (server_coords v) = ks)"

lemma dget_known: "k \<in> set (dkeys d) \<Longrightarrow> \<exists>v. dget d k = Some v"
  by (metis map_of_eq_None_iff not_None_eq set_map)

lemma new_vivaldi_keys: "dkeys (server_coords (new_vivaldi uni servers (g :: 'g))) = dkeys servers"
proof -
  have keys: "dkeys (fst (new_coords uni sids g)) = sids" for sids and g :: 'g
    by (induction sids arbitrary: g) (auto simp: split_beta Let_def)
  have "dkeys (fst (fold (bootstrap_pair uni servers) ps cg)) = dkeys (fst cg)" for ps and cg :: "(int, coordinate) pydict \<times> 'g"
  proof (rule fold_invariant_set [where P = "\<lambda>u. dkeys (fst u) = dkeys (fst cg)"])
    fix p and u :: "(int, coordinate) pydict \<times> 'g" assume u: "dkeys (fst u) = dkeys (fst cg)"
    obtain i j :: int where "p = (i, j)" by (cases p)
    moreover obtain coords g' where "u = (coords, g')" by (cases u)
    moreover have "dkeys (dset i c coords) = dkeys coords" if "dget coords i = Some ci" for c ci
      using dget_mem [OF that] by (intro dkeys_dset_mem) force
    ultimately show "dkeys (fst (bootstrap_pair uni servers p u)) = dkeys (fst cg)"
      using u by (simp add: bootstrap_pair_def split_beta Let_def split: option.splits)
  qed simp
  then show ?thesis by (simp add: new_vivaldi_def Let_def split_beta keys)
qed

lemma create_keeps_servers: "server_coords (snd (get_or_create_bts_coord uni lat lon v)) = server_coords v"
  by (simp add: get_or_create_bts_coord_def split_beta Let_def split: option.splits)

lemma estimate_total:
  "sid \<in> set (dkeys (server_coords v)) \<Longrightarrow>
     \<exists>r v'. estimate_rtt_ms uni lat lon sid v = Inr (r, v') \<and> server_coords v' = server_coords v"
  using dget_known [of sid "server_coords v"] create_keeps_servers [of uni lat lon v]
  by (auto simp: estimate_rtt_ms_def dlookup_def split_beta Let_def)

lemma observe_total:
  "sid \<in> set (dkeys (server_coords v)) \<Longrightarrow>
     \<exists>v'. observe uni lat lon sid rtt v = Inr v' \<and> server_coords v' = server_coords v"
  using dget_known [of sid "server_coords v"] create_keeps_servers [of uni lat lon v]
  by (auto simp: observe_def dlookup_def split_beta Let_def)

lemma estimates_total:
  "\<forall>a \<in> set as. r_server_id (h a) \<in> set (dkeys (server_coords v)) \<Longrightarrow>
     \<exists>keyed v'. estimates uni req h as v = Inr (keyed, v') \<and> map snd keyed = as \<and> server_coords v' = server_coords v"
proof (induction as arbitrary: v)
  case (Cons a as)
  then obtain r v1 where 1: "estimate_rtt_ms uni (bts_lat req) (bts_long req) (r_server_id (h a)) v = Inr (r, v1)"
    "server_coords v1 = server_coords v" using estimate_total by (metis list.set_intros(1))
  with Cons.prems Cons.IH [of v1] show ?case by auto
qed simp

lemma voila_select_total:
  assumes ok: "voila_ok (dkeys servers) st" and known: "\<forall>a \<in> set cands. r_server_id (h a) \<in> set (dkeys servers)"
  shows "\<exists>c st' h'. voila_select_replica uni seed st req cands servers now h = Inr (c, st', h') \<and> voila_ok (dkeys servers) st'"
proof (cases "cands = []")
  case True
  with ok show ?thesis by (simp add: voila_select_replica_def)
next
  case False
  define v0 where "v0 = (case voila_vivaldi st of None \<Rightarrow> new_vivaldi uni servers seed | Some v \<Rightarrow> v)"
  have v0: "dkeys (server_coords v0) = dkeys servers"
    using ok by (simp add: v0_def voila_ok_def new_vivaldi_keys split: option.splits)
  obtain keyed v1 where 1: "estimates uni req h cands v0 = Inr (keyed, v1)" "map snd keyed = cands"
    "server_coords v1 = server_coords v0" using estimates_total [of cands h v0] known v0 by metis
  let ?ranked = "map snd (sort_key fst keyed)"
  obtain c h' where f: "find_st (sim_admit now) ?ranked h = (c, h')" by fastforce
  note fa = find_admit [OF f]
  have ok1: "voila_ok (dkeys servers) (st\<lparr>voila_vivaldi := Some v\<rparr>)" if "server_coords v = server_coords v0" for v
    using ok that v0 by (simp add: voila_ok_def)
  show ?thesis
  proof (cases c)
    case None
    with False 1 f ok1 show ?thesis by (simp add: voila_select_replica_def v0_def [symmetric])
  next
    case (Some a)
    have "set ?ranked = set cands" using 1(2) by (metis set_map set_sort)
    then have "a \<in> set cands" using fa(2) Some by (auto simp del: set_map)
    then have a: "r_server_id (h' a) \<in> set (dkeys servers)" using known fa(1) by (simp add: prunedD del: set_map)
    obtain s where s: "dget servers (r_server_id (h' a)) = Some s" using dget_known [OF a] ..
    obtain v2 where "observe uni (bts_lat req) (bts_long req) (r_server_id (h' a))
        (true_rtt_ms (bts_lat req) (bts_long req) (srv_lat s) (srv_long s)) v1 = Inr v2" "server_coords v2 = server_coords v0"
      using observe_total [of "r_server_id (h' a)" v1] a 1(3) v0 by metis
    with False 1 f Some s ok1 show ?thesis by (simp add: voila_select_replica_def v0_def [symmetric] dlookup_def)
  qed
qed

lemma voila_centroid_total:
  assumes "voila_ok ks st" and "svc \<in> set ACTIVE_SERVICES" shows "\<exists>c. last_centroid (last_snapshot st) svc = Inr c"
proof (cases "last_snapshot st")
  case (Some sn)
  then have "dkeys (sn_services sn) = ACTIVE_SERVICES" using assms(1) by (simp only: voila_ok_def option.case)
  with assms(2) obtain sv where "dget (sn_services sn) svc = Some sv" using dget_known [of svc "sn_services sn"] by metis
  with Some show ?thesis by (simp add: last_centroid_def dlookup_def)
qed (simp add: last_centroid_def)

lemma voila_victim_total:
  assumes ok: "voila_ok (dkeys servers) st" and svc: "svc \<in> set ACTIVE_SERVICES" and ne: "as \<noteq> []"
    and known: "\<forall>a \<in> set as. r_server_id (h a) \<in> set (dkeys servers)"
  shows "\<exists>r. voila_select_scale_down_victim st svc as servers now h = Inr r"
proof -
  obtain c where c: "last_centroid (last_snapshot st) svc = Inr c" using voila_centroid_total [OF ok svc] ..
  show ?thesis
  proof (cases "c = None \<or> length as \<le> 1")
    case True
    with c base_victim_total [OF ne] show ?thesis by (auto simp: voila_select_scale_down_victim_def split: option.splits)
  next
    case False
    then obtain p where p: "c = Some p" "\<not> length as \<le> 1" by auto
    obtain keyed h' where k: "occupancy_keys now as h = (keyed, h')" by fastforce
    note ke = occupancy_keys_eq [of now as h, unfolded k fst_conv snd_conv]
    let ?by_load = "map snd (sort_key fst keyed)"
    let ?pool = "take (max 1 (length ?by_load div 2)) ?by_load"
    have "set ?by_load = set as" using ke by (auto simp: image_image)
    then have pool: "set ?pool \<subseteq> set as" "?by_load \<noteq> []" using set_take_subset [of _ ?by_load] ne by fastforce+
    let ?f = "\<lambda>a. bindE (dlookup servers (r_server_id (h' a))) (\<lambda>s. Inr (km_from p s, a))"
    have "\<exists>y. ?f a = Inr y" if "a \<in> set ?pool" for a
    proof -
      have "r_server_id (h' a) \<in> set (dkeys servers)" using that pool known ke by (auto simp: prunedD simp del: set_map)
      then show ?thesis using dget_known by (fastforce simp: dlookup_def)
    qed
    then obtain dists where d: "mapE ?f ?pool = Inr dists" using mapE_total [of ?pool ?f] by blast
    have "length ?pool = length dists" by (rule list_all2_lengthD [OF d [unfolded mapE_Inr]])
    moreover have "0 < length ?pool" using pool(2) by (simp only: length_take length_greater_0_conv min_less_iff_conj) simp
    ultimately have "dists \<noteq> []" by (metis length_greater_0_conv)
    then obtain q where "max_by fst dists = Inr q" using max_by_total by blast
    with c p k d show ?thesis by (simp add: voila_select_scale_down_victim_def Let_def)
  qed
qed

lemma voila_placement_total:
  assumes ok: "voila_ok (dkeys servers) st" and svc: "svc \<in> set ACTIVE_SERVICES" and active: "in_state SrvActive servers \<noteq> []"
  shows "\<exists>t. voila_select_placement_server C st svc servers h = Inr t"
proof -
  obtain info c where i: "service_of svc = Inr info" "last_centroid (last_snapshot st) svc = Inr c"
    using service_of_active [of svc] voila_centroid_total [OF ok svc] svc by blast
  obtain p where p: "(case c of Some c \<Rightarrow> Inr c | None \<Rightarrow> mean_position (in_state SrvActive servers)) = Inr p"
    using active by (cases c) (auto simp: mean_position_def)
  let ?cands = "filter (\<lambda>s. srv_state s = SrvActive \<and> can_host C h s svc (resource_mips info) (Some p)) (dvals servers)"
  have "\<exists>t. (if ?cands = [] then Inr None else bindE (roomiest_near h p ?cands) (\<lambda>s. Inr (Some (srv_id s)))) = Inr t"
  proof (cases "?cands = []")
    case False
    then obtain s where "roomiest_near h p ?cands = Inr s" using roomiest_near_total [of ?cands h p] by blast
    with False show ?thesis by (simp only: if_False bindE_simps) simp
  qed simp
  with i p show ?thesis by (simp only: voila_select_placement_server_def Let_def bindE_simps)
qed

lemma voila_provision_total:
  assumes "complete_snapshot ks sn"
  shows "\<exists>act. voila_provision_action C servers h sn = Inr act"
proof -
  let ?active = "in_state SrvActive servers" and ?starved = "capacity_starved_services C h sn servers OCC_UP_TRIGGER"
  let ?over = "overloaded_servers sn ?active" and ?u = "\<lambda>s. snap_util sn (srv_id s)"
  have on: "\<exists>r. turn_on_reference sn ?active ?over ?starved = Inr r" if "?over \<noteq> [] \<or> ?starved \<noteq> []"
  proof (cases ?over)
    case Nil
    with that have "?starved \<noteq> []" by simp
    then obtain w where w: "worst_starved sn ?starved = Inr w" unfolding worst_starved_def using max_by_total by blast
    then have "w \<in> set ?starved" unfolding worst_starved_def by (rule max_by_Inr(1))
    then have "w \<in> set (dkeys (sn_services sn))" by (auto simp: capacity_starved_services_def)
    then obtain sv where "dget (sn_services sn) w = Some sv" using dget_known [of w "sn_services sn"] by metis
    then show ?thesis
      using Nil w max_by_total [of ?active ?u] by (auto simp: turn_on_reference_def dlookup_def Let_def)
  qed (simp add: turn_on_reference_def)
  show ?thesis
    unfolding voila_provision_action_def Let_def
  proof (intro if_total bindE_total)
    show "\<exists>r. turn_on_reference sn ?active ?over ?starved = Inr r" if "?over \<noteq> [] \<or> ?starved \<noteq> []"
      by (rule on [OF that])
    show "\<exists>m. min_by ?u ?active = Inr m" if "?active \<noteq> []" by (rule min_by_total [OF that])
    show "\<exists>y. (case posref of (pos, ref) \<Rightarrow> Inr (h pos ref)) = (Inr y :: provision_action result)" for posref :: "(real \<times> real) option \<times> server option" and h
      by (cases posref) simp
  qed simp_all
qed

lemma voila_scale_total:
  assumes "voila_ok ks st" and "complete_snapshot ks sn" and "dget (sn_services sn) svc = Some sv"
  shows "\<exists>d st'. voila_scale_decision st svc sn = Inr (d, st') \<and> voila_ok ks st' \<and> (d = ScaleUp \<longrightarrow> demand_seen sv)"
  using assms
  by (auto simp: voila_scale_decision_def dlookup_def voila_decide_def voila_ok_def complete_snapshot_def demand_seen_def
      capacity_violation_def proximity_violation_def voila_constants Let_def)

interpretation voila_total: total_algorithm "voila_algorithm uni seed C" C voila_ok for uni seed C
  apply unfold_locales
        apply (simp_all only: voila_algorithm_def algorithm.simps)
        apply (erule base_initial_placement_total)
       apply (erule (1) voila_select_total)
      apply (erule (3) voila_victim_total)
     apply (erule (2) voila_scale_total)
    subgoal for servers st sn h now
      using voila_provision_total [of "dkeys servers" sn C servers h]
      by (auto simp: voila_ok_def complete_snapshot_def)
   apply (erule (2) voila_placement_total)
  apply (simp add: voila_migration_decision_def)
  done

section \<open>Properties\<close>

text \<open>
  C16. VOILA's patience: over any sequence of ticks from a fresh state, a decision to scale a
  service down comes only after at least three calm ticks in a row (the present one
  included), with a mean occupancy below the lower threshold and more than one ready replica.
\<close>

theorem voila_scale_down_patient:
  assumes "i < length svs" and "fst (voila_run k svs (new_voila :: 'g voila_state)) ! i = ScaleDown"
  shows "3 \<le> calm_ticks (take (Suc i) svs) \<and> occ_ratio (svs ! i) < OCC_DOWN_THRESHOLD
       \<and> 1 < sv_n_ready_replicas (svs ! i)"
proof -
  have nth: "fst (voila_run k svs st) ! i = fst (voila_run k (take (Suc i) svs) st) ! i" if "i < length svs" for st :: "'g voila_state" and svs
    using that
  proof (induction svs arbitrary: st i)
    case (Cons sv svs)
    then show ?case by (cases i) (auto simp: Let_def split_beta)
  qed simp
  have t: "take (Suc i) svs = take i svs @ [svs ! i]" using assms(1) by (rule take_Suc_conv_app_nth)
  obtain as st1 where 1: "voila_run k (take i svs) (new_voila :: 'g voila_state) = (as, st1)" by (metis surj_pair)
  obtain a st2 where 2: "voila_decide k (svs ! i) st1 = (a, st2)" by (metis surj_pair)
  have "length as = i" using voila_run_length [of k "take i svs" "new_voila :: 'g voila_state"] 1 assms(1) by simp
  then have "a = ScaleDown" using assms nth [OF assms(1)] 1 2 by (simp add: t voila_run_snoc nth_append)
  note d = voila_decide_streaks(2) [OF 2 this]
  have "dget_or 0 (good_streak st1) k \<le> calm_ticks (take i svs)"
    using voila_run_streak [of "new_voila :: 'g voila_state" k "take i svs"] 1 by (simp add: new_voila_def dget_or_def)
  with d show ?thesis by (simp add: t calm_ticks_snoc)
qed

theorem voila_scale_down_patient_witness:
  "3 \<le> calm_ticks (replicate 3 (sample_service\<lparr>sv_avg_queue_occupancy := 1/5\<rparr>))"
  using voila_scale_down_patient [where i = 2 and k = 1 and 'g = nat
      and svs = "replicate 3 (sample_service\<lparr>sv_avg_queue_occupancy := 1/5\<rparr>)"]
  by (simp add: numeral_nat sample_service_def voila_decide_def capacity_violation_def proximity_violation_def
      occ_ratio_def rejection_signal_def voila_constants new_voila_def dget_or_def Let_def)

end
