(* ===== verification/Progress.thy ===== *)
theory Progress
  imports Totality Hpa Voila
begin

text \<open>
  A run does not raise. Each decision of a tick is applied from a state in which every server,
  service and replica it names exists, and a service is scaled up only when a server is active
  to take it.
\<close>

section \<open>The audits return\<close>

lemma ex_bool [simp]: "\<exists>b. b" "\<exists>b. \<not> b"
  by blast+

lemma anyE_total: "(\<And>x. x \<in> set xs \<Longrightarrow> \<exists>b. p x = Inr b) \<Longrightarrow> \<exists>b. anyE p xs = Inr b"
proof (induction xs)
  case (Cons x xs)
  obtain b c where "p x = Inr b" "anyE p xs = Inr c" using Cons.IH Cons.prems by (meson list.set_intros)
  then show ?case by simp
qed simp

lemma complete_service:
  assumes "complete_snapshot ks sn" and "svc \<in> set ACTIVE_SERVICES" shows "\<exists>sv. dget (sn_services sn) svc = Some sv"
proof -
  have "dkeys (sn_services sn) = ACTIVE_SERVICES" using assms(1) by (simp only: complete_snapshot_def)
  with assms(2) show ?thesis using dget_known [of svc "sn_services sn"] by metis
qed

lemma complete_server:
  assumes "complete_snapshot ks sn" and "k \<in> set ks" shows "\<exists>x. dget (sn_servers sn) k = Some x"
proof -
  have "dkeys (sn_servers sn) = ks" using assms(1) by (simp only: complete_snapshot_def)
  with assms(2) show ?thesis using dget_known [of k "sn_servers sn"] by metis
qed

lemma starved_total:
  assumes "complete_snapshot ks sn" shows "\<exists>b. any_service_capacity_starved W E sn = Inr b"
  unfolding any_service_capacity_starved_def
proof (rule anyE_total)
  fix svc assume svc: "svc \<in> set ACTIVE_SERVICES"
  obtain sv info where "dget (sn_services sn) svc = Some sv" "service_of svc = Inr info"
    using complete_service [OF assms svc] service_of_active [of svc] svc by blast
  then show "\<exists>b. service_starved (w_cfg W) (e_store E) (e_servers E) sn svc = Inr b"
    by (simp add: service_starved_def dlookup_def)
qed

lemma audits_total:
  assumes c: "complete_snapshot (dkeys (e_servers E)) sn"
  shows "\<exists>b. turn_on_necessary W E sn = Inr b" "\<exists>b. was_turn_on_necessary_audit W E sn = Inr b"
    "k \<in> set (dkeys (e_servers E)) \<Longrightarrow> \<exists>b. was_turn_off_necessary_audit k sn = Inr b"
proof -
  note st = starved_total [OF c, of W E]
  show "\<exists>b. turn_on_necessary W E sn = Inr b" using st by (simp add: turn_on_necessary_def)
  have "\<exists>b. anyE (\<lambda>(sid, s). if srv_state s = SrvActive
       then bindE (dlookup (sn_servers sn) sid) (\<lambda>x. Inr (UTIL_SCALE_UP_THRESHOLD < ss_utilization x)) else Inr False)
      (e_servers E) = Inr b"
  proof (rule anyE_total)
    fix x assume "x \<in> set (e_servers E)"
    then have "fst x \<in> set (dkeys (e_servers E))" by simp
    from complete_server [OF c this]
    show "\<exists>b. (case x of (sid, s) \<Rightarrow> if srv_state s = SrvActive
       then bindE (dlookup (sn_servers sn) sid) (\<lambda>x. Inr (UTIL_SCALE_UP_THRESHOLD < ss_utilization x)) else Inr False) = Inr b"
      by (auto simp: dlookup_def split_beta)
  qed
  then show "\<exists>b. was_turn_on_necessary_audit W E sn = Inr b"
    unfolding was_turn_on_necessary_audit_def using st by (auto intro!: bindE_total)
  show "\<exists>b. was_turn_off_necessary_audit k sn = Inr b" if "k \<in> set (dkeys (e_servers E))"
    using complete_server [OF c that] by (auto simp: was_turn_off_necessary_audit_def dlookup_def)
qed

section \<open>The decisions return\<close>

lemma store_knows: "store_inv E \<Longrightarrow> knows (e_servers E) E"
  by (simp add: knows_def store_inv_def)

lemma turn_on_total:
  assumes c: "complete_snapshot (dkeys (e_servers E)) sn" and inv: "store_inv E" and k: "k \<in> set (dkeys (e_servers E))"
  shows "\<exists>b E'. try_turn_on W sn nec act k E = Inr (b, E')"
proof -
  note kn = store_knows [OF inv]
  obtain s b E1 where "server_at E k = Inr s" "was_turn_on_necessary_audit W E sn = Inr b" "start_server_boot k False E = Inr E1"
    using knows_server [OF kn k] audits_total(2) [OF c] start_server_boot_total [OF kn k] by meson
  then show ?thesis by (simp add: try_turn_on_def)
qed

context total_algorithm
begin

lemma turn_off_total:
  assumes W: "w_alg W = A" "\<forall>xs. set (w_iter_set W xs) \<subseteq> set xs"
    and c: "complete_snapshot (dkeys (e_servers E)) sn" and inv: "store_inv E"
    and ok: "ok (dkeys (e_servers E)) (e_algorithm E)" and k: "k \<in> set (dkeys (e_servers E))"
  shows "\<exists>b E'. try_turn_off W sn act k E = Inr (b, E')"
proof -
  obtain s a b E1 where "server_at E k = Inr s" "was_turn_off_necessary_audit k sn = Inr a"
    "start_server_drain W k E = Inr (b, E1)"
    using knows_server [OF store_knows [OF inv] k] audits_total(3) [OF c k] server_drain_total [OF W inv ok k] by meson
  then show ?thesis by (simp add: try_turn_off_def)
qed

lemma provisioning_total:
  assumes W: "w_alg W = A" "\<forall>xs. set (w_iter_set W xs) \<subseteq> set xs"
    and c: "complete_snapshot (dkeys (e_servers E)) sn" and inv: "store_inv E"
    and ok: "ok (dkeys (e_servers E)) (e_algorithm E)"
    and act: "\<And>k. pa_server_id act = Some k \<Longrightarrow> pa_action act \<noteq> ProvNoChange \<Longrightarrow> k \<in> set (dkeys (e_servers E))"
  shows "\<exists>E'. apply_provisioning W act sn E = Inr E'"
proof -
  let ?E = "E\<lparr>last_tick_decisions := (last_tick_decisions E)\<lparr>ta_provision := Some act\<rparr>\<rparr>"
  have same: "same_core E ?E" by (simp add: same_core_def)
  have E: "complete_snapshot (dkeys (e_servers ?E)) sn" "store_inv ?E" "ok (dkeys (e_servers ?E)) (e_algorithm ?E)"
    using c inv ok store_inv_core [OF same] by simp_all
  have "\<exists>r. (case pa_server_id act of None \<Rightarrow> Inr (False, ?E)
        | Some sid \<Rightarrow> (case pa_action act of TurnOn \<Rightarrow> try_turn_on W sn nec act sid ?E
            | TurnOff \<Rightarrow> try_turn_off W sn act sid ?E | ProvNoChange \<Rightarrow> Inr (False, ?E))) = Inr r" for nec
  proof (cases "pa_server_id act")
    case (Some k)
    then have "pa_action act \<noteq> ProvNoChange \<Longrightarrow> k \<in> set (dkeys (e_servers ?E))" using act by simp
    then show ?thesis
      using Some turn_on_total [OF E(1,2), of k W nec act] turn_off_total [OF W E, of k act]
      by (cases "pa_action act") (simp_all del: set_map, blast?)
  qed simp
  then show ?thesis
    unfolding apply_provisioning_def Let_def
    by (intro bindE_total audits_total(1) [OF E(1)]) (auto split: prod.split)
qed

lemma scale_up_total:
  assumes W: "w_alg W = A" and inv: "store_inv E" and ok: "ok (dkeys (e_servers E)) (e_algorithm E)"
    and svc: "svc \<in> set ACTIVE_SERVICES" and lit: "lit E"
  shows "\<exists>b E'. try_scale_up W nec svc E = Inr (b, E')"
proof -
  have wf: "wf_servers (e_servers E)" using inv by (simp add: store_inv_def)
  have "in_state SrvActive (e_servers E) \<noteq> []" using lit by (auto simp: lit_def n_active_def)
  then obtain t where t: "alg_select_placement_server (w_alg W) (e_algorithm E) (service_demand_centroid E) svc (e_servers E)
      (e_store E) = Inr t" using placement_total [OF ok svc] W by blast
  show ?thesis
  proof (cases t)
    case (Some k)
    obtain s where "dget (e_servers E) k = Some s" using placement_sound [OF t [unfolded W Some] wf] by blast
    then have "k \<in> set (dkeys (e_servers E))" by (force dest: dget_mem)
    then obtain p E1 where "place_replica W k svc E = Inr (p, E1)"
      using place_replica_total [OF store_knows [OF inv] _ svc] by blast
    with t Some show ?thesis by (cases p) (simp_all add: try_scale_up_def Let_def)
  qed (use t in \<open>simp add: try_scale_up_def\<close>)
qed

lemma scale_down_total:
  assumes W: "w_alg W = A" and inv: "store_inv E" and w: "wired (dkeys (e_servers E)) E"
    and ok: "ok (dkeys (e_servers E)) (e_algorithm E)" and svc: "svc \<in> set ACTIVE_SERVICES"
  shows "\<exists>b E'. try_scale_down W nec svc E = Inr (b, E')"
proof (cases "mature_of E svc = []")
  case False
  have "r_server_id (e_store E a) \<in> set (dkeys (e_servers E))" if "a \<in> set (mature_of E svc)" for a
  proof -
    have "a \<in> set (by_service E svc)" using that by (simp add: mature_of_def ready_of_def)
    then show ?thesis by (intro wired_ref [OF w] listed_refs [OF inv])
  qed
  then obtain r where r: "alg_select_scale_down_victim (w_alg W) (e_algorithm E) svc (mature_of E svc) (e_servers E)
      (e_now E) (e_store E) = Inr r" using victim_total [OF ok svc False] W by blast
  then show ?thesis by (cases r) (simp add: try_scale_down_def Let_def)
qed (simp add: try_scale_down_def)

lemma scale_total':
  assumes W: "w_alg W = A" and inv: "store_inv E" and w: "wired (dkeys (e_servers E)) E"
    and ok: "ok (dkeys (e_servers E)) (e_algorithm E)" and sv: "dget (sn_services sn) svc = Some sv"
    and svc: "svc \<in> set ACTIVE_SERVICES" and lit: "d = ScaleUp \<Longrightarrow> lit E"
  shows "\<exists>E'. apply_scale_decision W svc d sn E = Inr E'"
proof -
  let ?E = "E\<lparr>last_tick_decisions := (last_tick_decisions E)\<lparr>ta_scale := dset svc d (ta_scale (last_tick_decisions E))\<rparr>\<rparr>"
  have same: "same_core E ?E" by (simp add: same_core_def)
  have E: "store_inv ?E" "wired (dkeys (e_servers ?E)) ?E" "ok (dkeys (e_servers ?E)) (e_algorithm ?E)"
    "d = ScaleUp \<Longrightarrow> lit ?E"
    using inv w ok lit store_inv_core [OF same] wired_core [OF same] by (simp_all add: lit_def n_active_def)
  have "\<exists>r. (case d of ScaleNoChange \<Rightarrow> Inr (False, ?E)
        | ScaleUp \<Rightarrow> if service_in_cooldown svc ?E then Inr (False, ?E) else try_scale_up W n svc ?E
        | ScaleDown \<Rightarrow> if service_in_cooldown svc ?E then Inr (False, ?E) else try_scale_down W m svc ?E) = Inr r" for n m
    using scale_up_total [OF W E(1,3) svc E(4), of n] scale_down_total [OF W E(1-3) svc, of m]
    by (cases d) (simp_all, blast?)
  with sv show ?thesis
    unfolding apply_scale_decision_def Let_def dlookup_def
    by (simp only: option.case bindE_simps) (intro bindE_total, auto split: prod.split)
qed

end

section \<open>A cold system shows no demand\<close>

lemma map_st_all:
  assumes "map_st f xs st = (ys, st')" and "P st" and "\<And>x u y v. P u \<Longrightarrow> f x u = (y, v) \<Longrightarrow> P v \<and> Q y"
  shows "\<forall>y \<in> set ys. Q y"
  using assms(1,2)
proof (induction xs arbitrary: st ys st')
  case (Cons x xs)
  obtain y u where u: "f x st = (y, u)" by (metis surj_pair)
  obtain zs v where v: "map_st f xs u = (zs, v)" by (metis surj_pair)
  have "P u" "Q y" using assms(3) [OF Cons.prems(2) u] by simp_all
  moreover have "ys = y # zs" using Cons.prems(1) u v by simp
  ultimately show ?case using Cons.IH [OF v] by simp
qed simp

text \<open>What a snapshot reads of a cold system.\<close>

definition still :: "'a engine \<Rightarrow> bool" where
  "still E \<longleftrightarrow> tick_rejected E = [] \<and> tick_proximity_violated E = []
     \<and> (\<forall>svc. sum_list (rt_rejected (rolling_rejection E) svc) = 0) \<and> (\<forall>svc. ready_of E svc = [])"

lemma still_cold: "cold s E \<Longrightarrow> still E"
  by (simp add: still_def cold_def)

lemma deque_append_zero: "sum_list xs = 0 \<Longrightarrow> sum_list (deque_append n (0 :: nat) xs) = 0"
  by (auto simp: deque_append_def dest: in_set_dropD in_set_butlastD split: if_splits)

lemma still_entry:
  assumes "still E" and "window_service_entry svc E = (y, E')" shows "still E' \<and> \<not> demand_seen (snd y)"
proof -
  let ?r = "push_tick svc 0 (dget_or 0 (tick_total E) svc) (rolling_rejection E)"
  have r: "sum_list (rt_rejected ?r k) = 0" for k
    using assms(1) by (simp add: still_def push_tick_def deque_append_zero del: sum_list_eq_0_iff)
  have d: "dget_or 0 (tick_rejected E) svc = 0" "dget_or 0 (tick_proximity_violated E) svc = 0" and rd: "\<And>k. ready_of E k = []"
    using assms(1) by (simp_all add: still_def dget_or_def)
  have rate: "rolling_rejection_rate ?r svc = 0" using r [of svc] by (simp add: rolling_rejection_rate_def Let_def)
  have fr: "ready_of (E\<lparr>rolling_rejection := a, e_store := e_store E\<rparr>) = ready_of E"
    "ready_of (E\<lparr>rolling_rejection := a, service_demand_centroid := b\<rparr>) = ready_of E"
    "ready_of (E\<lparr>rolling_rejection := a\<rparr>) = ready_of E" for a b
    by (simp_all add: ready_of_def by_service_def fun_eq_iff)
  have "y = (svc, service_entry E' svc 0 (Some 0))" "still E'"
  proof -
    have "window_service_entry svc E = (let E2 = (if 0 < dget_or 0 (tick_total E) svc
        then E\<lparr>rolling_rejection := ?r, service_demand_centroid := dset svc (medoid (dget_or [] (recent_positions E) svc))
               (service_demand_centroid E)\<rparr> else E\<lparr>rolling_rejection := ?r\<rparr>) in ((svc, service_entry E2 svc 0 (Some 0)), E2))"
      by (simp add: window_service_entry_def avg_occupancy_def d(1) rd rate Let_def)
    moreover have "still (E\<lparr>rolling_rejection := ?r\<rparr>)" "still (E\<lparr>rolling_rejection := ?r, service_demand_centroid := b\<rparr>)" for b
      using assms(1) r by (simp_all add: still_def fr del: sum_list_eq_0_iff)
    ultimately show "y = (svc, service_entry E' svc 0 (Some 0))" "still E'" using assms(2) by (auto simp: Let_def split: if_splits)
  qed
  then show ?thesis
    by (simp add: demand_seen_def service_entry_def Let_def occ_ratio_def rejection_signal_def) (simp add: still_def dget_or_def)
qed

lemma cold_no_demand:
  assumes "still E" and "build_metrics_snapshot E = (sn, E')" and "dget (sn_services sn) svc = Some sv"
  shows "\<not> demand_seen sv"
proof -
  obtain srvs h1 where 1: "map_st (window_server_entry E) (e_servers E) (e_store E) = (srvs, h1)" by (metis surj_pair)
  obtain svcs E2 where 2: "map_st window_service_entry ACTIVE_SERVICES (E\<lparr>e_store := h1\<rparr>) = (svcs, E2)" by (metis surj_pair)
  have "pruned (e_now E) (e_store E) h1"
  proof (rule map_st_invariant [OF 1, where P = "pruned (e_now E) (e_store E)"])
    fix x u y v assume "pruned (e_now E) (e_store E) u" "window_server_entry E x u = (y, v)"
    then show "pruned (e_now E) (e_store E) v" using window_server_entry_pruned [of E u x] by (auto intro: pruned_trans)
  qed simp
  then have "still (E\<lparr>e_store := h1\<rparr>)"
    using assms(1) by (simp add: still_def ready_of_def by_service_def prunedD)
  then have "\<forall>y \<in> set svcs. \<not> demand_seen (snd y)" by (rule map_st_all [OF 2]) (rule still_entry)
  moreover have "sn_services sn = svcs" using assms(2) 1 2 by (auto simp: build_metrics_snapshot_def Let_def)
  ultimately show ?thesis using dget_mem [OF assms(3)] by auto
qed

section \<open>The tick returns\<close>

lemma sustain_total:
  assumes "complete_snapshot (dkeys (e_servers E)) sn" shows "\<exists>E'. update_sustain_tracking sn E = Inr E'"
proof -
  have "\<exists>v. track_server sn x u = Inr v \<and> True" if x: "x \<in> set (e_servers E)" for x u
  proof -
    obtain k s where k: "x = (k, s)" by (cases x)
    with x have "k \<in> set (dkeys (e_servers E))" by force
    then obtain y where "dget (sn_servers sn) k = Some y" using complete_server [OF assms] by blast
    then show ?thesis by (simp add: k track_server_def dlookup_def Let_def)
  qed
  then show ?thesis
    unfolding update_sustain_tracking_def using foldE_total [of "\<lambda>_. True" E "e_servers E" "track_server sn"] by blast
qed

lemma annotate_total:
  assumes "complete_snapshot (dkeys (e_servers E)) sn"
  shows "\<exists>sn'. annotate_provisioning_necessity W E sn = Inr sn' \<and> complete_snapshot (dkeys (e_servers E)) sn'
     \<and> sn_services sn' = sn_services sn"
proof -
  obtain b where b: "turn_on_necessary W E sn = Inr b" using audits_total(1) [OF assms] by blast
  show ?thesis
    using assms by (simp add: annotate_provisioning_necessity_def b complete_snapshot_def split_beta comp_def)
qed

context total_algorithm
begin

lemma decide_total:
  assumes W: "w_alg W = A" and inv: "store_inv u" and w: "wired ks u" and ok: "ok ks (e_algorithm u)"
    and c: "complete_snapshot ks sn" and svc: "svc \<in> set ACTIVE_SERVICES"
    and lit: "\<And>sv. dget (sn_services sn) svc = Some sv \<Longrightarrow> demand_seen sv \<Longrightarrow> lit u"
  shows "\<exists>v. decide_and_scale W sn svc u = Inr v \<and> ok ks (e_algorithm v)"
proof -
  obtain sv where sv: "dget (sn_services sn) svc = Some sv" using complete_service [OF c svc] ..
  obtain d st' where d: "alg_scale_decision A (e_algorithm u) svc sn = Inr (d, st')" "ok ks st'" "d = ScaleUp \<longrightarrow> demand_seen sv"
    using scale_total [OF ok c sv] by blast
  let ?u = "u\<lparr>e_algorithm := st'\<rparr>"
  have same: "same_core u ?u" by (simp add: same_core_def)
  have keys: "dkeys (e_servers ?u) = ks" using w by (simp add: wired_def)
  have u: "store_inv ?u" "wired (dkeys (e_servers ?u)) ?u" "ok (dkeys (e_servers ?u)) (e_algorithm ?u)" "d = ScaleUp \<Longrightarrow> lit ?u"
    using inv w ok d(2,3) lit [OF sv] store_inv_core [OF same] wired_core [OF same w] unfolding keys
    by (simp_all add: lit_def n_active_def)
  obtain v where v: "apply_scale_decision W svc d sn ?u = Inr v" using scale_total' [OF W u(1-3) sv svc u(4)] by blast
  have "e_algorithm v = st'" using alg_scale [OF v] by simp
  with v d show ?thesis by (simp add: decide_and_scale_def W)
qed

lemma decisions_total:
  assumes W: "w_alg W = A" "w_cfg W = C" "\<forall>xs. set (w_iter_set W xs) \<subseteq> set xs"
    and inv: "engine_inv X E" and w: "wired ks E" and ok: "ok ks (e_algorithm E)" and c: "complete_snapshot ks sn"
    and demand: "(\<exists>k. in_srv_state E k SrvActive) \<or> (\<forall>svc sv. dget (sn_services sn) svc = Some sv \<longrightarrow> \<not> demand_seen sv)"
  shows "\<exists>E'. take_decisions W None sn E = Inr E' \<and> ok ks (e_algorithm E')"
proof -
  have keys: "dkeys (e_servers E) = ks" and si: "store_inv E" using w inv by (simp_all add: wired_def engine_inv_def)
  have wf: "wf_servers (e_servers E)" using si by (simp add: store_inv_def)
  obtain act st' where act: "alg_provision_decision A (e_algorithm E) (e_servers E) (e_store E) sn (e_now E) = Inr (act, st')" "ok ks st'"
    using provision_total [of "e_servers E" "e_algorithm E" sn "e_store E" "e_now E"] ok c unfolding keys by blast
  let ?E = "E\<lparr>e_algorithm := st'\<rparr>"
  have same: "same_core E ?E" by (simp add: same_core_def)
  have E: "engine_inv X ?E" "store_inv ?E" "wired ks ?E" using inv si w same_core_inv [OF same] store_inv_core [OF same] wired_core [OF same]
    by simp_all
  have known: "k \<in> set (dkeys (e_servers ?E))" if k: "pa_server_id act = Some k" for k
  proof -
    obtain s where "dget (e_servers E) k = Some s" using provision_sound [OF act(1) wf k] by blast
    then show ?thesis by (force dest: dget_mem)
  qed
  obtain E1 where 1: "apply_provisioning W act sn ?E = Inr E1"
    using provisioning_total [OF W(1,3), of ?E sn act] c E(2) act(2) known keys by auto
  let ?P = "\<lambda>u. wired ks u \<and> engine_inv X u \<and> ok ks (e_algorithm u)
     \<and> ((\<exists>k. in_srv_state u k SrvActive) \<or> (\<forall>svc sv. dget (sn_services sn) svc = Some sv \<longrightarrow> \<not> demand_seen sv))"
  have P1: "?P E1"
    using wired_provisioning [OF 1 E(3,2)] keepsD [OF apply_provisioning_keeps [OF W(1,2) 1] E(1)] alg_provisioning [OF 1] act(2)
      provisioning_glows [OF 1] wf demand by (auto simp: glows_def in_srv_state_def)
  have "\<exists>E'. foldE (decide_and_scale W sn) ACTIVE_SERVICES E1 = Inr E' \<and> ?P E'"
  proof (rule foldE_total [of ?P, OF P1])
    fix svc u assume svc: "svc \<in> set ACTIVE_SERVICES" and u: "?P u"
    then have si: "store_inv u" by (simp add: engine_inv_def)
    then have "lit u" if "dget (sn_services sn) svc = Some sv" "demand_seen sv" for sv
      using that u lit_iff [of u] by (auto simp: store_inv_def)
    then obtain v where v: "decide_and_scale W sn svc u = Inr v" "ok ks (e_algorithm v)"
      using decide_total [OF W(1) si _ _ c svc] u by blast
    then obtain d st where s: "apply_scale_decision W svc d sn (u\<lparr>e_algorithm := st\<rparr>) = Inr v"
      by (auto simp: decide_and_scale_def bindE_Inr_iff)
    have core: "same_core u (u\<lparr>e_algorithm := st\<rparr>)" by (simp add: same_core_def)
    have "wired ks (u\<lparr>e_algorithm := st\<rparr>)" "engine_inv X (u\<lparr>e_algorithm := st\<rparr>)" "store_inv (u\<lparr>e_algorithm := st\<rparr>)"
      using u si wired_core [OF core] same_core_inv [OF core] store_inv_core [OF core] by simp_all
    then have "wired ks v" "engine_inv X v"
      using wired_scale [OF W(1) s] keepsD [OF apply_scale_decision_keeps [OF W(1,2) s]] by blast+
    moreover have "(\<exists>k. in_srv_state u k SrvActive) \<longrightarrow> (\<exists>k. in_srv_state v k SrvActive)"
      using glowsI [OF spares_scale [OF s]] by (simp add: glows_def in_srv_state_core [OF core])
    ultimately show "\<exists>v. decide_and_scale W sn svc u = Inr v \<and> ?P v" using u v by blast
  qed
  then show ?thesis using act(1) 1 W(1) by (auto simp: take_decisions_def)
qed

end

end
