(* ===== verification/Completion.thy ===== *)
theory Completion
  imports Progress
begin

text \<open>
  A run completes: started on a trace whose services are all in the table, by an algorithm that
  never raises itself, \<open>run\<close> returns the report, and every request of the trace is in it.
\<close>

section \<open>Between the events\<close>

definition known_trace :: "event_row list \<Rightarrow> bool" where
  "known_trace df \<longleftrightarrow> (\<forall>row \<in> set df. row_service_id row \<in> set ACTIVE_SERVICES)"

lemma wired_advance: "wired ks E \<Longrightarrow> wired ks (advance_server t k E)"
proof (cases "dget (e_servers E) k")
  case (Some s)
  assume w: "wired ks E"
  let ?l = "dget_or 0 (energy_last_update E) k"
  let ?h = "snd (instantaneous_power_w ?l (snd (instantaneous_utilization ?l (e_store E) s)) s)"
  have "pruned ?l (e_store E) ?h"
    by (rule pruned_trans [OF pruned_instantaneous_utilization pruned_instantaneous_power_w])
  then have "wired ks (E\<lparr>e_store := ?h\<rparr>)" by (rule wired_store [OF w])
  then have "wired ks (put_server k s' (E\<lparr>e_store := ?h, energy_last_update := d\<rparr>))" for s' d
    by (intro wired_put_server wired_get [OF w Some]) (simp add: wired_def)
  with w Some show ?thesis by (simp add: advance_server_def Let_def split_beta)
qed (simp add: advance_server_def)

lemma wired_begin:
  assumes w: "wired ks E" and pop: "heappop (e_heap E) = Some (ev, rest)"
  shows "wired ks (begin_event ev rest E)" and "event_known ks (ev_type ev)"
proof -
  have h: "e_heap E = ev # rest" using pop by (simp add: heappop_def split: list.splits)
  show "event_known ks (ev_type ev)" using w by (simp add: wired_def h)
  have "wired ks (E\<lparr>e_heap := rest\<rparr>)" using w by (simp add: wired_def h)
  then have "wired ks (advance_energy_to (ev_time ev) (E\<lparr>e_heap := rest\<rparr>))"
    unfolding advance_energy_to_def by (rule fold_invariant_set [where P = "wired ks"]) (rule wired_advance)
  then show "wired ks (begin_event ev rest E)" by (simp add: begin_event_def wired_def)
qed

lemma wired_place_initial:
  assumes "wired ks E" and "place_initial W sel svc E = Inr E'" shows "wired ks E'"
proof -
  obtain t where "nearest_capable_server W svc sel E = Inr t" using assms(2) by (auto simp: place_initial_def bindE_Inr_iff)
  then show ?thesis
    using assms by (cases t) (auto simp: place_initial_def bindE_Inr_iff dest: wired_place)
qed

lemma prime_wired:
  assumes new: "new_engine df st = Inr E0" and df: "known_trace df" and p: "prime W E0 = Inr E"
  shows "wired (dkeys (e_servers E0)) E"
proof -
  let ?P = "primed_core df E0" and ?ks = "dkeys (e_servers E0)"
  note n = new_engine_shape [OF new]
  have "loaded df E0" by (simp add: loaded_def n by_key_def)
  then have l: "loaded df ?P" using loaded_all [of df E0] by (simp add: primed_core_def Let_def loaded_def)
  have "next_ref (fold (\<lambda>row. push (row_start row) (RequestArrival row)) df E0) = next_ref E0"
    by (rule fold_invariant_set [where P = "\<lambda>u. next_ref u = next_ref E0"]) (simp_all add: push_def)
  then have "e_servers ?P = e_servers E0" "next_ref ?P = 0"
    by (simp_all add: primed_core_def Let_def fold_push_frame n)
  with l df have w: "wired ?ks ?P" by (force simp: wired_def loaded_def known_trace_def)
  obtain E3 c where 3: "initial_placement W ?P = Inr E3" and E: "E = (push (fst (trace_bounds df)) DecisionTick E3)\<lparr>e_cutoff := c\<rparr>"
    using p by (auto simp: prime_alt bindE_Inr_iff n(2))
  obtain sel E1 where 1: "foldE (\<lambda>sid. start_server_boot sid False) sel ?P = Inr E1"
    and 2: "foldE (place_initial W sel) ACTIVE_SERVICES E1 = Inr E3"
    using 3 by (auto simp: initial_placement_def bindE_Inr_iff)
  have "wired ?ks E1" by (rule foldE_invariant [OF 1, where P = "wired ?ks"]) (auto intro: w wired_boot)
  then have "wired ?ks E3" by (rule foldE_invariant [OF 2, where P = "wired ?ks"]) (rule wired_place_initial)
  then show ?thesis unfolding E by (simp add: wired_def) (simp add: push_def)
qed

lemma alg_placement:
  assumes "initial_placement W E = Inr E'" shows "e_algorithm E' = e_algorithm E"
proof -
  obtain sel E1 where 1: "foldE (\<lambda>sid. start_server_boot sid False) sel E = Inr E1"
    and 2: "foldE (place_initial W sel) ACTIVE_SERVICES E1 = Inr E'"
    using assms by (auto simp: initial_placement_def bindE_Inr_iff)
  have "e_algorithm E1 = e_algorithm E" by (rule alg_foldE [OF 1 alg_boot])
  moreover have "e_algorithm E' = e_algorithm E1"
    by (rule alg_foldE [OF 2]) (auto simp: place_initial_def bindE_Inr_iff split: option.splits dest: alg_place)
  ultimately show ?thesis by simp
qed

lemma still_metrics: "still E \<Longrightarrow> pruned now (e_store E) h \<Longrightarrow> still (E\<lparr>e_metrics := m, e_store := h\<rparr>)"
  by (simp add: still_def ready_of_def by_service_def prunedD)

context total_algorithm
begin

section \<open>An event\<close>

lemma event_total:
  assumes W: "w_alg W = A" and inv: "engine_inv {#} E" and w: "wired ks E" and ok: "ok ks (e_algorithm E)" and ks: "ks \<noteq> []"
    and pop: "heappop (e_heap E) = Some (ev, rest)"
  shows "\<exists>E'. handle_event W (ev_type ev) (begin_event ev rest E) = Inr E' \<and> wired ks E' \<and> ok ks (e_algorithm E')"
proof -
  let ?B = "begin_event ev rest E"
  note wb = wired_begin [OF w pop]
  have si: "store_inv ?B" using begin_event_inv(1) [OF inv pop] by (simp add: engine_inv_def)
  note kn = store_knows [OF si]
  have keys: "dkeys (e_servers ?B) = ks" using wb(1) by (simp add: wired_def)
  have alg: "ok ks (e_algorithm ?B)" using ok by (simp add: alg_simps)
  show ?thesis
  proof (cases "ev_type ev")
    case (RequestArrival row)
    have svc: "row_service_id row \<in> set ACTIVE_SERVICES" using wb(2) by (simp add: RequestArrival)
    have "e_servers ?B \<noteq> []" using keys ks by auto
    then obtain E' where "handle_arrival row ?B = Inr E'" using arrival_total by blast
    with wired_arrival [OF this wb(1) svc] alg_arrival [OF this] alg show ?thesis
      by (simp add: RequestArrival handle_event_def)
  next
    case (RequestRouted req)
    have svc: "req_service_id req \<in> set ACTIVE_SERVICES" using wb(2) by (simp add: RequestRouted)
    have refs: "\<forall>a \<in> set (routing_candidates ?B (req_service_id req)). r_server_id (e_store ?B a) \<in> set (dkeys (e_servers ?B))"
      using wired_ref [OF wb(1) listed_refs [OF si]] by (auto simp: routing_candidates_def keys)
    obtain c st' h where s: "alg_select_replica A (e_algorithm ?B) req (routing_candidates ?B (req_service_id req))
        (e_servers ?B) (e_now ?B) (e_store ?B) = Inr (c, st', h)" and st: "ok ks st'"
      using select_total [OF _ refs] alg unfolding keys by blast
    let ?E = "?B\<lparr>e_algorithm := st', e_store := h\<rparr>"
    have "\<exists>E'. handle_routed W req ?B = Inr E' \<and> e_algorithm E' = st'"
    proof (cases c)
      case None
      with s W show ?thesis by (simp add: handle_routed_def Let_def alg_simps)
    next
      case (Some a)
      have "r_server_id (h a) = r_server_id (e_store ?B a)" using select_reads [OF s] by (simp add: prunedD)
      moreover have "a \<in> set (routing_candidates ?B (req_service_id req))" using select_some s unfolding Some by blast
      ultimately have "r_server_id (e_store ?E a) \<in> set (dkeys (e_servers ?B))" using refs by simp
      moreover have "knows (e_servers ?B) ?E" using kn by (simp add: knows_def)
      ultimately obtain E' where "serve_request req a ?E = Inr E'" using serve_total svc by blast
      with alg_serve [OF this] s W Some show ?thesis by (simp add: handle_routed_def Let_def)
    qed
    then obtain E' where "handle_routed W req ?B = Inr E'" "e_algorithm E' = st'" by blast
    with wired_routed [OF W this(1) wb(1)] st show ?thesis by (simp add: RequestRouted handle_event_def)
  next
    case (ServerBootDone k)
    have "k \<in> set (dkeys (e_servers ?B))" using wb(2) by (simp add: ServerBootDone keys del: set_map)
    then obtain E' where "handle_boot_done k ?B = Inr E'" using server_handlers_total(3) [OF kn] by blast
    with wired_boot_done [OF this wb(1) si] alg_boot_done [OF this] alg show ?thesis by (simp add: ServerBootDone handle_event_def)
  next
    case (ServerDrainDone k)
    have "k \<in> set (dkeys (e_servers ?B))" using wb(2) by (simp add: ServerDrainDone keys del: set_map)
    then obtain E' where "handle_drain_done k ?B = Inr E'" using server_handlers_total(4) [OF kn] by blast
    with wired_drain_done [OF this wb(1)] alg_drain_done [OF this] alg show ?thesis by (simp add: ServerDrainDone handle_event_def)
  next
    case (ReplicaReady k svc)
    have "k \<in> set (dkeys (e_servers ?B))" using wb(2) by (simp add: ReplicaReady keys del: set_map)
    then obtain E' where "handle_replica_ready k svc ?B = Inr E'" using server_handlers_total(1) [OF kn] by blast
    with wired_replica_ready [OF this wb(1) si] alg_replica_ready [OF this] alg show ?thesis
      by (simp add: ReplicaReady handle_event_def)
  next
    case (ReplicaTerminated k svc)
    have "k \<in> set (dkeys (e_servers ?B))" using wb(2) by (simp add: ReplicaTerminated keys del: set_map)
    then obtain E' where "handle_replica_terminated k svc ?B = Inr E'" using server_handlers_total(2) [OF kn] by blast
    with wired_replica_terminated [OF this wb(1)] alg_replica_terminated [OF this] alg show ?thesis
      by (simp add: ReplicaTerminated handle_event_def)
  qed (use wb(1) alg in \<open>simp_all add: handle_event_def\<close>)
qed

section \<open>A tick\<close>

lemma tick_total:
  assumes W: "w_alg W = A" "w_cfg W = C" "\<forall>xs. set (w_iter_set W xs) \<subseteq> set xs"
    and inv: "engine_inv X E" and w: "wired ks E" and ok: "ok ks (e_algorithm E)"
    and lit: "(\<exists>k. in_srv_state E k SrvActive) \<or> still E"
  shows "\<exists>sn E'. handle_decision_tick W None E = Inr (sn, E') \<and> ok ks (e_algorithm E')"
proof -
  obtain m h where 1: "record_snapshot (w_np W) (e_now E) (e_servers E) (e_store E) (e_metrics E) = (m, h)"
    by (metis surj_pair)
  let ?E = "E\<lparr>e_metrics := m, e_store := h\<rparr>"
  obtain sn0 E1 where 2: "build_metrics_snapshot ?E = (sn0, E1)" by (metis surj_pair)
  have h: "pruned (e_now E) (e_store E) h" using record_snapshot_frame(1) [of "e_now E" "e_store E"] 1 by (metis snd_conv)
  have c: "same_core (E\<lparr>e_store := h\<rparr>) ?E" by (simp add: same_core_def)
  have E: "wired ks ?E" "engine_inv X ?E"
    using wired_core [OF c wired_store [OF w h]] engine_inv_pruned [OF inv h] same_core_inv [OF c] by simp_all
  note b = build_metrics_snapshot_reads [OF 2]
  have E1: "wired ks E1" "engine_inv X E1" "ok ks (e_algorithm E1)"
    using reads_wired [OF b(1) E(1)] reads_inv [OF b(1) E(2)] alg_snapshot [OF 2] ok by simp_all
  have k: "dkeys (e_servers ?E) = ks" "e_servers E1 = e_servers ?E" using E(1) b(1) by (simp_all add: wired_def reads_def same_core_def)
  then have keys: "dkeys (e_servers E1) = ks" by (simp only:)
  have comp: "complete_snapshot (dkeys (e_servers E1)) sn0" unfolding complete_snapshot_def keys using b(2,3) k(1) by (simp only:)
  obtain E2 where 3: "update_sustain_tracking sn0 E1 = Inr E2" using sustain_total [OF comp] by blast
  have core: "same_core E1 E2" by (rule update_sustain_tracking_core [OF 3])
  have comp2: "complete_snapshot (dkeys (e_servers E2)) sn0" using core comp by (simp add: same_core_def)
  obtain sn where 4: "annotate_provisioning_necessity W E2 sn0 = Inr sn" "complete_snapshot (dkeys (e_servers E2)) sn"
    "sn_services sn = sn_services sn0" using annotate_total [OF comp2] by blast
  let ?E2 = "E2\<lparr>last_tick_decisions := no_actions, last_tick_applied_actions := no_actions\<rparr>"
  have core2: "same_core E1 ?E2" using core by (simp add: same_core_def)
  have k2: "dkeys (e_servers E2) = ks" using core keys by (simp add: same_core_def)
  have E2: "engine_inv X ?E2" "wired ks ?E2" "ok ks (e_algorithm ?E2)" "complete_snapshot ks sn"
    using E1 alg_track [OF 3] wired_core [OF core2] same_core_inv [OF core2] 4(2) k2 by simp_all
  have "in_srv_state ?E2 = in_srv_state E"
    using in_srv_state_core [OF core2] k(2) by (simp add: in_srv_state_def fun_eq_iff)
  moreover have "still E \<Longrightarrow> dget (sn_services sn) svc = Some sv \<Longrightarrow> \<not> demand_seen sv" for svc sv
    using cold_no_demand [OF still_metrics [OF _ h] 2] 4(3) by metis
  ultimately have "(\<exists>k. in_srv_state ?E2 k SrvActive) \<or> (\<forall>svc sv. dget (sn_services sn) svc = Some sv \<longrightarrow> \<not> demand_seen sv)"
    using lit by metis
  then obtain E3 where 5: "take_decisions W None sn ?E2 = Inr E3" "ok ks (e_algorithm E3)"
    using decisions_total [OF W E2] by blast
  then show ?thesis by (simp add: handle_decision_tick_def 1 2 3 4(1) alg_simps)
qed

section \<open>A run\<close>

text \<open>What holds of every state a run goes through is kept, and nothing raises on the way.\<close>

lemma step_loop_total:
  assumes W: "w_alg W = A" "w_cfg W = C" "\<forall>xs. set (w_iter_set W xs) \<subseteq> set xs"
    and df: "sound_trace df" and ks: "ks \<noteq> []"
    and s: "step_loop fuel W None E = Some r" and "reachable W df st E" and "wired ks E" and "ok ks (e_algorithm E)"
  shows "\<exists>sn d E'. r = Inr (sn, d, E') \<and> (\<not> d \<longrightarrow> reachable W df st E' \<and> wired ks E' \<and> ok ks (e_algorithm E'))"
  using s assms(7-)
proof (induction fuel arbitrary: E)
  case (Suc fuel)
  obtain u where inv: "engine_inv {#} E" "tick_times E = {#u#}"
    using reachable_inv [OF Suc.prems(2) W(1,2) df] by (auto simp: reach_inv_def)
  then have agenda: "agenda_inv E" by (simp add: engine_inv_def)
  show ?case
  proof (cases "over E")
    case True
    with Suc.prems(1) show ?thesis by (auto simp: over_def split: option.splits prod.splits)
  next
    case False
    then obtain ev rest where pop: "heappop (e_heap E) = Some (ev, rest)" and le: "ev_time ev \<le> e_cutoff E"
      by (auto simp: over_def split: option.splits)
    let ?B = "begin_event ev rest E"
    show ?thesis
    proof (cases "ev_type ev = DecisionTick")
      case tick: True
      have "(\<exists>k. in_srv_state E k SrvActive) \<or> still ?B"
        using dark_tick(3) [OF reachable_bright [OF Suc.prems(2) W(1,2) df] agenda pop tick inv(2)]
          still_cold [OF cold_begin [OF _ pop]] by blast
      then have "(\<exists>k. in_srv_state ?B k SrvActive) \<or> still ?B" by (simp add: begin_event_states)
      then obtain sn E1 where h: "handle_decision_tick W None ?B = Inr (sn, E1)" and ok: "ok ks (e_algorithm E1)"
        using tick_total [OF W begin_event_inv(1) [OF inv(1) pop] wired_begin(1) [OF Suc.prems(3) pop]] Suc.prems(4)
        by (auto simp: alg_simps)
      let ?E' = "push (e_now E1 + DECISION_INTERVAL_SEC) DecisionTick E1"
      have "reachable W df st ?E'" by (rule reachable.tick [OF Suc.prems(2) pop le tick h])
      moreover have "wired ks E1"
        by (rule wired_tick [OF W(1,2) h wired_begin(1) [OF Suc.prems(3) pop] begin_event_inv(1) [OF inv(1) pop]])
      moreover have "wired ks ?E'" by (intro wired_push calculation(2)) simp
      moreover have "r = Inr (Some sn, False, ?E')" using Suc.prems(1) pop le tick h by simp
      ultimately show ?thesis using ok by (simp add: alg_simps)
    next
      case other: False
      obtain E1 where h: "handle_event W (ev_type ev) ?B = Inr E1" and E1: "wired ks E1" "ok ks (e_algorithm E1)"
        using event_total [OF W(1) inv(1) Suc.prems(3,4) ks pop] by blast
      have "step_loop fuel W None E1 = Some r" using Suc.prems(1) pop le other h by simp
      from Suc.IH [OF this reachable.event [OF Suc.prems(2) pop le other h] E1] show ?thesis .
    qed
  qed
qed simp

lemma run_loop_total:
  assumes W: "w_alg W = A" "w_cfg W = C" "\<forall>xs. set (w_iter_set W xs) \<subseteq> set xs"
    and df: "sound_trace df" and ks: "ks \<noteq> []"
    and s: "run_loop n W E = Some r" and "reachable W df st E" and "wired ks E" and "ok ks (e_algorithm E)"
  shows "\<exists>E'. r = Inr E'"
  using s assms(7-)
proof (induction n arbitrary: E)
  case (Suc n)
  then obtain q where q: "step W None E = Some q" by (auto split: option.splits)
  with step_loop_total [OF W df ks _ Suc.prems(2-4)] obtain sn d E' where x: "q = Inr (sn, d, E')"
    and nxt: "\<not> d \<longrightarrow> reachable W df st E' \<and> wired ks E' \<and> ok ks (e_algorithm E')" unfolding step_def by blast
  show ?case
  proof (cases d)
    case False
    with q x Suc.prems(1) have "run_loop n W E' = Some r" by simp
    then show ?thesis using nxt False by (intro Suc.IH [of E']) simp_all
  qed (use q x Suc.prems(1) in auto)
qed simp

lemma run_total:
  assumes W: "w_alg W = A" "w_cfg W = C" "\<forall>xs. set (w_iter_set W xs) \<subseteq> set xs"
    and df: "sound_trace df" "known_trace df" and new: "new_engine df st = Inr E0" and ok: "\<And>ks. ok ks st"
  shows "\<exists>rep. run W E0 = Some (Inr rep)"
proof -
  note n = new_engine_shape [OF new]
  let ?P = "primed_core df E0"
  note core = primed_core_inv [OF new df(1)]
  have ne: "e_servers E0 \<noteq> []" using n(1) by (simp add: fresh_servers_def)
  have "store_inv ?P" using core(1) by (simp add: engine_inv_def)
  then have wf: "wf_servers (e_servers ?P)" by (simp add: store_inv_def)
  obtain sel where sel: "alg_initial_placement A (e_algorithm ?P) (e_servers ?P) (initial_bts W (events_df ?P)) = Inr sel"
    using initial_total [OF wf] ne core(3) by auto
  then obtain E3 where 3: "initial_placement W ?P = Inr E3"
    using initial_placement_total [OF wf] initial_sound [OF sel wf] W(1) by blast
  then obtain E where p: "prime W E0 = Inr E" and alg: "e_algorithm E = e_algorithm E3"
    by (auto simp: prime_alt n(2) push_def)
  have "e_algorithm ?P = e_algorithm E0"
    by (simp add: primed_core_def Let_def) (rule alg_fold, simp add: alg_simps)
  then have "ok (dkeys (e_servers E0)) (e_algorithm E)" using ok alg_placement [OF 3] n(8) alg by simp
  moreover have "dkeys (e_servers E0) \<noteq> []" using ne by simp
  moreover obtain r where r: "run W E0 = Some r" using run_terminates [OF W(1,2) new df(1)] by blast
  moreover obtain q where q: "run_loop (tick_bound E + 1) W E = Some q" using r p by (auto simp: run_def split: option.splits)
  ultimately obtain E' where "q = Inr E'"
    using run_loop_total [OF W df(1) _ q reachable.start [OF new p] prime_wired [OF new df(2) p]] by blast
  with p q show ?thesis by (simp add: run_def)
qed

end

section \<open>Properties\<close>

text \<open>\<open>run.py\<close>: the engine of a trace and an algorithm in its first state, run to its end.\<close>

definition simulate :: "'a world \<Rightarrow> event_row list \<Rightarrow> 'a \<Rightarrow> report result option" where
  "simulate W df st = (case new_engine df st of Inl err \<Rightarrow> Some (Inl err) | Inr E0 \<Rightarrow> run W E0)"

lemma simulate_total:
  assumes "total_algorithm (w_alg W) (w_cfg W) ok" and "\<forall>xs. set (w_iter_set W xs) \<subseteq> set xs"
    and "sound_trace df" and "known_trace df" and "\<And>ks. ok ks st"
  shows "\<exists>rep. simulate W df st = Some (Inr rep)"
proof -
  obtain E0 where new: "new_engine df st = Inr E0" using new_engine_total [of df st] ..
  have "\<exists>rep. run W E0 = Some (Inr rep)"
    by (rule total_algorithm.run_total [OF assms(1) refl refl assms(2-4) new assms(5)])
  then show ?thesis by (simp only: simulate_def new sum.case)
qed

text \<open>
  C5. No exception ends a simulation: on every trace whose base stations are on the globe and
  whose services are in the table, the run of the Greedy, of the HPA and of the VOILA algorithm
  returns a report, whatever numpy computes, whatever random numbers VOILA's coordinates start
  from and in whatever order a set is iterated. In particular no division by the number of
  active servers, no lookup of a server, service or replica and no \<open>max\<close> or \<open>min\<close> of an empty list is
  reached.
\<close>

theorem run_never_raises:
  assumes "sound_trace df" and "known_trace df" and "\<forall>xs. set (iter_set xs) \<subseteq> set xs"
  shows "(\<exists>rep. simulate \<lparr>w_cfg = C, w_np = N, w_alg = greedy_algorithm C, w_iter_set = iter_set,
                  w_drop_duplicates = dd\<rparr> df None = Some (Inr rep))
    \<and> (\<exists>rep. simulate \<lparr>w_cfg = C, w_np = N, w_alg = hpa_algorithm C, w_iter_set = iter_set,
                  w_drop_duplicates = dd\<rparr> df () = Some (Inr rep))
    \<and> (\<exists>rep. simulate \<lparr>w_cfg = C, w_np = N, w_alg = voila_algorithm uni seed C, w_iter_set = iter_set,
                  w_drop_duplicates = dd\<rparr> df new_voila = Some (Inr rep))"
proof (intro conjI)
  show "\<exists>rep. simulate \<lparr>w_cfg = C, w_np = N, w_alg = greedy_algorithm C, w_iter_set = iter_set,
                  w_drop_duplicates = dd\<rparr> df None = Some (Inr rep)"
    by (rule simulate_total [where ok = "\<lambda>_ _. True"])
      (simp_all only: simp_thms world.simps assms greedy_total.total_algorithm_axioms)
  show "\<exists>rep. simulate \<lparr>w_cfg = C, w_np = N, w_alg = hpa_algorithm C, w_iter_set = iter_set,
                  w_drop_duplicates = dd\<rparr> df () = Some (Inr rep)"
    by (rule simulate_total [where ok = "\<lambda>_ _. True"])
      (simp_all only: simp_thms world.simps assms hpa_total.total_algorithm_axioms)
  show "\<exists>rep. simulate \<lparr>w_cfg = C, w_np = N, w_alg = voila_algorithm uni seed C, w_iter_set = iter_set,
                  w_drop_duplicates = dd\<rparr> df new_voila = Some (Inr rep)"
  proof (rule simulate_total [where ok = voila_ok])
    show "voila_ok ks new_voila" for ks by (simp add: voila_ok_def new_voila_def)
  qed (simp_all only: simp_thms world.simps assms voila_total.total_algorithm_axioms)
qed

theorem run_never_raises_witness:
  "\<exists>rep. simulate sample_world [\<lparr>row_start = 0, row_lat = 31, row_long = 121, row_service_id = 1\<rparr>] None = Some (Inr rep)"
proof -
  let ?df = "[\<lparr>row_start = 0, row_lat = 31, row_long = 121, row_service_id = 1\<rparr>]"
  have "sound_trace ?df" "known_trace ?df" by (simp_all add: sound_trace_def known_trace_def ACTIVE_SERVICES_def SERVICES_INFO_def)
  moreover have "\<forall>xs :: int list. set xs \<subseteq> set xs" by simp
  ultimately show ?thesis
    unfolding sample_world_def
    by (rule run_never_raises [where uni = "\<lambda>lo hi g. (lo, g)" and seed = "0 :: nat", THEN conjunct1])
qed

text \<open>
  C6. Every request of the trace is in the report of a run that returns one: the requests counted
  are the rows of the trace, each is completed, rejected (for a full queue or for want of a
  replica) or lost, and there is one response time per completed request.
\<close>

theorem run_records_every_request:
  assumes "lawful_algorithm (w_alg W) (w_cfg W)" and "sound_trace df" and "simulate W df st = Some (Inr rep)"
  defines "m \<equiv> rep_counters rep"
  shows "total_requests m = length df
    \<and> completed_requests m + rejected_queue_full m + rejected_no_replica m + lost_no_completion m = length df
    \<and> length (response_times m) = completed_requests m \<and> deadline_violations m \<le> length df"
proof -
  obtain E0 where new: "new_engine df st = Inr E0" and run: "run W E0 = Some (Inr rep)"
    using assms(3) by (auto simp: simulate_def split: sum.splits)
  obtain E where r: "reachable W df st E" "over E" and rep: "rep = finalize (w_np W) (e_servers E) (e_metrics E)"
    using lawful_algorithm.run_over [OF assms(1) refl refl new assms(2) run] by blast
  have b: "books df E" by (rule lawful_algorithm.reachable_books [OF assms(1) r(1) refl refl assms(2)])
  have "agenda_inv E" using lawful_algorithm.reachable_inv [OF assms(1) r(1) refl refl assms(2)]
    by (simp add: reach_inv_def engine_inv_def)
  then have "requests_of E = {#}" by (rule over_no_requests [OF r(2) b])
  then show ?thesis using b by (simp add: m_def rep finalize_def books_def accounted_def Let_def)
qed

theorem run_records_every_request_witness:
  "\<exists>rep. simulate sample_world [\<lparr>row_start = 0, row_lat = 31, row_long = 121, row_service_id = 1\<rparr>] None = Some (Inr rep)
     \<and> total_requests (rep_counters rep) = 1"
proof -
  let ?df = "[\<lparr>row_start = 0, row_lat = 31, row_long = 121, row_service_id = 1\<rparr>]"
  have df: "sound_trace ?df" "known_trace ?df" by (simp_all add: sound_trace_def known_trace_def ACTIVE_SERVICES_def SERVICES_INFO_def)
  have "\<exists>rep. simulate sample_world ?df None = Some (Inr rep)"
    by (rule simulate_total [where ok = "\<lambda>_ _. True", OF _ _ df])
      (simp_all only: sample_world_def world.simps greedy_total.total_algorithm_axioms subset_refl all_simps simp_thms)
  then obtain rep where "simulate sample_world ?df None = Some (Inr rep)" ..
  with run_records_every_request [OF sample_lawful df(1) this] show ?thesis by auto
qed

end
