(* ===== verification/Redis.thy ===== *)
theory Redis
  imports Policy "HOL-Library.Multiset" "HOL-Library.Sublist"
begin

text \<open>
  \<open>k8s_adapter/redis_state.py\<close> and the release of a slot in \<open>k8s_adapter/worker_service/app.py\<close>:
  the state that the dispatcher and the worker pods share. The Redis server is not part of the
  repository: its commands are a parameter (\<open>redis\<close>), and the locale \<open>redis_server\<close> states what
  their documentation promises of them, as equations on a view of the database.
\<close>

section \<open>Decimal numbers in strings\<close>

text \<open>
  \<open>str(i)\<close> and \<open>int(s)\<close>. Of the strings \<open>int\<close> accepts only plain decimal numerals are modelled,
  the ones \<open>str\<close> and Redis write; the others are a \<open>ValueError\<close>.
\<close>

fun digits :: "nat \<Rightarrow> string" where
  "digits n = (if n < 10 then [char_of (48 + n)] else digits (n div 10) @ [char_of (48 + n mod 10)])"

declare digits.simps [simp del]

definition py_str :: "int \<Rightarrow> string" where
  "py_str i = (if i < 0 then CHR ''-'' # digits (nat (- i)) else digits (nat i))"

definition is_digit :: "char \<Rightarrow> bool" where
  "is_digit c \<longleftrightarrow> 48 \<le> (of_char c :: nat) \<and> (of_char c :: nat) \<le> 57"

definition digits_val :: "string \<Rightarrow> nat" where
  "digits_val s = foldl (\<lambda>v c. 10 * v + (of_char c - 48)) 0 s"

definition py_int :: "string \<Rightarrow> int result" where
  "py_int s =
     (if s \<noteq> [] \<and> list_all is_digit s then Inr (int (digits_val s))
      else if s \<noteq> [] \<and> hd s = CHR ''-'' \<and> tl s \<noteq> [] \<and> list_all is_digit (tl s) then Inr (- int (digits_val (tl s)))
      else Inl ValueError)"

lemma of_char_digit: "n < 10 \<Longrightarrow> of_char (char_of (48 + n) :: char) = (48 + n :: nat)"
  by (simp add: of_char_of take_bit_nat_def)

lemma digits_ok: "digits n \<noteq> [] \<and> list_all is_digit (digits n)"
proof (induction n rule: digits.induct)
  case (1 n)
  have d: "is_digit (char_of (48 + d))" if "d < 10" for d :: nat
    using that by (simp add: is_digit_def of_char_digit)
  show ?case
  proof (cases "n < 10")
    case True
    then show ?thesis by (subst (1 2) digits.simps) (simp add: d)
  next
    case False
    with 1 show ?thesis by (subst (1 2) digits.simps) (simp add: d)
  qed
qed

lemma digits_val_digits: "digits_val (digits n) = n"
proof (induction n rule: digits.induct)
  case (1 n)
  show ?case
  proof (cases "n < 10")
    case True
    then show ?thesis by (subst digits.simps) (simp add: digits_val_def of_char_digit)
  next
    case False
    have "digits_val (xs @ [char_of (48 + d)]) = 10 * digits_val xs + d" if "d < 10" for xs d
      using that by (simp add: digits_val_def of_char_digit)
    with False 1 show ?thesis by (subst digits.simps) simp
  qed
qed

lemma hd_digits: "is_digit (hd (digits n))"
  using digits_ok [of n] by (cases "digits n") auto

lemma py_int_str [simp]: "py_int (py_str i) = Inr i"
proof -
  have m: "\<not> is_digit (CHR ''-'')" by (simp add: is_digit_def)
  show ?thesis
    using digits_ok by (simp add: py_int_def py_str_def digits_val_digits m)
qed

lemma py_str_inj [simp]: "py_str i = py_str j \<longleftrightarrow> i = j"
  by (metis py_int_str sum.inject(2))

lemma py_str_nonempty [simp]: "py_str i \<noteq> []"
  using digits_ok by (simp add: py_str_def)

lemma py_str_no_colon: "CHR '':'' \<notin> set (py_str i)"
proof -
  have "\<not> is_digit (CHR '':'')" by (simp add: is_digit_def)
  then have "CHR '':'' \<notin> set (digits n)" for n using digits_ok [of n] by (auto simp: list_all_iff)
  then show ?thesis by (simp add: py_str_def)
qed

section \<open>Keys\<close>

definition server_state_key :: "int \<Rightarrow> string" where
  "server_state_key srv = ''edge:server:'' @ py_str srv @ '':state''"

definition replica_key :: "int \<Rightarrow> int \<Rightarrow> string \<Rightarrow> string" where
  "replica_key svc srv field = ''edge:replica:'' @ py_str svc @ '':'' @ py_str srv @ '':'' @ field"

definition queue_key :: "int \<Rightarrow> int \<Rightarrow> string" where
  "queue_key svc srv = replica_key svc srv ''queue''"

definition ready_key :: "int \<Rightarrow> string" where
  "ready_key svc = ''edge:service:'' @ py_str svc @ '':ready_replicas''"

definition reservations_key :: "int \<Rightarrow> int \<Rightarrow> string" where
  "reservations_key svc srv = ''edge:reservations:'' @ py_str svc @ '':'' @ py_str srv"

definition busy_key :: "int \<Rightarrow> int \<Rightarrow> string" where
  "busy_key svc srv = ''service:'' @ py_str svc @ '':server:'' @ py_str srv @ '':busy_seconds_acc''"

definition metric_key :: "string \<Rightarrow> string" where
  "metric_key name = ''edge:metrics:'' @ name"

text \<open>The formats are injective: a colon does not occur in a number.\<close>

lemma split_at_colon:
  assumes "CHR '':'' \<notin> set xs" and "CHR '':'' \<notin> set ys" and "xs @ CHR '':'' # us = ys @ CHR '':'' # vs"
  shows "xs = ys \<and> us = vs"
  using assms
proof (induction xs arbitrary: ys)
  case Nil
  then show ?case by (cases ys) auto
next
  case (Cons x xs)
  then show ?case by (cases ys) auto
qed

lemma replica_key_field: "replica_key a b f = replica_key c d g \<longleftrightarrow> a = c \<and> b = d \<and> f = g"
proof
  assume "replica_key a b f = replica_key c d g"
  then have "py_str a @ CHR '':'' # py_str b @ CHR '':'' # f = py_str c @ CHR '':'' # py_str d @ CHR '':'' # g"
    by (simp add: replica_key_def)
  then have "py_str a = py_str c \<and> py_str b @ CHR '':'' # f = py_str d @ CHR '':'' # g"
    by (rule split_at_colon [OF py_str_no_colon py_str_no_colon])
  moreover from this have "py_str b = py_str d \<and> f = g"
    by (auto dest: split_at_colon [OF py_str_no_colon py_str_no_colon])
  ultimately show "a = c \<and> b = d \<and> f = g" by simp
qed simp

lemma replica_key_inj [simp]: "replica_key a b f = replica_key c d f \<longleftrightarrow> a = c \<and> b = d"
  by (simp add: replica_key_field)

lemma ready_key_inj [simp]: "ready_key a = ready_key b \<longleftrightarrow> a = b"
  by (simp add: ready_key_def)

lemma queue_key_inj [simp]: "queue_key a b = queue_key c d \<longleftrightarrow> a = c \<and> b = d"
  by (simp add: queue_key_def)

lemma reservations_key_inj [simp]: "reservations_key a b = reservations_key c d \<longleftrightarrow> a = c \<and> b = d"
proof
  assume "reservations_key a b = reservations_key c d"
  then have "py_str a @ CHR '':'' # py_str b = py_str c @ CHR '':'' # py_str d" by (simp add: reservations_key_def)
  then have "py_str a = py_str c \<and> py_str b = py_str d" by (rule split_at_colon [OF py_str_no_colon py_str_no_colon])
  then show "a = c \<and> b = d" by simp
qed simp

section \<open>The commands used\<close>

record completion =
  c_request_id :: "int option"
  c_service_id :: int
  c_server_id :: int
  c_success :: bool
  c_response_time_sec :: real

text \<open>
  The commands of the client library, over the type \<open>'r\<close> of databases. \<open>INCR\<close> and \<open>DECR\<close> are
  \<open>INCRBY\<close> with 1 and -1, \<open>ZRANGEBYSCORE\<close> has the lower bound \<open>-inf\<close>, \<open>KEYS\<close> a prefix for its
  pattern; a list of JSON texts is the list of the objects they encode, and the floats of
  \<open>INCRBYFLOAT\<close> are reals.
\<close>

record 'r redis =
  rd_set :: "string \<Rightarrow> string \<Rightarrow> 'r \<Rightarrow> 'r"
  rd_get :: "string \<Rightarrow> 'r \<Rightarrow> string option"
  rd_delete :: "string list \<Rightarrow> 'r \<Rightarrow> 'r"
  rd_keys :: "string \<Rightarrow> 'r \<Rightarrow> string list"
  rd_incrby :: "string \<Rightarrow> int \<Rightarrow> 'r \<Rightarrow> (int \<times> 'r) result"
  rd_sadd :: "string \<Rightarrow> string \<Rightarrow> 'r \<Rightarrow> 'r"
  rd_srem :: "string \<Rightarrow> string \<Rightarrow> 'r \<Rightarrow> 'r"
  rd_smembers :: "string \<Rightarrow> 'r \<Rightarrow> string list"
  rd_zadd :: "string \<Rightarrow> string \<Rightarrow> real \<Rightarrow> 'r \<Rightarrow> 'r"
  rd_zrem :: "string \<Rightarrow> string \<Rightarrow> 'r \<Rightarrow> bool \<times> 'r"
  rd_zrangebyscore :: "string \<Rightarrow> real \<Rightarrow> 'r \<Rightarrow> string list"
  rd_rpush :: "string \<Rightarrow> completion \<Rightarrow> 'r \<Rightarrow> 'r"
  rd_lpop_batch :: "string \<Rightarrow> nat \<Rightarrow> 'r \<Rightarrow> completion list \<times> 'r"
  rd_getfloat :: "string \<Rightarrow> 'r \<Rightarrow> real option"
  rd_setfloat :: "string \<Rightarrow> real \<Rightarrow> 'r \<Rightarrow> 'r"
  rd_incrbyfloat :: "string \<Rightarrow> real \<Rightarrow> 'r \<Rightarrow> 'r"

text \<open>\<open>int(_r.get(key) or 0)\<close>: a missing key and an empty string count as zero.\<close>

definition get_int :: "'r redis \<Rightarrow> string \<Rightarrow> 'r \<Rightarrow> int result" where
  "get_int R key db =
     (case rd_get R key db of None \<Rightarrow> Inr 0 | Some s \<Rightarrow> if s = [] then Inr 0 else py_int s)"

definition get_or :: "'r redis \<Rightarrow> string \<Rightarrow> string \<Rightarrow> 'r \<Rightarrow> string" where
  "get_or R dflt key db = (case rd_get R key db of None \<Rightarrow> dflt | Some s \<Rightarrow> if s = [] then dflt else s)"

section \<open>Servers and replicas\<close>

definition set_server_state :: "'r redis \<Rightarrow> int \<Rightarrow> string \<Rightarrow> 'r \<Rightarrow> 'r" where
  "set_server_state R server_id state db = rd_set R (server_state_key server_id) state db"

definition get_server_state :: "'r redis \<Rightarrow> int \<Rightarrow> 'r \<Rightarrow> string" where
  "get_server_state R server_id db = get_or R ''OFF'' (server_state_key server_id) db"

definition all_server_states :: "'r redis \<Rightarrow> nat \<Rightarrow> 'r \<Rightarrow> (int, string) pydict" where
  "all_server_states R n_srv db =
     map (\<lambda>sid. (int sid, get_server_state R (int sid) db)) [1..<n_srv + 1]"

definition set_replica_state :: "'r redis \<Rightarrow> int \<Rightarrow> int \<Rightarrow> string \<Rightarrow> 'r \<Rightarrow> 'r" where
  "set_replica_state R service_id server_id state db =
     (let db1 = rd_set R (replica_key service_id server_id ''state'') state db
      in if state = ''READY'' then rd_sadd R (ready_key service_id) (py_str server_id) db1
         else rd_srem R (ready_key service_id) (py_str server_id) db1)"

definition get_replica_state :: "'r redis \<Rightarrow> int \<Rightarrow> int \<Rightarrow> 'r \<Rightarrow> string" where
  "get_replica_state R service_id server_id db =
     get_or R ''TERMINATED'' (replica_key service_id server_id ''state'') db"

definition set_pod_ip :: "'r redis \<Rightarrow> int \<Rightarrow> int \<Rightarrow> string \<Rightarrow> 'r \<Rightarrow> 'r" where
  "set_pod_ip R service_id server_id ip db = rd_set R (replica_key service_id server_id ''pod_ip'') ip db"

definition get_pod_ip :: "'r redis \<Rightarrow> int \<Rightarrow> int \<Rightarrow> 'r \<Rightarrow> string option" where
  "get_pod_ip R service_id server_id db = rd_get R (replica_key service_id server_id ''pod_ip'') db"

definition remove_replica :: "'r redis \<Rightarrow> int \<Rightarrow> int \<Rightarrow> 'r \<Rightarrow> 'r" where
  "remove_replica R service_id server_id db =
     rd_srem R (ready_key service_id) (py_str server_id)
       (rd_delete R [replica_key service_id server_id ''state'', replica_key service_id server_id ''pod_ip'',
                     queue_key service_id server_id] db)"

definition ready_replica_server_ids :: "'r redis \<Rightarrow> int \<Rightarrow> 'r \<Rightarrow> int list result" where
  "ready_replica_server_ids R service_id db = mapE py_int (rd_smembers R (ready_key service_id) db)"

section \<open>The slots of a queue\<close>

definition try_reserve_queue_slot ::
  "'r redis \<Rightarrow> int \<Rightarrow> int \<Rightarrow> int \<Rightarrow> int option \<Rightarrow> real option \<Rightarrow> real \<Rightarrow> 'r \<Rightarrow> (bool \<times> 'r) result" where
  "try_reserve_queue_slot R service_id server_id queue_len request_id ttl_sec now db =
     (let key = queue_key service_id server_id
      in bindE (rd_incrby R key 1 db) (\<lambda>(new_val, db1).
           if queue_len < new_val
           then bindE (rd_incrby R key (- 1) db1) (\<lambda>(_, db2). Inr (False, db2))
           else Inr (True,
             case (request_id, ttl_sec) of
               (Some rid, Some ttl) \<Rightarrow> rd_zadd R (reservations_key service_id server_id) (py_str rid) (now + ttl) db1
             | _ \<Rightarrow> db1)))"

definition release_queue_slot :: "'r redis \<Rightarrow> int \<Rightarrow> int \<Rightarrow> int option \<Rightarrow> 'r \<Rightarrow> 'r result" where
  "release_queue_slot R service_id server_id request_id db =
     (let key = queue_key service_id server_id
      in bindE (get_int R key db) (\<lambda>v.
         bindE (if 0 < v then bindE (rd_incrby R key (- 1) db) (\<lambda>(_, db1). Inr db1) else Inr db) (\<lambda>db1.
           Inr (case request_id of
                  None \<Rightarrow> db1
                | Some rid \<Rightarrow> snd (rd_zrem R (reservations_key service_id server_id) (py_str rid) db1)))))"

definition get_queue_occupancy :: "'r redis \<Rightarrow> int \<Rightarrow> int \<Rightarrow> 'r \<Rightarrow> int result" where
  "get_queue_occupancy R service_id server_id db = get_int R (queue_key service_id server_id) db"

text \<open>One expired member; only the side that removed it may free the slot.\<close>

definition sweep_member :: "'r redis \<Rightarrow> int \<Rightarrow> int \<Rightarrow> string \<Rightarrow> nat \<times> 'r \<Rightarrow> (nat \<times> 'r) result" where
  "sweep_member R svc srv member = (\<lambda>(released, db).
     let (removed, db1) = rd_zrem R (reservations_key svc srv) member db
     in if removed then bindE (release_queue_slot R svc srv None db1) (\<lambda>db2. Inr (released + 1, db2))
        else Inr (released, db1))"

definition sweep_pair :: "'r redis \<Rightarrow> real \<Rightarrow> int \<times> int \<Rightarrow> nat \<times> 'r \<Rightarrow> (nat \<times> 'r) result" where
  "sweep_pair R now = (\<lambda>(svc, srv) (released, db).
     foldE (sweep_member R svc srv) (rd_zrangebyscore R (reservations_key svc srv) now db) (released, db))"

definition all_pairs :: "nat \<Rightarrow> nat \<Rightarrow> (int \<times> int) list" where
  "all_pairs n_srv n_svc =
     concat (map (\<lambda>svc. map (\<lambda>srv. (int svc, int srv)) [1..<n_srv + 1]) [1..<n_svc + 1])"

definition sweep_expired_reservations :: "'r redis \<Rightarrow> nat \<Rightarrow> nat \<Rightarrow> real \<Rightarrow> 'r \<Rightarrow> (nat \<times> 'r) result" where
  "sweep_expired_reservations R n_srv n_svc now db =
     foldE (sweep_pair R now) (all_pairs n_srv n_svc) (0, db)"

section \<open>Metrics, completions, busy time\<close>

definition incr_metric :: "'r redis \<Rightarrow> string \<Rightarrow> int \<Rightarrow> 'r \<Rightarrow> 'r result" where
  "incr_metric R name amount db = bindE (rd_incrby R (metric_key name) amount db) (\<lambda>(_, db1). Inr db1)"

definition get_metric :: "'r redis \<Rightarrow> string \<Rightarrow> 'r \<Rightarrow> int result" where
  "get_metric R name db = get_int R (metric_key name) db"

definition reset_all :: "'r redis \<Rightarrow> 'r \<Rightarrow> 'r" where
  "reset_all R db =
     (let all_keys = rd_keys R ''edge:'' db @ rd_keys R ''service:'' db
      in if all_keys \<noteq> [] then rd_delete R all_keys db else db)"

definition push_completion :: "'r redis \<Rightarrow> int \<Rightarrow> int \<Rightarrow> int \<Rightarrow> bool \<Rightarrow> real \<Rightarrow> 'r \<Rightarrow> 'r" where
  "push_completion R service_id server_id request_id success response_time db =
     rd_rpush R (metric_key ''completions'')
       \<lparr>c_request_id = Some request_id, c_service_id = service_id, c_server_id = server_id,
        c_success = success, c_response_time_sec = response_time\<rparr> db"

definition pop_completion_batch :: "'r redis \<Rightarrow> nat \<Rightarrow> 'r \<Rightarrow> completion list \<times> 'r" where
  "pop_completion_batch R max_items db = rd_lpop_batch R (metric_key ''completions'') max_items db"

definition get_busy_seconds_acc :: "'r redis \<Rightarrow> int \<Rightarrow> int \<Rightarrow> 'r \<Rightarrow> real" where
  "get_busy_seconds_acc R service_id server_id db =
     (case rd_getfloat R (busy_key service_id server_id) db of None \<Rightarrow> 0 | Some x \<Rightarrow> x)"

definition reset_busy_seconds_acc :: "'r redis \<Rightarrow> int \<Rightarrow> int \<Rightarrow> 'r \<Rightarrow> 'r" where
  "reset_busy_seconds_acc R service_id server_id db = rd_delete R [busy_key service_id server_id] db"

definition pop_busy_seconds_acc :: "'r redis \<Rightarrow> int \<Rightarrow> int \<Rightarrow> 'r \<Rightarrow> real \<times> 'r" where
  "pop_busy_seconds_acc R service_id server_id db =
     (get_busy_seconds_acc R service_id server_id db, rd_setfloat R (busy_key service_id server_id) 0 db)"

section \<open>The worker\<close>

text \<open>
  What \<open>process\<close> of a pod does after the work: the slot of the request is freed by the side
  that removes its reservation, an exception of the client is swallowed.
\<close>

definition worker_cold_start_extra :: "real \<Rightarrow> real \<Rightarrow> real \<Rightarrow> real" where
  "worker_cold_start_extra window penalty age = (if 0 < window \<and> age \<le> window then penalty else 0)"

definition worker_release :: "'r redis \<Rightarrow> int \<Rightarrow> int \<Rightarrow> int option \<Rightarrow> 'r \<Rightarrow> 'r" where
  "worker_release R service_id server_id request_id db =
     (let key = queue_key service_id server_id;
          (should_decrement, db1) =
            (case request_id of
               None \<Rightarrow> (True, db)
             | Some rid \<Rightarrow> rd_zrem R (reservations_key service_id server_id) (py_str rid) db)
      in if should_decrement
         then (case get_int R key db1 of
                 Inl _ \<Rightarrow> db1
               | Inr v \<Rightarrow> if 0 < v then (case rd_incrby R key (- 1) db1 of Inl _ \<Rightarrow> db1 | Inr (_, db2) \<Rightarrow> db2)
                           else db1)
         else db1)"

definition worker_finish ::
  "'r redis \<Rightarrow> int \<Rightarrow> int \<Rightarrow> int option \<Rightarrow> real option \<Rightarrow> real \<Rightarrow> real \<Rightarrow> 'r \<Rightarrow> 'r" where
  "worker_finish R service_id server_id request_id sent_at_epoch elapsed now db =
     (let db1 = worker_release R service_id server_id request_id db;
          response_time = (case sent_at_epoch of None \<Rightarrow> elapsed | Some t \<Rightarrow> now - t);
          db2 = rd_rpush R (metric_key ''completions'')
                  \<lparr>c_request_id = request_id, c_service_id = service_id, c_server_id = server_id,
                   c_success = True, c_response_time_sec = response_time\<rparr> db1
      in rd_incrbyfloat R (busy_key service_id server_id) elapsed db2)"

section \<open>What the commands promise\<close>

text \<open>
  A view of the database: the strings (the decimal counters among them), the sets, the sorted
  sets with their scores, the lists of completions and the floats. A key holds one kind of
  value, and its format tells which; the laws say what each command does to the view of a
  database that keeps to that, at a key of the command's kind.
\<close>

record rview =
  v_str :: "string \<Rightarrow> string option"
  v_set :: "string \<Rightarrow> string list"
  v_zset :: "string \<Rightarrow> (string \<times> real) list"
  v_list :: "string \<Rightarrow> completion list"
  v_float :: "string \<Rightarrow> real option"

datatype kind = KStr | KSet | KZset | KList | KFloat

definition kind_of :: "string \<Rightarrow> kind" where
  "kind_of k =
     (if k = metric_key ''completions'' then KList
      else if prefix ''edge:reservations:'' k then KZset
      else if prefix ''edge:service:'' k then KSet
      else if prefix ''service:'' k then KFloat
      else KStr)"

lemma kind_of_key [simp]:
  "kind_of (server_state_key srv) = KStr" "kind_of (replica_key svc srv f) = KStr"
  "kind_of (queue_key svc srv) = KStr" "kind_of (ready_key svc) = KSet"
  "kind_of (reservations_key svc srv) = KZset" "kind_of (busy_key svc srv) = KFloat"
  "kind_of (metric_key ''completions'') = KList"
  by (simp_all add: kind_of_def server_state_key_def replica_key_def queue_key_def ready_key_def
      reservations_key_def busy_key_def metric_key_def)

definition well_kinded :: "rview \<Rightarrow> bool" where
  "well_kinded v \<longleftrightarrow> (\<forall>k. (v_str v k \<noteq> None \<longrightarrow> kind_of k = KStr) \<and> (v_set v k \<noteq> [] \<longrightarrow> kind_of k = KSet)
     \<and> (v_zset v k \<noteq> [] \<longrightarrow> kind_of k = KZset) \<and> (v_list v k \<noteq> [] \<longrightarrow> kind_of k = KList)
     \<and> (v_float v k \<noteq> None \<longrightarrow> kind_of k = KFloat))"

definition counter :: "rview \<Rightarrow> string \<Rightarrow> int result" where
  "counter v k = (case v_str v k of None \<Rightarrow> Inr 0 | Some s \<Rightarrow> py_int s)"

abbreviation members :: "rview \<Rightarrow> string \<Rightarrow> string list" where
  "members v k \<equiv> dkeys (v_zset v k)"

abbreviation set_str :: "string \<Rightarrow> string option \<Rightarrow> rview \<Rightarrow> rview" where
  "set_str k x v \<equiv> v\<lparr>v_str := (v_str v)(k := x)\<rparr>"

abbreviation set_set :: "string \<Rightarrow> string list \<Rightarrow> rview \<Rightarrow> rview" where
  "set_set k x v \<equiv> v\<lparr>v_set := (v_set v)(k := x)\<rparr>"

abbreviation set_zset :: "string \<Rightarrow> (string \<times> real) list \<Rightarrow> rview \<Rightarrow> rview" where
  "set_zset k x v \<equiv> v\<lparr>v_zset := (v_zset v)(k := x)\<rparr>"

abbreviation set_list :: "string \<Rightarrow> completion list \<Rightarrow> rview \<Rightarrow> rview" where
  "set_list k x v \<equiv> v\<lparr>v_list := (v_list v)(k := x)\<rparr>"

abbreviation set_float :: "string \<Rightarrow> real option \<Rightarrow> rview \<Rightarrow> rview" where
  "set_float k x v \<equiv> v\<lparr>v_float := (v_float v)(k := x)\<rparr>"

definition add_member :: "string \<Rightarrow> string list \<Rightarrow> string list" where
  "add_member m ms = (if m \<in> set ms then ms else ms @ [m])"

definition del_keys :: "string list \<Rightarrow> rview \<Rightarrow> rview" where
  "del_keys ks v =
     \<lparr>v_str = (\<lambda>k. if k \<in> set ks then None else v_str v k),
      v_set = (\<lambda>k. if k \<in> set ks then [] else v_set v k),
      v_zset = (\<lambda>k. if k \<in> set ks then [] else v_zset v k),
      v_list = (\<lambda>k. if k \<in> set ks then [] else v_list v k),
      v_float = (\<lambda>k. if k \<in> set ks then None else v_float v k)\<rparr>"

definition has_key :: "rview \<Rightarrow> string \<Rightarrow> bool" where
  "has_key v k \<longleftrightarrow> v_str v k \<noteq> None \<or> v_set v k \<noteq> [] \<or> v_zset v k \<noteq> [] \<or> v_list v k \<noteq> [] \<or> v_float v k \<noteq> None"

lemma well_kinded_set [simp]:
  "well_kinded v \<Longrightarrow> kind_of k = KStr \<Longrightarrow> well_kinded (set_str k s v)"
  "well_kinded v \<Longrightarrow> kind_of k = KSet \<Longrightarrow> well_kinded (set_set k ms v)"
  "well_kinded v \<Longrightarrow> kind_of k = KZset \<Longrightarrow> well_kinded (set_zset k z v)"
  "well_kinded v \<Longrightarrow> kind_of k = KList \<Longrightarrow> well_kinded (set_list k cs v)"
  "well_kinded v \<Longrightarrow> kind_of k = KFloat \<Longrightarrow> well_kinded (set_float k x v)"
  "well_kinded v \<Longrightarrow> well_kinded (del_keys ks v)"
  by (simp_all add: well_kinded_def del_keys_def)

definition ready_agrees :: "rview \<Rightarrow> bool" where
  "ready_agrees v \<longleftrightarrow> (\<forall>svc. set (v_set v (ready_key svc))
     = {py_str srv |srv. v_str v (replica_key svc srv ''state'') = Some ''READY''})"

locale redis_server =
  fixes R :: "'r redis" and view :: "'r \<Rightarrow> rview"
  assumes delete_view: "view (rd_delete R ks db) = del_keys ks (view db)"
    and keys: "set (rd_keys R p db) = {k. has_key (view db) k \<and> prefix p k}"
    and get: "well_kinded (view db) \<Longrightarrow> kind_of k = KStr \<Longrightarrow> rd_get R k db = v_str (view db) k"
    and set_view: "well_kinded (view db) \<Longrightarrow> kind_of k = KStr \<Longrightarrow>
          view (rd_set R k s db) = set_str k (Some s) (view db)"
    and incrby: "well_kinded (view db) \<Longrightarrow> kind_of k = KStr \<Longrightarrow> counter (view db) k = Inr (n :: int) \<Longrightarrow>
          \<exists>db'. rd_incrby R k d db = Inr (n + d, db') \<and> view db' = set_str k (Some (py_str (n + d))) (view db)"
    and sadd_view: "well_kinded (view db) \<Longrightarrow> kind_of k = KSet \<Longrightarrow>
          view (rd_sadd R k m db) = set_set k (add_member m (v_set (view db) k)) (view db)"
    and srem_view: "well_kinded (view db) \<Longrightarrow> kind_of k = KSet \<Longrightarrow>
          view (rd_srem R k m db) = set_set k (removeAll m (v_set (view db) k)) (view db)"
    and smembers: "well_kinded (view db) \<Longrightarrow> kind_of k = KSet \<Longrightarrow>
          set (rd_smembers R k db) = set (v_set (view db) k)"
    and zadd_view: "well_kinded (view db) \<Longrightarrow> kind_of k = KZset \<Longrightarrow>
          view (rd_zadd R k m x db) = set_zset k (dset m x (v_zset (view db) k)) (view db)"
    and zrem_result: "well_kinded (view db) \<Longrightarrow> kind_of k = KZset \<Longrightarrow>
          fst (rd_zrem R k m db) \<longleftrightarrow> m \<in> set (members (view db) k)"
    and zrem_view: "well_kinded (view db) \<Longrightarrow> kind_of k = KZset \<Longrightarrow>
          view (snd (rd_zrem R k m db)) = set_zset k (ddel m (v_zset (view db) k)) (view db)"
    and zrange: "well_kinded (view db) \<Longrightarrow> kind_of k = KZset \<Longrightarrow>
          distinct (rd_zrangebyscore R k x db)
          \<and> set (rd_zrangebyscore R k x db) = {m. \<exists>y. dget (v_zset (view db) k) m = Some y \<and> y \<le> x}"
    and rpush_view: "well_kinded (view db) \<Longrightarrow> kind_of k = KList \<Longrightarrow>
          view (rd_rpush R k c db) = set_list k (v_list (view db) k @ [c]) (view db)"
    and lpop_result: "well_kinded (view db) \<Longrightarrow> kind_of k = KList \<Longrightarrow>
          fst (rd_lpop_batch R k n' db) = take n' (v_list (view db) k)"
    and lpop_view: "well_kinded (view db) \<Longrightarrow> kind_of k = KList \<Longrightarrow>
          view (snd (rd_lpop_batch R k n' db)) = set_list k (drop n' (v_list (view db) k)) (view db)"
    and getfloat: "well_kinded (view db) \<Longrightarrow> kind_of k = KFloat \<Longrightarrow> rd_getfloat R k db = v_float (view db) k"
    and setfloat_view: "well_kinded (view db) \<Longrightarrow> kind_of k = KFloat \<Longrightarrow>
          view (rd_setfloat R k x db) = set_float k (Some x) (view db)"
    and incrbyfloat_view: "well_kinded (view db) \<Longrightarrow> kind_of k = KFloat \<Longrightarrow>
          view (rd_incrbyfloat R k x db) =
            set_float k (Some (x + (case v_float (view db) k of None \<Rightarrow> 0 | Some y \<Rightarrow> y))) (view db)"
begin

lemmas views = set_view delete_view sadd_view srem_view zadd_view zrem_view rpush_view lpop_view
  setfloat_view incrbyfloat_view

lemma get_int_counter:
  assumes "well_kinded (view db)" and "kind_of k = KStr" and "counter (view db) k = Inr (n :: int)"
  shows "get_int R k db = Inr n"
  using assms by (auto simp: get_int_def counter_def get py_int_def split: option.splits if_splits)

lemma bump:
  assumes "well_kinded (view db)" and "kind_of k = KStr" and "counter (view db) k = Inr (n :: int)"
  obtains db' where "rd_incrby R k d db = Inr (n + d, db')"
    and "view db' = set_str k (Some (py_str (n + d))) (view db)"
  using incrby [OF assms] by blast

text \<open>The set of ready replicas of a service always lists exactly the replicas whose state is \<open>READY\<close>.\<close>

lemma well_kinded_set_replica_state:
  assumes "well_kinded (view db)" shows "well_kinded (view (set_replica_state R svc srv st db))"
proof -
  have "well_kinded (view (rd_set R (replica_key svc srv ''state'') st db))" using assms by (simp add: set_view)
  then show ?thesis by (simp only: set_replica_state_def Let_def sadd_view srem_view kind_of_key well_kinded_set split: if_splits) simp
qed

lemma ready_agrees_set_replica_state:
  assumes "well_kinded (view db)" and "ready_agrees (view db)"
  shows "ready_agrees (view (set_replica_state R svc srv st db))"
  using assms by (auto simp: ready_agrees_def set_replica_state_def Let_def set_view sadd_view srem_view add_member_def)

lemma ready_agrees_remove_replica:
  assumes "well_kinded (view db)" and "ready_agrees (view db)"
  shows "ready_agrees (view (remove_replica R svc srv db)) \<and> well_kinded (view (remove_replica R svc srv db))"
proof -
  have k: "ready_key a \<notin> {replica_key svc srv ''state'', replica_key svc srv ''pod_ip'', queue_key svc srv}" for a
    using kind_of_key by (metis insertE kind.distinct(1) singletonD)
  have s: "replica_key a b ''state'' \<noteq> replica_key svc srv ''pod_ip''"
    "replica_key a b ''state'' \<noteq> queue_key svc srv" for a b
    by (simp_all add: replica_key_field queue_key_def)
  define db1 where "db1 = rd_delete R [replica_key svc srv ''state'', replica_key svc srv ''pod_ip'', queue_key svc srv] db"
  have v: "view db1 = del_keys [replica_key svc srv ''state'', replica_key svc srv ''pod_ip'', queue_key svc srv] (view db)"
    by (simp add: db1_def delete_view)
  have wk1: "well_kinded (view db1)" using assms(1) by (simp add: v)
  have "view (remove_replica R svc srv db)
    = set_set (ready_key svc) (removeAll (py_str srv) (v_set (view db1) (ready_key svc))) (view db1)"
    unfolding remove_replica_def db1_def [symmetric] by (simp add: srem_view wk1)
  moreover from this have "well_kinded (view (remove_replica R svc srv db))" using wk1 by (simp only: well_kinded_set kind_of_key)
  moreover have "v_set (view db1) (ready_key a) = v_set (view db) (ready_key a)" for a
    using k [of a] by (simp add: v del_keys_def)
  moreover have "v_str (view db1) (replica_key a b ''state'')
    = (if a = svc \<and> b = srv then None else v_str (view db) (replica_key a b ''state''))" for a b
    using s [of a b] by (simp add: v del_keys_def)
  ultimately show ?thesis using assms(2) by (auto simp: ready_agrees_def)
qed

lemma mapE_py_int: "\<forall>m \<in> set ms. m \<in> range py_str \<Longrightarrow>
  \<exists>is. mapE py_int ms = Inr is \<and> set is = {i. py_str i \<in> set ms}"
  by (induction ms) auto

lemma ready_replica_server_ids_spec:
  assumes wk: "well_kinded (view db)" and ok: "ready_agrees (view db)"
  shows "\<exists>is. ready_replica_server_ids R svc db = Inr is
    \<and> (\<forall>srv. srv \<in> set is \<longleftrightarrow> get_replica_state R svc srv db = ''READY'')"
proof -
  have "set (rd_smembers R (ready_key svc) db) = set (v_set (view db) (ready_key svc))"
    by (rule smembers [OF wk]) simp
  with ok mapE_py_int [of "rd_smembers R (ready_key svc) db"] obtain "is" where
    "mapE py_int (rd_smembers R (ready_key svc) db) = Inr is"
    "set is = {i. v_str (view db) (replica_key svc i ''state'') = Some ''READY''}"
    unfolding ready_agrees_def by auto
  then show ?thesis
    by (auto simp: ready_replica_server_ids_def get_replica_state_def get_or_def get [OF wk] split: option.splits if_splits)
qed

text \<open>The busy time of a replica is handed over once: reading it sets it back to zero.\<close>

lemma busy_handed_over:
  assumes wk: "well_kinded (view db)"
  shows "get_busy_seconds_acc R svc srv (snd (pop_busy_seconds_acc R svc srv db)) = 0"
    and "fst (pop_busy_seconds_acc R svc srv (rd_incrbyfloat R (busy_key svc srv) x db))
      = fst (pop_busy_seconds_acc R svc srv db) + x"
proof -
  have "well_kinded (view (snd (pop_busy_seconds_acc R svc srv db)))"
    using wk by (simp add: pop_busy_seconds_acc_def setfloat_view)
  then show "get_busy_seconds_acc R svc srv (snd (pop_busy_seconds_acc R svc srv db)) = 0"
    using wk by (simp add: get_busy_seconds_acc_def getfloat pop_busy_seconds_acc_def setfloat_view)
  have "well_kinded (view (rd_incrbyfloat R (busy_key svc srv) x db))"
    using wk by (simp add: incrbyfloat_view)
  then show "fst (pop_busy_seconds_acc R svc srv (rd_incrbyfloat R (busy_key svc srv) x db))
      = fst (pop_busy_seconds_acc R svc srv db) + x"
    using wk by (simp add: get_busy_seconds_acc_def getfloat pop_busy_seconds_acc_def incrbyfloat_view)
qed

text \<open>A reported completion comes out of the queue once, in the order of the reports.\<close>

lemma push_then_pop:
  assumes wk: "well_kinded (view db)" and "length (v_list (view db) (metric_key ''completions'')) < n"
  shows "fst (pop_completion_batch R n (push_completion R svc srv rid ok t db))
    = v_list (view db) (metric_key ''completions'')
      @ [\<lparr>c_request_id = Some rid, c_service_id = svc, c_server_id = srv, c_success = ok, c_response_time_sec = t\<rparr>]"
proof -
  have "well_kinded (view (push_completion R svc srv rid ok t db))"
    using wk by (simp add: push_completion_def rpush_view)
  then show ?thesis
    using assms by (simp add: pop_completion_batch_def push_completion_def lpop_result rpush_view)
qed

end

text \<open>Association lists have all of this.\<close>

record rdb =
  d_str :: "(string, string) pydict"
  d_set :: "(string, string list) pydict"
  d_zset :: "(string, (string \<times> real) list) pydict"
  d_list :: "(string, completion list) pydict"
  d_float :: "(string, real) pydict"

definition rdb_view :: "rdb \<Rightarrow> rview" where
  "rdb_view d =
     \<lparr>v_str = dget (d_str d), v_set = dget_or [] (d_set d), v_zset = dget_or [] (d_zset d),
      v_list = dget_or [] (d_list d), v_float = dget (d_float d)\<rparr>"

definition without :: "'k list \<Rightarrow> ('k, 'v) pydict \<Rightarrow> ('k, 'v) pydict" where
  "without ks d = filter (\<lambda>p. fst p \<notin> set ks) d"

definition rdb_delete :: "string list \<Rightarrow> rdb \<Rightarrow> rdb" where
  "rdb_delete ks d =
     \<lparr>d_str = without ks (d_str d), d_set = without ks (d_set d), d_zset = without ks (d_zset d),
      d_list = without ks (d_list d), d_float = without ks (d_float d)\<rparr>"

definition rdb_keys :: "string \<Rightarrow> rdb \<Rightarrow> string list" where
  "rdb_keys p d =
     filter (\<lambda>k. has_key (rdb_view d) k \<and> prefix p k)
       (dkeys (d_str d) @ dkeys (d_set d) @ dkeys (d_zset d) @ dkeys (d_list d) @ dkeys (d_float d))"

definition assoc_redis :: "rdb redis" where
  "assoc_redis =
     \<lparr>rd_set = \<lambda>k s d. d\<lparr>d_str := dset k s (d_str d)\<rparr>,
      rd_get = \<lambda>k d. dget (d_str d) k,
      rd_delete = rdb_delete,
      rd_keys = rdb_keys,
      rd_incrby = \<lambda>k x d. bindE (counter (rdb_view d) k) (\<lambda>n.
        Inr (n + x, d\<lparr>d_str := dset k (py_str (n + x)) (d_str d)\<rparr>)),
      rd_sadd = \<lambda>k m d. d\<lparr>d_set := dset k (add_member m (dget_or [] (d_set d) k)) (d_set d)\<rparr>,
      rd_srem = \<lambda>k m d. d\<lparr>d_set := dset k (removeAll m (dget_or [] (d_set d) k)) (d_set d)\<rparr>,
      rd_smembers = \<lambda>k d. dget_or [] (d_set d) k,
      rd_zadd = \<lambda>k m x d. d\<lparr>d_zset := dset k (dset m x (dget_or [] (d_zset d) k)) (d_zset d)\<rparr>,
      rd_zrem = \<lambda>k m d.
        (m \<in> set (dkeys (dget_or [] (d_zset d) k)),
         d\<lparr>d_zset := dset k (ddel m (dget_or [] (d_zset d) k)) (d_zset d)\<rparr>),
      rd_zrangebyscore = \<lambda>k x d.
        (let z = dget_or [] (d_zset d) k in filter (\<lambda>m. the (dget z m) \<le> x) (remdups (dkeys z))),
      rd_rpush = \<lambda>k c d. d\<lparr>d_list := dset k (dget_or [] (d_list d) k @ [c]) (d_list d)\<rparr>,
      rd_lpop_batch = \<lambda>k n d.
        (take n (dget_or [] (d_list d) k), d\<lparr>d_list := dset k (drop n (dget_or [] (d_list d) k)) (d_list d)\<rparr>),
      rd_getfloat = \<lambda>k d. dget (d_float d) k,
      rd_setfloat = \<lambda>k x d. d\<lparr>d_float := dset k x (d_float d)\<rparr>,
      rd_incrbyfloat = \<lambda>k x d.
        d\<lparr>d_float := dset k (x + (case dget (d_float d) k of None \<Rightarrow> 0 | Some y \<Rightarrow> y)) (d_float d)\<rparr>\<rparr>"

lemma dget_without [simp]: "dget (without ks d) k = (if k \<in> set ks then None else dget d k)"
  by (induction d) (auto simp: without_def)

lemma dget_or_fun_upd: "dget_or x (dset k v d) = (dget_or x d)(k := v)"
  by (auto simp: dget_or_def update_conv')

lemma dget_or_without: "dget_or x (without ks d) = (\<lambda>k. if k \<in> set ks then x else dget_or x d k)"
  by (auto simp: dget_or_def)

lemma dget_key: "dget d k \<noteq> None \<Longrightarrow> k \<in> set (dkeys d)"
  by (simp add: map_of_eq_None_iff)

lemma dget_or_key: "dget_or x d k \<noteq> x \<Longrightarrow> k \<in> set (dkeys d)"
  by (rule dget_key) (auto simp: dget_or_def split: option.splits)

lemma key_of_view: "has_key (rdb_view d) k \<Longrightarrow>
  k \<in> set (dkeys (d_str d) @ dkeys (d_set d) @ dkeys (d_zset d) @ dkeys (d_list d) @ dkeys (d_float d))"
  using dget_key [of "d_str d" k] dget_key [of "d_float d" k] dget_or_key [of "[]" "d_set d" k]
    dget_or_key [of "[]" "d_zset d" k] dget_or_key [of "[]" "d_list d" k]
  unfolding has_key_def rdb_view_def rview.simps set_append by blast

lemma members_upto: "{m \<in> set (dkeys z). the (dget z m) \<le> x} = {m. \<exists>y. dget z m = Some y \<and> y \<le> (x::real)}"
proof -
  have "m \<in> set (dkeys z) \<longleftrightarrow> dget z m \<noteq> None" for m by (simp add: map_of_eq_None_iff)
  then show ?thesis by auto
qed

interpretation assoc: redis_server assoc_redis rdb_view
proof unfold_locales
  show "set (rd_keys assoc_redis p db) = {k. has_key (rdb_view db) k \<and> prefix p k}" for p db
    using key_of_view [of db] by (auto simp: assoc_redis_def rdb_keys_def)
  show "distinct (rd_zrangebyscore assoc_redis k x db)
    \<and> set (rd_zrangebyscore assoc_redis k x db) = {m. \<exists>y. dget (v_zset (rdb_view db) k) m = Some y \<and> y \<le> x}" for k x db
    using members_upto [of "dget_or [] (d_zset db) k" x] by (simp add: assoc_redis_def rdb_view_def Let_def)
qed (auto simp: assoc_redis_def rdb_view_def rdb_delete_def del_keys_def dget_or_fun_upd dget_or_without
    update_conv' fun_eq_iff)

end
