(* ===== verification/Slots.thy ===== *)
theory Slots
  imports Redis
begin

text \<open>
  The slots of the worker queues under concurrency. The dispatcher, its sweeper and the worker
  pods are separate processes: between any two commands of one, any number of commands of the
  others may run. The functions of Redis that take and free a slot are cut here into their
  commands (\<open>job_step\<close>), \<open>slot_step\<close> interleaves them freely, and they keep the counters of the
  queues exact; the removal of a replica, which does not, is added in Queues.
\<close>

section \<open>Jobs\<close>

text \<open>
  \<open>try_reserve_queue_slot\<close> before its \<open>INCR\<close> and after it; a worker or the sweeper before its
  \<open>ZREM\<close>, then before the \<open>GET\<close> and before the \<open>DECR\<close> that free the slot.
\<close>

datatype slot_job =
    Admit int int int real
  | Bumped int int int real int
  | Release int int string
  | Freeing int int
  | Lowering int int

fun job_step :: "'r redis \<Rightarrow> (int \<Rightarrow> int) \<Rightarrow> slot_job \<Rightarrow> 'r \<Rightarrow> (slot_job option \<times> 'r) result" where
  "job_step R Q (Admit svc srv rid expiry) db =
     bindE (rd_incrby R (queue_key svc srv) 1 db) (\<lambda>(new_val, db1).
       Inr (Some (Bumped svc srv rid expiry new_val), db1))"
| "job_step R Q (Bumped svc srv rid expiry new_val) db =
     (if Q svc < new_val
      then bindE (rd_incrby R (queue_key svc srv) (- 1) db) (\<lambda>(_, db1). Inr (None, db1))
      else Inr (None, rd_zadd R (reservations_key svc srv) (py_str rid) expiry db))"
| "job_step R Q (Release svc srv m) db =
     (let (removed, db1) = rd_zrem R (reservations_key svc srv) m db
      in Inr (if removed then Some (Freeing svc srv) else None, db1))"
| "job_step R Q (Freeing svc srv) db =
     bindE (get_int R (queue_key svc srv) db) (\<lambda>v. Inr (if 0 < v then Some (Lowering svc srv) else None, db))"
| "job_step R Q (Lowering svc srv) db =
     bindE (rd_incrby R (queue_key svc srv) (- 1) db) (\<lambda>(_, db1). Inr (None, db1))"

fun job_option :: "slot_job option \<Rightarrow> slot_job multiset" where
  "job_option None = {#}"
| "job_option (Some j) = {#j#}"

text \<open>A request being admitted, a job that holds a unit of the counter, and one that keeps it.\<close>

fun admitting :: "int \<Rightarrow> int \<Rightarrow> int \<Rightarrow> slot_job \<Rightarrow> bool" where
  "admitting svc srv rid (Admit a b r _) \<longleftrightarrow> a = svc \<and> b = srv \<and> r = rid"
| "admitting svc srv rid (Bumped a b r _ _) \<longleftrightarrow> a = svc \<and> b = srv \<and> r = rid"
| "admitting svc srv rid _ \<longleftrightarrow> False"

fun holding :: "int \<Rightarrow> int \<Rightarrow> slot_job \<Rightarrow> bool" where
  "holding svc srv (Admit _ _ _ _) \<longleftrightarrow> False"
| "holding svc srv (Bumped a b _ _ _) \<longleftrightarrow> a = svc \<and> b = srv"
| "holding svc srv (Release _ _ _) \<longleftrightarrow> False"
| "holding svc srv (Freeing a b) \<longleftrightarrow> a = svc \<and> b = srv"
| "holding svc srv (Lowering a b) \<longleftrightarrow> a = svc \<and> b = srv"

fun refused :: "(int \<Rightarrow> int) \<Rightarrow> slot_job \<Rightarrow> bool" where
  "refused Q (Bumped svc _ _ _ new_val) \<longleftrightarrow> Q svc < new_val"
| "refused Q _ \<longleftrightarrow> False"

definition keeping :: "(int \<Rightarrow> int) \<Rightarrow> int \<Rightarrow> int \<Rightarrow> slot_job \<Rightarrow> bool" where
  "keeping Q svc srv j \<longleftrightarrow> holding svc srv j \<and> \<not> refused Q j"

definition reserved :: "rview \<Rightarrow> int \<Rightarrow> int \<Rightarrow> string list" where
  "reserved v svc srv = members v (reservations_key svc srv)"

definition expired :: "real \<Rightarrow> (string, real) pydict \<Rightarrow> nat" where
  "expired now z = length (filter (\<lambda>p. snd p \<le> now) z)"

definition same_slots :: "rview \<Rightarrow> rview \<Rightarrow> bool" where
  "same_slots v w \<longleftrightarrow> (well_kinded v \<longrightarrow> well_kinded w) \<and> (\<forall>svc srv. v_str w (queue_key svc srv) = v_str v (queue_key svc srv)
     \<and> v_zset w (reservations_key svc srv) = v_zset v (reservations_key svc srv))"

definition fresh :: "rview \<Rightarrow> slot_job multiset \<Rightarrow> int \<Rightarrow> int \<Rightarrow> int \<Rightarrow> bool" where
  "fresh v J svc srv rid \<longleftrightarrow>
     py_str rid \<notin> set (reserved v svc srv) \<and> (\<forall>j \<in># J. \<not> admitting svc srv rid j)"

text \<open>
  A request whose identifier is not in use may ask for a slot, anyone may try to release any
  reservation at any time (whether it has expired is up to the sweeper), every job may run one
  command, and commands on other keys may happen.
\<close>

inductive slot_step :: "'r redis \<Rightarrow> ('r \<Rightarrow> rview) \<Rightarrow> (int \<Rightarrow> int)
    \<Rightarrow> 'r \<times> slot_job multiset \<Rightarrow> 'r \<times> slot_job multiset \<Rightarrow> bool"
  for R view Q where
  ask: "fresh (view db) J svc srv rid \<Longrightarrow>
    slot_step R view Q (db, J) (db, add_mset (Admit svc srv rid expiry) J)"
| give_back: "slot_step R view Q (db, J) (db, add_mset (Release svc srv m) J)"
| command: "job_step R Q j db = Inr (jo, db') \<Longrightarrow>
    slot_step R view Q (db, add_mset j J) (db', job_option jo + J)"
| elsewhere: "same_slots (view db) (view db') \<Longrightarrow> slot_step R view Q (db, J) (db', J)"

abbreviation slot_steps :: "'r redis \<Rightarrow> ('r \<Rightarrow> rview) \<Rightarrow> (int \<Rightarrow> int)
    \<Rightarrow> 'r \<times> slot_job multiset \<Rightarrow> 'r \<times> slot_job multiset \<Rightarrow> bool" where
  "slot_steps R view Q \<equiv> (slot_step R view Q)\<^sup>*\<^sup>*"

section \<open>The counter is exact\<close>

definition held :: "int \<Rightarrow> int \<Rightarrow> slot_job multiset \<Rightarrow> nat" where
  "held svc srv J = size (filter_mset (holding svc srv) J)"

definition kept :: "(int \<Rightarrow> int) \<Rightarrow> int \<Rightarrow> int \<Rightarrow> slot_job multiset \<Rightarrow> nat" where
  "kept Q svc srv J = size (filter_mset (keeping Q svc srv) J)"

definition asks :: "int \<Rightarrow> int \<Rightarrow> int \<Rightarrow> slot_job multiset \<Rightarrow> nat" where
  "asks svc srv rid J = size (filter_mset (admitting svc srv rid) J)"

definition present :: "string \<Rightarrow> string list \<Rightarrow> nat" where
  "present m ms = (if m \<in> set ms then 1 else 0)"

lemma counts_simps [simp]:
  "held svc srv {#} = 0" "kept Q svc srv {#} = 0" "asks svc srv rid {#} = 0"
  "held svc srv (add_mset j J) = (if holding svc srv j then 1 else 0) + held svc srv J"
  "kept Q svc srv (add_mset j J) = (if holding svc srv j \<and> \<not> refused Q j then 1 else 0) + kept Q svc srv J"
  "asks svc srv rid (add_mset j J) = (if admitting svc srv rid j then 1 else 0) + asks svc srv rid J"
  by (simp_all add: held_def kept_def asks_def keeping_def)

lemma kept_le_held: "kept Q svc srv J \<le> held svc srv J"
  by (induction J) auto

lemma asks_0: "asks svc srv rid J = 0 \<longleftrightarrow> (\<forall>j \<in># J. \<not> admitting svc srv rid j)"
  by (induction J) auto

definition slot_exact :: "(int \<Rightarrow> int) \<Rightarrow> rview \<Rightarrow> slot_job multiset \<Rightarrow> int \<Rightarrow> int \<Rightarrow> bool" where
  "slot_exact Q v J svc srv \<longleftrightarrow>
     counter v (queue_key svc srv) = Inr (int (length (reserved v svc srv) + held svc srv J))
   \<and> int (length (reserved v svc srv) + kept Q svc srv J) \<le> Q svc
   \<and> distinct (reserved v svc srv)
   \<and> (\<forall>rid. asks svc srv rid J + present (py_str rid) (reserved v svc srv) \<le> 1)"

definition slots_exact :: "(int \<Rightarrow> int) \<Rightarrow> rview \<Rightarrow> slot_job multiset \<Rightarrow> bool" where
  "slots_exact Q v J \<longleftrightarrow> well_kinded v \<and> (\<forall>svc srv. slot_exact Q v J svc srv)"

lemma slots_exact_same: "same_slots v w \<Longrightarrow> slots_exact Q v J \<Longrightarrow> slots_exact Q w J"
  by (simp add: slots_exact_def slot_exact_def same_slots_def reserved_def counter_def)

lemma length_removeAll: "distinct xs \<Longrightarrow> m \<in> set xs \<Longrightarrow> length (removeAll m xs) + 1 = length xs"
  using length_pos_if_in_set [of m xs] by (simp add: distinct_remove1_removeAll [symmetric] length_remove1)

lemma counter_set_str: "counter (set_str k (Some (py_str n)) v) k' = (if k' = k then Inr n else counter v k')"
  by (simp add: counter_def)

lemma counter_set_zset [simp]: "counter (set_zset k z v) k' = counter v k'"
  by (simp add: counter_def)

lemma reserved_set_str [simp]: "reserved (set_str k x v) svc srv = reserved v svc srv"
  by (simp add: reserved_def)

lemma reserved_set_zset:
  "reserved (set_zset (reservations_key a b) z v) svc srv = (if a = svc \<and> b = srv then dkeys z else reserved v svc srv)"
  by (auto simp: reserved_def)

lemma slots_exactD:
  assumes "slots_exact Q v J"
  shows "well_kinded v" and "slot_exact Q v J svc srv"
  using assms by (simp_all add: slots_exact_def)

lemma slot_exactD:
  assumes "slot_exact Q v J svc srv"
  shows "counter v (queue_key svc srv) = Inr (int (length (reserved v svc srv) + held svc srv J))"
    and "distinct (reserved v svc srv)"
  using assms by (simp_all add: slot_exact_def)

lemma slot_exact_change:
  assumes e: "slot_exact Q v J svc srv"
    and "counter w (queue_key svc srv) = Inr (int (length (reserved w svc srv) + held svc srv J'))"
    and k: "length (reserved w svc srv) + kept Q svc srv J' \<le> length (reserved v svc srv) + kept Q svc srv J"
    and "distinct (reserved w svc srv)"
    and a: "\<And>rid. asks svc srv rid J' + present (py_str rid) (reserved w svc srv)
      \<le> asks svc srv rid J + present (py_str rid) (reserved v svc srv)"
  shows "slot_exact Q w J' svc srv"
proof -
  have "asks svc srv rid J' + present (py_str rid) (reserved w svc srv) \<le> 1" for rid
    using order_trans [OF a] e unfolding slot_exact_def by blast
  moreover have "int (length (reserved w svc srv) + kept Q svc srv J') \<le> Q svc"
    using k e unfolding slot_exact_def by linarith
  ultimately show ?thesis using assms(2,4) by (simp add: slot_exact_def)
qed

lemma all_pairs_product: "all_pairs n m = map (map_prod int int) (List.product [1..<m + 1] [1..<n + 1])"
  by (simp only: all_pairs_def product_concat_map map_concat map_map comp_def map_prod_simp)

lemma distinct_all_pairs: "distinct (all_pairs n m)"
  unfolding all_pairs_product by (simp del: upt_Suc add: distinct_map distinct_product prod.inj_map inj_on_subset [OF prod.inj_map])

lemma set_all_pairs: "(svc, srv) \<in> set (all_pairs n m) \<longleftrightarrow> svc \<in> {1..int m} \<and> srv \<in> {1..int n}"
proof -
  have "x \<in> int ` {1..<k + 1} \<longleftrightarrow> x \<in> {1..int k}" for x k
    by (cases x) (auto simp: image_iff)
  then show ?thesis unfolding all_pairs_product by (simp del: upt_Suc) (auto simp: image_iff map_prod_def)
qed

context redis_server
begin

lemma ask_exact:
  assumes "slots_exact Q (view db) J" and "fresh (view db) J a b rid"
  shows "slots_exact Q (view db) (add_mset (Admit a b rid e) J)"
proof -
  have "asks a b rid J = 0" "present (py_str rid) (reserved (view db) a b) = 0"
    using assms(2) by (simp_all add: fresh_def asks_0 present_def)
  with assms(1) show ?thesis by (auto simp: slots_exact_def slot_exact_def)
qed

lemma give_back_exact: "slots_exact Q v J \<Longrightarrow> slots_exact Q v (add_mset (Release a b m) J)"
  by (simp add: slots_exact_def slot_exact_def)

lemma admit_exact:
  assumes ok: "slots_exact Q (view db) (add_mset (Admit a b rid e) J)"
  obtains n db' where "rd_incrby R (queue_key a b) 1 db = Inr (n, db')"
    and "slots_exact Q (view db') (add_mset (Bumped a b rid e n) J)"
    and "v_zset (view db') = v_zset (view db)"
proof -
  note wk = slots_exactD(1) [OF ok] and ex = slots_exactD(2) [OF ok]
  define n where "n = int (length (reserved (view db) a b) + held a b J)"
  obtain db' where db': "rd_incrby R (queue_key a b) 1 db = Inr (n + 1, db')"
    "view db' = set_str (queue_key a b) (Some (py_str (n + 1))) (view db)"
    using bump [OF wk kind_of_key(3) slot_exactD(1) [OF ex, of a b], of 1] by (auto simp: n_def)
  have "slot_exact Q (view db') (add_mset (Bumped a b rid e (n + 1)) J) svc srv" for svc srv
    using ex [of svc srv] kept_le_held [of Q a b J] by (auto simp: slot_exact_def db'(2) counter_set_str n_def)
  with db' wk show thesis
    by (intro that [OF db'(1)]) (simp_all add: slots_exact_def db'(2))
qed

lemma lower_exact:
  assumes wk: "well_kinded (view db)" and ex: "\<And>svc srv. slot_exact Q (view db) (add_mset j J) svc srv"
    and j: "j = Lowering a b \<or> (\<exists>rid e n. j = Bumped a b rid e n \<and> Q a < n)"
  obtains n db' where "rd_incrby R (queue_key a b) (- 1) db = Inr (n, db')" and "slots_exact Q (view db') J"
    and "v_zset (view db') = v_zset (view db)"
proof -
  define n where "n = int (length (reserved (view db) a b) + held a b J)"
  have "counter (view db) (queue_key a b) = Inr (n + 1)"
    using slot_exactD(1) [OF ex, of a b] j by (auto simp: n_def)
  then obtain db' where db': "rd_incrby R (queue_key a b) (- 1) db = Inr (n, db')"
    "view db' = set_str (queue_key a b) (Some (py_str n)) (view db)"
    using bump [OF wk kind_of_key(3), of a b "n + 1" "- 1"] by auto
  have "slot_exact Q (view db') J svc srv" for svc srv
    using slot_exactD [OF ex, of svc srv] j
    by (intro slot_exact_change [OF ex [of svc srv]]) (auto simp: db'(2) counter_set_str n_def)
  with db' wk show thesis
    by (intro that [OF db'(1)]) (simp_all add: slots_exact_def db'(2))
qed

lemma reserve_exact:
  assumes ok: "slots_exact Q (view db) (add_mset (Bumped a b rid e n) J)" and n: "\<not> Q a < n"
  shows "slots_exact Q (view (rd_zadd R (reservations_key a b) (py_str rid) e db)) J"
proof -
  note wk = slots_exactD(1) [OF ok] and ex = slots_exactD(2) [OF ok]
  define w where "w = view (rd_zadd R (reservations_key a b) (py_str rid) e db)"
  let ?z = "v_zset (view db) (reservations_key a b)"
  have v: "w = set_zset (reservations_key a b) (dset (py_str rid) e ?z) (view db)"
    unfolding w_def by (rule zadd_view [OF wk]) simp
  have new: "present (py_str rid) (reserved (view db) a b) = 0"
    using ex [of a b] by (auto simp: slot_exact_def dest: spec [of _ rid])
  then have "py_str rid \<notin> set (dkeys ?z)" by (simp add: present_def reserved_def split: if_splits)
  then have "dkeys (dset (py_str rid) e ?z) = reserved (view db) a b @ [py_str rid]"
    by (simp add: dset_new_append reserved_def)
  then have k: "reserved w a b = reserved (view db) a b @ [py_str rid]"
    "\<not> (a = svc \<and> b = srv) \<Longrightarrow> reserved w svc srv = reserved (view db) svc srv" for svc srv
    unfolding v reserved_set_zset by auto
  have p: "present (py_str r) (reserved w a b)
    = (if r = rid then 1 else present (py_str r) (reserved (view db) a b))" for r
    by (simp add: k present_def)
  have c: "counter w = counter (view db)" by (simp add: v fun_eq_iff)
  have "slot_exact Q w J svc srv" for svc srv
  proof (cases "a = svc \<and> b = srv")
    case True
    then have eq: "svc = a" "srv = b" by simp_all
    show ?thesis
      unfolding eq using slot_exactD [OF ex, of a b] new n
      by (intro slot_exact_change [OF ex [of a b]]) (auto simp: c k(1) present_def split: if_splits)
  next
    case False
    then show ?thesis using ex [of svc srv] k(2) [OF False] by (auto simp: slot_exact_def c)
  qed
  with wk have "slots_exact Q w J" by (simp add: slots_exact_def) (simp add: v)
  then show ?thesis by (simp add: w_def)
qed

lemma unreserve_exact:
  assumes ok: "slots_exact Q (view db) (add_mset (Release a b m) J)"
    and z: "rd_zrem R (reservations_key a b) m db = (r, db')"
  shows "slots_exact Q (view db') (if r then add_mset (Freeing a b) J else J)"
proof -
  note wk = slots_exactD(1) [OF ok] and ex = slots_exactD(2) [OF ok]
  let ?z = "v_zset (view db) (reservations_key a b)"
  have v: "view db' = set_zset (reservations_key a b) (ddel m ?z) (view db)"
    using zrem_view [OF wk kind_of_key(5), of a b m] z by simp
  have r: "r \<longleftrightarrow> m \<in> set (reserved (view db) a b)"
    using zrem_result [OF wk kind_of_key(5), of a b m] z by (simp add: reserved_def)
  have k: "reserved (view db') svc srv = (if a = svc \<and> b = srv then removeAll m (reserved (view db) svc srv)
    else reserved (view db) svc srv)" for svc srv
    unfolding v reserved_set_zset by (simp add: reserved_def delete_keys)
  have c: "counter (view db') = counter (view db)" by (simp add: v fun_eq_iff)
  have "slot_exact Q (view db') (if r then add_mset (Freeing a b) J else J) svc srv" for svc srv
  proof (cases "r \<and> a = svc \<and> b = srv")
    case True
    have "length (removeAll m (reserved (view db) a b)) + 1 = length (reserved (view db) a b)"
      by (rule length_removeAll [OF slot_exactD(2) [OF ex]]) (use r True in simp)
    moreover have "present x (removeAll m (reserved (view db) a b)) \<le> present x (reserved (view db) a b)" for x
      by (simp add: present_def)
    moreover have eq: "svc = a" "srv = b" using True by simp_all
    moreover have "distinct (removeAll m (reserved (view db) a b))"
      using slot_exactD(2) [OF ex] by (rule distinct_removeAll)
    ultimately show ?thesis
      unfolding eq using slot_exactD [OF ex, of a b] True
      by (intro slot_exact_change [OF ex [of a b]]) (simp_all add: c k)
  next
    case False
    then have "reserved (view db') svc srv = reserved (view db) svc srv" using r by (auto simp: k)
    with False ex [of svc srv] show ?thesis by (auto simp: slot_exact_def c)
  qed
  with wk show ?thesis by (simp add: slots_exact_def) (simp add: v)
qed

text \<open>A job that has removed a reservation reads a positive counter.\<close>

lemma free_exact:
  assumes ok: "slots_exact Q (view db) (add_mset (Freeing a b) J)"
  obtains v where "get_int R (queue_key a b) db = Inr v" and "0 < v"
    and "slots_exact Q (view db) (add_mset (Lowering a b) J)"
proof -
  note wk = slots_exactD(1) [OF ok] and ex = slots_exactD(2) [OF ok]
  have "slots_exact Q (view db) (add_mset (Lowering a b) J)"
    using ok by (simp add: slots_exact_def slot_exact_def)
  moreover have "get_int R (queue_key a b) db = Inr (int (length (reserved (view db) a b) + held a b J) + 1)"
    using get_int_counter [OF wk kind_of_key(3) slot_exactD(1) [OF ex]] by simp
  ultimately show thesis using that by force
qed

lemma job_step_exact:
  assumes ok: "slots_exact Q (view db) (add_mset j J)"
  shows "\<exists>jo db'. job_step R Q j db = Inr (jo, db') \<and> slots_exact Q (view db') (job_option jo + J)"
proof (cases j)
  case (Admit a b rid e)
  then show ?thesis using admit_exact [of Q db a b rid e J] ok by fastforce
next
  case (Bumped a b rid e n)
  show ?thesis
  proof (cases "Q a < n")
    case True
    then show ?thesis
      using lower_exact [of db Q j J a b] slots_exactD [OF ok] Bumped by fastforce
  next
    case False
    then show ?thesis using reserve_exact [of Q db a b rid e n J] ok Bumped by simp
  qed
next
  case (Release a b m)
  then show ?thesis
    using unreserve_exact [of Q db a b m J] ok by (cases "rd_zrem R (reservations_key a b) m db") auto
next
  case (Freeing a b)
  then show ?thesis using free_exact [of Q db a b J] ok by fastforce
next
  case (Lowering a b)
  then show ?thesis using lower_exact [of db Q j J a b] slots_exactD [OF ok] by fastforce
qed

lemma slot_step_exact:
  assumes "slot_step R view Q (db, J) (db', J')" and ok: "slots_exact Q (view db) J"
  shows "slots_exact Q (view db') J'"
  using assms(1)
proof (cases rule: slot_step.cases)
  case (ask svc srv rid expiry)
  then show ?thesis using ask_exact [OF ok] by simp
next
  case (give_back svc srv m)
  then show ?thesis using give_back_exact [OF ok] by simp
next
  case (command j jo K)
  then show ?thesis using job_step_exact [of Q db j K] ok by auto
next
  case elsewhere
  then show ?thesis using ok slots_exact_same by auto
qed

lemma slot_steps_exact:
  assumes "slot_steps R view Q c c'" and "slots_exact Q (view (fst c)) (snd c)"
  shows "slots_exact Q (view (fst c')) (snd c')"
  using assms
proof (induction rule: rtranclp_induct)
  case (step d e)
  then show ?case using slot_step_exact [of Q "fst d" "snd d" "fst e" "snd e"] by simp
qed

lemma reset_exact:
  assumes "well_kinded (view db)" and "\<And>svc. 0 \<le> Q svc"
  shows "slots_exact Q (view (reset_all R db)) {#}"
proof -
  let ?ks = "rd_keys R ''edge:'' db @ rd_keys R ''service:'' db"
  have r: "view (reset_all R db) = del_keys ?ks (view db)"
    by (auto simp: reset_all_def Let_def delete_view del_keys_def)
  have q: "v_str (del_keys ?ks (view db)) (queue_key svc srv) = None" for svc srv
    by (auto simp: del_keys_def keys has_key_def queue_key_def replica_key_def)
  have z: "v_zset (del_keys ?ks (view db)) (reservations_key svc srv) = []" for svc srv
    by (auto simp: del_keys_def keys has_key_def reservations_key_def)
  show ?thesis
    using assms by (simp add: slots_exact_def slot_exact_def r reserved_def counter_def q z present_def)
qed

text \<open>The functions of the two programs, run without interruption, are sequences of these steps.\<close>

lemma command_first:
  "job_step R Q j db = Inr (jo, db1) \<Longrightarrow> slot_steps R view Q (db1, job_option jo + J) c \<Longrightarrow> slot_steps R view Q (db, add_mset j J) c"
  by (rule converse_rtranclp_into_rtranclp) (rule command)

lemma reserve_runs:
  assumes ok: "slots_exact Q (view db) J" and new: "fresh (view db) J svc srv rid"
  obtains b db' where "try_reserve_queue_slot R svc srv (Q svc) (Some rid) (Some ttl) now db = Inr (b, db')"
    and "slots_exact Q (view db') J" and "slot_steps R view Q (db, J) (db', J)"
    and "b \<longleftrightarrow> int (length (reserved (view db) svc srv) + held svc srv J) < Q svc"
    and "v_zset (view db') = (if b then (v_zset (view db))(reservations_key svc srv :=
        v_zset (view db) (reservations_key svc srv) @ [(py_str rid, now + ttl)]) else v_zset (view db))"
proof -
  let ?n = "int (length (reserved (view db) svc srv) + held svc srv J) + 1"
  note ok1 = ask_exact [OF ok new, of "now + ttl"]
  obtain n db1 where n: "rd_incrby R (queue_key svc srv) 1 db = Inr (n, db1)"
    and ok2: "slots_exact Q (view db1) (add_mset (Bumped svc srv rid (now + ttl) n) J)"
    and z1: "v_zset (view db1) = v_zset (view db)"
    using admit_exact [OF ok1] by blast
  have nv: "n = ?n"
    using incrby [OF slots_exactD(1) [OF ok] kind_of_key(3) slot_exactD(1) [OF slots_exactD(2) [OF ok]],
        of svc srv 1] n by auto
  have z2: "v_zset (view db2) = (if Q svc < n then v_zset (view db) else (v_zset (view db))(reservations_key svc srv :=
        v_zset (view db) (reservations_key svc srv) @ [(py_str rid, now + ttl)]))"
    if st: "job_step R Q (Bumped svc srv rid (now + ttl) n) db1 = Inr (jo, db2)" for jo db2
  proof (cases "Q svc < n")
    case True
    obtain k db3 where k: "rd_incrby R (queue_key svc srv) (- 1) db1 = Inr (k, db3)" "v_zset (view db3) = v_zset (view db1)"
      by (rule lower_exact [OF slots_exactD(1) [OF ok2] slots_exactD(2) [OF ok2], of svc srv]) (use True in auto)
    then show ?thesis using st True z1 by simp
  next
    case False
    have "py_str rid \<notin> set (dkeys (v_zset (view db1) (reservations_key svc srv)))"
      using new by (simp add: z1 fresh_def reserved_def)
    moreover have "view (rd_zadd R (reservations_key svc srv) (py_str rid) (now + ttl) db1)
        = set_zset (reservations_key svc srv) (dset (py_str rid) (now + ttl) (v_zset (view db1) (reservations_key svc srv)))
            (view db1)"
      by (rule zadd_view [OF slots_exactD(1) [OF ok2]]) simp
    ultimately show ?thesis using st False by (simp add: dset_new_append z1)
  qed
  obtain jo db2 where j: "job_step R Q (Bumped svc srv rid (now + ttl) n) db1 = Inr (jo, db2)"
    and ok3: "slots_exact Q (view db2) (job_option jo + J)"
    using job_step_exact [OF ok2] by blast
  have r: "jo = None" "try_reserve_queue_slot R svc srv (Q svc) (Some rid) (Some ttl) now db = Inr (\<not> Q svc < n, db2)"
    using j by (auto simp: try_reserve_queue_slot_def n elim!: bindE_InrE split: if_splits)
  have "job_step R Q (Admit svc srv rid (now + ttl)) db = Inr (Some (Bumped svc srv rid (now + ttl) n), db1)"
    by (simp add: n)
  with j have "slot_steps R view Q (db, add_mset (Admit svc srv rid (now + ttl)) J) (db2, J)"
    by (auto simp: r(1) intro!: command_first)
  then have "slot_steps R view Q (db, J) (db2, J)"
    by (rule converse_rtranclp_into_rtranclp [rotated]) (rule ask, rule new)
  with r ok3 show thesis using z2 [OF j] by (intro that [of "\<not> Q svc < n" db2]) (auto simp: nv)
qed

lemma release_slot_steps:
  assumes ok: "slots_exact Q (view db) (add_mset (Freeing svc srv) J)"
  obtains db' where "release_queue_slot R svc srv None db = Inr db'" and "slots_exact Q (view db') J"
    and "slot_steps R view Q (db, add_mset (Freeing svc srv) J) (db', J)"
    and "v_zset (view db') = v_zset (view db)"
proof -
  obtain v where v: "get_int R (queue_key svc srv) db = Inr v" "0 < v"
    and ok1: "slots_exact Q (view db) (add_mset (Lowering svc srv) J)"
    using free_exact [OF ok] by blast
  note wk = slots_exactD(1) [OF ok1]
  obtain n db' where d: "rd_incrby R (queue_key svc srv) (- 1) db = Inr (n, db')"
    and ok2: "slots_exact Q (view db') J" "v_zset (view db') = v_zset (view db)"
    using lower_exact [OF wk slots_exactD(2) [OF ok1]] by blast
  have "release_queue_slot R svc srv None db = Inr db'"
    by (simp add: release_queue_slot_def v d)
  moreover have "slot_steps R view Q (db, add_mset (Freeing svc srv) J) (db', J)"
    by (rule command_first [where jo = "Some (Lowering svc srv)" and ?db1.0 = db]) (use v d in \<open>auto intro!: command_first\<close>)
  ultimately show thesis using ok2 that by blast
qed

lemma unreserve_steps:
  assumes ok: "slots_exact Q (view db) J" and z: "rd_zrem R (reservations_key svc srv) m db = (r, db1)"
  shows "slots_exact Q (view db1) (if r then add_mset (Freeing svc srv) J else J)"
    and "slot_steps R view Q (db, J) (db1, if r then add_mset (Freeing svc srv) J else J)"
proof -
  show "slots_exact Q (view db1) (if r then add_mset (Freeing svc srv) J else J)"
    by (rule unreserve_exact [OF give_back_exact [OF ok] z])
  have "job_step R Q (Release svc srv m) db = Inr (if r then Some (Freeing svc srv) else None, db1)"
    by (simp add: z)
  then have "slot_steps R view Q (db, add_mset (Release svc srv m) J) (db1, if r then add_mset (Freeing svc srv) J else J)"
    by (rule command_first) simp
  then show "slot_steps R view Q (db, J) (db1, if r then add_mset (Freeing svc srv) J else J)"
    by (rule converse_rtranclp_into_rtranclp [rotated]) (rule give_back)
qed

lemma worker_release_steps:
  assumes ok: "slots_exact Q (view db) J"
  shows "slot_steps R view Q (db, J) (worker_release R svc srv (Some rid) db, J)
    \<and> slots_exact Q (view (worker_release R svc srv (Some rid) db)) J"
proof -
  obtain r db1 where z: "rd_zrem R (reservations_key svc srv) (py_str rid) db = (r, db1)" by force
  note ok1 = unreserve_steps(1) [OF ok z] and s1 = unreserve_steps(2) [OF ok z]
  show ?thesis
  proof (cases r)
    case True
    with ok1 obtain db2 where d: "release_queue_slot R svc srv None db1 = Inr db2" "slots_exact Q (view db2) J"
      "slot_steps R view Q (db1, add_mset (Freeing svc srv) J) (db2, J)"
      by (auto elim: release_slot_steps)
    have "worker_release R svc srv (Some rid) db = db2"
      using d(1) unfolding worker_release_def release_queue_slot_def Let_def z True
      by (cases "get_int R (queue_key svc srv) db1"; cases "rd_incrby R (queue_key svc srv) (- 1) db1")
        (auto simp: z True split: if_splits)
    with d s1 True show ?thesis by (auto intro: rtranclp_trans)
  next
    case False
    then show ?thesis using s1 ok1 by (simp add: worker_release_def z)
  qed
qed

text \<open>The sweeper takes the members of a list, all of them reserved, off a reservation set.\<close>

lemma sweep_member_runs:
  assumes ok: "slots_exact Q (view db) J" and m: "m \<in> set (reserved (view db) svc srv)"
  obtains db' where "sweep_member R svc srv m (n, db) = Inr (n + 1, db')"
    and "slots_exact Q (view db') J" and "slot_steps R view Q (db, J) (db', J)"
    and "v_zset (view db') = (v_zset (view db))
      (reservations_key svc srv := ddel m (v_zset (view db) (reservations_key svc srv)))"
proof -
  note wk = slots_exactD(1) [OF ok]
  obtain r db1 where z: "rd_zrem R (reservations_key svc srv) m db = (r, db1)" by force
  then have r: "r" using zrem_result [OF wk kind_of_key(5), of svc srv m] m by (simp add: reserved_def)
  have v: "v_zset (view db1) = (v_zset (view db))
      (reservations_key svc srv := ddel m (v_zset (view db) (reservations_key svc srv)))"
    using zrem_view [OF wk kind_of_key(5), of svc srv m] z by simp
  obtain db2 where "release_queue_slot R svc srv None db1 = Inr db2" "slots_exact Q (view db2) J"
    "slot_steps R view Q (db1, add_mset (Freeing svc srv) J) (db2, J)" "v_zset (view db2) = v_zset (view db1)"
    using unreserve_steps(1) [OF ok z] r by (auto elim: release_slot_steps)
  with unreserve_steps(2) [OF ok z] r z v show thesis
    by (intro that [of db2]) (auto simp: sweep_member_def)
qed

lemma sweep_members_run:
  assumes "slots_exact Q (view db) J" and "distinct ms" and "set ms \<subseteq> set (reserved (view db) svc srv)"
  shows "\<exists>db'. foldE (sweep_member R svc srv) ms (n, db) = Inr (n + length ms, db')
    \<and> slots_exact Q (view db') J \<and> slot_steps R view Q (db, J) (db', J)
    \<and> v_zset (view db') = (v_zset (view db))
      (reservations_key svc srv := without ms (v_zset (view db) (reservations_key svc srv)))"
  using assms
proof (induction ms arbitrary: n db)
  case Nil
  then show ?case by (simp add: without_def)
next
  case (Cons m ms)
  let ?k = "reservations_key svc srv"
  obtain db1 where d1: "sweep_member R svc srv m (n, db) = Inr (n + 1, db1)" "slots_exact Q (view db1) J"
    "slot_steps R view Q (db, J) (db1, J)" "v_zset (view db1) = (v_zset (view db))(?k := ddel m (v_zset (view db) ?k))"
    using sweep_member_runs [OF Cons.prems(1), of m svc srv n] Cons.prems(3) by auto
  have "reserved (view db1) svc srv = removeAll m (reserved (view db) svc srv)"
    by (simp add: reserved_def d1(4) delete_keys)
  then have "set ms \<subseteq> set (reserved (view db1) svc srv)" using Cons.prems(2,3) by auto
  then obtain db2 where d2: "foldE (sweep_member R svc srv) ms (n + 1, db1) = Inr (n + 1 + length ms, db2)"
    "slots_exact Q (view db2) J" "slot_steps R view Q (db1, J) (db2, J)"
    "v_zset (view db2) = (v_zset (view db1))(?k := without ms (v_zset (view db1) ?k))"
    using Cons.IH [OF d1(2), of "n + 1"] Cons.prems(2) by (auto simp del: fun_upd_apply)
  have "without ms (ddel m z) = without (m # ms) z" for z :: "(string, real) pydict"
    by (induction z) (auto simp: without_def)
  then show ?case using d1(1,3,4) d2 by (auto intro: rtranclp_trans)
qed

lemma sweep_pair_runs:
  assumes ok: "slots_exact Q (view db) J"
  shows "\<exists>db'. sweep_pair R now (svc, srv) (n, db)
      = Inr (n + length (filter (\<lambda>p. snd p \<le> now) (v_zset (view db) (reservations_key svc srv))), db')
    \<and> slots_exact Q (view db') J \<and> slot_steps R view Q (db, J) (db', J)
    \<and> v_zset (view db') = (v_zset (view db))
      (reservations_key svc srv := filter (\<lambda>p. now < snd p) (v_zset (view db) (reservations_key svc srv)))"
proof -
  let ?k = "reservations_key svc srv"
  let ?z = "v_zset (view db) ?k" and ?ms = "rd_zrangebyscore R (reservations_key svc srv) now db"
  have d: "distinct (dkeys ?z)"
    using slot_exactD(2) [OF slots_exactD(2) [OF ok]] by (simp add: reserved_def)
  have ms: "distinct ?ms" "set ?ms = {m. \<exists>y. dget ?z m = Some y \<and> y \<le> now}"
    using zrange [OF slots_exactD(1) [OF ok] kind_of_key(5)] by auto
  have e: "set ?ms = fst ` set (filter (\<lambda>p. snd p \<le> now) ?z)"
    using d unfolding ms(2) by (force simp: dget_iff_mem)
  have "length ?ms = length (dkeys (filter (\<lambda>p. snd p \<le> now) ?z))"
    using ms(1) distinct_map_filter [OF d] e by (metis distinct_card set_map)
  moreover have "fst p \<in> set ?ms \<longleftrightarrow> snd p \<le> now" if "p \<in> set ?z" for p
  proof -
    have "dget ?z (fst p) = Some (snd p)" using that dget_iff_mem [OF d] by simp
    then show ?thesis unfolding ms(2) by simp
  qed
  then have "without ?ms ?z = filter (\<lambda>p. now < snd p) ?z"
    unfolding without_def by (intro filter_cong) auto
  moreover have "set ?ms \<subseteq> set (reserved (view db) svc srv)" unfolding e reserved_def by auto
  ultimately show ?thesis
    using sweep_members_run [OF ok ms(1), of svc srv n] unfolding sweep_pair_def by auto
qed

lemma sweep_pairs_run:
  assumes "slots_exact Q (view db) J" and "distinct ps"
  shows "\<exists>db'. foldE (sweep_pair R now) ps (n, db)
      = Inr (n + (\<Sum>(svc, srv)\<leftarrow>ps. expired now (v_zset (view db) (reservations_key svc srv))), db')
    \<and> slots_exact Q (view db') J \<and> slot_steps R view Q (db, J) (db', J)
    \<and> (\<forall>svc srv. v_zset (view db') (reservations_key svc srv)
        = (if (svc, srv) \<in> set ps then filter (\<lambda>p. now < snd p) else id) (v_zset (view db) (reservations_key svc srv)))"
  using assms
proof (induction ps arbitrary: n db)
  case Nil
  then show ?case by simp
next
  case (Cons p ps)
  obtain a b where p: "p = (a, b)" by force
  let ?z = "\<lambda>db svc srv. v_zset (view db) (reservations_key svc srv)"
  obtain db1 where d1: "sweep_pair R now p (n, db) = Inr (n + expired now (?z db a b), db1)"
    "slots_exact Q (view db1) J" "slot_steps R view Q (db, J) (db1, J)"
    "v_zset (view db1) = (v_zset (view db))(reservations_key a b := filter (\<lambda>p. now < snd p) (?z db a b))"
    using sweep_pair_runs [OF Cons.prems(1), of now a b n] unfolding p expired_def by blast
  have new: "(a, b) \<notin> set ps" using Cons.prems(2) by (simp add: p)
  then have z: "?z db1 svc srv = ?z db svc srv" if "(svc, srv) \<in> set ps" for svc srv
    using that by (auto simp: d1(4))
  obtain db2 where d2: "foldE (sweep_pair R now) ps (n + expired now (?z db a b), db1)
      = Inr (n + expired now (?z db a b) + (\<Sum>(svc, srv)\<leftarrow>ps. expired now (?z db1 svc srv)), db2)"
    "slots_exact Q (view db2) J" "slot_steps R view Q (db1, J) (db2, J)"
    "\<And>svc srv. ?z db2 svc srv = (if (svc, srv) \<in> set ps then filter (\<lambda>p. now < snd p) else id) (?z db1 svc srv)"
    using Cons.IH [OF d1(2), of "n + expired now (?z db a b)"] Cons.prems(2) by fastforce
  have "(\<Sum>(svc, srv)\<leftarrow>ps. expired now (?z db1 svc srv)) = (\<Sum>(svc, srv)\<leftarrow>ps. expired now (?z db svc srv))"
    by (rule arg_cong [where f = sum_list]) (auto simp: z)
  moreover have "?z db2 svc srv = (if (svc, srv) \<in> set (p # ps) then filter (\<lambda>p. now < snd p) else id) (?z db svc srv)"
    for svc srv
    using new by (auto simp: d2(4) d1(4) p)
  moreover have "slot_steps R view Q (db, J) (db2, J)" using d1(3) d2(3) by (rule rtranclp_trans)
  ultimately show ?case using d1(1) d2(1,2) by (auto simp: p add.assoc)
qed

end

section \<open>Properties\<close>

definition empty_rdb :: rdb where
  "empty_rdb = \<lparr>d_str = [], d_set = [], d_zset = [], d_list = [], d_float = []\<rparr>"

lemma well_kinded_empty: "well_kinded (rdb_view empty_rdb)"
  by (simp add: well_kinded_def rdb_view_def empty_rdb_def dget_or_def)

lemma reset_empty: "reset_all assoc_redis empty_rdb = empty_rdb"
  by (simp add: reset_all_def assoc_redis_def rdb_keys_def empty_rdb_def)

lemma reserved_empty: "reserved (rdb_view empty_rdb) svc srv = []"
  by (simp add: reserved_def rdb_view_def empty_rdb_def dget_or_def)

lemma fresh_empty: "fresh (rdb_view empty_rdb) {#} svc srv rid"
  by (simp add: fresh_def reserved_empty)

text \<open>
  C32. The functions of the dispatcher and the workers refine these steps: run without interruption
  in a state with exact counters, \<open>try_reserve_queue_slot\<close> with a request that is not in the
  queue, the release of a worker and the sweeper are sequences of slot steps that return and
  end with exact counters; a slot is granted exactly if the queue has one left.
\<close>

theorem slot_functions_refine:
  assumes R: "redis_server R view" and ok: "slots_exact Q (view db) J"
  shows "(fresh (view db) J svc srv rid \<longrightarrow>
      (\<exists>b db'. try_reserve_queue_slot R svc srv (Q svc) (Some rid) (Some ttl) now db = Inr (b, db')
        \<and> (b \<longleftrightarrow> int (length (reserved (view db) svc srv) + held svc srv J) < Q svc)
        \<and> slot_steps R view Q (db, J) (db', J) \<and> slots_exact Q (view db') J))
    \<and> (let db' = worker_release R svc srv (Some rid) db in
        slot_steps R view Q (db, J) (db', J) \<and> slots_exact Q (view db') J)
    \<and> (\<exists>n db'. sweep_expired_reservations R n_srv n_svc now db = Inr (n, db')
        \<and> slot_steps R view Q (db, J) (db', J) \<and> slots_exact Q (view db') J)"
proof (intro conjI impI)
  assume "fresh (view db) J svc srv rid"
  then show "\<exists>b db'. try_reserve_queue_slot R svc srv (Q svc) (Some rid) (Some ttl) now db = Inr (b, db')
        \<and> (b \<longleftrightarrow> int (length (reserved (view db) svc srv) + held svc srv J) < Q svc)
        \<and> slot_steps R view Q (db, J) (db', J) \<and> slots_exact Q (view db') J"
    by (rule redis_server.reserve_runs [OF R ok, of svc srv rid ttl now]) blast
next
  show "let db' = worker_release R svc srv (Some rid) db in
        slot_steps R view Q (db, J) (db', J) \<and> slots_exact Q (view db') J"
    using redis_server.worker_release_steps [OF R ok] by (simp add: Let_def)
next
  show "\<exists>n db'. sweep_expired_reservations R n_srv n_svc now db = Inr (n, db')
        \<and> slot_steps R view Q (db, J) (db', J) \<and> slots_exact Q (view db') J"
    using redis_server.sweep_pairs_run [OF R ok, of "all_pairs n_srv n_svc" now 0] distinct_all_pairs
    by (auto simp: sweep_expired_reservations_def)
qed

lemma empty_exact: "slots_exact (\<lambda>_. 3) (rdb_view empty_rdb) {#}"
  using assoc.reset_exact [OF well_kinded_empty, of "\<lambda>_. 3"] by (simp add: reset_empty)

theorem slot_functions_refine_witness:
  "\<exists>db'. try_reserve_queue_slot assoc_redis 1 2 3 (Some 7) (Some 5) 10 empty_rdb = Inr (True, db')
     \<and> slot_steps assoc_redis rdb_view (\<lambda>_. 3) (empty_rdb, {#}) (db', {#})"
  using slot_functions_refine [OF assoc.redis_server_axioms empty_exact, of 1 2 7 5 10 4 4] fresh_empty reserved_empty
  by auto

text \<open>
  C33. The sweeper frees exactly the reservations that have expired: it returns their number over
  all pairs of a service and a server, takes them off the reservation sets, keeps the others,
  and leaves every counter exact.
\<close>

theorem sweep_frees_expired:
  assumes R: "redis_server R view" and ok: "slots_exact Q (view db) J"
  shows "\<exists>db'. sweep_expired_reservations R n_srv n_svc now db
      = Inr (\<Sum>(svc, srv)\<leftarrow>all_pairs n_srv n_svc. expired now (v_zset (view db) (reservations_key svc srv)), db')
    \<and> (\<forall>svc srv. v_zset (view db') (reservations_key svc srv) =
        (if svc \<in> {1..int n_svc} \<and> srv \<in> {1..int n_srv} then filter (\<lambda>p. now < snd p) else id)
          (v_zset (view db) (reservations_key svc srv)))
    \<and> (\<forall>svc srv. get_queue_occupancy R svc srv db' = Inr (int (length (reserved (view db') svc srv) + held svc srv J)))"
proof -
  obtain db' where d: "foldE (sweep_pair R now) (all_pairs n_srv n_svc) (0, db)
      = Inr (\<Sum>(svc, srv)\<leftarrow>all_pairs n_srv n_svc. expired now (v_zset (view db) (reservations_key svc srv)), db')"
    "slots_exact Q (view db') J"
    "\<And>svc srv. v_zset (view db') (reservations_key svc srv)
        = (if (svc, srv) \<in> set (all_pairs n_srv n_svc) then filter (\<lambda>p. now < snd p) else id)
          (v_zset (view db) (reservations_key svc srv))"
    using redis_server.sweep_pairs_run [OF R ok distinct_all_pairs, of now n_srv n_svc 0] by auto
  have "get_queue_occupancy R svc srv db' = Inr (int (length (reserved (view db') svc srv) + held svc srv J))" for svc srv
    unfolding get_queue_occupancy_def
    by (rule redis_server.get_int_counter [OF R slots_exactD(1) [OF d(2)] kind_of_key(3)
          slot_exactD(1) [OF slots_exactD(2) [OF d(2)]]])
  then show ?thesis using d(1,3) unfolding sweep_expired_reservations_def set_all_pairs by blast
qed

theorem sweep_frees_expired_witness:
  "\<exists>db db'. try_reserve_queue_slot assoc_redis 1 2 3 (Some 7) (Some 5) 10 empty_rdb = Inr (True, db)
     \<and> v_zset (rdb_view db) (reservations_key 1 2) = [(py_str 7, 15)]
     \<and> sweep_expired_reservations assoc_redis 2 1 20 db = Inr (1, db')
     \<and> get_queue_occupancy assoc_redis 1 2 db = Inr 1 \<and> get_queue_occupancy assoc_redis 1 2 db' = Inr 0"
proof -
  let ?db = "\<lparr>d_str = [(queue_key 1 2, py_str 1)], d_set = [], d_zset = [(reservations_key 1 2, [(py_str 7, 15)])],
    d_list = [], d_float = []\<rparr>"
  have r: "try_reserve_queue_slot assoc_redis 1 2 3 (Some 7) (Some 5) 10 empty_rdb = Inr (True, ?db)"
    by (simp add: try_reserve_queue_slot_def assoc_redis_def empty_rdb_def counter_def rdb_view_def dget_or_def)
  have ok: "slots_exact (\<lambda>_. 3) (rdb_view ?db) {#}"
    by (rule assoc.reserve_runs [OF empty_exact fresh_empty, of 1 2 7 5 10]) (simp add: r)
  have z: "v_zset (rdb_view ?db) (reservations_key a b) = (if a = 1 \<and> b = 2 then [(py_str 7, 15)] else [])" for a b
    by (simp add: rdb_view_def dget_or_def)
  have n: "(\<Sum>(svc, srv)\<leftarrow>all_pairs 2 1. expired 20 (v_zset (rdb_view ?db) (reservations_key svc srv))) = 1"
    by (simp add: all_pairs_def z expired_def numeral_2_eq_2)
  obtain db' where d: "sweep_expired_reservations assoc_redis 2 1 20 ?db = Inr (1, db')"
    "v_zset (rdb_view db') (reservations_key 1 2) = []"
    "get_queue_occupancy assoc_redis 1 2 db' = Inr (int (length (reserved (rdb_view db') 1 2)))"
    using sweep_frees_expired [OF assoc.redis_server_axioms ok, of 2 1 20] unfolding n by (auto simp: z)
  have "get_queue_occupancy assoc_redis 1 2 ?db = Inr 1"
    by (simp add: get_queue_occupancy_def get_int_def assoc_redis_def)
  with r z d show ?thesis by (intro exI [of _ ?db] exI [of _ db']) (simp add: reserved_def)
qed

section \<open>Reservations outlive a removed replica\<close>

text \<open>
  \<open>remove_replica\<close> deletes the counter of a queue but not its reservations. A request the removed
  replica never answered then frees, when it expires, a slot of the replica that has taken its
  place: here the new replica has one request in its queue and its counter reads zero.
\<close>

lemma stale_reservation_undercounts:
  "\<exists>db1 db2 db3. try_reserve_queue_slot assoc_redis 1 2 3 (Some 7) (Some 5) 10 empty_rdb = Inr (True, db1)
     \<and> try_reserve_queue_slot assoc_redis 1 2 3 (Some 8) (Some 25) 11 (remove_replica assoc_redis 1 2 db1) = Inr (True, db2)
     \<and> sweep_expired_reservations assoc_redis 2 1 20 db2 = Inr (1, db3)
     \<and> reserved (rdb_view db3) 1 2 = [py_str 8] \<and> get_queue_occupancy assoc_redis 1 2 db3 = Inr 0"
proof -
  let ?q = "queue_key 1 2" and ?z = "reservations_key 1 2"
  let ?db1 = "\<lparr>d_str = [(?q, py_str 1)], d_set = [], d_zset = [(?z, [(py_str 7, 15)])], d_list = [], d_float = []\<rparr>"
  let ?db2 = "\<lparr>d_str = [(?q, py_str 1)], d_set = [(ready_key 1, [])], d_zset = [(?z, [(py_str 7, 15), (py_str 8, 36)])],
    d_list = [], d_float = []\<rparr>"
  let ?db3 = "\<lparr>d_str = [(?q, py_str 0)], d_set = [(ready_key 1, [])], d_zset = [(?z, [(py_str 8, 36)])],
    d_list = [], d_float = []\<rparr>"
  have k: "?z \<noteq> ?q" "?z \<noteq> replica_key 1 2 f" for f
    using kind_of_key(3,5) [of 1 2] kind_of_key(2,5) by (metis kind.distinct)+
  have "try_reserve_queue_slot assoc_redis 1 2 3 (Some 7) (Some 5) 10 empty_rdb = Inr (True, ?db1)"
    by (simp add: try_reserve_queue_slot_def assoc_redis_def empty_rdb_def counter_def rdb_view_def dget_or_def)
  moreover have "remove_replica assoc_redis 1 2 ?db1 = ?db1\<lparr>d_str := [], d_set := [(ready_key 1, [])]\<rparr>"
    using k by (simp add: remove_replica_def assoc_redis_def rdb_delete_def without_def dget_or_def)
  then have "try_reserve_queue_slot assoc_redis 1 2 3 (Some 8) (Some 25) 11 (remove_replica assoc_redis 1 2 ?db1)
    = Inr (True, ?db2)"
    by (simp add: try_reserve_queue_slot_def assoc_redis_def counter_def rdb_view_def dget_or_def)
  moreover have "sweep_expired_reservations assoc_redis 2 1 20 ?db2 = Inr (1, ?db3)"
    by (simp add: sweep_expired_reservations_def all_pairs_def sweep_pair_def sweep_member_def release_queue_slot_def
        get_int_def assoc_redis_def counter_def rdb_view_def dget_or_def numeral_2_eq_2 Let_def image_iff)
  moreover have "reserved (rdb_view ?db3) 1 2 = [py_str 8]" "get_queue_occupancy assoc_redis 1 2 ?db3 = Inr 0"
    by (simp_all add: reserved_def rdb_view_def dget_or_def get_queue_occupancy_def get_int_def assoc_redis_def)
  ultimately show ?thesis by blast
qed

end
