(* ===== verification/Cluster.thy ===== *)
theory Cluster
  imports Slots
begin

text \<open>
  \<open>k8s_adapter/k8s_client.py\<close>: the calls of the dispatcher to the Kubernetes cluster. The API
  server is not code of the repository: its operations are a parameter (\<open>kube\<close>), each of which
  may raise an \<open>ApiException\<close> with a status; the locale \<open>kube_server\<close> states what the client
  relies on. An attempt that is answered by an error may or may not have taken effect.
\<close>

section \<open>The API\<close>

datatype env_value = EnvInt int | EnvReal real

record deployment =
  dp_name :: string
  dp_service :: int
  dp_server :: int
  dp_port :: int
  dp_env :: "(string \<times> env_value) list"
  dp_millicpu :: int
  dp_memory :: string
  dp_replicas :: nat

record pod_status =
  pod_phase :: string
  pod_address :: string

record 'k kube =
  kb_create_deployment :: "deployment \<Rightarrow> 'k \<Rightarrow> unit result \<times> 'k"
  kb_delete_deployment :: "string \<Rightarrow> 'k \<Rightarrow> unit result \<times> 'k"
  kb_read_deployment :: "string \<Rightarrow> 'k \<Rightarrow> nat option result \<times> 'k"
  kb_list_deployments :: "'k \<Rightarrow> (string \<times> string \<times> nat option) list result \<times> 'k"
  kb_list_pods :: "int \<Rightarrow> int \<Rightarrow> 'k \<Rightarrow> pod_status list result \<times> 'k"
  kb_list_nodes :: "int \<Rightarrow> 'k \<Rightarrow> string list result \<times> 'k"
  kb_patch_node :: "string \<Rightarrow> bool \<Rightarrow> 'k \<Rightarrow> unit result \<times> 'k"
  kb_read_node :: "string \<Rightarrow> 'k \<Rightarrow> bool option result \<times> 'k"

text \<open>An exception ends the call, but what was done to the cluster before it stays done.\<close>

definition and_then :: "('k \<Rightarrow> 'b result \<times> 'k) \<Rightarrow> ('b \<Rightarrow> 'k \<Rightarrow> 'c result \<times> 'k) \<Rightarrow> 'k \<Rightarrow> 'c result \<times> 'k" where
  "and_then f g k = (case f k of (Inl e, k') \<Rightarrow> (Inl e, k') | (Inr x, k') \<Rightarrow> g x k')"

definition give :: "'b result \<Rightarrow> 'k \<Rightarrow> 'b result \<times> 'k" where
  "give r k = (r, k)"

section \<open>Retries\<close>

definition retryable :: "int \<Rightarrow> bool" where
  "retryable status \<longleftrightarrow> status = 500 \<or> status = 503 \<or> status = 429"

text \<open>
  \<open>_call_with_retry\<close> with the attempts left; the pauses between them are not part of the result.
  Without any attempt Python raises \<open>None\<close>, a \<open>TypeError\<close>.
\<close>

fun retry_loop :: "('k \<Rightarrow> 'b result \<times> 'k) \<Rightarrow> nat \<Rightarrow> py_error \<Rightarrow> 'k \<Rightarrow> 'b result \<times> 'k" where
  "retry_loop f 0 last_exc k = (Inl last_exc, k)"
| "retry_loop f (Suc n) last_exc k =
     (case f k of
        (Inl (ApiException status), k') \<Rightarrow>
          if \<not> retryable status then (Inl (ApiException status), k')
          else retry_loop f n (ApiException status) k'
      | (r, k') \<Rightarrow> (r, k'))"

definition MAX_RETRIES :: nat where "MAX_RETRIES = 3"

definition call_with_retry :: "('k \<Rightarrow> 'b result \<times> 'k) \<Rightarrow> 'k \<Rightarrow> 'b result \<times> 'k" where
  "call_with_retry f k = retry_loop f MAX_RETRIES TypeError k"

section \<open>Deployments\<close>

definition resource_mips_to_millicpu :: "int \<Rightarrow> int" where
  "resource_mips_to_millicpu mips = py_round (of_int mips / of_int REFERENCE_MIPS_PER_CORE * 1000)"

definition deployment_name :: "int \<Rightarrow> int \<Rightarrow> string" where
  "deployment_name service_id server_id = ''svc'' @ py_str service_id @ ''-srv'' @ py_str server_id"

definition worker_port :: "int \<Rightarrow> int" where
  "worker_port service_id = 8000 + service_id"

definition build_deployment_manifest :: "int \<Rightarrow> int \<Rightarrow> deployment result" where
  "build_deployment_manifest service_id server_id =
     bindE (service_of service_id) (\<lambda>svc.
     bindE (dlookup SERVER_INFO server_id) (\<lambda>info.
     bindE (profile_of_info info) (\<lambda>p.
       let mips = real_of_int (mips_per_core (server_profile p));
           port = worker_port service_id
       in bindE (compute_exec_time_sec service_id mips) (\<lambda>exec_time_sec.
          bindE (compute_cold_start_window_sec service_id mips) (\<lambda>window.
          bindE (compute_cold_start_penalty_sec service_id mips) (\<lambda>penalty.
            Inr \<lparr>dp_name = deployment_name service_id server_id, dp_service = service_id,
                 dp_server = server_id, dp_port = port,
                 dp_env = [(''EXEC_TIME_SEC'', EnvReal exec_time_sec), (''SERVICE_ID'', EnvInt service_id),
                           (''SERVER_ID'', EnvInt server_id), (''SERVICE_PORT'', EnvInt port),
                           (''COLD_START_WINDOW_SEC'', EnvReal window), (''COLD_START_PENALTY_SEC'', EnvReal penalty)],
                 dp_millicpu = resource_mips_to_millicpu (resource_mips svc),
                 dp_memory = svc_memory svc, dp_replicas = 1\<rparr>))))))"

text \<open>\<open>except ApiException as e: if e.status == status: return x\<close>\<close>

definition on_status :: "int \<Rightarrow> 'b \<Rightarrow> 'b result \<times> 'k \<Rightarrow> 'b result \<times> 'k" where
  "on_status status x out =
     (case out of
        (Inl (ApiException s), k) \<Rightarrow> if s = status then (Inr x, k) else (Inl (ApiException s), k)
      | _ \<Rightarrow> out)"

definition create_deployment :: "'k kube \<Rightarrow> int \<Rightarrow> int \<Rightarrow> 'k \<Rightarrow> unit result \<times> 'k" where
  "create_deployment K service_id server_id =
     and_then (give (build_deployment_manifest service_id server_id)) (\<lambda>manifest k.
       on_status 409 () (call_with_retry (kb_create_deployment K manifest) k))"

definition delete_deployment :: "'k kube \<Rightarrow> int \<Rightarrow> int \<Rightarrow> 'k \<Rightarrow> unit result \<times> 'k" where
  "delete_deployment K service_id server_id k =
     on_status 404 () (call_with_retry (kb_delete_deployment K (deployment_name service_id server_id)) k)"

definition is_deployment_ready :: "'k kube \<Rightarrow> int \<Rightarrow> int \<Rightarrow> 'k \<Rightarrow> bool result \<times> 'k" where
  "is_deployment_ready K service_id server_id k =
     on_status 404 False
       (and_then (call_with_retry (kb_read_deployment K (deployment_name service_id server_id)))
          (\<lambda>ready_replicas k'. (Inr (1 \<le> (case ready_replicas of None \<Rightarrow> 0 | Some n \<Rightarrow> n)), k')) k)"

definition cluster_pod_ip :: "'k kube \<Rightarrow> int \<Rightarrow> int \<Rightarrow> 'k \<Rightarrow> string option result \<times> 'k" where
  "cluster_pod_ip K service_id server_id =
     and_then (kb_list_pods K service_id server_id) (\<lambda>pods k.
       (Inr (map_option pod_address
               (find (\<lambda>pod. pod_phase pod = ''Running'' \<and> pod_address pod \<noteq> []) pods)), k))"

definition list_all_deployments :: "'k kube \<Rightarrow> 'k \<Rightarrow> (int \<times> int \<times> bool) list result \<times> 'k" where
  "list_all_deployments K =
     and_then (kb_list_deployments K) (\<lambda>items.
       give (mapE (\<lambda>(svc, srv, ready_replicas).
               bindE (py_int svc) (\<lambda>service_id.
               bindE (py_int srv) (\<lambda>server_id.
                 Inr (service_id, server_id, 1 \<le> (case ready_replicas of None \<Rightarrow> 0 | Some n \<Rightarrow> n))))) items))"

section \<open>Nodes\<close>

definition get_node_name :: "'k kube \<Rightarrow> int \<Rightarrow> 'k \<Rightarrow> string result \<times> 'k" where
  "get_node_name K server_id =
     and_then (kb_list_nodes K server_id) (\<lambda>nodes.
       give (case nodes of [] \<Rightarrow> Inl RuntimeError | name # _ \<Rightarrow> Inr name))"

definition cordon_node :: "'k kube \<Rightarrow> int \<Rightarrow> 'k \<Rightarrow> unit result \<times> 'k" where
  "cordon_node K server_id = and_then (get_node_name K server_id) (\<lambda>node_name. kb_patch_node K node_name True)"

definition uncordon_node :: "'k kube \<Rightarrow> int \<Rightarrow> 'k \<Rightarrow> unit result \<times> 'k" where
  "uncordon_node K server_id = and_then (get_node_name K server_id) (\<lambda>node_name. kb_patch_node K node_name False)"

definition is_node_schedulable :: "'k kube \<Rightarrow> int \<Rightarrow> 'k \<Rightarrow> bool result \<times> 'k" where
  "is_node_schedulable K server_id =
     and_then (and_then (get_node_name K server_id) (kb_read_node K)) (\<lambda>unschedulable k.
       (Inr (unschedulable \<noteq> Some True), k))"

section \<open>What a retried call does\<close>

text \<open>
  An invariant of the cluster that every attempt keeps is kept by the retries, and the reply is
  the one of the last attempt made.
\<close>

lemma retry_loop_last:
  assumes "retry_loop f n e k = (r, k')" and "I k" and "n \<noteq> 0"
    and "\<And>k r k'. I k \<Longrightarrow> f k = (r, k') \<Longrightarrow> I k'"
  shows "\<exists>j. I j \<and> f j = (r, k')"
  using assms(1-3)
proof (induction n arbitrary: e k)
  case (Suc n)
  obtain q j where q: "f k = (q, j)" by (cases "f k")
  have j: "I j" by (rule assms(4) [OF Suc.prems(2) q])
  show ?case
  proof (cases "\<exists>s. q = Inl (ApiException s) \<and> retryable s")
    case True
    then obtain s where s: "q = Inl (ApiException s)" "retryable s" by blast
    show ?thesis
    proof (cases n)
      case 0
      then have "(r, k') = (q, j)" using Suc.prems(1) q s by simp
      then show ?thesis using Suc.prems(2) q by blast
    next
      case (Suc m)
      then show ?thesis using Suc.IH [OF _ j] Suc.prems(1) q s by simp
    qed
  next
    case False
    then have "(r, k') = (q, j)"
      using Suc.prems(1) q by (auto split: sum.splits py_error.splits if_splits)
    then show ?thesis using Suc.prems(2) q by blast
  qed
qed simp

lemma call_with_retry_last:
  assumes "call_with_retry f k = (r, k')" and "I k" and "\<And>k r k'. I k \<Longrightarrow> f k = (r, k') \<Longrightarrow> I k'"
  shows "\<exists>j. I j \<and> f j = (r, k')"
  using retry_loop_last [of f MAX_RETRIES TypeError k r k' I] assms
  by (simp add: call_with_retry_def MAX_RETRIES_def)

text \<open>The names of different replicas differ.\<close>

lemma py_str_no_s: "CHR ''s'' \<notin> set (py_str i)"
proof -
  have "\<not> is_digit (CHR ''s'')" by (simp add: is_digit_def)
  then have "CHR ''s'' \<notin> set (digits n)" for n using digits_ok [of n] by (auto simp: list_all_iff)
  then show ?thesis by (simp add: py_str_def)
qed

lemma deployment_name_inj:
  "deployment_name a b = deployment_name c d \<longleftrightarrow> a = c \<and> b = d"
proof
  assume eq: "deployment_name a b = deployment_name c d"
  have t: "takeWhile (\<lambda>x. x \<noteq> CHR ''s'') (py_str i @ ''-srv'' @ y) = py_str i @ ''-''" for i y
    using py_str_no_s [of i] by (subst takeWhile_append2) auto
  have "py_str a @ ''-srv'' @ py_str b = py_str c @ ''-srv'' @ py_str d"
    using eq by (simp add: deployment_name_def)
  then have "py_str a @ ''-'' = py_str c @ ''-''" using t [of a "py_str b"] t [of c "py_str d"] by metis
  then have a: "py_str a = py_str c" by simp
  then have "py_str b = py_str d" using eq by (simp add: deployment_name_def)
  then show "a = c \<and> b = d" using a py_str_inj by blast
qed simp

section \<open>The server the client relies on\<close>

text \<open>
  \<open>names\<close> are the deployments that exist. A call that returns has taken effect; 409 answers the
  creation of a deployment that exists, 404 a request for one that does not; after any other
  error the call may have taken effect or not.
\<close>

locale kube_server =
  fixes K :: "'k kube" and names :: "'k \<Rightarrow> string set"
  assumes create: "kb_create_deployment K d k = (r, k') \<Longrightarrow>
          names k \<subseteq> names k' \<and> names k' \<subseteq> insert (dp_name d) (names k)
          \<and> (r = Inr () \<longrightarrow> dp_name d \<in> names k') \<and> (r = Inl (ApiException 409) \<longrightarrow> dp_name d \<in> names k)"
    and delete: "kb_delete_deployment K n k = (r, k') \<Longrightarrow>
          names k - {n} \<subseteq> names k' \<and> names k' \<subseteq> names k
          \<and> (r = Inr () \<longrightarrow> n \<notin> names k') \<and> (r = Inl (ApiException 404) \<longrightarrow> n \<notin> names k)"
    and read: "kb_read_deployment K n k = (rd, k') \<Longrightarrow>
          names k' = names k \<and> (rd = Inl (ApiException 404) \<longleftrightarrow> n \<notin> names k)"
    and list_pods: "kb_list_pods K svc srv k = (pods, k') \<Longrightarrow> names k' = names k"
    and list_nodes: "kb_list_nodes K srv k = (nodes, k') \<Longrightarrow> names k' = names k"
    and patch_node: "kb_patch_node K n b k = (pt, k') \<Longrightarrow> names k' = names k"
begin

lemma create_bounds:
  assumes "create_deployment K svc srv k = (r, k')"
  shows "names k \<subseteq> names k'" and "names k' \<subseteq> insert (deployment_name svc srv) (names k)"
    and "r = Inr () \<Longrightarrow> deployment_name svc srv \<in> names k'"
proof -
  let ?n = "deployment_name svc srv"
  let ?I = "\<lambda>j. names k \<subseteq> names j \<and> names j \<subseteq> insert ?n (names k)"
  have "?I k' \<and> (r = Inr () \<longrightarrow> ?n \<in> names k')"
  proof (cases "build_deployment_manifest svc srv")
    case (Inl e)
    then show ?thesis using assms by (auto simp: create_deployment_def and_then_def give_def)
  next
    case (Inr d)
    have n: "dp_name d = ?n" using Inr by (auto simp: build_deployment_manifest_def Let_def elim!: bindE_InrE)
    obtain q where q: "call_with_retry (kb_create_deployment K d) k = (q, k')"
      and r: "(r, k') = on_status 409 () (q, k')"
      using assms Inr unfolding create_deployment_def and_then_def give_def on_status_def
      by (cases "call_with_retry (kb_create_deployment K d) k") (auto split: sum.splits py_error.splits if_splits)
    have step: "?I j'" if "?I j" "kb_create_deployment K d j = (q', j')" for j q' j'
      using create [OF that(2)] that(1) n by auto
    obtain j where j: "?I j" "kb_create_deployment K d j = (q, k')"
      using call_with_retry_last [of _ k q k' ?I, OF q] step by blast
    have "?I k'" by (rule step [OF j])
    moreover have "?n \<in> names k'" if "r = Inr ()"
    proof -
      from that r have "q = Inr () \<or> q = Inl (ApiException 409)"
        by (auto simp: on_status_def split: sum.splits py_error.splits if_splits)
      then show ?thesis using create [OF j(2)] n by auto
    qed
    ultimately show ?thesis by blast
  qed
  then show "names k \<subseteq> names k'" "names k' \<subseteq> insert ?n (names k)" "r = Inr () \<Longrightarrow> ?n \<in> names k'" by auto
qed

lemma delete_bounds:
  assumes "delete_deployment K svc srv k = (r, k')"
  shows "names k - {deployment_name svc srv} \<subseteq> names k'" and "names k' \<subseteq> names k"
    and "r = Inr () \<Longrightarrow> deployment_name svc srv \<notin> names k'"
proof -
  let ?n = "deployment_name svc srv"
  let ?I = "\<lambda>j. names k - {?n} \<subseteq> names j \<and> names j \<subseteq> names k"
  obtain q where q: "call_with_retry (kb_delete_deployment K ?n) k = (q, k')"
    and r: "(r, k') = on_status 404 () (q, k')"
    using assms unfolding delete_deployment_def on_status_def
    by (cases "call_with_retry (kb_delete_deployment K ?n) k") (auto split: sum.splits py_error.splits if_splits)
  have step: "?I j'" if "?I j" "kb_delete_deployment K ?n j = (q', j')" for j q' j'
    using delete [OF that(2)] that(1) by auto
  obtain j where j: "?I j" "kb_delete_deployment K ?n j = (q, k')"
    using call_with_retry_last [of _ k q k' ?I, OF q] step by blast
  have gone: "?n \<notin> names k'" if "r = Inr ()"
  proof -
    from that r have "q = Inr () \<or> q = Inl (ApiException 404)"
      by (auto simp: on_status_def split: sum.splits py_error.splits if_splits)
    then show ?thesis using delete [OF j(2)] by auto
  qed
  have "?I k'" by (rule step [OF j])
  with gone show "names k - {?n} \<subseteq> names k'" "names k' \<subseteq> names k" "r = Inr () \<Longrightarrow> ?n \<notin> names k'" by auto
qed

lemma ready_reads:
  assumes "is_deployment_ready K svc srv k = (r, k')"
  shows "names k' = names k" and "r = Inr True \<Longrightarrow> deployment_name svc srv \<in> names k"
proof -
  let ?n = "deployment_name svc srv"
  obtain q where q: "call_with_retry (kb_read_deployment K ?n) k = (q, k')"
    and r: "r = Inr True \<Longrightarrow> \<exists>x. q = Inr x"
    using assms unfolding is_deployment_ready_def and_then_def on_status_def
    by (cases "call_with_retry (kb_read_deployment K ?n) k") (auto split: sum.splits py_error.splits if_splits)
  have step: "names j' = names k" if "names j = names k" "kb_read_deployment K ?n j = (q', j')" for j q' j'
    using read [OF that(2)] that(1) by simp
  obtain j where j: "names j = names k" "kb_read_deployment K ?n j = (q, k')"
    using call_with_retry_last [of _ k q k' "\<lambda>j. names j = names k", OF q] step by blast
  show "names k' = names k" by (rule step [OF j])
  show "?n \<in> names k" if "r = Inr True" using read [OF j(2)] r [OF that] j(1) by auto
qed

lemma pod_ip_reads: "cluster_pod_ip K svc srv k = (r, k') \<Longrightarrow> names k' = names k"
  unfolding cluster_pod_ip_def and_then_def
  by (cases "kb_list_pods K svc srv k") (auto dest: list_pods split: sum.splits)

lemma node_name_reads: "get_node_name K srv k = (r, k') \<Longrightarrow> names k' = names k"
  unfolding get_node_name_def and_then_def give_def
  by (cases "kb_list_nodes K srv k") (auto dest: list_nodes split: sum.splits)

lemma node_keeps:
  "cordon_node K srv k = (r, k') \<Longrightarrow> names k' = names k"
  "uncordon_node K srv k = (r, k') \<Longrightarrow> names k' = names k"
  unfolding cordon_node_def uncordon_node_def and_then_def
  by (cases "get_node_name K srv k"; auto dest: node_name_reads patch_node split: sum.splits)+

end

section \<open>A server with faults\<close>

text \<open>
  A cluster kept as lists. Each call first takes the next fault of a script: a retryable status
  and whether the call takes effect all the same; an exhausted script makes no faults.
\<close>

record cluster =
  cl_deployments :: "(string \<times> nat) list"
  cl_nodes :: "(int \<times> string) list"
  cl_cordoned :: "string list"
  cl_faults :: "(int \<times> bool) list"

definition with_faults :: "(cluster \<Rightarrow> 'b result \<times> cluster) \<Rightarrow> cluster \<Rightarrow> 'b result \<times> cluster" where
  "with_faults f k =
     (case cl_faults k of
        [] \<Rightarrow> f k
      | (status, effective) # faults \<Rightarrow>
          let k1 = k\<lparr>cl_faults := faults\<rparr>
          in if retryable status then (Inl (ApiException status), if effective then snd (f k1) else k1)
             else f k1)"

definition cluster_names :: "cluster \<Rightarrow> string set" where
  "cluster_names k = set (dkeys (cl_deployments k))"

definition scripted_kube :: "cluster kube" where
  "scripted_kube =
     \<lparr>kb_create_deployment = (\<lambda>d. with_faults (\<lambda>k.
        if dp_name d \<in> set (dkeys (cl_deployments k)) then (Inl (ApiException 409), k)
        else (Inr (), k\<lparr>cl_deployments := dset (dp_name d) (dp_replicas d) (cl_deployments k)\<rparr>))),
      kb_delete_deployment = (\<lambda>n. with_faults (\<lambda>k.
        if n \<in> set (dkeys (cl_deployments k)) then (Inr (), k\<lparr>cl_deployments := ddel n (cl_deployments k)\<rparr>)
        else (Inl (ApiException 404), k))),
      kb_read_deployment = (\<lambda>n k.
        (case dget (cl_deployments k) n of None \<Rightarrow> Inl (ApiException 404) | Some c \<Rightarrow> Inr (Some c), k)),
      kb_list_deployments = (\<lambda>k. (Inr [], k)),
      kb_list_pods = (\<lambda>svc srv k.
        (Inr (if deployment_name svc srv \<in> set (dkeys (cl_deployments k))
              then [\<lparr>pod_phase = ''Running'', pod_address = ''10.0.0.1''\<rparr>] else []), k)),
      kb_list_nodes = (\<lambda>srv k. (Inr (map snd (filter (\<lambda>(i, _). i = srv) (cl_nodes k))), k)),
      kb_patch_node = (\<lambda>n b k.
        (Inr (), k\<lparr>cl_cordoned := (if b then n # cl_cordoned k else removeAll n (cl_cordoned k))\<rparr>)),
      kb_read_node = (\<lambda>n k. (Inr (Some (n \<in> set (cl_cordoned k))), k))\<rparr>"

text \<open>A law that a call obeys and that an error with or without effect cannot break.\<close>

lemma with_faults_law:
  assumes "with_faults f k = (r, k')" and law: "\<And>k. P k (fst (f k)) (snd (f k))"
    and script: "\<And>k faults r k'. P (k\<lparr>cl_faults := faults\<rparr>) r k' \<Longrightarrow> P k r k'"
    and fault: "\<And>k r k' s. P k r k' \<Longrightarrow> retryable s \<Longrightarrow> P k (Inl (ApiException s)) k'"
    and idle: "\<And>k s. retryable s \<Longrightarrow> P k (Inl (ApiException s)) k"
  shows "P k r k'"
proof (cases "cl_faults k")
  case Nil
  then show ?thesis using assms(1) law [of k] by (simp add: with_faults_def)
next
  case (Cons x faults)
  obtain status effective where x: "x = (status, effective)" by (cases x)
  let ?k = "k\<lparr>cl_faults := faults\<rparr>"
  have "P ?k r k'"
  proof (cases "retryable status")
    case True
    then show ?thesis
      using assms(1) Cons x fault [OF law [of ?k] True] idle [OF True, of ?k]
      by (cases effective) (auto simp: with_faults_def)
  next
    case False
    then show ?thesis using assms(1) Cons x law [of ?k] by (simp add: with_faults_def)
  qed
  then show ?thesis by (rule script)
qed

lemma cluster_names_faults [simp]: "cluster_names (k\<lparr>cl_faults := faults\<rparr>) = cluster_names k"
  by (simp add: cluster_names_def)

lemma retryable_not [simp]: "\<not> retryable 409" "\<not> retryable 404"
  by (simp_all add: retryable_def)

interpretation scripted: kube_server scripted_kube cluster_names
proof unfold_locales
  fix d :: deployment and k k' and r :: "unit result"
  let ?f = "\<lambda>k. if dp_name d \<in> set (dkeys (cl_deployments k)) then (Inl (ApiException 409), k)
        else (Inr (), k\<lparr>cl_deployments := dset (dp_name d) (dp_replicas d) (cl_deployments k)\<rparr>)"
  assume "kb_create_deployment scripted_kube d k = (r, k')"
  then have "with_faults ?f k = (r, k')" by (simp add: scripted_kube_def)
  let ?P = "\<lambda>k (r :: unit result) k'.
      cluster_names k \<subseteq> cluster_names k' \<and> cluster_names k' \<subseteq> insert (dp_name d) (cluster_names k)
      \<and> (r = Inr () \<longrightarrow> dp_name d \<in> cluster_names k')
      \<and> (r = Inl (ApiException 409) \<longrightarrow> dp_name d \<in> cluster_names k)"
  show "?P k r k'"
  proof (rule with_faults_law [where P = ?P and f = ?f])
    show "with_faults ?f k = (r, k')" by fact
    show "?P k (fst (?f k)) (snd (?f k))" for k by (auto simp: cluster_names_def dset_new_append)
  qed auto
next
  fix n k k' and r :: "unit result"
  let ?f = "\<lambda>k. if n \<in> set (dkeys (cl_deployments k))
        then (Inr (), k\<lparr>cl_deployments := ddel n (cl_deployments k)\<rparr>) else (Inl (ApiException 404), k)"
  assume "kb_delete_deployment scripted_kube n k = (r, k')"
  then have "with_faults ?f k = (r, k')" by (simp add: scripted_kube_def)
  let ?P = "\<lambda>k (r :: unit result) k'.
      cluster_names k - {n} \<subseteq> cluster_names k' \<and> cluster_names k' \<subseteq> cluster_names k
      \<and> (r = Inr () \<longrightarrow> n \<notin> cluster_names k') \<and> (r = Inl (ApiException 404) \<longrightarrow> n \<notin> cluster_names k)"
  show "?P k r k'"
  proof (rule with_faults_law [where P = ?P and f = ?f])
    show "with_faults ?f k = (r, k')" by fact
    show "?P k (fst (?f k)) (snd (?f k))" for k by (simp add: cluster_names_def delete_keys del: set_map)
  qed auto
next
  fix n :: string and k k' and rd :: "nat option result"
  assume "kb_read_deployment scripted_kube n k = (rd, k')"
  then have rd: "k' = k" "rd = (case dget (cl_deployments k) n of None \<Rightarrow> Inl (ApiException 404) | Some c \<Rightarrow> Inr (Some c))"
    by (auto simp: scripted_kube_def)
  have "dget (cl_deployments k) n = None \<longleftrightarrow> n \<notin> cluster_names k"
    by (simp add: cluster_names_def map_of_eq_None_iff)
  then show "cluster_names k' = cluster_names k \<and> (rd = Inl (ApiException 404) \<longleftrightarrow> n \<notin> cluster_names k)"
    unfolding rd by (cases "dget (cl_deployments k) n") simp_all
qed (auto simp: scripted_kube_def cluster_names_def)

section \<open>Calls despite faults\<close>

text \<open>An attempt that ends in a retryable error is repeated until none is left.\<close>

lemma retries_exhausted:
  assumes "call_with_retry f k = (Inl (ApiException s), k')" and "retryable s"
  shows "\<exists>s1 s2 k1 k2. retryable s1 \<and> retryable s2 \<and> f k = (Inl (ApiException s1), k1)
    \<and> f k1 = (Inl (ApiException s2), k2) \<and> f k2 = (Inl (ApiException s), k')"
  using assms
  by (auto simp: call_with_retry_def MAX_RETRIES_def numeral_3_eq_3
      split: prod.splits sum.splits py_error.splits if_splits)

text \<open>Every service has a manifest for every server.\<close>

lemma server_info_profile:
  assumes "dget SERVER_INFO srv = Some info" shows "\<exists>p. profile_of_info info = Inr p"
proof -
  have "info_capacity_mips info \<in> {20160, 33120, 40320}"
    using assms by (auto simp: SERVER_INFO_def split: if_splits)
  then show ?thesis by (auto simp: profile_of_info_def dlookup_def CAPACITY_TO_PROFILE_def SERVER_PROFILES_def)
qed

lemma exec_time_defined:
  assumes "dget SERVICES_INFO svc = Some i"
  shows "\<exists>et. compute_exec_time_sec svc (real_of_int (mips_per_core (server_profile p))) = Inr et"
proof -
  have "0 < resource_mips i" "0 < mips_per_core (server_profile p)" "0 < mips_per_core (server_profile Medium)"
    using SERVICES_INFO_ranges [OF assms] profile_mips_range [of p] profile_mips_range [of Medium] by auto
  then show ?thesis
    using assms by (simp add: compute_exec_time_sec_def service_of_def dlookup_def REFERENCE_MIPS_PER_CORE_def)
qed

lemma manifest_total:
  assumes "dget SERVICES_INFO svc = Some i" and "dget SERVER_INFO srv = Some info"
  shows "\<exists>d. build_deployment_manifest svc srv = Inr d \<and> dp_name d = deployment_name svc srv \<and> dp_replicas d = 1"
proof -
  obtain p where p: "profile_of_info info = Inr p" using server_info_profile [OF assms(2)] by blast
  obtain et where et: "compute_exec_time_sec svc (real_of_int (mips_per_core (server_profile p))) = Inr et"
    using exec_time_defined [OF assms(1)] by blast
  have "service_of svc = Inr i" "dlookup SERVER_INFO srv = Inr info"
    using assms by (simp_all add: service_of_def dlookup_def)
  then show ?thesis
    using p et by (simp add: build_deployment_manifest_def compute_cold_start_window_sec_def
        compute_cold_start_penalty_sec_def Let_def)
qed

text \<open>
  C38. The calls that create and delete the deployment of a replica are idempotent under faults.
  Against any server that obeys the documented meaning of its status codes, a creation that
  returns leaves exactly that deployment added and a deletion that returns leaves exactly it
  removed, whether or not earlier attempts that were answered by an error took effect; a call
  that raises touches no other deployment; and a retryable error is only passed on after three
  attempts that all failed that way.
\<close>

theorem cluster_calls_idempotent:
  assumes K: "kube_server K names"
  shows "(\<forall>r k'. create_deployment K svc srv k = (r, k') \<longrightarrow>
            names k' - {deployment_name svc srv} = names k - {deployment_name svc srv}
            \<and> (r = Inr () \<longrightarrow> deployment_name svc srv \<in> names k'))
    \<and> (\<forall>r k'. delete_deployment K svc srv k = (r, k') \<longrightarrow>
            names k' - {deployment_name svc srv} = names k - {deployment_name svc srv}
            \<and> (r = Inr () \<longrightarrow> deployment_name svc srv \<notin> names k')
            \<and> (\<forall>s. r = Inl (ApiException s) \<and> retryable s \<longrightarrow>
                 (\<exists>s1 s2 k1 k2. kb_delete_deployment K (deployment_name svc srv) k = (Inl (ApiException s1), k1)
                   \<and> kb_delete_deployment K (deployment_name svc srv) k1 = (Inl (ApiException s2), k2)
                   \<and> kb_delete_deployment K (deployment_name svc srv) k2 = (r, k')
                   \<and> retryable s1 \<and> retryable s2)))"
proof (intro conjI allI impI)
  fix r k' assume c: "create_deployment K svc srv k = (r, k')"
  note b = kube_server.create_bounds [OF K c]
  show "names k' - {deployment_name svc srv} = names k - {deployment_name svc srv}" using b(1,2) by blast
  show "deployment_name svc srv \<in> names k'" if "r = Inr ()" by (rule b(3) [OF that])
next
  fix r k' assume d: "delete_deployment K svc srv k = (r, k')"
  note b = kube_server.delete_bounds [OF K d]
  show "names k' - {deployment_name svc srv} = names k - {deployment_name svc srv}" using b(1,2) by blast
  show "deployment_name svc srv \<notin> names k'" if "r = Inr ()" by (rule b(3) [OF that])
  fix s assume s: "r = Inl (ApiException s) \<and> retryable s"
  have "call_with_retry (kb_delete_deployment K (deployment_name svc srv)) k = (Inl (ApiException s), k')"
    using d s by (auto simp: delete_deployment_def on_status_def split: prod.splits sum.splits py_error.splits if_splits)
  from retries_exhausted [OF this] s
  show "\<exists>s1 s2 k1 k2. kb_delete_deployment K (deployment_name svc srv) k = (Inl (ApiException s1), k1)
      \<and> kb_delete_deployment K (deployment_name svc srv) k1 = (Inl (ApiException s2), k2)
      \<and> kb_delete_deployment K (deployment_name svc srv) k2 = (r, k') \<and> retryable s1 \<and> retryable s2" by blast
qed

definition flaky_cluster :: cluster where
  "flaky_cluster = \<lparr>cl_deployments = [], cl_nodes = [(1, ''edge-1'')], cl_cordoned = [], cl_faults = [(503, True)]\<rparr>"

theorem cluster_calls_idempotent_witness:
  "\<exists>k'. create_deployment scripted_kube 1 1 flaky_cluster = (Inr (), k')
    \<and> cluster_names k' = {deployment_name 1 1} \<and> cl_faults k' = []"
proof -
  obtain d where d: "build_deployment_manifest 1 1 = Inr d" "dp_name d = deployment_name 1 1"
    using manifest_total [of 1 _ 1] by (auto simp: SERVER_INFO_def SERVICES_INFO_def)
  obtain k' where k: "create_deployment scripted_kube 1 1 flaky_cluster = (Inr (), k')" "cl_faults k' = []"
    using d by (simp add: create_deployment_def and_then_def give_def call_with_retry_def MAX_RETRIES_def numeral_3_eq_3
        scripted_kube_def with_faults_def flaky_cluster_def retryable_def on_status_def)
  have "cluster_names k' - {deployment_name 1 1} = cluster_names flaky_cluster - {deployment_name 1 1}
      \<and> deployment_name 1 1 \<in> cluster_names k'"
    using cluster_calls_idempotent [OF scripted.kube_server_axioms, of 1 1 flaky_cluster] k(1) by blast
  then show ?thesis using k by (auto simp: cluster_names_def flaky_cluster_def)
qed

end
