(* ===== verification/Dispatch.thy ===== *)
theory Dispatch
  imports Cluster Monitor
begin

text \<open>
  \<open>k8s_adapter/realtime_dispatcher.py\<close>, first part: the state of \<open>RealtimeEngine\<close> and the life of a
  request in the deployment (routing, completion reports, reaping of lost requests), with the
  sampler of utilization and energy. The coroutines modelled here never wait between their first
  and last statement, so each is one step of the event loop; the readings of the two clocks
  (monotonic and wall) are arguments. An operation that raises leaves the state it has reached
  (\<open>outcome\<close>); only what a Redis command did before another one of the same call failed is
  dropped, and with the laws of \<open>redis_server\<close> on well-kinded keys none fails.
\<close>

section \<open>State\<close>

definition UTIL_SAMPLE_INTERVAL_SEC :: real where "UTIL_SAMPLE_INTERVAL_SEC = 5"
definition RESERVATION_SWEEP_INTERVAL_SEC :: real where "RESERVATION_SWEEP_INTERVAL_SEC = 10"

record geo_entry =
  ge_service_id :: int
  ge_server_id :: int
  ge_distance_km :: real
  ge_network_delay_ms :: real
  ge_routed_at :: real

text \<open>
  A task of \<open>_background_tasks\<close>: waiting for a pod to become ready, or deleting a replica, before
  its first step and while it waits for the queue to empty.
\<close>

datatype background =
    PollReady int int nat real
  | DeletePending int int
  | DeleteWaiting int int nat real

record ('a, 'r, 'k) rt =
  rt_events :: "event_row list"
  rt_algorithm :: 'a
  rt_metrics :: metrics
  rt_rolling :: rolling_tracker
  rt_servers :: servers
  rt_replicas_by_service :: "(int, nat list) pydict"
  rt_store :: heap
  rt_next_ref :: nat
  rt_running :: bool
  rt_tick_total :: "(int, nat) pydict"
  rt_tick_rejected :: "(int, nat) pydict"
  rt_tick_violated :: "(int, nat) pydict"
  rt_tick_proximity :: "(int, nat) pydict"
  rt_tick_responses :: "real list"
  rt_energy_at_last_tick :: real
  rt_recent_positions :: "(int, (real \<times> real) list) pydict"
  rt_demand_centroid :: "(int, (real \<times> real) option) pydict"
  rt_util_at_window_start :: "(int, real) pydict"
  rt_util_window_start :: real
  rt_last_scale_time :: "(int, real) pydict"
  rt_low_util_since :: "(int, real option) pydict"
  rt_high_util_since :: "(int, real option) pydict"
  rt_emergency_boot :: "(int, int) pydict"
  rt_request_geo :: "(int, geo_entry) pydict"
  rt_reaped :: "(int, real) pydict"
  rt_background :: "background list"
  rt_db :: 'r
  rt_cluster :: 'k

text \<open>
  The parameters: the world of the simulator (flags, numpy, the decisions of the algorithm), the
  Redis and the Kubernetes server, and the two methods of the algorithm that get the occupancy of
  the queues in Redis as a function: \<open>select_replica\<close>, which also gets the admission, and
  \<open>select_scale_down_victim\<close>. \<open>base_rt_select\<close> and \<open>base_rt_victim\<close> are those of the base class.
\<close>

type_synonym ('a, 'r) rt_select =
  "'a \<Rightarrow> request \<Rightarrow> nat list \<Rightarrow> servers \<Rightarrow> real \<Rightarrow> heap \<Rightarrow> (nat \<Rightarrow> 'r result \<Rightarrow> nat \<times> 'r result)
    \<Rightarrow> (nat \<Rightarrow> 'r result \<Rightarrow> bool \<times> 'r result) \<Rightarrow> 'r result \<Rightarrow> (nat option \<times> 'a \<times> 'r result) result"

type_synonym 'a rt_victim =
  "'a \<Rightarrow> int \<Rightarrow> nat list \<Rightarrow> servers \<Rightarrow> real \<Rightarrow> heap \<Rightarrow> (nat \<Rightarrow> nat result) \<Rightarrow> nat result"

record ('a, 'r, 'k) rt_world =
  rw_world :: "'a world"
  rw_redis :: "'r redis"
  rw_kube :: "'k kube"
  rw_select :: "('a, 'r) rt_select"
  rw_victim :: "'a rt_victim"

text \<open>
  The routing of the algorithms as the dispatcher calls it: the shared routine (Greedy and HPA; for
  PPO see Routes), and VOILA, whose \<open>select_replica\<close> takes neither an \<open>admit_fn\<close> nor an
  \<open>occupancy_fn\<close>, so that the call itself is a \<open>TypeError\<close>.
\<close>

definition voila_rt_select :: "('a, 'r) rt_select" where
  "voila_rt_select st req candidates servers now h occupancy_fn admit_fn db = Inl TypeError"

definition base_rt_select :: "('a, 'r) rt_select" where
  "base_rt_select st req candidates servers now h occupancy_fn admit_fn db =
     bindE (select_replica_with occupancy_fn admit_fn req candidates servers h db) (\<lambda>(c, db'). Inr (c, st, db'))"

definition base_rt_victim :: "'a rt_victim" where
  "base_rt_victim st svc ready_replicas servers now h occupancy_fn =
     bindE (mapE (\<lambda>a. bindE (occupancy_fn a) (\<lambda>n. Inr (n, a))) ready_replicas) (\<lambda>keyed.
     bindE (min_by fst keyed) (\<lambda>p. Inr (snd p)))"

definition new_rt :: "event_row list \<Rightarrow> 'a \<Rightarrow> real \<Rightarrow> 'r \<Rightarrow> 'k \<Rightarrow> ('a, 'r, 'k) rt result" where
  "new_rt df st now db k =
     bindE init_servers (\<lambda>servers. Inr
       \<lparr>rt_events = df, rt_algorithm = st, rt_metrics = new_metrics, rt_rolling = new_tracker ROLLING_TICKS,
        rt_servers = servers, rt_replicas_by_service = [], rt_store = (\<lambda>_. new_replica 0 0 0 0 0),
        rt_next_ref = 0, rt_running = True, rt_tick_total = [], rt_tick_rejected = [], rt_tick_violated = [],
        rt_tick_proximity = [], rt_tick_responses = [], rt_energy_at_last_tick = 0, rt_recent_positions = [],
        rt_demand_centroid = [], rt_util_at_window_start = [], rt_util_window_start = now,
        rt_last_scale_time = map (\<lambda>k. (k, LONG_AGO)) ACTIVE_SERVICES,
        rt_low_util_since = map (\<lambda>sid. (sid, None)) (dkeys servers),
        rt_high_util_since = map (\<lambda>sid. (sid, None)) (dkeys servers),
        rt_emergency_boot = [], rt_request_geo = [], rt_reaped = [], rt_background = [], rt_db = db,
        rt_cluster = k\<rparr>)"

definition rt_by_service :: "('a, 'r, 'k) rt \<Rightarrow> int \<Rightarrow> nat list" where
  "rt_by_service E svc = dget_or [] (rt_replicas_by_service E) svc"

definition rt_metric :: "(metrics \<Rightarrow> metrics) \<Rightarrow> ('a, 'r, 'k) rt \<Rightarrow> ('a, 'r, 'k) rt" where
  "rt_metric f E = E\<lparr>rt_metrics := f (rt_metrics E)\<rparr>"

section \<open>Routing\<close>

text \<open>
  The callbacks of \<open>select_replica\<close>: the first error of a Redis command is kept and ends the
  routing. A queue counter is read as a natural: it is negative only when a replica is removed
  between the \<open>GET\<close> and the \<open>DECR\<close> of a release, and then counts as zero here.
\<close>

definition rt_occupancy :: "'r redis \<Rightarrow> heap \<Rightarrow> int \<Rightarrow> nat \<Rightarrow> 'r result \<Rightarrow> nat \<times> 'r result" where
  "rt_occupancy R h svc a res =
     (case bindE res (get_queue_occupancy R svc (r_server_id (h a))) of
        Inl e \<Rightarrow> (0, Inl e)
      | Inr v \<Rightarrow> (nat v, res))"

definition rt_admit ::
  "'r redis \<Rightarrow> heap \<Rightarrow> int \<Rightarrow> int \<Rightarrow> real \<Rightarrow> (nat \<Rightarrow> real) \<Rightarrow> nat \<Rightarrow> 'r result \<Rightarrow> bool \<times> 'r result" where
  "rt_admit R h svc rid ttl wall a res =
     (case bindE res (try_reserve_queue_slot R svc (r_server_id (h a)) (int (r_queue_len (h a)))
                        (Some rid) (Some ttl) (wall a)) of
        Inl e \<Rightarrow> (False, Inl e)
      | Inr (ok, db) \<Rightarrow> (ok, Inr db))"

datatype route_reply =
    RejectedReply request_status
  | RoutedReply int "string option" int real

record route_clock =
  rc_started :: real
  rc_select :: real
  rc_reserve_wall :: "nat \<Rightarrow> real"
  rc_reject_wall :: real
  rc_routed :: real
  rc_finished :: real

definition rt_candidates :: "('a, 'r, 'k) rt \<Rightarrow> int \<Rightarrow> nat list" where
  "rt_candidates E svc = filter (\<lambda>a. is_selectable (rt_store E a)) (rt_by_service E svc)"

definition note_arrival :: "int \<Rightarrow> real \<Rightarrow> real \<Rightarrow> ('a, 'r, 'k) rt \<Rightarrow> ('a, 'r, 'k) rt" where
  "note_arrival svc lat lon E =
     E\<lparr>rt_tick_total := dadd svc 1 (rt_tick_total E),
       rt_recent_positions :=
         dset svc (deque_append 30 (lat, lon) (dget_or [] (rt_recent_positions E) svc)) (rt_recent_positions E)\<rparr>"

definition rt_reject :: "int \<Rightarrow> int \<Rightarrow> real \<Rightarrow> real \<Rightarrow> request_status \<Rightarrow> real \<Rightarrow> ('a, 'r, 'k) rt \<Rightarrow> ('a, 'r, 'k) rt" where
  "rt_reject rid svc lat lon status wall E =
     rt_metric (record_request ((new_request rid lat lon svc wall)\<lparr>req_status := status\<rparr>))
       (E\<lparr>rt_tick_rejected := dadd svc 1 (rt_tick_rejected E),
          rt_tick_violated := dadd svc 1 (rt_tick_violated E)\<rparr>)"

definition rt_dispatch ::
  "('a, 'r, 'k) rt_world \<Rightarrow> route_clock \<Rightarrow> int \<Rightarrow> int \<Rightarrow> real \<Rightarrow> real \<Rightarrow> nat \<Rightarrow> real \<Rightarrow> ('a, 'r, 'k) rt
   \<Rightarrow> (route_reply \<times> ('a, 'r, 'k) rt, ('a, 'r, 'k) rt) outcome" where
  "rt_dispatch W clk rid svc lat lon chosen dl E =
     (let k = r_server_id (rt_store E chosen)
      in bindE (during E (dlookup (rt_servers E) k)) (\<lambda>server.
         let km = haversine_km lat lon (srv_lat server) (srv_long server);
             delay_ms = network_delay_ms km BASE_LATENCY_MS K_MS_PER_KM;
             E1 = (if PROXIMITY_L0_MS \<le> 2 * delay_ms
                   then E\<lparr>rt_tick_proximity := dadd svc 1 (rt_tick_proximity E)\<rparr> else E);
             E2 = E1\<lparr>rt_request_geo :=
                        dset rid \<lparr>ge_service_id = svc, ge_server_id = srv_id server, ge_distance_km = km,
                                  ge_network_delay_ms = delay_ms, ge_routed_at = rc_routed clk\<rparr>
                          (rt_request_geo E1)\<rparr>;
             ip = get_pod_ip (rw_redis W) svc k (rt_db E2);
             routing_elapsed_sec = max 0 (rc_finished clk - rc_started clk);
             remaining_deadline = max (dl - routing_elapsed_sec) (1/10)
         in Inr (RoutedReply (srv_id server) ip (worker_port svc) remaining_deadline, E2)))"

definition route_request ::
  "('a, 'r, 'k) rt_world \<Rightarrow> route_clock \<Rightarrow> int \<Rightarrow> int \<Rightarrow> real \<Rightarrow> real \<Rightarrow> ('a, 'r, 'k) rt
   \<Rightarrow> (route_reply \<times> ('a, 'r, 'k) rt, ('a, 'r, 'k) rt) outcome" where
  "route_request W clk rid svc lat lon E0 =
     (let E = note_arrival svc lat lon E0
      in bindE (during E (service_of svc)) (\<lambda>info.
         let dl = deadline info;
             reservation_ttl_sec = dl + 5;
             candidates = rt_candidates E svc;
             h = rt_store E
         in bindE (during E (rw_select W (rt_algorithm E) (new_request rid lat lon svc (rc_select clk)) candidates
                     (rt_servers E) (rc_select clk) h (rt_occupancy (rw_redis W) h svc)
                     (rt_admit (rw_redis W) h svc rid reservation_ttl_sec (rc_reserve_wall clk)) (Inr (rt_db E))))
              (\<lambda>(chosen, st', res). bindE (during E res) (\<lambda>db'.
                 let E1 = E\<lparr>rt_algorithm := st', rt_db := db'\<rparr>
                 in case chosen of
                      None \<Rightarrow>
                        let status = (if candidates = [] then RejectedNoReplica else RejectedQueueFull)
                        in Inr (RejectedReply status, rt_reject rid svc lat lon status (rc_reject_wall clk) E1)
                    | Some a \<Rightarrow> rt_dispatch W clk rid svc lat lon a dl E1))))"

section \<open>Completions\<close>

definition pop_geo :: "int option \<Rightarrow> ('a, 'r, 'k) rt \<Rightarrow> ('a, 'r, 'k) rt" where
  "pop_geo rid E = (case rid of None \<Rightarrow> E | Some i \<Rightarrow> E\<lparr>rt_request_geo := ddel i (rt_request_geo E)\<rparr>)"

definition with_geo :: "geo_entry option \<Rightarrow> request \<Rightarrow> request" where
  "with_geo geo req =
     (case geo of
        None \<Rightarrow> req
      | Some g \<Rightarrow> req\<lparr>distance_km := Some (ge_distance_km g), req_network_delay_ms := ge_network_delay_ms g\<rparr>)"

definition already_reaped :: "int option \<Rightarrow> ('a, 'r, 'k) rt \<Rightarrow> bool" where
  "already_reaped rid E \<longleftrightarrow> (case rid of None \<Rightarrow> False | Some i \<Rightarrow> i \<in> set (dkeys (rt_reaped E)))"

definition record_external_completion ::
  "real \<Rightarrow> completion \<Rightarrow> ('a, 'r, 'k) rt \<Rightarrow> (('a, 'r, 'k) rt, ('a, 'r, 'k) rt) outcome" where
  "record_external_completion wall c E =
     (let rid = c_request_id c; svc = c_service_id c; resp = c_response_time_sec c
      in if already_reaped rid E then Inr (pop_geo rid E)
         else
           let geo = (case rid of None \<Rightarrow> None | Some i \<Rightarrow> dget (rt_request_geo E) i);
               E1 = pop_geo rid E;
               req = with_geo geo ((new_request (case rid of None \<Rightarrow> 0 | Some i \<Rightarrow> i) 0 0 svc wall)
                                     \<lparr>response_time_sec := resp\<rparr>)
           in bindE (during E1 (service_of svc)) (\<lambda>info.
                let violated = (\<not> c_success c \<or> deadline info < resp);
                    E2 = (if c_success c then E1\<lparr>rt_tick_responses := rt_tick_responses E1 @ [resp]\<rparr> else E1);
                    E3 = (if violated then E2\<lparr>rt_tick_violated := dadd svc 1 (rt_tick_violated E2)\<rparr> else E2)
                in Inr (rt_metric (record_request (req\<lparr>deadline_violated := violated,
                          req_status := (if c_success c then Completed else RejectedNoReplica)\<rparr>)) E3)))"

definition drain_completion_queue ::
  "('a, 'r, 'k) rt_world \<Rightarrow> real \<Rightarrow> ('a, 'r, 'k) rt \<Rightarrow> (('a, 'r, 'k) rt, ('a, 'r, 'k) rt) outcome" where
  "drain_completion_queue W wall E =
     (if rt_running E
      then let (batch, db') = pop_completion_batch (rw_redis W) 500 (rt_db E)
           in foldE (record_external_completion wall) batch (E\<lparr>rt_db := db'\<rparr>)
      else Inr E)"

section \<open>Lost requests\<close>

definition max_age :: real where
  "max_age = Max (set (map (deadline \<circ> snd) SERVICES_INFO)) + RESERVATION_SWEEP_INTERVAL_SEC + 5"

definition reap_one :: "real \<Rightarrow> real \<Rightarrow> int \<Rightarrow> ('a, 'r, 'k) rt \<Rightarrow> ('a, 'r, 'k) rt" where
  "reap_one now wall rid E =
     (case dget (rt_request_geo E) rid of
        None \<Rightarrow> E
      | Some g \<Rightarrow>
          let E1 = E\<lparr>rt_request_geo := ddel rid (rt_request_geo E)\<rparr>;
              lost_req = with_geo (Some g) (new_request rid 0 0 (ge_service_id g) wall)
          in (rt_metric (record_request (lost_req\<lparr>req_status := LostNoCompletion, deadline_violated := True\<rparr>)) E1)
               \<lparr>rt_reaped := dset rid now (rt_reaped E1)\<rparr>)"

definition stale_ids :: "real \<Rightarrow> (int, geo_entry) pydict \<Rightarrow> int list" where
  "stale_ids now geo = map fst (filter (\<lambda>(_, g). max_age < now - ge_routed_at g) geo)"

definition reap_lost_requests :: "real \<Rightarrow> real \<Rightarrow> ('a, 'r, 'k) rt \<Rightarrow> ('a, 'r, 'k) rt" where
  "reap_lost_requests now wall E = fold (reap_one now wall) (stale_ids now (rt_request_geo E)) E"

definition prune_reaped_ids :: "real \<Rightarrow> ('a, 'r, 'k) rt \<Rightarrow> ('a, 'r, 'k) rt" where
  "prune_reaped_ids now E =
     (let stale = map fst (filter (\<lambda>(_, reaped_at). 2 * max_age < now - reaped_at) (rt_reaped E))
      in E\<lparr>rt_reaped := fold ddel stale (rt_reaped E)\<rparr>)"

text \<open>One round of the sweeper, after its pause.\<close>

definition reservation_sweep ::
  "('a, 'r, 'k) rt_world \<Rightarrow> real \<Rightarrow> real \<Rightarrow> ('a, 'r, 'k) rt \<Rightarrow> (('a, 'r, 'k) rt, ('a, 'r, 'k) rt) outcome" where
  "reservation_sweep W now wall E =
     bindE (during E (sweep_expired_reservations (rw_redis W) N_SERVERS N_SERVICES wall (rt_db E))) (\<lambda>(released, db').
       Inr (prune_reaped_ids now (reap_lost_requests now wall (E\<lparr>rt_db := db'\<rparr>))))"

section \<open>Utilization and energy\<close>

definition busy_of_replica ::
  "'r redis \<Rightarrow> heap \<Rightarrow> int \<Rightarrow> real \<Rightarrow> int \<times> nat \<Rightarrow> real \<times> 'r \<Rightarrow> (real \<times> 'r) result" where
  "busy_of_replica R h sid elapsed = (\<lambda>(svc, a) (busy, db).
     if r_state (h a) \<noteq> RepReady \<and> r_state (h a) \<noteq> RepDraining then Inr (busy, db)
     else let (exact_busy_sec, db') = pop_busy_seconds_acc R svc sid db
          in bindE (service_of svc) (\<lambda>info.
               Inr (busy + min exact_busy_sec elapsed * of_int (resource_mips info), db')))"

definition sample_server ::
  "'r redis \<Rightarrow> real \<Rightarrow> int \<times> server \<Rightarrow> ('a, 'r, 'k) rt \<Rightarrow> (('a, 'r, 'k) rt, ('a, 'r, 'k) rt) outcome" where
  "sample_server R elapsed = (\<lambda>(sid, s) E.
     if srv_state s = SrvOff then Inr E
     else bindE (during E (if srv_state s = SrvActive \<or> srv_state s = SrvDraining
                 then foldE (busy_of_replica R (rt_store E) sid elapsed) (hosted_replicas s) (0, rt_db E)
                 else Inr (0, rt_db E))) (\<lambda>(busy_mips_seconds, db').
       let power = (if srv_state s = SrvBooting then srv_p_idle s
                    else srv_p_idle s + (srv_p_max s - srv_p_idle s)
                         * (if 0 < srv_capacity s \<and> 0 < elapsed
                            then busy_mips_seconds / elapsed / of_int (srv_capacity s) else 0))
       in Inr (E\<lparr>rt_db := db',
                 rt_servers := dset sid
                   (s\<lparr>cumulative_busy_cpu_seconds := cumulative_busy_cpu_seconds s + busy_mips_seconds,
                      cumulative_energy_joule := cumulative_energy_joule s + power * elapsed\<rparr>) (rt_servers E)\<rparr>)))"

definition utilization_energy_sample ::
  "('a, 'r, 'k) rt_world \<Rightarrow> real \<Rightarrow> ('a, 'r, 'k) rt \<Rightarrow> (('a, 'r, 'k) rt, ('a, 'r, 'k) rt) outcome" where
  "utilization_energy_sample W elapsed E = foldE (sample_server (rw_redis W) elapsed) (rt_servers E) E"

end
