(* ===== verification/Deploy.thy ===== *)
theory Deploy
  imports Dispatch Control
begin

text \<open>
  \<open>k8s_adapter/realtime_dispatcher.py\<close>, second part: how the deployment is controlled. The
  decision loop and the background tasks are coroutines of one event loop: each operation below is
  the code between two points at which a coroutine waits, so operations interleave only as wholes.
  A segment reads the monotonic clock once (\<open>now\<close>); \<open>tick_now\<close> is the reading of the decision tick
  that a later segment still uses. Log lines are left out.
\<close>

section \<open>Access\<close>

definition rt_server_at :: "('a, 'r, 'k) rt \<Rightarrow> int \<Rightarrow> server result" where
  "rt_server_at E sid = dlookup (rt_servers E) sid"

definition rt_put_server :: "int \<Rightarrow> server \<Rightarrow> ('a, 'r, 'k) rt \<Rightarrow> ('a, 'r, 'k) rt" where
  "rt_put_server sid s E = E\<lparr>rt_servers := dset sid s (rt_servers E)\<rparr>"

definition rt_put_replica :: "nat \<Rightarrow> replica \<Rightarrow> ('a, 'r, 'k) rt \<Rightarrow> ('a, 'r, 'k) rt" where
  "rt_put_replica a r E = E\<lparr>rt_store := (rt_store E)(a := r)\<rparr>"

definition rt_redis :: "('r \<Rightarrow> 'r) \<Rightarrow> ('a, 'r, 'k) rt \<Rightarrow> ('a, 'r, 'k) rt" where
  "rt_redis f E = E\<lparr>rt_db := f (rt_db E)\<rparr>"

definition rt_n_active :: "('a, 'r, 'k) rt \<Rightarrow> nat" where
  "rt_n_active E = length (in_state SrvActive (rt_servers E))"

definition rt_centroid_of :: "('a, 'r, 'k) rt \<Rightarrow> int \<Rightarrow> (real \<times> real) option" where
  "rt_centroid_of E svc = dget_or None (rt_demand_centroid E) svc"

definition rt_alg :: "('a, 'r, 'k) rt_world \<Rightarrow> 'a algorithm" where
  "rt_alg W = w_alg (rw_world W)"

text \<open>A call to the cluster, which may have had its effect even when it raises.\<close>

definition on_cluster :: "('k \<Rightarrow> 'b result \<times> 'k) \<Rightarrow> ('a, 'r, 'k) rt \<Rightarrow> 'b result \<times> ('a, 'r, 'k) rt" where
  "on_cluster f E = (let (r, k) = f (rt_cluster E) in (r, E\<lparr>rt_cluster := k\<rparr>))"

section \<open>Servers\<close>

definition activate_server ::
  "('a, 'r, 'k) rt_world \<Rightarrow> int \<Rightarrow> bool \<Rightarrow> real \<Rightarrow> ('a, 'r, 'k) rt \<Rightarrow> (('a, 'r, 'k) rt, ('a, 'r, 'k) rt) outcome" where
  "activate_server W server_id is_emergency now E =
     bindE (during E (rt_server_at E server_id)) (\<lambda>s.
       if srv_state s = SrvActive then Inr E
       else bindE (settle (on_cluster (uncordon_node (rw_kube W) server_id) E)) (\<lambda>(_, E1).
         let s' = s\<lparr>srv_state := SrvActive, is_emergency_boot := is_emergency, last_transition_time := now,
                    num_boots := num_boots s + 1,
                    cumulative_energy_joule := cumulative_energy_joule s + E_BOOT_SERVER_J\<rparr>;
             E2 = rt_metric (record_transition ServerBoot)
                    (rt_put_server server_id s' (rt_redis (set_server_state (rw_redis W) server_id ''ACTIVE'') E1));
             rescued = map fst (filter (\<lambda>(svc_id, target_id). target_id = server_id) (rt_emergency_boot E2))
         in Inr (E2\<lparr>rt_emergency_boot := fold ddel rescued (rt_emergency_boot E2)\<rparr>)))"

definition rt_emergency_step ::
  "('a, 'r, 'k) rt_world \<Rightarrow> server list \<Rightarrow> server \<Rightarrow> real \<Rightarrow> int
   \<Rightarrow> (int, int) pydict \<times> ('a, 'r, 'k) rt \<Rightarrow> ((int, int) pydict \<times> ('a, 'r, 'k) rt, ('a, 'r, 'k) rt) outcome" where
  "rt_emergency_step W off_servers draining_server now svc_id = (\<lambda>(reserved_cpu, E).
     if svc_id \<in> set (dkeys (rt_emergency_boot E)) then Inr (reserved_cpu, E)
     else bindE (during E (service_of svc_id)) (\<lambda>svc.
       let cpu = resource_mips svc;
           candidates = filter (\<lambda>x. cpu \<le> srv_capacity x - dget_or 0 reserved_cpu (srv_id x)) off_servers
       in case sort_key (km_from (srv_lat draining_server, srv_long draining_server)) candidates of
            [] \<Rightarrow> Inr (reserved_cpu, E)
          | target # _ \<Rightarrow>
              let k = srv_id target
              in bindE (activate_server W k True now
                          (E\<lparr>rt_emergency_boot := dset svc_id k (rt_emergency_boot E)\<rparr>)) (\<lambda>E1.
                 bindE (during E1 (rt_server_at E1 k)) (\<lambda>t.
                   Inr (dadd k cpu reserved_cpu, rt_put_server k (t\<lparr>is_emergency_boot := True\<rparr>) E1)))))"

definition rt_trigger_emergency_boot ::
  "('a, 'r, 'k) rt_world \<Rightarrow> int list \<Rightarrow> server \<Rightarrow> real \<Rightarrow> ('a, 'r, 'k) rt \<Rightarrow> (('a, 'r, 'k) rt, ('a, 'r, 'k) rt) outcome" where
  "rt_trigger_emergency_boot W unmigrated_services draining_server now E =
     bindE (foldE (rt_emergency_step W (in_state SrvOff (rt_servers E)) draining_server now)
              (w_iter_set (rw_world W) unmigrated_services) ([], E))
       (\<lambda>(_, E'). Inr E')"

section \<open>Replicas\<close>

definition rt_create_replica ::
  "('a, 'r, 'k) rt_world \<Rightarrow> int \<Rightarrow> int \<Rightarrow> real \<Rightarrow> ('a, 'r, 'k) rt
   \<Rightarrow> (nat option \<times> ('a, 'r, 'k) rt, ('a, 'r, 'k) rt) outcome" where
  "rt_create_replica W server_id service_id now E =
     bindE (during E (rt_server_at E server_id)) (\<lambda>s.
     bindE (during E (service_of service_id)) (\<lambda>svc.
       if \<not> can_host (w_cfg (rw_world W)) (rt_store E) s service_id (resource_mips svc) (rt_centroid_of E service_id)
       then Inr (None, E)
       else bindE (settle (on_cluster (create_deployment (rw_kube W) service_id server_id) E)) (\<lambda>(_, E1).
         let E2 = rt_metric (record_transition PodCreate)
                    (rt_redis (set_replica_state (rw_redis W) service_id server_id ''STARTING'') E1);
             s2 = s\<lparr>cumulative_energy_joule := cumulative_energy_joule s + E_POD_CREATE_J\<rparr>
         in bindE (during (rt_put_server server_id s2 E2) (compute_exec_time_sec service_id (host_mips s))) (\<lambda>et.
           let a = rt_next_ref E2;
               s' = s2\<lparr>hosted_replicas := dset service_id a (hosted_replicas s2)\<rparr>
           in Inr (Some a,
                rt_put_server server_id s'
                  (rt_put_replica a (new_replica service_id server_id (svc_queue_len svc) et now)
                    (E2\<lparr>rt_next_ref := a + 1,
                        rt_replicas_by_service :=
                          dset service_id (rt_by_service E2 service_id @ [a]) (rt_replicas_by_service E2),
                        rt_background := rt_background E2 @ [PollReady service_id server_id a now]\<rparr>)))))))"

text \<open>
  One round of \<open>_poll_until_ready\<close>, which began at \<open>start\<close>; the result tells whether the task is
  over. An exception of the cluster is logged and the task goes on.
\<close>

definition poll_round ::
  "('a, 'r, 'k) rt_world \<Rightarrow> int \<Rightarrow> int \<Rightarrow> nat \<Rightarrow> real \<Rightarrow> real \<Rightarrow> ('a, 'r, 'k) rt \<Rightarrow> bool \<times> ('a, 'r, 'k) rt" where
  "poll_round W service_id server_id a start now E =
     (if \<not> now - start < 120 then (True, E)
      else case on_cluster (is_deployment_ready (rw_kube W) service_id server_id) E of
             (Inr True, E1) \<Rightarrow>
               (case on_cluster (cluster_pod_ip (rw_kube W) service_id server_id) E1 of
                  (Inr (Some ip), E2) \<Rightarrow>
                    if ip = [] then (False, E2)
                    else (True,
                      rt_put_replica a ((rt_store E2 a)\<lparr>r_state := RepReady, r_ready_since := Some now\<rparr>)
                        (rt_redis (\<lambda>db. set_replica_state (rw_redis W) service_id server_id ''READY''
                            (set_pod_ip (rw_redis W) service_id server_id ip db)) E2))
                | (_, E2) \<Rightarrow> (False, E2))
           | (_, E1) \<Rightarrow> (False, E1))"

text \<open>
  \<open>_delete_replica\<close> up to its first wait: the replica to delete and when its queue counts as lost.
\<close>

definition delete_begin ::
  "('a, 'r, 'k) rt_world \<Rightarrow> int \<Rightarrow> int \<Rightarrow> real \<Rightarrow> ('a, 'r, 'k) rt
   \<Rightarrow> (nat \<times> real) option result \<times> ('a, 'r, 'k) rt" where
  "delete_begin W service_id server_id now E =
     (case rt_server_at E server_id of
        Inl e \<Rightarrow> (Inl e, E)
      | Inr s \<Rightarrow>
          (case dget (hosted_replicas s) service_id of
             None \<Rightarrow> (Inr None, E)
           | Some a \<Rightarrow>
               let r = rt_store E a
               in (bindE (service_of service_id) (\<lambda>svc.
                     Inr (Some (a, now + (real (svc_queue_len svc) * r_exec_time r + GRACEFUL_TERMINATION_DELAY_SEC)))),
                   rt_redis (set_replica_state (rw_redis W) service_id server_id ''DRAINING'')
                     (rt_put_replica a (r\<lparr>r_state := RepDraining\<rparr>) E))))"

definition delete_waits ::
  "('a, 'r, 'k) rt_world \<Rightarrow> int \<Rightarrow> int \<Rightarrow> real \<Rightarrow> real \<Rightarrow> ('a, 'r, 'k) rt \<Rightarrow> bool result" where
  "delete_waits W service_id server_id until now E =
     (if now < until
      then bindE (get_queue_occupancy (rw_redis W) service_id server_id (rt_db E)) (\<lambda>n. Inr (\<not> n \<le> 0))
      else Inr False)"

text \<open>The rest of it; \<open>del\<close> raises when the entry is gone.\<close>

definition delete_end ::
  "('a, 'r, 'k) rt_world \<Rightarrow> int \<Rightarrow> int \<Rightarrow> nat \<Rightarrow> ('a, 'r, 'k) rt \<Rightarrow> unit result \<times> ('a, 'r, 'k) rt" where
  "delete_end W service_id server_id a E =
     (case on_cluster (delete_deployment (rw_kube W) service_id server_id) E of
        (Inl e, E1) \<Rightarrow> (Inl e, E1)
      | (Inr _, E1) \<Rightarrow>
          let E2 = rt_metric (record_transition PodDelete)
                     (rt_put_replica a ((rt_store E1 a)\<lparr>r_state := RepTerminated\<rparr>)
                       (rt_redis (remove_replica (rw_redis W) service_id server_id) E1))
          in case rt_server_at E2 server_id of
               Inl e \<Rightarrow> (Inl e, E2)
             | Inr s \<Rightarrow>
                 if service_id \<notin> set (dkeys (hosted_replicas s)) then (Inl KeyError, E2)
                 else let E3 = rt_put_server server_id
                                 (s\<lparr>hosted_replicas := ddel service_id (hosted_replicas s)\<rparr>) E2
                      in (Inr (), E3\<lparr>rt_replicas_by_service :=
                            dset service_id (filter (\<lambda>x. x \<noteq> a) (rt_by_service E3 service_id))
                              (rt_replicas_by_service E3)\<rparr>))"

text \<open>
  One step of a background task: what remains of the task and the state; an exception ends it.
\<close>

definition after_begin ::
  "('a, 'r, 'k) rt_world \<Rightarrow> int \<Rightarrow> int \<Rightarrow> nat \<Rightarrow> real \<Rightarrow> real \<Rightarrow> ('a, 'r, 'k) rt
   \<Rightarrow> background option \<times> ('a, 'r, 'k) rt" where
  "after_begin W svc sid a until now E =
     (case delete_waits W svc sid until now E of
        Inl e \<Rightarrow> (None, E)
      | Inr True \<Rightarrow> (Some (DeleteWaiting svc sid a until), E)
      | Inr False \<Rightarrow> (None, snd (delete_end W svc sid a E)))"

fun background_step ::
  "('a, 'r, 'k) rt_world \<Rightarrow> real \<Rightarrow> background \<Rightarrow> ('a, 'r, 'k) rt \<Rightarrow> background option \<times> ('a, 'r, 'k) rt" where
  "background_step W now (PollReady svc sid a start) E =
     (let (over, E') = poll_round W svc sid a start now E
      in (if over then None else Some (PollReady svc sid a start), E'))"
| "background_step W now (DeletePending svc sid) E =
     (case delete_begin W svc sid now E of
        (Inr (Some (a, until)), E') \<Rightarrow> after_begin W svc sid a until now E'
      | (_, E') \<Rightarrow> (None, E'))"
| "background_step W now (DeleteWaiting svc sid a until) E = after_begin W svc sid a until now E"

definition run_background ::
  "('a, 'r, 'k) rt_world \<Rightarrow> real \<Rightarrow> nat \<Rightarrow> ('a, 'r, 'k) rt \<Rightarrow> ('a, 'r, 'k) rt" where
  "run_background W now i E =
     (if i < length (rt_background E)
      then let (rest, E') = background_step W now (rt_background E ! i)
                              (E\<lparr>rt_background := take i (rt_background E) @ drop (Suc i) (rt_background E)\<rparr>)
           in E'\<lparr>rt_background := rt_background E' @ (case rest of None \<Rightarrow> [] | Some t \<Rightarrow> [t])\<rparr>
      else E)"

end
