(* ===== verification/Decide.thy ===== *)
theory Decide
  imports Deploy
begin

text \<open>
  \<open>k8s_adapter/realtime_dispatcher.py\<close>, third part: the decision loop. It is a coroutine that
  waits between ticks, and within a tick while a server is drained: first for the pods that take
  over its services, then for the queue of each replica it deletes (\<open>control\<close>). An exception
  ends it and with it the run; the state it leaves is kept (\<open>outcome\<close>).
\<close>

section \<open>Snapshots\<close>

definition rt_server_entry :: "real \<Rightarrow> ('a, 'r, 'k) rt \<Rightarrow> int \<times> server \<Rightarrow> int \<times> server_snapshot" where
  "rt_server_entry now E = (\<lambda>(sid, s).
     let window_elapsed = now - rt_util_window_start E;
         avg_util = (if 1 / 10 ^ 9 < window_elapsed \<and> 0 < srv_capacity s
                     then (cumulative_busy_cpu_seconds s - dget_or 0 (rt_util_at_window_start E) sid)
                          / (of_int (srv_capacity s) * window_elapsed)
                     else 0)
     in (sid, \<lparr>ss_state = srv_state s, ss_utilization = avg_util,
               ss_free_capacity = free_capacity (rt_store E) s,
               ss_provision_cooldown_active = in_cooldown now COOLDOWN_SEC s,
               ss_min_active_duration_met =
                 (is_emergency_boot s \<or> MIN_ACTIVE_DURATION_SEC \<le> now - last_transition_time s),
               ss_is_last_active_server = (srv_state s = SrvActive \<and> rt_n_active E \<le> 1),
               ss_turn_off_necessary = None\<rparr>))"

definition rt_ready_of :: "('a, 'r, 'k) rt \<Rightarrow> int \<Rightarrow> nat list" where
  "rt_ready_of E svc = filter (\<lambda>a. r_state (rt_store E a) = RepReady) (rt_by_service E svc)"

definition rt_mature_of :: "real \<Rightarrow> ('a, 'r, 'k) rt \<Rightarrow> int \<Rightarrow> nat list" where
  "rt_mature_of now E svc =
     filter (\<lambda>a. MIN_REPLICA_AGE_BEFORE_SCALE_DOWN_SEC \<le> now - r_created_at (rt_store E a)) (rt_ready_of E svc)"

definition rt_avg_occupancy :: "('a, 'r, 'k) rt_world \<Rightarrow> int \<Rightarrow> ('a, 'r, 'k) rt \<Rightarrow> real result" where
  "rt_avg_occupancy W svc E =
     (let ready = rt_ready_of E svc
      in bindE (mapE (\<lambda>a. get_queue_occupancy (rw_redis W) svc (r_server_id (rt_store E a)) (rt_db E)) ready) (\<lambda>ns.
           Inr (if ready \<noteq> [] then of_int (sum_list ns) / real (length ready) else 0)))"

definition rt_service_entry ::
  "('a, 'r, 'k) rt_world \<Rightarrow> real \<Rightarrow> int \<Rightarrow> (int, service_snapshot) pydict \<times> ('a, 'r, 'k) rt
   \<Rightarrow> ((int, service_snapshot) pydict \<times> ('a, 'r, 'k) rt, ('a, 'r, 'k) rt) outcome" where
  "rt_service_entry W now svc_id = (\<lambda>(entries, E).
     let reps = rt_by_service E svc_id;
         arrivals = dget_or 0 (rt_tick_total E) svc_id;
         rejected = dget_or 0 (rt_tick_rejected E) svc_id;
         total = real (max arrivals 1);
         rolling' = push_tick svc_id rejected arrivals (rt_rolling E);
         rolling_rate = rolling_rejection_rate rolling' svc_id;
         E1 = E\<lparr>rt_rolling := rolling'\<rparr>
     in bindE (during E1 (rt_avg_occupancy W svc_id E)) (\<lambda>avg_occ.
        let E2 = (if 0 < arrivals
                  then E1\<lparr>rt_demand_centroid :=
                           dset svc_id (medoid (dget_or [] (rt_recent_positions E1) svc_id)) (rt_demand_centroid E1)\<rparr>
                  else E1)
        in bindE (during E2 (service_of svc_id)) (\<lambda>info.
          let entry = \<lparr>sv_n_replicas = length (filter (\<lambda>a. r_state (rt_store E2 a) = RepReady
                                                       \<or> r_state (rt_store E2 a) = RepStarting) reps),
                       sv_n_ready_replicas = length (rt_ready_of E2 svc_id),
                       sv_n_mature_ready_replicas = length (rt_mature_of now E2 svc_id),
                       sv_avg_queue_occupancy = avg_occ,
                       sv_queue_len = svc_queue_len info,
                       sv_rejection_rate = real rejected / total,
                       sv_deadline_violation_rate = real (dget_or 0 (rt_tick_violated E2) svc_id) / total,
                       sv_rejection_rate_rolling = Some rolling_rate,
                       sv_recent_arrivals = arrivals,
                       sv_demand_centroid = rt_centroid_of E2 svc_id,
                       sv_proximity_violation_rate = real (dget_or 0 (rt_tick_proximity E2) svc_id) / total,
                       sv_scale_cooldown_active =
                         (now - dget_or 0 (rt_last_scale_time E2) svc_id < COOLDOWN_SEC)\<rparr>
          in Inr (entries @ [(svc_id, entry)], E2))))"

definition rt_build_metrics_snapshot ::
  "('a, 'r, 'k) rt_world \<Rightarrow> real \<Rightarrow> ('a, 'r, 'k) rt \<Rightarrow> (snapshot \<times> ('a, 'r, 'k) rt, ('a, 'r, 'k) rt) outcome" where
  "rt_build_metrics_snapshot W now E =
     (let srvs = map (rt_server_entry now E) (rt_servers E)
      in bindE (foldE (rt_service_entry W now) ACTIVE_SERVICES ([], E)) (\<lambda>(svcs, E1).
           let current_energy = (\<Sum>s\<leftarrow>dvals (rt_servers E1). cumulative_energy_joule s)
           in Inr (\<lparr>sn_servers = srvs, sn_services = svcs,
                    sn_avg_response_time_recent =
                      (if rt_tick_responses E1 \<noteq> []
                       then sum_list (rt_tick_responses E1) / real (length (rt_tick_responses E1)) else 0),
                    sn_energy_recent_joule = current_energy - rt_energy_at_last_tick E1,
                    sn_num_rejected_recent = sum_list (dvals (rt_tick_rejected E1)),
                    sn_turn_on_necessary = None\<rparr>,
                   E1\<lparr>rt_energy_at_last_tick := current_energy\<rparr>)))"

section \<open>Signals and audits\<close>

definition rt_track_server ::
  "snapshot \<Rightarrow> real \<Rightarrow> int \<times> server \<Rightarrow> ('a, 'r, 'k) rt \<Rightarrow> (('a, 'r, 'k) rt, ('a, 'r, 'k) rt) outcome" where
  "rt_track_server sn now = (\<lambda>(sid, s) E.
     if srv_state s \<noteq> SrvActive
     then Inr (E\<lparr>rt_low_util_since := dset sid None (rt_low_util_since E),
                 rt_high_util_since := dset sid None (rt_high_util_since E)\<rparr>)
     else bindE (during E (dlookup (sn_servers sn) sid)) (\<lambda>x.
       let util = ss_utilization x;
           keep = (\<lambda>d. case dget_or None d sid of None \<Rightarrow> dset sid (Some now) d | Some _ \<Rightarrow> d)
       in Inr (E\<lparr>rt_low_util_since := (if util < UTIL_SCALE_DOWN_THRESHOLD then keep (rt_low_util_since E)
                                       else dset sid None (rt_low_util_since E)),
                 rt_high_util_since := (if UTIL_SCALE_UP_THRESHOLD < util then keep (rt_high_util_since E)
                                        else dset sid None (rt_high_util_since E))\<rparr>)))"

definition rt_update_sustain_tracking ::
  "snapshot \<Rightarrow> real \<Rightarrow> ('a, 'r, 'k) rt \<Rightarrow> (('a, 'r, 'k) rt, ('a, 'r, 'k) rt) outcome" where
  "rt_update_sustain_tracking sn now E = foldE (rt_track_server sn now) (rt_servers E) E"

definition rt_sustained_overloaded :: "real \<Rightarrow> ('a, 'r, 'k) rt \<Rightarrow> bool" where
  "rt_sustained_overloaded now E \<longleftrightarrow>
     (\<exists>since \<in> set (dvals (rt_high_util_since E)). sustained now SUSTAIN_HIGH_SEC since)"

definition rt_sustained_underloaded :: "real \<Rightarrow> ('a, 'r, 'k) rt \<Rightarrow> bool" where
  "rt_sustained_underloaded now E \<longleftrightarrow>
     \<not> rt_n_active E \<le> 1
     \<and> (\<exists>since \<in> set (dvals (rt_low_util_since E)). sustained now SUSTAIN_LOW_SEC since)"

definition rt_was_turn_off_necessary :: "('a, 'r, 'k) rt \<Rightarrow> int \<Rightarrow> real \<Rightarrow> bool" where
  "rt_was_turn_off_necessary E server_id now =
     sustained now SUSTAIN_LOW_SEC (dget_or None (rt_low_util_since E) server_id)"

definition rt_service_capacity_starved ::
  "('a, 'r, 'k) rt_world \<Rightarrow> ('a, 'r, 'k) rt \<Rightarrow> snapshot \<Rightarrow> bool result" where
  "rt_service_capacity_starved W E sn =
     anyE (\<lambda>svc_id.
       bindE (dlookup (sn_services sn) svc_id) (\<lambda>sv.
         if \<not> was_scale_up_necessary sv then Inr False
         else bindE (service_of svc_id) (\<lambda>info.
           Inr (\<not> (\<exists>s \<in> set (dvals (rt_servers E)). (srv_state s = SrvActive \<or> srv_state s = SrvBooting)
                    \<and> can_host (w_cfg (rw_world W)) (rt_store E) s svc_id (resource_mips info)
                        (sv_demand_centroid sv))))))
       ACTIVE_SERVICES"

definition rt_turn_on_necessary ::
  "('a, 'r, 'k) rt_world \<Rightarrow> real \<Rightarrow> ('a, 'r, 'k) rt \<Rightarrow> snapshot \<Rightarrow> bool result" where
  "rt_turn_on_necessary W now E sn =
     (if rt_sustained_overloaded now E then Inr True else rt_service_capacity_starved W E sn)"

definition rt_turn_on_audit ::
  "('a, 'r, 'k) rt_world \<Rightarrow> ('a, 'r, 'k) rt \<Rightarrow> snapshot \<Rightarrow> bool result" where
  "rt_turn_on_audit W E sn =
     bindE (anyE (\<lambda>(sid, s).
               if srv_state s = SrvActive
               then bindE (dlookup (sn_servers sn) sid) (\<lambda>x. Inr (UTIL_SCALE_UP_THRESHOLD < ss_utilization x))
               else Inr False) (rt_servers E)) (\<lambda>overloaded_now.
       if overloaded_now then Inr True else rt_service_capacity_starved W E sn)"

definition rt_turn_off_audit :: "int \<Rightarrow> snapshot \<Rightarrow> bool result" where
  "rt_turn_off_audit server_id sn =
     bindE (dlookup (sn_servers sn) server_id) (\<lambda>x. Inr (ss_utilization x < UTIL_SCALE_DOWN_THRESHOLD))"

definition rt_annotate ::
  "('a, 'r, 'k) rt_world \<Rightarrow> real \<Rightarrow> ('a, 'r, 'k) rt \<Rightarrow> snapshot \<Rightarrow> snapshot result" where
  "rt_annotate W now E sn =
     bindE (rt_turn_on_necessary W now E sn) (\<lambda>b.
       Inr (sn\<lparr>sn_turn_on_necessary := Some b,
               sn_servers := map (\<lambda>(sid, x).
                   (sid, x\<lparr>ss_turn_off_necessary := Some (rt_was_turn_off_necessary E sid now)\<rparr>)) (sn_servers sn)\<rparr>))"

section \<open>Scaling\<close>

definition rt_account :: "decision_kind \<Rightarrow> bool \<Rightarrow> bool \<Rightarrow> bool \<Rightarrow> ('a, 'r, 'k) rt \<Rightarrow> ('a, 'r, 'k) rt" where
  "rt_account kind needed taken proposed E =
     (if needed \<and> \<not> taken
      then rt_metric (if proposed then record_blocked_opportunity kind else record_missed_opportunity kind) E
      else E)"

definition rt_service_in_cooldown :: "int \<Rightarrow> real \<Rightarrow> ('a, 'r, 'k) rt \<Rightarrow> bool" where
  "rt_service_in_cooldown svc_id tick_now E \<longleftrightarrow>
     tick_now - dget_or 0 (rt_last_scale_time E) svc_id < COOLDOWN_SEC"

definition rt_note_scaled :: "int \<Rightarrow> real \<Rightarrow> decision_kind \<Rightarrow> bool \<Rightarrow> ('a, 'r, 'k) rt \<Rightarrow> ('a, 'r, 'k) rt" where
  "rt_note_scaled svc_id tick_now kind necessary E =
     rt_metric (record_decision_correctness kind necessary)
       ((rt_metric (record_scale_action kind) E)
          \<lparr>rt_last_scale_time := dset svc_id tick_now (rt_last_scale_time E)\<rparr>)"

definition rt_try_scale_up ::
  "('a, 'r, 'k) rt_world \<Rightarrow> bool \<Rightarrow> int \<Rightarrow> real \<Rightarrow> real \<Rightarrow> ('a, 'r, 'k) rt \<Rightarrow> (bool \<times> ('a, 'r, 'k) rt, ('a, 'r, 'k) rt) outcome" where
  "rt_try_scale_up W necessary svc_id tick_now now E =
     bindE (during E (alg_select_placement_server (rt_alg W) (rt_algorithm E) (rt_demand_centroid E) svc_id
              (rt_servers E) (rt_store E))) (\<lambda>target.
       case target of
         None \<Rightarrow> Inr (False, E)
       | Some t \<Rightarrow>
           bindE (rt_create_replica W t svc_id now E) (\<lambda>(new_r, E1).
             case new_r of
               None \<Rightarrow> Inr (False, E1)
             | Some _ \<Rightarrow> Inr (True, rt_note_scaled svc_id tick_now KScaleUp necessary E1)))"

definition rt_try_scale_down ::
  "('a, 'r, 'k) rt_world \<Rightarrow> bool \<Rightarrow> int \<Rightarrow> real \<Rightarrow> ('a, 'r, 'k) rt \<Rightarrow> (bool \<times> ('a, 'r, 'k) rt, ('a, 'r, 'k) rt) outcome" where
  "rt_try_scale_down W necessary svc_id tick_now E =
     (if 1 < length (rt_ready_of E svc_id)
      then let mature = rt_mature_of tick_now E svc_id
           in if mature = [] then Inr (False, E)
              else bindE (during E (rw_victim W (rt_algorithm E) svc_id mature (rt_servers E) tick_now (rt_store E)
                            (\<lambda>a. bindE (get_queue_occupancy (rw_redis W) svc_id (r_server_id (rt_store E a)) (rt_db E))
                                   (\<lambda>n. Inr (nat n))))) (\<lambda>victim.
                     Inr (True, rt_note_scaled svc_id tick_now KScaleDown necessary
                            (E\<lparr>rt_background := rt_background E
                                 @ [DeletePending svc_id (r_server_id (rt_store E victim))]\<rparr>)))
      else Inr (False, E))"

definition rt_apply_scale_decision ::
  "('a, 'r, 'k) rt_world \<Rightarrow> int \<Rightarrow> scale_action \<Rightarrow> snapshot \<Rightarrow> real \<Rightarrow> real \<Rightarrow> ('a, 'r, 'k) rt
   \<Rightarrow> (('a, 'r, 'k) rt, ('a, 'r, 'k) rt) outcome" where
  "rt_apply_scale_decision W svc_id decision sn tick_now now E =
     bindE (during E (dlookup (sn_services sn) svc_id)) (\<lambda>sv.
       let necessary_up = was_scale_up_necessary sv;
           necessary_down = was_scale_down_necessary sv
       in bindE (case decision of
                   ScaleNoChange \<Rightarrow> Inr (False, E)
                 | ScaleUp \<Rightarrow> if rt_service_in_cooldown svc_id tick_now E then Inr (False, E)
                              else rt_try_scale_up W necessary_up svc_id tick_now now E
                 | ScaleDown \<Rightarrow> if rt_service_in_cooldown svc_id tick_now E then Inr (False, E)
                                else rt_try_scale_down W necessary_down svc_id tick_now E) (\<lambda>(applied, E1).
            Inr (rt_account KScaleDown necessary_down
                   (decision = ScaleDown \<and> applied) (decision = ScaleDown)
                   (rt_account KScaleUp necessary_up
                      (decision = ScaleUp \<and> applied) (decision = ScaleUp) E1))))"

definition rt_decide_and_scale ::
  "('a, 'r, 'k) rt_world \<Rightarrow> snapshot \<Rightarrow> real \<Rightarrow> real \<Rightarrow> int \<Rightarrow> ('a, 'r, 'k) rt \<Rightarrow> (('a, 'r, 'k) rt, ('a, 'r, 'k) rt) outcome" where
  "rt_decide_and_scale W sn tick_now now svc_id E =
     bindE (during E (alg_scale_decision (rt_alg W) (rt_algorithm E) svc_id sn)) (\<lambda>(decision, st').
       rt_apply_scale_decision W svc_id decision sn tick_now now (E\<lparr>rt_algorithm := st'\<rparr>))"

definition rt_reset_tick :: "real \<Rightarrow> ('a, 'r, 'k) rt \<Rightarrow> ('a, 'r, 'k) rt" where
  "rt_reset_tick tick_now E =
     E\<lparr>rt_util_at_window_start :=
         fold (\<lambda>(sid, s). dset sid (cumulative_busy_cpu_seconds s)) (rt_servers E) (rt_util_at_window_start E),
       rt_util_window_start := tick_now,
       rt_tick_total := [], rt_tick_rejected := [], rt_tick_violated := [], rt_tick_proximity := [],
       rt_tick_responses := []\<rparr>"

section \<open>Provisioning\<close>

definition rt_try_turn_on ::
  "('a, 'r, 'k) rt_world \<Rightarrow> snapshot \<Rightarrow> bool \<Rightarrow> int \<Rightarrow> real \<Rightarrow> ('a, 'r, 'k) rt \<Rightarrow> (bool \<times> ('a, 'r, 'k) rt, ('a, 'r, 'k) rt) outcome" where
  "rt_try_turn_on W sn necessary sid now E =
     bindE (during E (rt_server_at E sid)) (\<lambda>s.
       if srv_state s \<noteq> SrvOff then Inr (False, E)
       else if in_cooldown now COOLDOWN_SEC s then Inr (False, E)
       else if \<not> necessary \<and> \<not> alg_bypass_sustain_gate (rt_alg W) then Inr (False, E)
       else bindE (during E (rt_turn_on_audit W E sn)) (\<lambda>necessary_now.
            bindE (activate_server W sid False now E) (\<lambda>E1.
              Inr (True, rt_metric (record_decision_correctness KTurnOn necessary_now)
                           (rt_metric (record_scale_action KTurnOn) E1)))))"

definition rt_turn_off_gate :: "('a, 'r, 'k) rt_world \<Rightarrow> int \<Rightarrow> real \<Rightarrow> ('a, 'r, 'k) rt \<Rightarrow> bool result" where
  "rt_turn_off_gate W sid now E =
     bindE (rt_server_at E sid) (\<lambda>s.
       if srv_state s \<noteq> SrvActive then Inr False
       else if \<not> rt_was_turn_off_necessary E sid now \<and> \<not> alg_bypass_sustain_gate (rt_alg W) then Inr False
       else if rt_n_active E \<le> 1 then Inr False
       else if in_cooldown now COOLDOWN_SEC s then Inr False
       else if \<not> is_emergency_boot s \<and> now - last_transition_time s < MIN_ACTIVE_DURATION_SEC then Inr False
       else Inr True)"

text \<open>The migration steps that still fit when the earlier ones are counted.\<close>

definition rt_validate_step ::
  "('a, 'r, 'k) rt \<Rightarrow> migration_step \<Rightarrow> (int, int) pydict \<times> migration_step list
   \<Rightarrow> ((int, int) pydict \<times> migration_step list) result" where
  "rt_validate_step E step = (\<lambda>(reserved_cpu, valid_steps).
     bindE (rt_server_at E (ms_target_server_id step)) (\<lambda>target.
     bindE (service_of (ms_service_id step)) (\<lambda>svc.
       let cpu = resource_mips svc
       in if cpu \<le> free_capacity (rt_store E) target - dget_or 0 reserved_cpu (srv_id target)
          then Inr (dadd (srv_id target) cpu reserved_cpu, valid_steps @ [step])
          else Inr (reserved_cpu, valid_steps))))"

definition rt_sole_hosted :: "('a, 'r, 'k) rt \<Rightarrow> int \<Rightarrow> server \<Rightarrow> int list" where
  "rt_sole_hosted E server_id s =
     map fst (filter (\<lambda>(svc_id, a). r_state (rt_store E a) \<noteq> RepTerminated
                        \<and> \<not> hosted_elsewhere (rt_store E) (rt_servers E) server_id svc_id)
                (hosted_replicas s))"

definition rt_migrate_step ::
  "('a, 'r, 'k) rt_world \<Rightarrow> real \<Rightarrow> migration_step \<Rightarrow> ((int, nat) pydict \<times> int list) \<times> ('a, 'r, 'k) rt
   \<Rightarrow> (((int, nat) pydict \<times> int list) \<times> ('a, 'r, 'k) rt, ('a, 'r, 'k) rt) outcome" where
  "rt_migrate_step W now step = (\<lambda>((new_replicas, failed), E).
     bindE (rt_create_replica W (ms_target_server_id step) (ms_service_id step) now E) (\<lambda>(new_r, E1).
       Inr (case new_r of
              None \<Rightarrow> (new_replicas, List.insert (ms_service_id step) failed)
            | Some a \<Rightarrow> (dset (ms_service_id step) a new_replicas, failed), E1)))"

text \<open>
  \<open>_drain_server\<close> up to its first wait: \<open>None\<close> when it gives up, otherwise the replicas that take
  over and the services that could not be placed.
\<close>

definition rt_drain_start ::
  "('a, 'r, 'k) rt_world \<Rightarrow> int \<Rightarrow> real \<Rightarrow> ('a, 'r, 'k) rt
   \<Rightarrow> (((int, nat) pydict \<times> int list) option \<times> ('a, 'r, 'k) rt, ('a, 'r, 'k) rt) outcome" where
  "rt_drain_start W server_id now E =
     bindE (during E (rt_server_at E server_id)) (\<lambda>s.
       if srv_state s \<noteq> SrvActive then Inr (None, E)
       else bindE (during E (alg_migration_decision (rt_alg W) (rt_algorithm E) (rt_demand_centroid E) s
                     (rt_servers E) (rt_store E))) (\<lambda>proposed.
            bindE (during E (foldE (rt_validate_step E) proposed ([], []))) (\<lambda>(_, steps).
              let unmigrated = filter (\<lambda>k. k \<notin> set (map ms_service_id steps)) (rt_sole_hosted E server_id s)
              in if unmigrated \<noteq> []
                 then bindE (rt_trigger_emergency_boot W unmigrated s now E) (\<lambda>E1. Inr (None, E1))
                 else bindE (foldE (rt_migrate_step W now) steps
                               (([], []), rt_put_server server_id (s\<lparr>srv_state := SrvDraining\<rparr>) E)) (\<lambda>(out, E1).
                        Inr (Some out, E1)))))"

text \<open>What the decision loop remembers while it waits within a tick.\<close>

record drain =
  dr_server :: int
  dr_new :: "(int, nat) pydict"
  dr_failed :: "int list"
  dr_pending :: "int list"
  dr_since :: real
  dr_tick_now :: real
  dr_action :: provision_action
  dr_snapshot :: snapshot
  dr_on_necessary :: bool
  dr_off_opportunity :: bool

datatype control =
    Asleep
  | Stopped
  | AwaitReady drain
  | AwaitQueue drain int nat real "int list"

definition next_round :: "('a, 'r, 'k) rt \<Rightarrow> control" where
  "next_round E = (if rt_running E then Asleep else Stopped)"

text \<open>The tick from the end of \<open>_apply_provisioning\<close> on.\<close>

definition finish_tick ::
  "('a, 'r, 'k) rt_world \<Rightarrow> provision_action \<Rightarrow> snapshot \<Rightarrow> bool \<Rightarrow> bool \<Rightarrow> bool \<Rightarrow> real \<Rightarrow> real
   \<Rightarrow> ('a, 'r, 'k) rt \<Rightarrow> (control \<times> ('a, 'r, 'k) rt, ('a, 'r, 'k) rt) outcome" where
  "finish_tick W action sn on_necessary off_opportunity applied tick_now now E =
     (let proposed_turn_on = (pa_action action = TurnOn \<and> pa_server_id action \<noteq> None);
          proposed_turn_off = (pa_action action = TurnOff \<and> pa_server_id action \<noteq> None);
          E1 = rt_account KTurnOff off_opportunity (pa_action action = TurnOff \<and> applied) proposed_turn_off
                 (rt_account KTurnOn on_necessary applied proposed_turn_on E)
      in bindE (foldE (rt_decide_and_scale W sn tick_now now) ACTIVE_SERVICES E1) (\<lambda>E2.
           let E3 = rt_reset_tick tick_now E2 in Inr (next_round E3, E3)))"

definition drain_closed ::
  "('a, 'r, 'k) rt_world \<Rightarrow> drain \<Rightarrow> bool \<Rightarrow> real \<Rightarrow> ('a, 'r, 'k) rt \<Rightarrow> (control \<times> ('a, 'r, 'k) rt, ('a, 'r, 'k) rt) outcome" where
  "drain_closed W d applied now E =
     finish_tick W (dr_action d) (dr_snapshot d) (dr_on_necessary d) (dr_off_opportunity d) applied
       (dr_tick_now d) now E"

text \<open>\<open>_drain_server\<close> after the last replica is gone, and what follows when it succeeded.\<close>

definition drain_finish ::
  "('a, 'r, 'k) rt_world \<Rightarrow> drain \<Rightarrow> real \<Rightarrow> ('a, 'r, 'k) rt \<Rightarrow> (control \<times> ('a, 'r, 'k) rt, ('a, 'r, 'k) rt) outcome" where
  "drain_finish W d now E =
     (let k = dr_server d
      in bindE (during E (rt_server_at E k)) (\<lambda>s.
           if dr_failed d \<noteq> []
           then drain_closed W d False now (rt_put_server k (s\<lparr>srv_state := SrvActive\<rparr>) E)
           else bindE (settle (on_cluster (cordon_node (rw_kube W) k) E)) (\<lambda>(_, E1).
                  let s' = s\<lparr>srv_state := SrvOff, last_transition_time := now, num_shutdowns := num_shutdowns s + 1\<rparr>;
                      E2 = rt_metric (record_scale_action KTurnOff)
                             (rt_metric (record_transition ServerShutdown)
                               (rt_put_server k s' (rt_redis (set_server_state (rw_redis W) k ''OFF'') E1)))
                  in bindE (during E2 (rt_turn_off_audit k (dr_snapshot d))) (\<lambda>audit.
                       drain_closed W d True now (rt_metric (record_decision_correctness KTurnOff audit) E2)))))"

text \<open>The replicas still to be deleted, each up to the wait for its queue.\<close>

fun drain_deletes ::
  "('a, 'r, 'k) rt_world \<Rightarrow> drain \<Rightarrow> real \<Rightarrow> int list \<Rightarrow> ('a, 'r, 'k) rt \<Rightarrow> (control \<times> ('a, 'r, 'k) rt, ('a, 'r, 'k) rt) outcome" where
  "drain_deletes W d now [] E = drain_finish W d now E"
| "drain_deletes W d now (svc # rest) E =
     bindE (settle (delete_begin W svc (dr_server d) now E)) (\<lambda>(task, E1).
       case task of
         None \<Rightarrow> drain_deletes W d now rest E1
       | Some (a, until) \<Rightarrow>
           bindE (during E1 (delete_waits W svc (dr_server d) until now E1)) (\<lambda>waits.
             if waits then Inr (AwaitQueue d svc a until rest, E1)
             else bindE (settle (delete_end W svc (dr_server d) a E1)) (\<lambda>(_, E2).
                    drain_deletes W d now rest E2)))"

definition after_ready ::
  "('a, 'r, 'k) rt_world \<Rightarrow> drain \<Rightarrow> real \<Rightarrow> ('a, 'r, 'k) rt \<Rightarrow> (control \<times> ('a, 'r, 'k) rt, ('a, 'r, 'k) rt) outcome" where
  "after_ready W d now E =
     (let failed = fold List.insert (filter (\<lambda>svc. svc \<in> set (dr_pending d)) (dkeys (dr_new d))) (dr_failed d)
      in bindE (during E (rt_server_at E (dr_server d))) (\<lambda>s.
           drain_deletes W (d\<lparr>dr_failed := failed\<rparr>) now
             (filter (\<lambda>svc. svc \<notin> set failed) (dkeys (hosted_replicas s))) E))"

text \<open>\<open>_wait_specific_ready\<close> from the test of its loop on.\<close>

definition wait_ready ::
  "('a, 'r, 'k) rt_world \<Rightarrow> drain \<Rightarrow> real \<Rightarrow> ('a, 'r, 'k) rt \<Rightarrow> (control \<times> ('a, 'r, 'k) rt, ('a, 'r, 'k) rt) outcome" where
  "wait_ready W d now E =
     (if dr_pending d \<noteq> [] \<and> now - dr_since d < POD_STARTUP_DELAY_SEC + 60
      then let d' = d\<lparr>dr_pending := filter (\<lambda>svc. case dget (dr_new d) svc of
                          None \<Rightarrow> True | Some a \<Rightarrow> r_state (rt_store E a) \<noteq> RepReady) (dr_pending d)\<rparr>
           in if dr_pending d' \<noteq> [] then Inr (AwaitReady d', E) else after_ready W d' now E
      else after_ready W d now E)"

definition rt_begin_provisioning ::
  "('a, 'r, 'k) rt_world \<Rightarrow> provision_action \<Rightarrow> snapshot \<Rightarrow> real \<Rightarrow> ('a, 'r, 'k) rt
   \<Rightarrow> (control \<times> ('a, 'r, 'k) rt, ('a, 'r, 'k) rt) outcome" where
  "rt_begin_provisioning W action sn now E =
     bindE (during E (rt_turn_on_necessary W now E sn)) (\<lambda>on_necessary.
       let off_opportunity = rt_sustained_underloaded now E;
           close = finish_tick W action sn on_necessary off_opportunity
       in case pa_server_id action of
            None \<Rightarrow> close False now now E
          | Some sid \<Rightarrow>
              (case pa_action action of
                 ProvNoChange \<Rightarrow> close False now now E
               | TurnOn \<Rightarrow>
                   bindE (rt_try_turn_on W sn on_necessary sid now E) (\<lambda>(applied, E1). close applied now now E1)
               | TurnOff \<Rightarrow>
                   bindE (during E (rt_turn_off_gate W sid now E)) (\<lambda>passes.
                     if \<not> passes then close False now now E
                     else bindE (rt_drain_start W sid now E) (\<lambda>(out, E1).
                            case out of
                              None \<Rightarrow> close False now now E1
                            | Some (new_replicas, failed) \<Rightarrow>
                                wait_ready W
                                  \<lparr>dr_server = sid, dr_new = new_replicas, dr_failed = failed,
                                   dr_pending = dkeys new_replicas, dr_since = now, dr_tick_now = now,
                                   dr_action = action, dr_snapshot = sn, dr_on_necessary = on_necessary,
                                   dr_off_opportunity = off_opportunity\<rparr> now E1))))"

section \<open>The loop\<close>

definition begin_tick ::
  "('a, 'r, 'k) rt_world \<Rightarrow> real \<Rightarrow> ('a, 'r, 'k) rt \<Rightarrow> (control \<times> ('a, 'r, 'k) rt, ('a, 'r, 'k) rt) outcome" where
  "begin_tick W now E =
     bindE (rt_build_metrics_snapshot W now E) (\<lambda>(sn0, E1).
       let (m, h) = record_snapshot (w_np (rw_world W)) now (rt_servers E1) (rt_store E1) (rt_metrics E1)
       in bindE (rt_update_sustain_tracking sn0 now (E1\<lparr>rt_metrics := m, rt_store := h\<rparr>)) (\<lambda>E2.
          bindE (during E2 (rt_annotate W now E2 sn0)) (\<lambda>sn.
          bindE (during E2 (alg_provision_decision (rt_alg W) (rt_algorithm E2) (rt_servers E2) (rt_store E2) sn now))
            (\<lambda>(action, st').
               rt_begin_provisioning W action sn now (E2\<lparr>rt_algorithm := st'\<rparr>)))))"

fun control_step ::
  "('a, 'r, 'k) rt_world \<Rightarrow> real \<Rightarrow> control \<Rightarrow> ('a, 'r, 'k) rt \<Rightarrow> (control \<times> ('a, 'r, 'k) rt, ('a, 'r, 'k) rt) outcome" where
  "control_step W now Asleep E = begin_tick W now E"
| "control_step W now Stopped E = Inr (Stopped, E)"
| "control_step W now (AwaitReady d) E = wait_ready W d now E"
| "control_step W now (AwaitQueue d svc a until rest) E =
     bindE (during E (delete_waits W svc (dr_server d) until now E)) (\<lambda>waits.
       if waits then Inr (AwaitQueue d svc a until rest, E)
       else bindE (settle (delete_end W svc (dr_server d) a E)) (\<lambda>(_, E1).
              drain_deletes W d now rest E1))"

section \<open>Start and end\<close>

definition rt_initial_bts :: "('a, 'r, 'k) rt_world \<Rightarrow> event_row list \<Rightarrow> (real \<times> real) list" where
  "rt_initial_bts W df =
     (case df of
        [] \<Rightarrow> w_drop_duplicates (rw_world W) []
      | row # rows \<Rightarrow>
          let first = fold (\<lambda>r m. min m (row_start r)) rows (row_start row)
          in w_drop_duplicates (rw_world W)
               (map (\<lambda>r. (row_lat r, row_long r))
                  (filter (\<lambda>r. row_start r \<le> first + MONITOR_WINDOW_SEC) df)))"

definition rt_nearest_capable_server ::
  "('a, 'r, 'k) rt_world \<Rightarrow> int \<Rightarrow> int list \<Rightarrow> ('a, 'r, 'k) rt \<Rightarrow> int option result" where
  "rt_nearest_capable_server W service_id candidate_ids E =
     bindE (service_of service_id) (\<lambda>svc.
     bindE (mapE (rt_server_at E) candidate_ids) (\<lambda>ss.
       let candidates = filter (\<lambda>s. can_host (w_cfg (rw_world W)) (rt_store E) s service_id (resource_mips svc) None) ss
       in if candidates = [] then Inr None
          else bindE (mean_position candidates) (\<lambda>centroid.
                 Inr (map_option srv_id (first_by (km_from centroid) candidates)))))"

definition rt_place_initial ::
  "('a, 'r, 'k) rt_world \<Rightarrow> int list \<Rightarrow> real \<Rightarrow> int \<Rightarrow> ('a, 'r, 'k) rt \<Rightarrow> (('a, 'r, 'k) rt, ('a, 'r, 'k) rt) outcome" where
  "rt_place_initial W selected now service_id E =
     bindE (during E (rt_nearest_capable_server W service_id selected E)) (\<lambda>target.
       case target of
         None \<Rightarrow> Inr E
       | Some t \<Rightarrow> bindE (rt_create_replica W t service_id now E) (\<lambda>(_, E'). Inr E'))"

text \<open>\<open>reset_all\<close> and \<open>initial_placement\<close> up to the wait for the pods, which changes nothing itself.\<close>

definition rt_start ::
  "('a, 'r, 'k) rt_world \<Rightarrow> real \<Rightarrow> ('a, 'r, 'k) rt \<Rightarrow> (('a, 'r, 'k) rt, ('a, 'r, 'k) rt) outcome" where
  "rt_start W now E0 =
     (let E = rt_redis (reset_all (rw_redis W)) E0
      in bindE (during E (alg_initial_placement (rt_alg W) (rt_algorithm E) (rt_servers E) (rt_initial_bts W (rt_events E))))
           (\<lambda>selected.
              bindE (foldE (\<lambda>sid. activate_server W sid False now) selected E) (\<lambda>E1.
                foldE (rt_place_initial W selected now) ACTIVE_SERVICES E1)))"

definition rt_begin_loops :: "real \<Rightarrow> ('a, 'r, 'k) rt \<Rightarrow> control \<times> ('a, 'r, 'k) rt" where
  "rt_begin_loops now E = (next_round E, E\<lparr>rt_util_window_start := now\<rparr>)"

definition lifetime_over :: "('a, 'r, 'k) rt \<Rightarrow> ('a, 'r, 'k) rt" where
  "lifetime_over E = E\<lparr>rt_running := False\<rparr>"

definition rt_lifetime_sec :: "event_row list \<Rightarrow> real" where
  "rt_lifetime_sec df =
     (case df of
        [] \<Rightarrow> 0
      | row # rows \<Rightarrow> fold (\<lambda>r m. max m (row_start r)) rows (row_start row)
                      - fold (\<lambda>r m. min m (row_start r)) rows (row_start row))
     + (DECISION_INTERVAL_SEC + SERVER_DRAIN_GRACE_SEC + 30)"

end
