(* ===== verification/Traffic.thy ===== *)
theory Traffic
  imports Dispatch Reach
begin

text \<open>
  The books of the dispatcher: every call that returns is counted, at once when the request is
  rejected, otherwise by its completion or, when none came, by the reaper, whichever is first;
  and counted once, unless its completion comes after the reaper has forgotten it.
\<close>

section \<open>The traffic\<close>

text \<open>
  \<open>used\<close> are the identifiers of the calls of \<open>route_request\<close> that returned, \<open>awaited\<close> the requests
  whose pod may still report, \<open>dropped\<close> the reaped identifiers that have been forgotten (more than
  twice the age at which a request counts as lost after it was reaped), and \<open>twice\<close> those of them
  whose report came after that. A pod reports a routed request at most once, as late as it likes,
  and may crash at any time. A call that raises (the client gets an error and may ask again)
  leaves the books alone, and so does the rest of the dispatcher.
\<close>

type_synonym ('a, 'r, 'k) books = "('a, 'r, 'k) rt \<times> int set \<times> int set \<times> int set \<times> int set"

definition same_books :: "('a, 'r, 'k) rt \<Rightarrow> ('a, 'r, 'k) rt \<Rightarrow> bool" where
  "same_books E E' \<longleftrightarrow> rt_request_geo E' = rt_request_geo E \<and> rt_reaped E' = rt_reaped E
     \<and> total_requests (rt_metrics E') = total_requests (rt_metrics E)
     \<and> (accounted (rt_metrics E) \<longrightarrow> accounted (rt_metrics E'))"

fun is_routed :: "route_reply \<Rightarrow> bool" where
  "is_routed (RejectedReply _) \<longleftrightarrow> False"
| "is_routed (RoutedReply _ _ _ _) \<longleftrightarrow> True"

definition forgotten :: "real \<Rightarrow> ('a, 'r, 'k) rt \<Rightarrow> int set" where
  "forgotten now E = {rid. \<exists>t. (rid, t) \<in> set (rt_reaped E) \<and> 2 * max_age < now - t}"

inductive traffic :: "('a, 'r, 'k) rt_world \<Rightarrow> event_row list \<Rightarrow> 'a \<Rightarrow> ('a, 'r, 'k) books \<Rightarrow> bool" for W df st where
  start: "new_rt df st now db k = Inr E \<Longrightarrow> traffic W df st (E, {}, {}, {}, {})"
| route: "traffic W df st (E, used, awaited, dropped, twice) \<Longrightarrow> rid \<notin> used \<Longrightarrow>
    route_request W clk rid svc lat lon E = Inr (reply, E') \<Longrightarrow>
    traffic W df st (E', insert rid used, if is_routed reply then insert rid awaited else awaited, dropped, twice)"
| route_raises: "traffic W df st (E, used, awaited, dropped, twice) \<Longrightarrow>
    route_request W clk rid svc lat lon E = Inl (e, E') \<Longrightarrow> traffic W df st (E', used, awaited, dropped, twice)"
| report: "traffic W df st (E, used, awaited, dropped, twice) \<Longrightarrow> c_request_id c = Some rid \<Longrightarrow> rid \<in> awaited \<Longrightarrow>
    record_external_completion wall c E = Inr E' \<Longrightarrow>
    traffic W df st (E', used, awaited - {rid}, dropped, if rid \<in> dropped then insert rid twice else twice)"
| crash: "traffic W df st (E, used, awaited, dropped, twice) \<Longrightarrow>
    traffic W df st (E, used, awaited - {rid}, dropped, twice)"
| reap: "traffic W df st (E, used, awaited, dropped, twice) \<Longrightarrow>
    traffic W df st (reap_lost_requests now wall E, used, awaited, dropped, twice)"
| prune: "traffic W df st (E, used, awaited, dropped, twice) \<Longrightarrow>
    traffic W df st (prune_reaped_ids now E, used, awaited, dropped \<union> forgotten now E, twice)"
| elsewhere: "traffic W df st (E, used, awaited, dropped, twice) \<Longrightarrow> same_books E E' \<Longrightarrow>
    traffic W df st (E', used, awaited, dropped, twice)"

section \<open>The books balance\<close>

definition balanced :: "('a, 'r, 'k) rt \<Rightarrow> int set \<Rightarrow> int set \<Rightarrow> int set \<Rightarrow> int set \<Rightarrow> bool" where
  "balanced E used awaited dropped twice \<longleftrightarrow>
     finite used \<and> accounted (rt_metrics E)
   \<and> distinct (dkeys (rt_request_geo E)) \<and> distinct (dkeys (rt_reaped E))
   \<and> set (dkeys (rt_request_geo E)) \<inter> set (dkeys (rt_reaped E)) = {}
   \<and> dropped \<inter> (set (dkeys (rt_request_geo E)) \<union> set (dkeys (rt_reaped E))) = {}
   \<and> set (dkeys (rt_request_geo E)) \<union> set (dkeys (rt_reaped E)) \<union> dropped \<subseteq> used
   \<and> awaited \<subseteq> set (dkeys (rt_request_geo E)) \<union> set (dkeys (rt_reaped E)) \<union> dropped
   \<and> twice \<subseteq> dropped - awaited
   \<and> total_requests (rt_metrics E) + length (rt_request_geo E) = card used + card twice"

lemma balanced_twice: "balanced E used awaited dropped twice \<Longrightarrow> finite twice"
  unfolding balanced_def by (meson Diff_subset finite_subset le_sup_iff order_trans)

declare total_record_request [simp]

lemma balanced_same: "same_books E E' \<Longrightarrow> balanced E used awaited dropped twice \<Longrightarrow> balanced E' used awaited dropped twice"
  by (simp add: balanced_def same_books_def)

lemma balanced_crash: "balanced E used awaited dropped twice \<Longrightarrow> balanced E used (awaited - {rid}) dropped twice"
  by (auto simp: balanced_def)

lemma accounted_metric: "accounted m \<Longrightarrow> req_status req \<noteq> Pending \<Longrightarrow> accounted (record_request req m)"
  by (rule accounted_record_request)

text \<open>A call either rejects the request and records it, or enters it among the routed ones.\<close>

lemma dispatch_books:
  assumes "rt_dispatch W clk rid svc lat lon a dl E = Inr (reply, E')"
  shows "is_routed reply \<and> rt_reaped E' = rt_reaped E \<and> rt_metrics E' = rt_metrics E
    \<and> rt_db E' = rt_db E \<and> (\<exists>g. rt_request_geo E' = dset rid g (rt_request_geo E))"
proof -
  obtain s where "dlookup (rt_servers E) (r_server_id (rt_store E a)) = Inr s"
    using assms unfolding rt_dispatch_def Let_def by (rule during_InrE)
  with assms show ?thesis by (auto simp: rt_dispatch_def Let_def split: if_splits)
qed

lemma dispatch_total:
  assumes "dlookup (rt_servers E) (r_server_id (rt_store E a)) = Inr s"
  shows "\<exists>reply E'. rt_dispatch W clk rid svc lat lon a dl E = Inr (reply, E')"
  using assms by (simp add: rt_dispatch_def Let_def)

lemma reject_books:
  "rt_reaped (rt_reject rid svc lat lon status wall E) = rt_reaped E
   \<and> rt_request_geo (rt_reject rid svc lat lon status wall E) = rt_request_geo E
   \<and> rt_db (rt_reject rid svc lat lon status wall E) = rt_db E
   \<and> rt_metrics (rt_reject rid svc lat lon status wall E)
      = record_request ((new_request rid lat lon svc wall)\<lparr>req_status := status\<rparr>) (rt_metrics E)"
  by (simp add: rt_reject_def rt_metric_def)

lemma rt_db_reject [simp]: "rt_db (rt_reject rid svc lat lon status wall E) = rt_db E"
  by (simp add: reject_books)

text \<open>The two ways a call can end, after the selection.\<close>

lemma route_cases:
  assumes "route_request W clk rid svc lat lon E = Inr (reply, E')"
  obtains info chosen st' db' E0 E1 where "service_of svc = Inr info" "E0 = note_arrival svc lat lon E"
    and "rw_select W (rt_algorithm E0) (new_request rid lat lon svc (rc_select clk)) (rt_candidates E0 svc)
      (rt_servers E0) (rc_select clk) (rt_store E0) (rt_occupancy (rw_redis W) (rt_store E0) svc)
      (rt_admit (rw_redis W) (rt_store E0) svc rid (deadline info + 5) (rc_reserve_wall clk)) (Inr (rt_db E0))
      = Inr (chosen, st', Inr db')"
    and "E1 = E0\<lparr>rt_algorithm := st', rt_db := db'\<rparr>"
    and "case chosen of
        None \<Rightarrow> \<exists>status. status \<noteq> Pending \<and> reply = RejectedReply status
          \<and> E' = rt_reject rid svc lat lon status (rc_reject_wall clk) E1
      | Some a \<Rightarrow> rt_dispatch W clk rid svc lat lon a (deadline info) E1 = Inr (reply, E')"
proof -
  define E0 where "E0 = note_arrival svc lat lon E"
  note r = assms [unfolded route_request_def Let_def, folded E0_def]
  obtain info where info: "service_of svc = Inr info" using r by (rule during_InrE)
  note r1 = r [unfolded info during_simps bindE_simps]
  obtain sel where sel: "rw_select W (rt_algorithm E0) (new_request rid lat lon svc (rc_select clk)) (rt_candidates E0 svc)
      (rt_servers E0) (rc_select clk) (rt_store E0) (rt_occupancy (rw_redis W) (rt_store E0) svc)
      (rt_admit (rw_redis W) (rt_store E0) svc rid (deadline info + 5) (rc_reserve_wall clk)) (Inr (rt_db E0)) = Inr sel"
    using r1 by (rule during_InrE)
  obtain chosen st' res where p: "sel = (chosen, st', res)" by (cases sel) auto
  note r2 = r1 [unfolded sel p during_simps bindE_simps prod.case]
  obtain db' where db: "res = Inr db'" using r2 by (rule during_InrE)
  show thesis
    using r2 that [OF info E0_def sel [unfolded p db] refl] unfolding db
    by (cases chosen) (auto split: if_splits)
qed

lemma route_books:
  assumes "route_request W clk rid svc lat lon E = Inr (reply, E')"
  shows "rt_reaped E' = rt_reaped E \<and>
    (if is_routed reply
     then rt_metrics E' = rt_metrics E \<and> (\<exists>g. rt_request_geo E' = dset rid g (rt_request_geo E))
     else (\<exists>req. rt_metrics E' = record_request req (rt_metrics E) \<and> req_status req \<noteq> Pending)
        \<and> rt_request_geo E' = rt_request_geo E)"
  using assms
proof (cases rule: route_cases)
  case (1 info chosen st' db' E0 E1)
  have e: "rt_reaped E1 = rt_reaped E" "rt_metrics E1 = rt_metrics E" "rt_request_geo E1 = rt_request_geo E"
    by (simp_all add: 1 note_arrival_def)
  show ?thesis
  proof (cases chosen)
    case None
    with 1(5) obtain status where r: "status \<noteq> Pending" "reply = RejectedReply status"
      "E' = rt_reject rid svc lat lon status (rc_reject_wall clk) E1" by auto
    have "req_status ((new_request rid lat lon svc (rc_reject_wall clk))\<lparr>req_status := status\<rparr>) \<noteq> Pending"
      using r(1) by simp
    then show ?thesis using reject_books [of rid svc lat lon status "rc_reject_wall clk" E1] e r by auto
  next
    case (Some a)
    with 1(5) show ?thesis using dispatch_books [of W clk rid svc lat lon a "deadline info" E1 reply E'] e by simp
  qed
qed

lemma length_ddel: "distinct (dkeys d) \<Longrightarrow> k \<in> set (dkeys d) \<Longrightarrow> length (ddel k d) + 1 = length d"
  using length_removeAll [of "dkeys d" k] by (simp only: delete_keys [symmetric] length_map)

lemma set_dkeys_ddel: "set (dkeys (ddel k d)) = set (dkeys d) - {k}"
  by (simp only: delete_keys set_removeAll)

lemma route_balanced:
  assumes b: "balanced E used awaited dropped twice" and new: "rid \<notin> used"
    and r: "route_request W clk rid svc lat lon E = Inr (reply, E')"
  shows "balanced E' (insert rid used) (if is_routed reply then insert rid awaited else awaited) dropped twice"
proof (cases "is_routed reply")
  case True
  then obtain g where e: "rt_reaped E' = rt_reaped E" "rt_metrics E' = rt_metrics E"
    "rt_request_geo E' = dset rid g (rt_request_geo E)" using route_books [OF r] by auto
  have k: "rid \<notin> set (dkeys (rt_request_geo E))" "rid \<notin> set (dkeys (rt_reaped E))"
    using b new by (auto simp: balanced_def)
  then have "length (rt_request_geo E') = length (rt_request_geo E) + 1" by (simp add: e(3) dset_new_append)
  moreover have "distinct (dkeys (rt_request_geo E'))" using b by (simp add: e(3) balanced_def)
  moreover have "set (dkeys (rt_request_geo E')) = insert rid (set (dkeys (rt_request_geo E)))"
    unfolding e(3) by (rule set_dkeys_dset)
  ultimately show ?thesis using b k new True by (auto simp: balanced_def e(1,2))
next
  case False
  then obtain req where "rt_reaped E' = rt_reaped E" "rt_request_geo E' = rt_request_geo E"
    "rt_metrics E' = record_request req (rt_metrics E)" "req_status req \<noteq> Pending" using route_books [OF r] by auto
  then show ?thesis using b new False by (auto simp: balanced_def accounted_record_request)
qed

text \<open>A call that raises has at most noted the arrival and changed the routing state.\<close>

lemma route_raises_books:
  assumes "route_request W clk rid svc lat lon E = Inl (e, E')" shows "same_books E E'"
proof -
  have "same_books E (note_arrival svc lat lon E)" by (simp add: same_books_def note_arrival_def)
  moreover have "raises_in (same_books E) (rt_dispatch W clk rid svc lat lon a dl u)" if "same_books E u" for a dl u
    unfolding rt_dispatch_def Let_def by (rule raises_in_bind) (simp_all add: raises_in_during that)
  ultimately have "raises_in (same_books E) (route_request W clk rid svc lat lon E)"
    unfolding route_request_def Let_def
    by (intro raises_in_bind) (auto simp: raises_in_during same_books_def split: prod.splits option.splits intro!: raises_in_bind)
  then show ?thesis using assms by (simp add: raises_in_def)
qed

lemma report_books:
  assumes "record_external_completion wall c E = Inr E'" and "c_request_id c = Some rid"
  shows "rt_reaped E' = rt_reaped E \<and> rt_request_geo E' = ddel rid (rt_request_geo E)
    \<and> (if rid \<in> set (dkeys (rt_reaped E)) then rt_metrics E' = rt_metrics E
       else \<exists>req. rt_metrics E' = record_request req (rt_metrics E) \<and> req_status req \<noteq> Pending)"
proof (cases "already_reaped (Some rid) E")
  case True
  then show ?thesis using assms by (auto simp: record_external_completion_def already_reaped_def pop_geo_def)
next
  case False
  note r = assms(1) [unfolded record_external_completion_def Let_def assms(2) if_not_P [OF False]]
  obtain info where "service_of (c_service_id c) = Inr info" using r by (rule during_InrE)
  then obtain req E2 where e: "E' = rt_metric (record_request (req\<lparr>deadline_violated :=
        \<not> c_success c \<or> deadline info < c_response_time_sec c,
        req_status := if c_success c then Completed else RejectedNoReplica\<rparr>)) E2"
    and E2: "rt_reaped E2 = rt_reaped E" "rt_request_geo E2 = ddel rid (rt_request_geo E)"
      "rt_metrics E2 = rt_metrics E"
    using r by (auto simp: pop_geo_def split: if_splits)
  have "req_status (req\<lparr>deadline_violated := \<not> c_success c \<or> deadline info < c_response_time_sec c,
      req_status := if c_success c then Completed else RejectedNoReplica\<rparr>) \<noteq> Pending" by simp
  moreover have "rid \<notin> set (dkeys (rt_reaped E))" using False by (simp add: already_reaped_def)
  ultimately show ?thesis using E2 unfolding e by (auto simp: rt_metric_def)
qed

lemma report_balanced:
  assumes b: "balanced E used awaited dropped twice" and rid: "c_request_id c = Some rid" "rid \<in> awaited"
    and r: "record_external_completion wall c E = Inr E'"
  shows "balanced E' used (awaited - {rid}) dropped (if rid \<in> dropped then insert rid twice else twice)"
proof -
  note e = report_books [OF r rid(1)]
  have g: "rt_request_geo E' = ddel rid (rt_request_geo E)" "rt_reaped E' = rt_reaped E" using e by simp_all
  have k: "set (dkeys (rt_request_geo E')) = set (dkeys (rt_request_geo E)) - {rid}"
    unfolding g by (rule set_dkeys_ddel)
  show ?thesis
  proof (cases "rid \<in> set (dkeys (rt_reaped E))")
    case True
    then have "rid \<notin> set (dkeys (rt_request_geo E))" using b by (auto simp: balanced_def)
    then have "rt_request_geo E' = rt_request_geo E" unfolding g by (simp add: delete_id)
    then show ?thesis using b e True by (auto simp: balanced_def)
  next
    case False
    then obtain req where "rt_metrics E' = record_request req (rt_metrics E)" "req_status req \<noteq> Pending" using e by auto
    then have m: "accounted (rt_metrics E')" "total_requests (rt_metrics E') = total_requests (rt_metrics E) + 1"
      using b by (simp_all add: balanced_def accounted_record_request)
    show ?thesis
    proof (cases "rid \<in> dropped")
      case True
      then have "rid \<notin> set (dkeys (rt_request_geo E))" using b by (auto simp: balanced_def)
      then have "rt_request_geo E' = rt_request_geo E" unfolding g by (simp add: delete_id)
      moreover have "card (insert rid twice) = card twice + 1"
        using balanced_twice [OF b] b rid(2) by (subst card_insert_disjoint) (auto simp: balanced_def)
      ultimately show ?thesis using b m True by (auto simp: balanced_def g(2))
    next
      case notin: False
      have "length (rt_request_geo E') + 1 = length (rt_request_geo E)"
        unfolding g using b rid(2) False notin by (intro length_ddel) (auto simp: balanced_def)
      moreover have "distinct (dkeys (rt_request_geo E'))" unfolding g using b by (simp add: balanced_def)
      ultimately show ?thesis using b k m notin by (auto simp: balanced_def g(2))
    qed
  qed
qed

lemma reap_one_balanced: "balanced E used awaited dropped twice \<Longrightarrow> balanced (reap_one now wall rid E) used awaited dropped twice"
proof (cases "dget (rt_request_geo E) rid")
  case (Some g)
  assume b: "balanced E used awaited dropped twice"
  have k: "rid \<in> set (dkeys (rt_request_geo E))" using Some by (force dest: dget_mem)
  let ?req = "(with_geo (Some g) (new_request rid 0 0 (ge_service_id g) wall))
    \<lparr>req_status := LostNoCompletion, deadline_violated := True\<rparr>"
  have e: "rt_request_geo (reap_one now wall rid E) = ddel rid (rt_request_geo E)"
    "rt_reaped (reap_one now wall rid E) = dset rid now (rt_reaped E)"
    "rt_metrics (reap_one now wall rid E) = record_request ?req (rt_metrics E)" "req_status ?req \<noteq> Pending"
    using Some by (simp_all add: reap_one_def rt_metric_def Let_def)
  have "length (ddel rid (rt_request_geo E)) + 1 = length (rt_request_geo E)"
    using b k by (intro length_ddel) (auto simp: balanced_def)
  moreover have "distinct (dkeys (ddel rid (rt_request_geo E)))" "distinct (dkeys (dset rid now (rt_reaped E)))"
    using b by (simp_all add: balanced_def)
  ultimately show ?thesis
    using b k unfolding balanced_def e set_dkeys_ddel set_dkeys_dset by (auto simp: accounted_record_request e(4))
qed (simp add: reap_one_def)

lemma reap_balanced:
  assumes "balanced E used awaited dropped twice" shows "balanced (reap_lost_requests now wall E) used awaited dropped twice"
  unfolding reap_lost_requests_def
  by (rule fold_invariant_set [where P = "\<lambda>E. balanced E used awaited dropped twice"]) (use assms reap_one_balanced in blast)+

lemma set_fold_ddel: "set (dkeys (fold ddel ks d)) = set (dkeys d) - set ks"
proof (induction ks arbitrary: d)
  case (Cons k ks)
  have "set (dkeys (fold ddel (k # ks) d)) = set (dkeys (ddel k d)) - set ks" by (simp only: fold_simps Cons.IH)
  then show ?case unfolding set_dkeys_ddel by auto
qed simp

lemma prune_balanced:
  assumes b: "balanced E used awaited dropped twice"
  shows "balanced (prune_reaped_ids now E) used awaited (dropped \<union> forgotten now E) twice"
proof -
  define stale where "stale = map fst (filter (\<lambda>(_, t). 2 * max_age < now - t) (rt_reaped E))"
  have p: "prune_reaped_ids now E = E\<lparr>rt_reaped := fold ddel stale (rt_reaped E)\<rparr>"
    by (simp add: prune_reaped_ids_def stale_def)
  have f: "forgotten now E = set stale" by (force simp: forgotten_def stale_def)
  have "set stale \<subseteq> set (dkeys (rt_reaped E))" by (auto simp: stale_def)
  moreover have "distinct (dkeys (fold ddel stale (rt_reaped E)))"
    by (rule fold_invariant_set [where P = "\<lambda>d. distinct (dkeys d)"]) (use b in \<open>auto simp: balanced_def\<close>)
  moreover have "set (dkeys (fold ddel stale (rt_reaped E))) = set (dkeys (rt_reaped E)) - set stale"
    by (rule set_fold_ddel)
  ultimately show ?thesis using b unfolding p f balanced_def by auto
qed

lemma new_rt_balanced: "new_rt df st now db k = Inr E \<Longrightarrow> balanced E {} {} {} {}"
  by (auto simp: new_rt_def balanced_def accounted_new elim!: bindE_InrE) (simp add: new_metrics_def)

lemma traffic_balanced:
  "traffic W df st (E, used, awaited, dropped, twice) \<Longrightarrow> balanced E used awaited dropped twice"
proof (induction "(E, used, awaited, dropped, twice)" arbitrary: E used awaited dropped twice rule: traffic.induct)
  case (route E used awaited dropped twice rid clk svc lat lon reply E')
  show ?case by (rule route_balanced [OF route(2,3,4)])
next
  case (route_raises E used awaited dropped twice clk rid svc lat lon e E')
  show ?case by (rule balanced_same [OF route_raises_books [OF route_raises(3)] route_raises(2)])
next
  case (report E used awaited dropped twice c rid wall E')
  show ?case by (rule report_balanced [OF report(2,3,4,5)])
qed (auto intro: new_rt_balanced balanced_crash reap_balanced prune_balanced balanced_same)

lemma reap_geo:
  "rt_request_geo (fold (reap_one now wall) ks E) = fold ddel ks (rt_request_geo E)"
proof (induction ks arbitrary: E)
  case (Cons k ks)
  have "rt_request_geo (reap_one now wall k E) = ddel k (rt_request_geo E)"
  proof (cases "dget (rt_request_geo E) k")
    case None
    then have "k \<notin> set (dkeys (rt_request_geo E))" by (simp add: map_of_eq_None_iff)
    then show ?thesis using None by (simp add: reap_one_def)
  qed (simp add: reap_one_def rt_metric_def Let_def)
  then show ?case by (simp add: Cons.IH)
qed simp

text \<open>When every request still open is old enough, the reaper closes them all.\<close>

lemma reap_closes_all:
  assumes "\<forall>(rid, g) \<in> set (rt_request_geo E). max_age < now - ge_routed_at g"
  shows "rt_request_geo (reap_lost_requests now wall E) = []"
proof -
  let ?d = "rt_request_geo E"
  have "stale_ids now ?d = dkeys ?d"
    unfolding stale_ids_def using assms by (intro arg_cong [where f = "map fst"] filter_True) auto
  then have "set (dkeys (fold ddel (stale_ids now ?d) ?d)) = {}" using set_fold_ddel [of "dkeys ?d" ?d] by simp
  then show ?thesis unfolding reap_lost_requests_def reap_geo by simp
qed

text \<open>
  C34. Every call of the dispatcher is counted once, unless its completion comes after the reaper
  has forgotten it. However calls, completion reports, crashes, reaping and pruning follow each
  other, the requests recorded in the metrics and those still open add up to the calls that
  returned plus the calls recorded twice; every recorded one is in exactly one class; and recorded
  twice are only calls that were reaped as lost, forgotten more than twice the age of a lost
  request later, and then reported by their pod. Once the open requests are old enough a round of
  the reaper leaves every call recorded.
\<close>

theorem every_call_counted_once:
  assumes "traffic W df st (E, used, awaited, dropped, twice)"
  shows "total_requests (rt_metrics E) + length (rt_request_geo E) = card used + card twice
    \<and> total_requests (rt_metrics E) = completed_requests (rt_metrics E) + rejected_queue_full (rt_metrics E)
        + rejected_no_replica (rt_metrics E) + lost_no_completion (rt_metrics E)
    \<and> finite used \<and> twice \<subseteq> dropped - awaited \<and> dropped \<subseteq> used
    \<and> ((\<forall>(rid, g) \<in> set (rt_request_geo E). max_age < now - ge_routed_at g) \<longrightarrow>
        total_requests (rt_metrics (reap_lost_requests now wall E)) = card used + card twice)"
proof -
  have b: "balanced E used awaited dropped twice" using assms by (rule traffic_balanced)
  have "total_requests (rt_metrics (reap_lost_requests now wall E)) = card used + card twice"
    if "\<forall>(rid, g) \<in> set (rt_request_geo E). max_age < now - ge_routed_at g"
    using reap_balanced [OF b, of now wall] reap_closes_all [OF that, of wall] by (simp add: balanced_def)
  then show ?thesis using b unfolding balanced_def accounted_def by blast
qed

definition sample_rt_world :: "'a world \<Rightarrow> ('a, rdb, cluster) rt_world" where
  "sample_rt_world W = \<lparr>rw_world = W, rw_redis = assoc_redis, rw_kube = scripted_kube,
     rw_select = base_rt_select, rw_victim = base_rt_victim\<rparr>"

definition sample_clock :: route_clock where
  "sample_clock = \<lparr>rc_started = 1, rc_select = 1, rc_reserve_wall = (\<lambda>_. 100), rc_reject_wall = 100,
     rc_routed = 2, rc_finished = 2\<rparr>"

theorem every_call_counted_once_witness:
  "\<forall>W. \<exists>E. traffic (sample_rt_world W) [] () (E, {7}, {}, {}, {}) \<and> total_requests (rt_metrics E) = 1"
proof (intro allI)
  fix W :: "unit world"
  let ?W = "sample_rt_world W"
  obtain servers where servers: "init_servers = Inr servers"
    using init_servers_fresh by blast
  have "\<exists>E :: (unit, rdb, cluster) rt. new_rt [] () 0 empty_rdb flaky_cluster = Inr E \<and> rt_replicas_by_service E = [] \<and> rt_request_geo E = []"
    by (simp add: new_rt_def servers)
  then obtain E :: "(unit, rdb, cluster) rt" where
    E: "new_rt [] () 0 empty_rdb flaky_cluster = Inr E" "rt_replicas_by_service E = []" "rt_request_geo E = []" by blast
  obtain info where "service_of 1 = Inr info" using service_of_active [of 1] by (auto simp: ACTIVE_SERVICES_def SERVICES_INFO_def)
  then obtain reply E' where r: "route_request ?W sample_clock 7 1 31 121 E = Inr (reply, E')" "\<not> is_routed reply"
    using E(2) by (simp add: route_request_def note_arrival_def rt_candidates_def rt_by_service_def dget_or_def
        sample_rt_world_def base_rt_select_def select_replica_with_def)
  have t: "traffic ?W [] () (E', {7}, {}, {}, {})"
    using traffic.route [OF traffic.start [OF E(1)] _ r(1)] r(2) by simp
  have "rt_request_geo E' = []" using route_books [OF r(1)] r(2) E(3) by simp
  with t every_call_counted_once [OF t] show "\<exists>E. traffic ?W [] () (E, {7}, {}, {}, {}) \<and> total_requests (rt_metrics E) = 1"
    by auto
qed

end
