(* ===== verification/Site.thy ===== *)
theory Site
  imports Decide Traffic
begin

text \<open>
  The deployment as a whole: the decision loop, the background tasks, the calls of the dispatcher,
  the reports of the pods and the samplers, in any order the event loop may run them, up to an
  exception that ends the run and after it. The invariants of the servers, of the replicas they
  host and of the deployments in the cluster.
\<close>

section \<open>The steps of the deployment\<close>

text \<open>
  What runs beside the decision loop. When one of the other loops raises, \<open>gather\<close> ends the run, but
  what the event loop has already scheduled may still run; a call that raises is the client's
  problem only. Either way the state reached stays.
\<close>

inductive beside :: "('a, 'r, 'k) rt_world \<Rightarrow> ('a, 'r, 'k) rt \<Rightarrow> ('a, 'r, 'k) rt \<Rightarrow> bool" for W E where
  background: "beside W E (run_background W now i E)"
| route: "route_request W clk rid svc lat lon E = Inr (reply, E') \<Longrightarrow> beside W E E'"
| route_raises: "route_request W clk rid svc lat lon E = Inl (e, E') \<Longrightarrow> beside W E E'"
| reports: "drain_completion_queue W wall E = Inr E' \<Longrightarrow> beside W E E'"
| reports_raise: "drain_completion_queue W wall E = Inl (e, E') \<Longrightarrow> beside W E E'"
| sample: "utilization_energy_sample W elapsed E = Inr E' \<Longrightarrow> beside W E E'"
| sample_raises: "utilization_energy_sample W elapsed E = Inl (e, E') \<Longrightarrow> beside W E E'"
| sweep: "reservation_sweep W now wall E = Inr E' \<Longrightarrow> beside W E E'"
| sweep_raises: "reservation_sweep W now wall E = Inl (e, E') \<Longrightarrow> beside W E E'"
| lifetime: "beside W E (lifetime_over E)"

text \<open>
  \<open>E0\<close> is the state after the initial placement; the decision loop starts (\<open>loops\<close>) when the wait
  for the first pods is over.
\<close>

inductive site ::
  "('a, 'r, 'k) rt_world \<Rightarrow> ('a, 'r, 'k) rt \<Rightarrow> control option \<times> ('a, 'r, 'k) rt \<Rightarrow> bool" for W E0 where
  launch: "site W E0 (None, E0)"
| loops: "site W E0 (None, E) \<Longrightarrow> rt_begin_loops now E = (c, E') \<Longrightarrow> site W E0 (Some c, E')"
| control: "site W E0 (Some c, E) \<Longrightarrow> control_step W now c E = Inr (c', E') \<Longrightarrow> site W E0 (Some c', E')"
| beside: "site W E0 (c, E) \<Longrightarrow> beside W E E' \<Longrightarrow> site W E0 (c, E')"

text \<open>
  The states after an exception of the initial placement or of the decision loop: the run ends,
  and what was beside it may still run for a while.
\<close>

inductive failed :: "('a, 'r, 'k) rt_world \<Rightarrow> ('a, 'r, 'k) rt \<Rightarrow> ('a, 'r, 'k) rt \<Rightarrow> bool" for W E1 where
  start_raises: "rt_start W now E1 = Inl (e, E) \<Longrightarrow> failed W E1 E"
| control_raises: "rt_start W now E1 = Inr E0 \<Longrightarrow> site W E0 (Some c, E) \<Longrightarrow>
    control_step W t c E = Inl (e, E') \<Longrightarrow> failed W E1 E'"
| aftermath: "failed W E1 E \<Longrightarrow> beside W E E' \<Longrightarrow> failed W E1 E'"

section \<open>What the invariants read\<close>

definition server_view :: "server \<Rightarrow> int \<times> profile \<times> int \<times> (int, nat) pydict" where
  "server_view s = (srv_id s, srv_profile s, srv_capacity s, hosted_replicas s)"

definition hosting :: "('a, 'r, 'k) rt \<Rightarrow> (int, int \<times> profile \<times> int \<times> (int, nat) pydict) pydict" where
  "hosting E = map (\<lambda>(k, s). (k, server_view s)) (rt_servers E)"

definition states_of :: "('a, 'r, 'k) rt \<Rightarrow> (int, server_state) pydict" where
  "states_of E = map (\<lambda>(k, s). (k, srv_state s)) (rt_servers E)"

definition services_of :: "('a, 'r, 'k) rt \<Rightarrow> nat \<Rightarrow> int" where
  "services_of E = (\<lambda>a. r_service_id (rt_store E a))"

text \<open>A step that leaves the servers, what they host and the cluster alone.\<close>

definition bystander :: "('a, 'r, 'k) rt \<Rightarrow> ('a, 'r, 'k) rt \<Rightarrow> bool" where
  "bystander E E' \<longleftrightarrow> hosting E' = hosting E \<and> states_of E' = states_of E \<and> services_of E' = services_of E
     \<and> rt_next_ref E' = rt_next_ref E \<and> rt_cluster E' = rt_cluster E"

lemma bystander_refl [simp]: "bystander E E"
  by (simp add: bystander_def)

lemma bystander_trans: "bystander E E' \<Longrightarrow> bystander E' E'' \<Longrightarrow> bystander E E''"
  by (simp add: bystander_def)

lemma bystander_core:
  "rt_servers E' = rt_servers E \<Longrightarrow> rt_store E' = rt_store E \<Longrightarrow> rt_next_ref E' = rt_next_ref E
     \<Longrightarrow> rt_cluster E' = rt_cluster E \<Longrightarrow> bystander E E'"
  by (simp add: bystander_def hosting_def states_of_def services_of_def)

lemma dget_map: "dget (map (\<lambda>(k, s). (k, g s)) d) k = map_option g (dget d k)"
  by (induction d) auto

lemma dget_hosting: "dget (hosting E) k = map_option server_view (dget (rt_servers E) k)"
  by (simp add: hosting_def dget_map)

lemma dget_states: "dget (states_of E) k = map_option srv_state (dget (rt_servers E) k)"
  by (simp add: states_of_def dget_map)

lemma bystander_get:
  assumes "bystander E u" and "dget (rt_servers E) k = Some s"
  shows "\<exists>s'. dget (rt_servers u) k = Some s' \<and> server_view s' = server_view s \<and> srv_state s' = srv_state s"
  using assms dget_hosting [of E k] dget_hosting [of u k] dget_states [of E k] dget_states [of u k]
  by (cases "dget (rt_servers u) k") (auto simp: bystander_def)

lemma map_dset: "map (\<lambda>(k, s). (k, g s)) (dset k s' d) = dset k (g s') (map (\<lambda>(k, s). (k, g s)) d)"
  by (induction d) auto

lemma dset_same: "dget d k = Some v \<Longrightarrow> dset k v d = d"
  by (induction d) auto

lemma put_server_views:
  "hosting (rt_put_server k s E) = dset k (server_view s) (hosting E)"
  "states_of (rt_put_server k s E) = dset k (srv_state s) (states_of E)"
  "services_of (rt_put_server k s E) = services_of E"
  "rt_next_ref (rt_put_server k s E) = rt_next_ref E" "rt_cluster (rt_put_server k s E) = rt_cluster E"
  "rt_servers (rt_put_server k s E) = dset k s (rt_servers E)" "rt_store (rt_put_server k s E) = rt_store E"
  by (simp_all add: rt_put_server_def hosting_def states_of_def services_of_def map_dset)

lemma bystander_put:
  assumes "dget (rt_servers E) k = Some s" and "server_view s' = server_view s" and "srv_state s' = srv_state s"
  shows "bystander E (rt_put_server k s' E)"
  using assms by (simp add: bystander_def put_server_views dset_same dget_hosting dget_states)

lemma metric_core [simp]:
  "rt_servers (rt_metric f E) = rt_servers E" "rt_store (rt_metric f E) = rt_store E"
  "rt_next_ref (rt_metric f E) = rt_next_ref E" "rt_cluster (rt_metric f E) = rt_cluster E"
  "rt_emergency_boot (rt_metric f E) = rt_emergency_boot E" "rt_background (rt_metric f E) = rt_background E"
  "rt_by_service (rt_metric f E) = rt_by_service E" "rt_replicas_by_service (rt_metric f E) = rt_replicas_by_service E"
  "rt_running (rt_metric f E) = rt_running E"
  by (simp_all add: rt_metric_def rt_by_service_def fun_eq_iff)

lemma redis_core [simp]:
  "rt_servers (rt_redis f E) = rt_servers E" "rt_store (rt_redis f E) = rt_store E"
  "rt_next_ref (rt_redis f E) = rt_next_ref E" "rt_cluster (rt_redis f E) = rt_cluster E"
  "rt_emergency_boot (rt_redis f E) = rt_emergency_boot E" "rt_background (rt_redis f E) = rt_background E"
  "rt_by_service (rt_redis f E) = rt_by_service E" "rt_replicas_by_service (rt_redis f E) = rt_replicas_by_service E"
  "rt_running (rt_redis f E) = rt_running E"
  by (simp_all add: rt_redis_def rt_by_service_def fun_eq_iff)

lemma views_cong:
  "rt_servers E' = rt_servers E \<Longrightarrow> hosting E' = hosting E"
  "rt_servers E' = rt_servers E \<Longrightarrow> states_of E' = states_of E"
  "rt_store E' = rt_store E \<Longrightarrow> services_of E' = services_of E"
  by (simp_all add: hosting_def states_of_def services_of_def)

lemma bystander_replica:
  "r_service_id r = r_service_id (rt_store E a) \<Longrightarrow> bystander E (rt_put_replica a r E)"
  by (auto simp: bystander_def hosting_def states_of_def services_of_def rt_put_replica_def)

lemma bystander_redis: "bystander E (rt_redis f E)"
  by (rule bystander_core) simp_all

lemma bystander_metric: "bystander E (rt_metric f E)"
  by (rule bystander_core) simp_all

lemma fold_bystander:
  assumes "\<And>x u. x \<in> set xs \<Longrightarrow> bystander u (f x u)" shows "bystander E (fold f xs E)"
  by (rule fold_invariant_set [where P = "bystander E"]) (auto intro: bystander_trans assms)

lemma foldE_bystander:
  assumes "foldE f xs E = Inr E'" and "\<And>x u v. x \<in> set xs \<Longrightarrow> f x u = Inr v \<Longrightarrow> bystander u v"
  shows "bystander E E'"
  by (rule foldE_invariant [OF assms(1), where P = "bystander E"]) (auto intro: bystander_trans assms(2))

section \<open>The traffic is a bystander\<close>

lemma route_bystander:
  assumes "route_request W clk rid svc lat lon E = Inr (reply, E')" shows "bystander E E'"
  using assms
proof (cases rule: route_cases)
  case (1 info chosen st' db' E0 E1)
  have E1: "bystander E E1" by (rule bystander_core) (simp_all add: 1(2,4) note_arrival_def)
  have "bystander E1 E'"
  proof (cases chosen)
    case None
    then show ?thesis using 1(5) by (auto intro!: bystander_core simp: rt_reject_def)
  next
    case (Some a)
    then have d: "rt_dispatch W clk rid svc lat lon a (deadline info) E1 = Inr (reply, E')" using 1(5) by simp
    then obtain s where "dlookup (rt_servers E1) (r_server_id (rt_store E1 a)) = Inr s"
      unfolding rt_dispatch_def Let_def by (rule during_InrE)
    with d show ?thesis by (auto simp: rt_dispatch_def Let_def intro!: bystander_core split: if_splits)
  qed
  with E1 show ?thesis by (rule bystander_trans)
qed

lemma report_bystander:
  assumes "record_external_completion wall c E = Inr E'" shows "bystander E E'"
  using assms
  by (auto simp: record_external_completion_def pop_geo_def Let_def intro!: bystander_core elim!: bindE_InrE
      split: if_splits option.splits)

lemma reports_bystander:
  assumes "drain_completion_queue W wall E = Inr E'" shows "bystander E E'"
proof (cases "rt_running E")
  case True
  let ?p = "pop_completion_batch (rw_redis W) 500 (rt_db E)"
  have f: "foldE (record_external_completion wall) (fst ?p) (E\<lparr>rt_db := snd ?p\<rparr>) = Inr E'"
    using assms True by (simp add: drain_completion_queue_def split_beta Let_def)
  have "bystander (E\<lparr>rt_db := snd ?p\<rparr>) E'" by (rule foldE_bystander [OF f]) (rule report_bystander)
  moreover have "bystander E (E\<lparr>rt_db := snd ?p\<rparr>)" by (rule bystander_core) simp_all
  ultimately show ?thesis using bystander_trans by blast
qed (use assms in \<open>simp add: drain_completion_queue_def\<close>)

lemma reap_one_bystander: "bystander E (reap_one now wall rid E)"
  by (auto simp: reap_one_def Let_def intro!: bystander_core split: option.splits)

lemma sweep_bystander:
  assumes "reservation_sweep W now wall E = Inr E'" shows "bystander E E'"
proof -
  obtain db' where e: "E' = prune_reaped_ids now (reap_lost_requests now wall (E\<lparr>rt_db := db'\<rparr>))"
    using assms by (auto simp: reservation_sweep_def elim!: bindE_InrE)
  have "bystander E (E\<lparr>rt_db := db'\<rparr>)" by (rule bystander_core) simp_all
  moreover have "bystander (E\<lparr>rt_db := db'\<rparr>) (reap_lost_requests now wall (E\<lparr>rt_db := db'\<rparr>))"
    unfolding reap_lost_requests_def by (rule fold_bystander) (rule reap_one_bystander)
  moreover have "bystander u (prune_reaped_ids now u)" for u
    by (rule bystander_core) (simp_all add: prune_reaped_ids_def Let_def)
  ultimately show ?thesis unfolding e by (meson bystander_trans)
qed

lemma sample_step_bystander:
  assumes wf: "wf_servers (rt_servers E)" and x: "x \<in> set (rt_servers E)" and u: "bystander E u"
    and s: "sample_server (rw_redis W) elapsed x u = Inr v"
  shows "bystander E v"
proof -
  obtain k s0 where k: "x = (k, s0)" by (cases x)
  have "dget (rt_servers E) k = Some s0" using x k wf by (auto simp: wf_servers_def dget_iff_mem)
  then obtain s1 where s1: "dget (rt_servers u) k = Some s1" "server_view s1 = server_view s0" "srv_state s1 = srv_state s0"
    using bystander_get [OF u] by metis
  have "bystander u v"
  proof (cases "srv_state s0 = SrvOff")
    case True
    then show ?thesis using s k by (simp add: sample_server_def)
  next
    case False
    then obtain busy db' p q where v: "v = rt_put_server k
        (s0\<lparr>cumulative_busy_cpu_seconds := p, cumulative_energy_joule := q\<rparr>) (u\<lparr>rt_db := db'\<rparr>)"
      using s k unfolding sample_server_def prod.case if_not_P [OF False] rt_put_server_def
      by (auto elim!: bindE_InrE simp: Let_def)
    have "bystander u (u\<lparr>rt_db := db'\<rparr>)" by (rule bystander_core) simp_all
    moreover have "bystander (u\<lparr>rt_db := db'\<rparr>) v"
      unfolding v using s1 by (intro bystander_put [where s = s1]) (auto simp: server_view_def)
    ultimately show ?thesis by (rule bystander_trans)
  qed
  with u show ?thesis by (rule bystander_trans)
qed

lemma sample_bystander:
  assumes "wf_servers (rt_servers E)" and "utilization_energy_sample W elapsed E = Inr E'"
  shows "bystander E E'"
  by (rule foldE_invariant [OF assms(2) [unfolded utilization_energy_sample_def], where P = "bystander E"])
    (auto intro: sample_step_bystander [OF assms(1)])

text \<open>The same when they raise.\<close>

lemma raises_bystander: "raises_in (bystander E) m \<Longrightarrow> m = Inl (e, E') \<Longrightarrow> bystander E E'"
  by (simp add: raises_in_def)

lemma route_raises_bystander: "raises_in (bystander E) (route_request W clk rid svc lat lon E)"
proof -
  have d: "raises_in (bystander E) (rt_dispatch W clk rid svc lat lon a dl u)" if "bystander E u" for a dl u
    unfolding rt_dispatch_def Let_def by (rule raises_in_bind) (simp_all add: raises_in_during that)
  have n: "bystander E (note_arrival svc lat lon E)" by (rule bystander_core) (simp_all add: note_arrival_def)
  have u: "bystander E ((note_arrival svc lat lon E)\<lparr>rt_algorithm := x, rt_db := y\<rparr>)" for x y
    by (rule bystander_trans [OF n bystander_core]) simp_all
  show ?thesis
    unfolding route_request_def Let_def
    by (intro raises_in_bind) (auto simp: raises_in_during n intro!: raises_in_bind d u split: prod.splits option.splits)
qed

lemma report_raises_bystander: "raises_in (bystander E) (record_external_completion wall c E)"
proof -
  have "bystander E (pop_geo rid E)" for rid by (auto simp: pop_geo_def intro!: bystander_core split: option.splits)
  then show ?thesis
    unfolding record_external_completion_def Let_def
    by (auto intro!: raises_in_if raises_in_bind simp: raises_in_during)
qed

lemma reports_raise_bystander: "raises_in (bystander E) (drain_completion_queue W wall E)"
proof (cases "rt_running E")
  case True
  let ?p = "pop_completion_batch (rw_redis W) 500 (rt_db E)"
  have "bystander E (E\<lparr>rt_db := snd ?p\<rparr>)" by (rule bystander_core) simp_all
  then have "raises_in (bystander E) (foldE (record_external_completion wall) (fst ?p) (E\<lparr>rt_db := snd ?p\<rparr>))"
    by (rule raises_in_foldE [where P = "bystander E"])
      (auto intro: bystander_trans report_bystander raises_in_mono [OF report_raises_bystander])
  then show ?thesis using True by (simp add: drain_completion_queue_def split_beta Let_def)
qed (simp add: drain_completion_queue_def)

lemma sample_raises_bystander:
  assumes "wf_servers (rt_servers E)" shows "raises_in (bystander E) (utilization_energy_sample W elapsed E)"
  unfolding utilization_energy_sample_def
proof (rule raises_in_foldE [where P = "bystander E"])
  show "raises_in (bystander E) (sample_server (rw_redis W) elapsed x u)" if "bystander E u" for x u
    using that by (cases x) (auto simp: sample_server_def Let_def raises_in_during intro!: raises_in_bind)
qed (auto intro: sample_step_bystander [OF assms])

lemma sweep_raises_bystander: "raises_in (bystander E) (reservation_sweep W now wall E)"
  unfolding reservation_sweep_def by (rule raises_in_bind) (auto simp: raises_in_during)

section \<open>Servers that are on\<close>

lemma in_state_two:
  assumes "wf_servers d" and "1 < length (in_state st d)"
  shows "\<exists>k s. k \<noteq> sid \<and> dget d k = Some s \<and> srv_state s = st"
proof (rule ccontr)
  assume none: "\<not> ?thesis"
  have "srv_id s = sid" if "s \<in> set (in_state st d)" for s
    using in_state_get [OF assms(1) that] none by auto
  then have sub: "set (map srv_id (in_state st d)) \<subseteq> {sid}" by auto
  have "map srv_id (dvals d) = dkeys d" using assms(1) by (auto simp: wf_servers_def)
  then have "distinct (map srv_id (dvals d))" using wf_servers_keys [OF assms(1)] by (simp only:)
  then have "distinct (map srv_id (in_state st d))" unfolding in_state_def by (rule distinct_map_filter)
  then have "length (map srv_id (in_state st d)) = card (set (map srv_id (in_state st d)))"
    by (rule distinct_card [symmetric])
  also have "\<dots> \<le> card {sid}" by (rule card_mono [OF _ sub]) simp
  finally show False using assms(2) by simp
qed

lemma in_state_some:
  assumes "wf_servers d" shows "0 < length (in_state st d) \<longleftrightarrow> (\<exists>k s. dget d k = Some s \<and> srv_state s = st)"
  using in_state_get [OF assms] by (force simp: in_state_def filter_empty_conv dest: dget_mem)

lemma n_active_states:
  assumes "wf_servers (rt_servers E)"
  shows "0 < rt_n_active E \<longleftrightarrow> (\<exists>k. dget (states_of E) k = Some SrvActive)"
  using in_state_some [OF assms, of SrvActive] by (auto simp: rt_n_active_def dget_states)

text \<open>The lights of the fleet after some servers that were off have been turned on.\<close>

definition lights :: "('a, 'r, 'k) rt \<Rightarrow> ('a, 'r, 'k) rt \<Rightarrow> bool" where
  "lights E E' \<longleftrightarrow> (\<forall>k. dget (states_of E') k = dget (states_of E) k
     \<or> dget (states_of E) k = Some SrvOff \<and> dget (states_of E') k = Some SrvActive)"

lemma lights_same: "states_of E' = states_of E \<Longrightarrow> lights E E'"
  by (simp add: lights_def)

lemma lights_trans: "lights E E' \<Longrightarrow> lights E' E'' \<Longrightarrow> lights E E''"
  unfolding lights_def by (metis option.inject server_state.distinct(3))

section \<open>The invariants of the hosts\<close>

text \<open>What a step leaves alone, for the deployments \<open>names\<close> that exist in the cluster.\<close>

definition same_site :: "('k \<Rightarrow> string set) \<Rightarrow> ('a, 'r, 'k) rt \<Rightarrow> ('a, 'r, 'k) rt \<Rightarrow> bool" where
  "same_site names E E' \<longleftrightarrow> hosting E' = hosting E \<and> services_of E' = services_of E \<and> rt_next_ref E' = rt_next_ref E
     \<and> names (rt_cluster E') = names (rt_cluster E)"

text \<open>
  No server reserves more than it has; and no deployment exists in the cluster, besides those that
  were there before (\<open>N0\<close>), that is not a replica some server hosts.
\<close>

definition hosted_names :: "('a, 'r, 'k) rt \<Rightarrow> string set" where
  "hosted_names E = {n. \<exists>k s svc. dget (rt_servers E) k = Some s \<and> svc \<in> set (dkeys (hosted_replicas s))
                         \<and> n = deployment_name svc k}"

definition host_ok :: "('a, 'r, 'k) rt \<Rightarrow> server \<Rightarrow> bool" where
  "host_ok E s \<longleftrightarrow> distinct (dkeys (hosted_replicas s)) \<and> used_cpu (rt_store E) s \<le> srv_capacity s
     \<and> (\<forall>a \<in> set (dvals (hosted_replicas s)). a < rt_next_ref E)"

definition site_ok :: "('k \<Rightarrow> string set) \<Rightarrow> string set \<Rightarrow> ('a, 'r, 'k) rt \<Rightarrow> bool" where
  "site_ok names N0 E \<longleftrightarrow> wf_servers (rt_servers E)
     \<and> (\<forall>k s. dget (rt_servers E) k = Some s \<longrightarrow> host_ok E s)
     \<and> names (rt_cluster E) \<subseteq> N0 \<union> hosted_names E"

text \<open>What holds of a step that leaves the states of the servers alone.\<close>

definition steady :: "('k \<Rightarrow> string set) \<Rightarrow> string set \<Rightarrow> ('a, 'r, 'k) rt \<Rightarrow> ('a, 'r, 'k) rt \<Rightarrow> bool" where
  "steady names N0 E E' \<longleftrightarrow> (site_ok names N0 E \<longrightarrow> site_ok names N0 E' \<and> states_of E' = states_of E)"

fun awaiting :: "control \<Rightarrow> int option" where
  "awaiting (AwaitReady d) = Some (dr_server d)"
| "awaiting (AwaitQueue d svc a until rest) = Some (dr_server d)"
| "awaiting _ = None"

text \<open>
  A server is draining exactly while the decision loop waits for it, no server is booting, and
  one that is active remains.
\<close>

definition lamps_ok :: "control \<Rightarrow> (int, server_state) pydict \<Rightarrow> bool" where
  "lamps_ok c S \<longleftrightarrow> (\<exists>k. dget S k = Some SrvActive)
     \<and> (\<forall>k. dget S k = Some SrvDraining \<longleftrightarrow> awaiting c = Some k) \<and> (\<forall>k. dget S k \<noteq> Some SrvBooting)"

locale deployment_site = kube_server "rw_kube W" names
  for W :: "('a, 'r, 'k) rt_world" and names :: "'k \<Rightarrow> string set"
begin

lemma same_site_trans: "same_site names E E' \<Longrightarrow> same_site names E' E'' \<Longrightarrow> same_site names E E''"
  by (simp add: same_site_def)

lemma same_site_bystander: "bystander E E' \<Longrightarrow> same_site names E E'"
  by (simp add: same_site_def bystander_def)

lemma activate_site:
  assumes "activate_server W k em now E = Inr E'"
  shows "same_site names E E'" and "dget (states_of E') k = Some SrvActive"
    and "j \<noteq> k \<Longrightarrow> dget (states_of E') j = dget (states_of E) j"
proof -
  obtain s where s: "dget (rt_servers E) k = Some s"
    using assms by (auto simp: activate_server_def rt_server_at_def dict_simps elim!: bindE_InrE)
  have "same_site names E E' \<and> dget (states_of E') k = Some SrvActive
      \<and> (j \<noteq> k \<longrightarrow> dget (states_of E') j = dget (states_of E) j)"
  proof (cases "srv_state s = SrvActive")
    case True
    then show ?thesis using assms s
      by (simp add: activate_server_def rt_server_at_def dlookup_def same_site_def dget_states)
  next
    case False
    obtain r k' where u: "uncordon_node (rw_kube W) k (rt_cluster E) = (r, k')" by fastforce
    have n: "names k' = names (rt_cluster E)" by (rule node_keeps(2) [OF u])
    from assms s False u obtain s' where
      e: "rt_servers E' = dset k s' (rt_servers E)" "rt_store E' = rt_store E" "rt_next_ref E' = rt_next_ref E"
        "rt_cluster E' = k'" "server_view s' = server_view s" "srv_state s' = SrvActive"
      by (auto simp: activate_server_def rt_server_at_def dlookup_def on_cluster_def settle_def Let_def
          rt_put_server_def server_view_def elim!: bindE_InrE)
    have "hosting E' = hosting E" using s by (simp add: hosting_def e(1,5) map_dset_same)
    moreover have "states_of E' = dset k SrvActive (states_of E)" by (simp add: states_of_def e(1,6) map_dset)
    ultimately show ?thesis by (simp add: same_site_def n e(2,3,4) services_of_def dict_simps)
  qed
  then show "same_site names E E'" "dget (states_of E') k = Some SrvActive"
    "j \<noteq> k \<Longrightarrow> dget (states_of E') j = dget (states_of E) j" by simp_all
qed

lemma emergency_step_site:
  assumes r: "rt_emergency_step W off d now svc (res, E) = Inr (res', E')"
    and off: "\<And>x. x \<in> set off \<Longrightarrow> dget (states_of E) (srv_id x) \<in> {Some SrvOff, Some SrvActive}"
  shows "same_site names E E' \<and> lights E E'"
proof (cases "svc \<in> set (dkeys (rt_emergency_boot E))")
  case True
  then show ?thesis using r by (simp add: rt_emergency_step_def same_site_def lights_def)
next
  case False
  obtain info where info: "service_of svc = Inr info"
    using r unfolding rt_emergency_step_def prod.case if_not_P [OF False] by (rule during_InrE)
  define cands where "cands = sort_key (km_from (srv_lat d, srv_long d))
      (filter (\<lambda>x. resource_mips info \<le> srv_capacity x - dget_or 0 res (srv_id x)) off)"
  note r' = r [unfolded rt_emergency_step_def prod.case if_not_P [OF False] info during_simps bindE_simps Let_def, folded cands_def]
  show ?thesis
  proof (cases cands)
    case Nil
    then show ?thesis using r' by (simp add: same_site_def lights_def)
  next
    case (Cons target rest)
    have "target \<in> set cands" by (simp add: Cons)
    then have t: "dget (states_of E) (srv_id target) \<in> {Some SrvOff, Some SrvActive}"
      by (intro off) (simp add: cands_def)
    let ?k = "srv_id target"
    let ?E = "E\<lparr>rt_emergency_boot := dset svc ?k (rt_emergency_boot E)\<rparr>"
    obtain E1 where a: "activate_server W ?k True now ?E = Inr E1"
      using r' unfolding Cons list.case by (rule bindE_InrE)
    obtain t1 where t1: "rt_server_at E1 ?k = Inr t1"
      using r' unfolding Cons list.case a bindE_simps by (rule during_InrE)
    have E': "E' = rt_put_server ?k (t1\<lparr>is_emergency_boot := True\<rparr>) E1"
      using r' unfolding Cons list.case a t1 during_simps bindE_simps by simp
    have b: "bystander E1 E'"
      unfolding E' by (rule bystander_put [of _ _ t1]) (use t1 in \<open>simp_all add: rt_server_at_def dict_simps server_view_def\<close>)
    have "bystander E ?E" by (rule bystander_core) simp_all
    then have "same_site names E ?E" "states_of ?E = states_of E" by (simp_all add: same_site_bystander bystander_def)
    moreover have "same_site names ?E E1" by (rule activate_site(1) [OF a])
    moreover have "same_site names E1 E'" "states_of E' = states_of E1"
      using b by (simp_all add: same_site_bystander bystander_def)
    ultimately show ?thesis
      using activate_site(2,3) [OF a] t same_site_trans unfolding lights_def by (metis insertE singletonD)
  qed
qed

lemma emergency_step_keeps:
  assumes wf: "wf_servers (rt_servers E)" and u: "same_site names E (snd u) \<and> lights E (snd u)"
    and s: "rt_emergency_step W (in_state SrvOff (rt_servers E)) d now svc u = Inr v"
  shows "same_site names E (snd v) \<and> lights E (snd v)"
proof -
  let ?off = "in_state SrvOff (rt_servers E)"
  have "dget (states_of (snd u)) (srv_id x) \<in> {Some SrvOff, Some SrvActive}" if "x \<in> set ?off" for x
  proof -
    have "dget (states_of E) (srv_id x) = Some SrvOff"
      using in_state_get [OF wf that] by (simp add: dget_states)
    then show ?thesis using u unfolding lights_def by (metis insertCI)
  qed
  then have "same_site names (snd u) (snd v) \<and> lights (snd u) (snd v)"
    using emergency_step_site [of ?off d now svc "fst u" "snd u" "fst v" "snd v"] s by simp
  then show ?thesis using u same_site_trans lights_trans by blast
qed

lemma emergency_site:
  assumes wf: "wf_servers (rt_servers E)" and r: "rt_trigger_emergency_boot W svcs d now E = Inr E'"
  shows "same_site names E E' \<and> lights E E'"
proof -
  obtain res where f: "foldE (rt_emergency_step W (in_state SrvOff (rt_servers E)) d now) (w_iter_set (rw_world W) svcs)
      ([], E) = Inr (res, E')"
    using r by (auto simp: rt_trigger_emergency_boot_def elim!: bindE_InrE)
  have "same_site names E (snd (res, E')) \<and> lights E (snd (res, E'))"
    by (rule foldE_invariant [OF f, where P = "\<lambda>p. same_site names E (snd p) \<and> lights E (snd p)"])
      (simp add: same_site_def lights_def, rule emergency_step_keeps [OF wf])
  then show ?thesis by simp
qed

lemma hosted_namesI:
  "dget (rt_servers E) k = Some s \<Longrightarrow> svc \<in> set (dkeys (hosted_replicas s)) \<Longrightarrow>
     deployment_name svc k \<in> hosted_names E"
  unfolding hosted_names_def by blast

lemma hosted_namesE:
  assumes "n \<in> hosted_names E"
  obtains k s svc where "dget (rt_servers E) k = Some s" "svc \<in> set (dkeys (hosted_replicas s))"
    "n = deployment_name svc k"
  using assms unfolding hosted_names_def by blast

lemma wf_hosting: "wf_servers (rt_servers E) \<longleftrightarrow>
    distinct (dkeys (hosting E)) \<and> (\<forall>(k, v) \<in> set (hosting E). fst v = k)"
  by (auto simp: wf_servers_def hosting_def server_view_def split_beta comp_def)

lemma used_cpu_view:
  assumes "server_view s' = server_view s" and "\<And>a. r_service_id (h' a) = r_service_id (h a)"
  shows "used_cpu h' s' = used_cpu h s"
  using assms used_cpu_same [of h' h s'] cpu_of_same [of s' s] by (simp add: server_view_def used_cpu_def)

lemma hosting_get:
  assumes "hosting E' = hosting E" and "dget (rt_servers E') k = Some s'"
  shows "\<exists>s. dget (rt_servers E) k = Some s \<and> server_view s' = server_view s"
  using assms dget_hosting [of E k] dget_hosting [of E' k] by (cases "dget (rt_servers E) k") auto

lemma hosted_names_eq: "hosting E' = hosting E \<Longrightarrow> hosted_names E' = hosted_names E"
proof -
  have "hosted_names u \<subseteq> hosted_names v" if "hosting u = hosting v" for u v
    using hosting_get [OF that] by (force simp: hosted_names_def server_view_def)
  then show "hosting E' = hosting E \<Longrightarrow> hosted_names E' = hosted_names E" by (metis subset_antisym)
qed

lemma site_ok_same:
  assumes "same_site names E E'" and ok: "site_ok names N0 E" shows "site_ok names N0 E'"
proof -
  have h: "hosting E' = hosting E" "rt_next_ref E' = rt_next_ref E" "names (rt_cluster E') = names (rt_cluster E)"
    and sv: "\<And>a. r_service_id (rt_store E' a) = r_service_id (rt_store E a)"
    using assms(1) by (simp_all add: same_site_def services_of_def fun_eq_iff)
  have "host_ok E' s'" if g: "dget (rt_servers E') k = Some s'" for k s'
  proof -
    obtain s where s: "dget (rt_servers E) k = Some s" "server_view s' = server_view s"
      using hosting_get [OF h(1) g] by blast
    then have "host_ok E s" using ok by (auto simp: site_ok_def)
    then show ?thesis using used_cpu_view [OF s(2) sv] s(2) h(2) by (simp add: host_ok_def server_view_def)
  qed
  then show ?thesis using ok h hosted_names_eq [OF h(1)] by (simp add: site_ok_def wf_hosting)
qed

text \<open>Creating a replica.\<close>

lemma create_site:
  assumes r: "rt_create_replica W k svc now E = Inr (out, E')" and ok: "site_ok names N0 E"
  shows "site_ok names N0 E'" and "states_of E' = states_of E"
proof -
  obtain s where s: "dget (rt_servers E) k = Some s"
    using r by (auto simp: rt_create_replica_def rt_server_at_def dict_simps elim!: bindE_InrE)
  obtain info where info: "service_of svc = Inr info"
    using r s by (auto simp: rt_create_replica_def rt_server_at_def dict_simps elim!: bindE_InrE)
  have "site_ok names N0 E' \<and> states_of E' = states_of E"
  proof (cases "can_host (w_cfg (rw_world W)) (rt_store E) s svc (resource_mips info) (rt_centroid_of E svc)")
    case False
    then show ?thesis using r s info ok
      by (simp add: rt_create_replica_def rt_server_at_def dlookup_def)
  next
    case True
    obtain q k' where c: "create_deployment (rw_kube W) svc k (rt_cluster E) = (q, k')" by fastforce
    let ?a = "rt_next_ref E"
    from r s info True c obtain et s' where
      e: "rt_servers E' = dset k s' (rt_servers E)" "rt_next_ref E' = ?a + 1" "rt_cluster E' = k'"
        "rt_store E' = (rt_store E)(?a := new_replica svc k (svc_queue_len info) et now)"
        "hosted_replicas s' = dset svc ?a (hosted_replicas s)" "srv_id s' = srv_id s" "srv_profile s' = srv_profile s"
        "srv_capacity s' = srv_capacity s" "srv_state s' = srv_state s"
      by (auto simp: rt_create_replica_def rt_server_at_def dlookup_def on_cluster_def settle_def Let_def
          rt_put_server_def rt_put_replica_def elim!: bindE_InrE)
    have hk: "host_ok E s" and wf: "wf_servers (rt_servers E)" using ok s by (auto simp: site_ok_def)
    note fits = can_host_fits [OF True]
    have dk: "hosted_replicas s' = hosted_replicas s @ [(svc, ?a)]" unfolding e(5) using fits by (simp add: dset_new_append)
    have fresh: "used_cpu (rt_store E') t = used_cpu (rt_store E) t" if "host_ok E t" for t
      unfolding e(4) by (rule used_cpu_fresh) (use that in \<open>force simp: host_ok_def\<close>)
    have mips: "resource_mips_of svc = resource_mips info"
      using info by (simp add: service_of_def resource_mips_of_def dict_simps)
    have cpu: "cpu_of s' r' = cpu_of s r'" for r' by (rule cpu_of_same) (rule e(7))
    have "used_cpu (rt_store E') s' = used_cpu (rt_store E') s + cpu_of s (rt_store E' ?a)"
      by (simp add: used_cpu_def dk cpu)
    also have "cpu_of s (rt_store E' ?a) = effective_mips s (resource_mips info)"
      by (simp add: e(4) cpu_of_def new_replica_def mips)
    finally have "used_cpu (rt_store E') s' \<le> srv_capacity s'" using fits fresh [OF hk] e(8) by simp
    then have hk': "host_ok E' s'" using hk fits by (auto simp: host_ok_def dk e(2) less_Suc_eq)
    have "host_ok E' t" if g: "dget (rt_servers E') j = Some t" for j t
    proof (cases "j = k")
      case True
      then show ?thesis using g hk' by (simp add: e(1) dict_simps)
    next
      case False
      then have "host_ok E t" using g ok by (simp add: e(1) dict_simps site_ok_def)
      then show ?thesis using fresh [of t] by (auto simp: host_ok_def e(2))
    qed
    moreover have "wf_servers (rt_servers E')"
      unfolding e(1) using wf_servers_id [OF wf s] e(6) by (intro wf_servers_dset wf) simp
    moreover have "names k' \<subseteq> insert (deployment_name svc k) (names (rt_cluster E))"
      using create_bounds(2) [OF c] .
    moreover have "insert (deployment_name svc k) (hosted_names E) \<subseteq> hosted_names E'"
    proof -
      have k: "dget (rt_servers E') j = (if j = k then Some s' else dget (rt_servers E) j)" for j
        by (simp add: e(1) dict_simps)
      have "deployment_name svc k \<in> hosted_names E'" by (rule hosted_namesI [of _ _ s']) (simp_all add: k dk)
      moreover have "n \<in> hosted_names E'" if "n \<in> hosted_names E" for n
        using that
      proof (rule hosted_namesE)
        fix j t svc' assume t: "dget (rt_servers E) j = Some t" "svc' \<in> set (dkeys (hosted_replicas t))"
          "n = deployment_name svc' j"
        show "n \<in> hosted_names E'"
          unfolding t(3) using t s by (intro hosted_namesI [of _ _ "if j = k then s' else t"]) (auto simp: k dk)
      qed
      ultimately show ?thesis by blast
    qed
    moreover have "states_of E' = states_of E"
      unfolding states_of_def e(1) by (rule map_dset_same [OF s]) (simp add: e(9))
    ultimately show ?thesis using ok e(3) by (auto simp: site_ok_def)
  qed
  then show "site_ok names N0 E'" "states_of E' = states_of E" by simp_all
qed

text \<open>Deleting one, whether it succeeds or raises.\<close>

lemma used_cpu_del: "used_cpu h (s\<lparr>hosted_replicas := ddel svc (hosted_replicas s)\<rparr>) \<le> used_cpu h s"
proof -
  have "(\<Sum>a\<leftarrow>dvals (ddel svc d). cpu_of s (h a)) \<le> (\<Sum>a\<leftarrow>dvals d. cpu_of s (h a))" for d
    using cpu_of_nonneg by (induction d) (auto intro: add_mono order_trans [OF _ add_increasing])
  moreover have "cpu_of (s\<lparr>hosted_replicas := x\<rparr>) r = cpu_of s r" for x r by (rule cpu_of_same) simp
  ultimately show ?thesis by (simp add: used_cpu_def)
qed

lemma begin_site:
  assumes "delete_begin W svc k now E = (out, E')" shows "bystander E E'"
  using assms
  by (auto simp: delete_begin_def Let_def split: sum.splits option.splits
      intro!: bystander_trans [OF bystander_replica bystander_redis])

lemma end_site:
  assumes r: "delete_end W svc k a E = (out, E')" and ok: "site_ok names N0 E"
  shows "site_ok names N0 E'" and "states_of E' = states_of E"
proof -
  obtain q k' where d: "delete_deployment (rw_kube W) svc k (rt_cluster E) = (q, k')" by fastforce
  let ?E1 = "E\<lparr>rt_cluster := k'\<rparr>"
  have shrink: "site_ok names N0 u \<and> states_of u = states_of E" if "bystander ?E1 u" for u
  proof -
    have u: "hosting u = hosting E" "states_of u = states_of E" "services_of u = services_of E"
      "rt_next_ref u = rt_next_ref E" "rt_cluster u = k'"
      using that by (simp_all add: bystander_def hosting_def states_of_def services_of_def)
    let ?v = "u\<lparr>rt_cluster := rt_cluster E\<rparr>"
    have v: "hosting ?v = hosting u" by (simp add: hosting_def)
    have "same_site names E ?v" using u by (simp add: same_site_def hosting_def services_of_def)
    then have "site_ok names N0 ?v" using ok site_ok_same by blast
    then show ?thesis using u(2,5) delete_bounds(2) [OF d] hosted_names_eq [OF v]
      by (auto simp: site_ok_def host_ok_def)
  qed
  have "site_ok names N0 E' \<and> states_of E' = states_of E"
  proof (cases q)
    case (Inl e)
    then have "E' = ?E1" using r d by (simp add: delete_end_def on_cluster_def)
    then show ?thesis using shrink [of ?E1] by simp
  next
    case (Inr x)
    define E2 where "E2 = rt_metric (record_transition PodDelete)
        (rt_put_replica a ((rt_store ?E1 a)\<lparr>r_state := RepTerminated\<rparr>)
          (rt_redis (remove_replica (rw_redis W) svc k) ?E1))"
    have b: "bystander ?E1 E2"
      by (simp add: E2_def bystander_def hosting_def states_of_def services_of_def rt_put_replica_def fun_eq_iff)
    note ok2 = shrink [OF b]
    have oc: "on_cluster (delete_deployment (rw_kube W) svc k) E = (Inr x, ?E1)" by (simp add: on_cluster_def d Inr)
    have r2: "(out, E') = (case rt_server_at E2 k of
               Inl e \<Rightarrow> (Inl e, E2)
             | Inr s \<Rightarrow>
                 if svc \<notin> set (dkeys (hosted_replicas s)) then (Inl KeyError, E2)
                 else let E3 = rt_put_server k (s\<lparr>hosted_replicas := ddel svc (hosted_replicas s)\<rparr>) E2
                      in (Inr (), E3\<lparr>rt_replicas_by_service :=
                            dset svc (filter (\<lambda>x. x \<noteq> a) (rt_by_service E3 svc)) (rt_replicas_by_service E3)\<rparr>))"
      using r [symmetric] unfolding delete_end_def oc prod.case sum.case Let_def E2_def .
    show ?thesis
    proof (cases "\<exists>s. dget (rt_servers E2) k = Some s \<and> svc \<in> set (dkeys (hosted_replicas s))")
      case False
      then have "E' = E2"
        using r2 by (auto simp: rt_server_at_def dlookup_def split: option.splits)
      then show ?thesis using ok2 by simp
    next
      case True
      then obtain s where s: "dget (rt_servers E2) k = Some s" "svc \<in> set (dkeys (hosted_replicas s))" by blast
      let ?s = "s\<lparr>hosted_replicas := ddel svc (hosted_replicas s)\<rparr>"
      have e: "rt_servers E' = dset k ?s (rt_servers E2)" "rt_store E' = rt_store E2" "rt_next_ref E' = rt_next_ref E2"
          "rt_cluster E' = rt_cluster E2" "out = Inr ()"
        using r2 s by (auto simp: rt_server_at_def dlookup_def Let_def rt_put_server_def)
      have wf: "wf_servers (rt_servers E2)" and hk: "host_ok E2 s" using ok2 s by (auto simp: site_ok_def)
      have "distinct (dkeys (ddel svc (hosted_replicas s)))" using hk by (simp add: host_ok_def)
      moreover have "\<forall>a \<in> set (dvals (ddel svc (hosted_replicas s))). a < rt_next_ref E2"
        using hk by (auto simp: host_ok_def AList.delete_eq)
      ultimately have "host_ok E' ?s"
        using hk used_cpu_del [of "rt_store E2" svc s] by (simp add: host_ok_def e)
      moreover have "host_ok E' t" if "host_ok E2 t" for t using that by (simp add: host_ok_def e)
      ultimately have h: "host_ok E' t" if "dget (rt_servers E') j = Some t" for j t
        using that ok2 by (auto simp: e(1) dict_simps site_ok_def split: if_splits)
      have gone: "deployment_name svc k \<notin> names (rt_cluster E')"
        using delete_bounds(3) [OF d] Inr b by (simp add: e(4) bystander_def)
      have "hosted_names E2 - {deployment_name svc k} \<subseteq> hosted_names E'"
      proof
        have k: "dget (rt_servers E') j = (if j = k then Some ?s else dget (rt_servers E2) j)" for j
          by (simp add: e(1) dict_simps)
        fix n assume n: "n \<in> hosted_names E2 - {deployment_name svc k}"
        then obtain j t svc' where t: "dget (rt_servers E2) j = Some t" "svc' \<in> set (dkeys (hosted_replicas t))"
          "n = deployment_name svc' j" by (blast elim: hosted_namesE)
        have "\<not> (svc' = svc \<and> j = k)" using n t(3) by auto
        then show "n \<in> hosted_names E'"
          unfolding t(3) using t(1,2) s
          by (intro hosted_namesI [of _ _ "if j = k then ?s else t"]) (auto simp: k delete_keys simp del: set_map)
      qed
      then have n: "names (rt_cluster E') \<subseteq> N0 \<union> hosted_names E'" using gone ok2 by (auto simp: site_ok_def e(4))
      have "wf_servers (rt_servers E')" unfolding e(1) using wf_servers_id [OF wf s(1)] by (intro wf_servers_dset wf) simp
      moreover have "states_of E' = states_of E2"
        unfolding states_of_def e(1) by (rule map_dset_same [OF s(1)]) simp
      ultimately show ?thesis using h n ok2 by (simp add: site_ok_def)
    qed
  qed
  then show "site_ok names N0 E'" "states_of E' = states_of E" by simp_all
qed

section \<open>Background tasks\<close>

lemma poll_site:
  assumes "poll_round W svc k a start now E = (over, E')"
  shows "same_site names E E'" and "states_of E' = states_of E"
proof -
  obtain q k1 where q: "is_deployment_ready (rw_kube W) svc k (rt_cluster E) = (q, k1)" by fastforce
  obtain ip k2 where ip: "cluster_pod_ip (rw_kube W) svc k k1 = (ip, k2)" by fastforce
  have n: "names k1 = names (rt_cluster E)" "names k2 = names k1"
    by (rule ready_reads(1) [OF q], rule pod_ip_reads [OF ip])
  have b: "same_site names E u \<and> states_of u = states_of E"
    if "bystander (E\<lparr>rt_cluster := c\<rparr>) u" "names c = names (rt_cluster E)" for c u
    using that by (simp add: same_site_def bystander_def hosting_def states_of_def services_of_def)
  let ?r = "(rt_store E a)\<lparr>r_state := RepReady, r_ready_since := Some now\<rparr>"
  have "E' = E \<or> E' = E\<lparr>rt_cluster := k1\<rparr> \<or> E' = E\<lparr>rt_cluster := k2\<rparr>
      \<or> (\<exists>f. E' = rt_put_replica a ?r (rt_redis f (E\<lparr>rt_cluster := k2\<rparr>)))"
    using assms
    by (cases q; cases ip)
      (auto simp: poll_round_def on_cluster_def q ip split: if_splits bool.splits option.splits)
  moreover have "bystander (E\<lparr>rt_cluster := k2\<rparr>) (rt_put_replica a ?r (rt_redis f (E\<lparr>rt_cluster := k2\<rparr>)))" for f
    by (rule bystander_trans [OF bystander_redis bystander_replica]) simp
  ultimately have "E' = E \<or> bystander (E\<lparr>rt_cluster := k1\<rparr>) E' \<or> bystander (E\<lparr>rt_cluster := k2\<rparr>) E'"
    by (elim disjE exE) auto
  then have "same_site names E E' \<and> states_of E' = states_of E"
    using b [of k1 E'] b [of k2 E'] n by (auto simp: same_site_def)
  then show "same_site names E E'" "states_of E' = states_of E" by simp_all
qed

lemma after_begin_site:
  assumes "after_begin W svc k a until now E = (rest, E')" and "site_ok names N0 E"
  shows "site_ok names N0 E' \<and> states_of E' = states_of E"
  using assms end_site [of svc k a E "fst (delete_end W svc k a E)" "snd (delete_end W svc k a E)"]
  by (auto simp: after_begin_def split: sum.splits bool.splits)

lemma background_step_site:
  assumes r: "background_step W now task E = (rest, E')" and ok: "site_ok names N0 E"
  shows "site_ok names N0 E' \<and> states_of E' = states_of E"
proof (cases task)
  case (PollReady svc k a start)
  obtain over E1 where p: "poll_round W svc k a start now E = (over, E1)" by fastforce
  then have "E' = E1" using r PollReady by simp
  then show ?thesis using poll_site [OF p] site_ok_same ok by blast
next
  case (DeletePending svc k)
  obtain out E1 where d: "delete_begin W svc k now E = (out, E1)" by fastforce
  then have b: "site_ok names N0 E1" "states_of E1 = states_of E"
    using begin_site [OF d] ok same_site_bystander site_ok_same by (blast, simp add: bystander_def)
  show ?thesis
  proof (cases "\<exists>a until. out = Inr (Some (a, until))")
    case True
    then obtain a until where "after_begin W svc k a until now E1 = (rest, E')" using r DeletePending d by auto
    from after_begin_site [OF this b(1)] b(2) show ?thesis by simp
  next
    case False
    then have "E' = E1" using r DeletePending d by (auto split: sum.splits option.splits)
    then show ?thesis using b by simp
  qed
next
  case (DeleteWaiting svc k a until)
  then have "after_begin W svc k a until now E = (rest, E')" using r by simp
  then show ?thesis using after_begin_site ok by blast
qed

lemma run_background_site:
  assumes "site_ok names N0 E"
  shows "site_ok names N0 (run_background W now i E) \<and> states_of (run_background W now i E) = states_of E"
proof (cases "i < length (rt_background E)")
  case True
  let ?E = "E\<lparr>rt_background := take i (rt_background E) @ drop (Suc i) (rt_background E)\<rparr>"
  obtain rest E1 where b: "background_step W now (rt_background E ! i) ?E = (rest, E1)" by fastforce
  have e: "run_background W now i E
      = E1\<lparr>rt_background := rt_background E1 @ (case rest of None \<Rightarrow> [] | Some t \<Rightarrow> [t])\<rparr>"
    using True b by (simp add: run_background_def)
  have b1: "bystander E ?E" and b2: "bystander E1 (run_background W now i E)"
    by (rule bystander_core; simp add: e)+
  have "site_ok names N0 ?E" by (rule site_ok_same [OF same_site_bystander [OF b1] assms])
  from background_step_site [OF b this] have E1: "site_ok names N0 E1" "states_of E1 = states_of ?E" by simp_all
  have "site_ok names N0 (run_background W now i E)" by (rule site_ok_same [OF same_site_bystander [OF b2] E1(1)])
  then show ?thesis using b1 b2 E1(2) by (simp add: bystander_def)
qed (use assms in \<open>simp add: run_background_def\<close>)

section \<open>The decision tick\<close>

lemma service_entry_bystander:
  assumes "rt_service_entry W now svc (entries, E) = Inr (entries', E')" shows "bystander E E'"
  using assms by (auto simp: rt_service_entry_def Let_def intro!: bystander_core elim!: bindE_InrE)

lemma snapshot_bystander:
  assumes "rt_build_metrics_snapshot W now E = Inr (sn, E')" shows "bystander E E'"
proof -
  obtain svcs E1 x where f: "foldE (rt_service_entry W now) ACTIVE_SERVICES ([], E) = Inr (svcs, E1)"
    and e: "E' = E1\<lparr>rt_energy_at_last_tick := x\<rparr>"
    using assms by (auto simp: rt_build_metrics_snapshot_def Let_def elim!: bindE_InrE)
  have "bystander E (snd (svcs, E1))"
  proof (rule foldE_invariant [OF f, where P = "\<lambda>p. bystander E (snd p)"])
    fix svc u v assume "bystander E (snd u)" "rt_service_entry W now svc u = Inr v"
    then show "bystander E (snd v)"
      using service_entry_bystander [of now svc "fst u" "snd u" "fst v" "snd v"] bystander_trans by simp blast
  qed simp
  moreover have "bystander E1 E'" by (rule bystander_core) (simp_all add: e)
  ultimately show ?thesis using bystander_trans by simp blast
qed

lemma sustain_bystander:
  assumes "rt_update_sustain_tracking sn now E = Inr E'" shows "bystander E E'"
  by (rule foldE_bystander [OF assms [unfolded rt_update_sustain_tracking_def]])
     (auto simp: rt_track_server_def Let_def intro!: bystander_core elim!: bindE_InrE split: if_splits)

lemma account_bystander: "bystander E (rt_account kind needed taken proposed E)"
  by (auto simp: rt_account_def intro!: bystander_core)

lemma note_bystander: "bystander E (rt_note_scaled svc t kind nec E)"
  by (auto simp: rt_note_scaled_def intro!: bystander_core)

lemma reset_bystander: "bystander E (rt_reset_tick t E)"
  by (auto simp: rt_reset_tick_def intro!: bystander_core)

lemma steady_refl [simp]: "steady names N0 E E"
  by (simp add: steady_def)

lemma steady_trans: "steady names N0 E E' \<Longrightarrow> steady names N0 E' E'' \<Longrightarrow> steady names N0 E E''"
  by (simp add: steady_def)

lemma steady_bystander:
  assumes "bystander E E'" shows "steady names N0 E E'"
  using site_ok_same [OF same_site_bystander [OF assms]] assms by (simp add: steady_def bystander_def)

lemma steady_create: "rt_create_replica W k svc now E = Inr (out, E') \<Longrightarrow> steady names N0 E E'"
  unfolding steady_def using create_site by blast

lemma scale_up_steady:
  assumes "rt_try_scale_up W nec svc t now E = Inr (b, E')" shows "steady names N0 E E'"
proof -
  obtain target where t: "alg_select_placement_server (rt_alg W) (rt_algorithm E) (rt_demand_centroid E) svc
      (rt_servers E) (rt_store E) = Inr target"
    using assms unfolding rt_try_scale_up_def by (rule during_InrE)
  note r = assms [unfolded rt_try_scale_up_def t during_simps bindE_simps]
  show ?thesis
  proof (cases target)
    case None
    then show ?thesis using r by simp
  next
    case (Some k)
    note r1 = r [unfolded Some option.case]
    obtain p where p: "rt_create_replica W k svc now E = Inr p" using r1 by (rule bindE_InrE)
    have c: "steady names N0 E (snd p)" by (rule steady_create [of k svc now E "fst p"]) (simp add: p)
    have "bystander (snd p) E'"
      using r1 [unfolded p during_simps bindE_simps] note_bystander by (auto split: option.splits prod.splits)
    then show ?thesis using c steady_bystander steady_trans by blast
  qed
qed

lemma scale_down_steady:
  assumes "rt_try_scale_down W nec svc t E = Inr (b, E')" shows "steady names N0 E E'"
proof -
  have b: "bystander u (rt_note_scaled svc t KScaleDown nec (u\<lparr>rt_background := bg\<rparr>))" for u bg
    by (rule bystander_trans [OF bystander_core note_bystander]) simp_all
  have "bystander E E'"
    using assms b by (auto simp: rt_try_scale_down_def Let_def elim!: bindE_InrE split: if_splits)
  then show ?thesis by (rule steady_bystander)
qed

lemma decide_steady:
  assumes "rt_decide_and_scale W sn t now svc E = Inr E'" shows "steady names N0 E E'"
proof -
  obtain d st' where "rt_apply_scale_decision W svc d sn t now (E\<lparr>rt_algorithm := st'\<rparr>) = Inr E'"
    using assms by (auto simp: rt_decide_and_scale_def elim!: bindE_InrE)
  then obtain b E1 x1 x2 x3 y1 y2 y3 sv where
    c: "(case d of ScaleNoChange \<Rightarrow> Inr (False, E\<lparr>rt_algorithm := st'\<rparr>)
         | ScaleUp \<Rightarrow> if rt_service_in_cooldown svc t (E\<lparr>rt_algorithm := st'\<rparr>)
                      then Inr (False, E\<lparr>rt_algorithm := st'\<rparr>)
                      else rt_try_scale_up W (was_scale_up_necessary sv) svc t now (E\<lparr>rt_algorithm := st'\<rparr>)
         | ScaleDown \<Rightarrow> if rt_service_in_cooldown svc t (E\<lparr>rt_algorithm := st'\<rparr>)
                      then Inr (False, E\<lparr>rt_algorithm := st'\<rparr>)
                      else rt_try_scale_down W (was_scale_down_necessary sv) svc t (E\<lparr>rt_algorithm := st'\<rparr>))
         = Inr (b, E1)"
    and e: "E' = rt_account KScaleDown x1 x2 x3 (rt_account KScaleUp y1 y2 y3 E1)"
    unfolding rt_apply_scale_decision_def Let_def by (auto elim!: bindE_InrE)
  let ?E = "E\<lparr>rt_algorithm := st'\<rparr>"
  have "steady names N0 E ?E" by (rule steady_bystander, rule bystander_core) simp_all
  moreover have "steady names N0 ?E E1"
    using c scale_up_steady scale_down_steady by (cases d) (auto split: if_splits)
  moreover have "steady names N0 E1 E'"
    unfolding e by (rule steady_bystander) (rule bystander_trans [OF account_bystander account_bystander])
  ultimately show ?thesis by (meson steady_trans)
qed

lemma finish_steady:
  assumes "finish_tick W action sn x y z t now E = Inr (c, E')"
  shows "steady names N0 E E'" and "c = next_round E'"
proof -
  define E1 where "E1 = rt_account KTurnOff y (pa_action action = TurnOff \<and> z)
      (pa_action action = TurnOff \<and> pa_server_id action \<noteq> None)
      (rt_account KTurnOn x z (pa_action action = TurnOn \<and> pa_server_id action \<noteq> None) E)"
  have b: "bystander E E1" unfolding E1_def by (rule bystander_trans [OF account_bystander account_bystander])
  note r = assms [unfolded finish_tick_def Let_def, folded E1_def]
  obtain E2 where f: "foldE (rt_decide_and_scale W sn t now) ACTIVE_SERVICES E1 = Inr E2" using r by (rule bindE_InrE)
  have e: "E' = rt_reset_tick t E2" "c = next_round E'" using r [unfolded f during_simps bindE_simps] by auto
  have "steady names N0 E1 E2"
    by (rule foldE_invariant [OF f, where P = "steady names N0 E1"]) (auto intro: steady_trans decide_steady)
  then show "steady names N0 E E'" "c = next_round E'"
    using e steady_bystander [OF b] steady_bystander [OF reset_bystander] by (meson steady_trans, simp)
qed

section \<open>The decision loop\<close>

lemma awaiting_next [simp]: "awaiting (next_round E) = None"
  by (simp add: next_round_def)

lemma finish_loop:
  assumes "finish_tick W action sn x y z t now E = Inr (c, E')" and "site_ok names N0 E" and "lamps_ok Asleep (states_of E)"
  shows "site_ok names N0 E' \<and> lamps_ok c (states_of E')"
  using finish_steady [OF assms(1)] assms(2,3) by (auto simp: steady_def lamps_ok_def)

text \<open>The end of a drain: the drained server goes off, or back on.\<close>

lemma drain_finish_loop:
  assumes r: "drain_finish W d now E = Inr (c, E')" and ok: "site_ok names N0 E"
    and on: "\<exists>k. dget (states_of E) k = Some SrvActive"
    and dr: "\<And>k. dget (states_of E) k = Some SrvDraining \<longleftrightarrow> k = dr_server d"
    and nb: "\<And>k. dget (states_of E) k \<noteq> Some SrvBooting"
  shows "site_ok names N0 E' \<and> lamps_ok c (states_of E')"
proof -
  let ?k = "dr_server d"
  obtain s where s: "dget (rt_servers E) ?k = Some s"
    using r by (auto simp: drain_finish_def rt_server_at_def dict_simps Let_def elim!: bindE_InrE)
  have lamps: "lamps_ok Asleep (states_of u)" if "states_of u = dset ?k st (states_of E)" "st \<in> {SrvActive, SrvOff}" for u st
  proof -
    obtain j where j: "dget (states_of E) j = Some SrvActive" using on by blast
    then have "j \<noteq> ?k" using dr [of ?k] by auto
    then show ?thesis using that j dr nb by (auto simp: lamps_ok_def dict_simps)
  qed
  have put: "site_ok names N0 (rt_put_server ?k s' u) \<and> states_of (rt_put_server ?k s' u) = dset ?k (srv_state s') (states_of E)"
    if "same_site names E u" "rt_servers u = rt_servers E" "server_view s' = server_view s" for u s'
  proof -
    have "same_site names u (rt_put_server ?k s' u)"
      using s that(2,3) by (simp add: same_site_def put_server_views dset_same dget_hosting)
    then have "same_site names E (rt_put_server ?k s' u)" using that(1) same_site_trans by blast
    then show ?thesis using ok site_ok_same that(2) by (simp add: put_server_views states_of_def map_dset)
  qed
  show ?thesis
  proof (cases "dr_failed d = []")
    case False
    let ?E = "rt_put_server ?k (s\<lparr>srv_state := SrvActive\<rparr>) E"
    have f: "drain_closed W d False now ?E = Inr (c, E')"
      using r s False by (simp add: drain_finish_def rt_server_at_def dlookup_def Let_def)
    have p: "site_ok names N0 ?E" "states_of ?E = dset ?k SrvActive (states_of E)"
      using put [of E "s\<lparr>srv_state := SrvActive\<rparr>"] by (simp_all add: same_site_def server_view_def)
    show ?thesis
      by (rule finish_loop [OF f [unfolded drain_closed_def] p(1)]) (rule lamps [OF p(2)], simp)
  next
    case True
    obtain q k' where u: "cordon_node (rw_kube W) ?k (rt_cluster E) = (q, k')" by fastforce
    let ?s = "s\<lparr>srv_state := SrvOff, last_transition_time := now, num_shutdowns := num_shutdowns s + 1\<rparr>"
    let ?u = "rt_redis (set_server_state (rw_redis W) ?k ''OFF'') (E\<lparr>rt_cluster := k'\<rparr>)"
    from r s True u obtain audit where
      f: "drain_closed W d True now (rt_metric (record_decision_correctness KTurnOff audit)
            (rt_metric (record_scale_action KTurnOff) (rt_metric (record_transition ServerShutdown)
              (rt_put_server ?k ?s ?u)))) = Inr (c, E')"
      by (auto simp: drain_finish_def rt_server_at_def dlookup_def Let_def on_cluster_def settle_def elim!: bindE_InrE)
    have "same_site names E ?u"
      using node_keeps(1) [OF u] by (simp add: same_site_def hosting_def services_of_def)
    then have p: "site_ok names N0 (rt_put_server ?k ?s ?u)" "states_of (rt_put_server ?k ?s ?u) = dset ?k SrvOff (states_of E)"
      using put [of ?u ?s] by (simp_all add: server_view_def)
    have b: "bystander v (rt_metric g1 (rt_metric g2 (rt_metric g3 v)))" for v g1 g2 g3
      by (rule bystander_core) simp_all
    let ?v = "rt_metric (record_decision_correctness KTurnOff audit) (rt_metric (record_scale_action KTurnOff)
        (rt_metric (record_transition ServerShutdown) (rt_put_server ?k ?s ?u)))"
    have "steady names N0 (rt_put_server ?k ?s ?u) ?v" by (rule steady_bystander [OF b])
    then have v: "site_ok names N0 ?v" "states_of ?v = dset ?k SrvOff (states_of E)" using p by (simp_all add: steady_def)
    show ?thesis
      by (rule finish_loop [OF f [unfolded drain_closed_def] v(1)]) (rule lamps [OF v(2)], simp)
  qed
qed

lemma drain_deletes_loop:
  assumes "drain_deletes W d now svcs E = Inr (c, E')" and "site_ok names N0 E"
    and "\<exists>k. dget (states_of E) k = Some SrvActive"
    and "\<And>k. dget (states_of E) k = Some SrvDraining \<longleftrightarrow> k = dr_server d"
    and "\<And>k. dget (states_of E) k \<noteq> Some SrvBooting"
  shows "site_ok names N0 E' \<and> lamps_ok c (states_of E')"
  using assms
proof (induction svcs arbitrary: E)
  case Nil
  then show ?case using drain_finish_loop by simp
next
  case (Cons svc rest)
  obtain out E1 where b: "delete_begin W svc (dr_server d) now E = (out, E1)" by fastforce
  have by1: "bystander E E1" by (rule begin_site [OF b])
  have s1: "site_ok names N0 E1" "states_of E1 = states_of E"
    using site_ok_same [OF same_site_bystander [OF by1] Cons.prems(2)] by1 by (simp_all add: bystander_def)
  obtain task where task: "out = Inr task" using Cons.prems(1) b by (cases out) (auto simp: settle_def)
  note r = Cons.prems(1) [unfolded drain_deletes.simps settle_def b fst_conv snd_conv task during_simps bindE_simps prod.case]
  show ?case
  proof (cases task)
    case None
    then show ?thesis using r Cons.IH [OF _ s1(1)] Cons.prems(3-5) s1(2) by simp
  next
    case (Some p)
    obtain a until where p: "p = (a, until)" by (cases p)
    note r1 = r [unfolded Some option.case p prod.case]
    obtain waits where w: "delete_waits W svc (dr_server d) until now E1 = Inr waits" using r1 by (rule during_InrE)
    note r2 = r1 [unfolded w during_simps bindE_simps]
    show ?thesis
    proof (cases waits)
      case True
      then show ?thesis using r2 s1 Cons.prems(3-5) by (auto simp: lamps_ok_def)
    next
      case False
      obtain q E2 where e: "delete_end W svc (dr_server d) a E1 = (q, E2)" by fastforce
      have q: "drain_deletes W d now rest E2 = Inr (c, E')"
        using r2 False e by (auto elim!: bindE_InrE)
      show ?thesis using Cons.IH [OF q] end_site [OF e s1(1)] s1(2) Cons.prems(3-5) by simp
    qed
  qed
qed

lemma wait_ready_loop:
  assumes "wait_ready W d now E = Inr (c, E')" and "site_ok names N0 E"
    and "\<exists>k. dget (states_of E) k = Some SrvActive"
    and "\<And>k. dget (states_of E) k = Some SrvDraining \<longleftrightarrow> k = dr_server d"
    and "\<And>k. dget (states_of E) k \<noteq> Some SrvBooting"
  shows "site_ok names N0 E' \<and> lamps_ok c (states_of E')"
proof -
  have after: "site_ok names N0 E' \<and> lamps_ok c (states_of E')"
    if "after_ready W d' now E = Inr (c, E')" "dr_server d' = dr_server d" for d'
  proof -
    note r = that(1) [unfolded after_ready_def Let_def]
    obtain t where t: "rt_server_at E (dr_server d') = Inr t" using r by (rule during_InrE)
    note r1 = r [unfolded t during_simps bindE_simps]
    from drain_deletes_loop [OF r1 assms(2,3)] that(2) assms(4,5) show ?thesis by simp
  qed
  show ?thesis
    using assms after by (auto simp: wait_ready_def Let_def lamps_ok_def split: if_splits)
qed

lemma migrate_steady:
  assumes "foldE (rt_migrate_step W now) steps (out, E) = Inr (out', E')" shows "steady names N0 E E'"
proof -
  have "steady names N0 E (snd (out', E'))"
  proof (rule foldE_invariant [OF assms, where P = "\<lambda>p. steady names N0 E (snd p)"])
    fix step u v assume u: "steady names N0 E (snd u)" and m: "rt_migrate_step W now step u = Inr v"
    obtain a b E1 where e: "u = ((a, b), E1)" by (metis surj_pair)
    obtain q where q: "rt_create_replica W (ms_target_server_id step) (ms_service_id step) now E1 = Inr q"
      using m unfolding rt_migrate_step_def e prod.case by (rule bindE_InrE)
    have "snd v = snd q" using m by (cases q) (auto simp: rt_migrate_step_def e q)
    moreover have "steady names N0 E1 (snd q)" using q steady_create by (metis prod.collapse)
    ultimately show "steady names N0 E (snd v)" using u e steady_trans by (metis snd_conv)
  qed simp
  then show ?thesis by simp
qed

lemma drain_start_loop:
  assumes r: "rt_drain_start W k now E = Inr (out, E')" and ok: "site_ok names N0 E"
  shows "site_ok names N0 E'"
    and "out = None \<Longrightarrow> lights E E'"
    and "out \<noteq> None \<Longrightarrow> states_of E' = dset k SrvDraining (states_of E)"
proof -
  have wf: "wf_servers (rt_servers E)" using ok by (simp add: site_ok_def)
  obtain s where s0: "rt_server_at E k = Inr s" using r unfolding rt_drain_start_def by (rule during_InrE)
  then have s: "dget (rt_servers E) k = Some s" by (simp add: rt_server_at_def dict_simps)
  note r1 = r [unfolded rt_drain_start_def s0 during_simps bindE_simps]
  have "site_ok names N0 E' \<and> (out = None \<longrightarrow> lights E E')
      \<and> (out \<noteq> None \<longrightarrow> states_of E' = dset k SrvDraining (states_of E))"
  proof (cases "srv_state s = SrvActive")
    case False
    then show ?thesis using r1 ok by (simp add: lights_def)
  next
    case True
    then have na: "\<not> srv_state s \<noteq> SrvActive" by simp
    note r2 = r1 [unfolded if_not_P [OF na]]
    obtain proposed where p: "alg_migration_decision (rt_alg W) (rt_algorithm E) (rt_demand_centroid E) s
        (rt_servers E) (rt_store E) = Inr proposed" using r2 by (rule during_InrE)
    note r3 = r2 [unfolded p during_simps bindE_simps]
    obtain q where q: "foldE (rt_validate_step E) proposed ([], []) = Inr q" using r3 by (rule during_InrE)
    obtain res steps where qs: "q = (res, steps)" by (cases q)
    define un where "un = filter (\<lambda>j. j \<notin> set (map ms_service_id steps)) (rt_sole_hosted E k s)"
    note r4 = r3 [unfolded q qs during_simps bindE_simps prod.case Let_def, folded un_def]
    show ?thesis
    proof (cases "un = []")
      case False
      then obtain E1 where e: "rt_trigger_emergency_boot W un s now E = Inr E1"
        using r4 by (auto elim!: bindE_InrE)
      then have "out = None" "E' = E1" using r4 False by auto
      then show ?thesis using emergency_site [OF wf e] site_ok_same ok by blast
    next
      case True
      let ?E = "rt_put_server k (s\<lparr>srv_state := SrvDraining\<rparr>) E"
      have un: "\<not> un \<noteq> []" using True by simp
      note r5 = r4 [unfolded if_not_P [OF un]]
      obtain m where m: "foldE (rt_migrate_step W now) steps (([], []), ?E) = Inr m" using r5 by (rule bindE_InrE)
      have e: "out = Some (fst m)" "E' = snd m" using r5 [unfolded m during_simps bindE_simps] by (auto split: prod.splits)
      have "same_site names E ?E"
        using s by (simp add: same_site_def put_server_views dset_same dget_hosting server_view_def)
      then have "site_ok names N0 ?E" using ok site_ok_same by blast
      moreover have "steady names N0 ?E E'" by (rule migrate_steady [of now steps "([], [])" _ "fst m"]) (simp add: m e)
      ultimately show ?thesis using e by (simp add: steady_def put_server_views)
    qed
  qed
  then show "site_ok names N0 E'" "out = None \<Longrightarrow> lights E E'"
    "out \<noteq> None \<Longrightarrow> states_of E' = dset k SrvDraining (states_of E)" by simp_all
qed

lemma lamps_lights: "lamps_ok Asleep (states_of E) \<Longrightarrow> lights E E' \<Longrightarrow> lamps_ok Asleep (states_of E')"
  unfolding lamps_ok_def lights_def by (metis awaiting.simps(3) option.distinct(1) option.inject server_state.distinct)

lemma turn_on_loop:
  assumes r: "rt_try_turn_on W sn nec k now E = Inr (b, E')" and ok: "site_ok names N0 E"
  shows "site_ok names N0 E' \<and> lights E E'"
proof -
  obtain s where s0: "rt_server_at E k = Inr s" using r unfolding rt_try_turn_on_def by (rule during_InrE)
  note r1 = r [unfolded rt_try_turn_on_def s0 during_simps bindE_simps]
  show ?thesis
  proof (cases "E' = E")
    case True
    then show ?thesis using ok by (simp add: lights_def)
  next
    case False
    then have off: "dget (states_of E) k = Some SrvOff"
      using r1 s0 by (auto simp: rt_server_at_def dict_simps dget_states split: if_splits)
    obtain E1 where a: "activate_server W k False now E = Inr E1" and "bystander E1 E'"
      using r1 False bystander_trans [OF bystander_metric bystander_metric]
      by (auto elim!: bindE_InrE split: if_splits)
    then have "same_site names E E'" "states_of E' = states_of E1"
      using activate_site(1) [OF a] same_site_trans same_site_bystander by (blast, simp add: bystander_def)
    then show ?thesis using activate_site(2,3) [OF a] off ok site_ok_same unfolding lights_def by metis
  qed
qed

text \<open>A tick from the decision on provisioning, up to its first wait or its end.\<close>

lemma provisioning_loop:
  assumes r: "rt_begin_provisioning W action sn now E = Inr (c, E')" and ok: "site_ok names N0 E"
    and lamps: "lamps_ok Asleep (states_of E)"
  shows "site_ok names N0 E' \<and> lamps_ok c (states_of E')"
proof -
  obtain nec where nec: "rt_turn_on_necessary W now E sn = Inr nec"
    using r unfolding rt_begin_provisioning_def by (rule during_InrE)
  note r1 = r [unfolded rt_begin_provisioning_def nec during_simps bindE_simps Let_def]
  have wf: "wf_servers (rt_servers E)" using ok by (simp add: site_ok_def)
  show ?thesis
  proof (cases "pa_server_id action")
    case None
    then show ?thesis using r1 finish_loop ok lamps by auto
  next
    case (Some k)
    note r2 = r1 [unfolded Some option.case]
    show ?thesis
    proof (cases "pa_action action")
      case ProvNoChange
      then show ?thesis using r2 finish_loop ok lamps by simp
    next
      case TurnOn
      note r3 = r2 [unfolded TurnOn provision_type.case]
      obtain q where q: "rt_try_turn_on W sn nec k now E = Inr q" using r3 by (rule bindE_InrE)
      have t: "site_ok names N0 (snd q)" "lights E (snd q)"
        using turn_on_loop [of sn nec k now E "fst q" "snd q"] q ok by simp_all
      show ?thesis using r3 [unfolded q during_simps bindE_simps] finish_loop t lamps_lights [OF lamps t(2)] by (auto split: prod.splits)
    next
      case TurnOff
      note r3 = r2 [unfolded TurnOff provision_type.case]
      obtain passes where g: "rt_turn_off_gate W k now E = Inr passes" using r3 by (rule during_InrE)
      note r4 = r3 [unfolded g during_simps bindE_simps]
      show ?thesis
      proof (cases passes)
        case False
        then show ?thesis using r4 finish_loop ok lamps by simp
      next
        case True
        then have np: "\<not> \<not> passes" by simp
        note r5 = r4 [unfolded if_not_P [OF np]]
        obtain q where q: "rt_drain_start W k now E = Inr q" using r5 by (rule bindE_InrE)
        obtain out E1 where qs: "q = (out, E1)" by (cases q)
        note r6 = r5 [unfolded q qs during_simps bindE_simps prod.case]
        note ds = drain_start_loop [OF q [unfolded qs] ok]
        show ?thesis
        proof (cases out)
          case None
          then show ?thesis using r6 finish_loop ds(1) lamps_lights [OF lamps ds(2)] by simp
        next
          case (Some p)
          obtain new failed where p: "p = (new, failed)" by (cases p)
          have st: "states_of E1 = dset k SrvDraining (states_of E)" using ds(3) Some by simp
          have "\<not> rt_n_active E \<le> 1" using g True
            by (auto simp: rt_turn_off_gate_def elim!: bindE_InrE split: if_splits)
          then obtain j where "j \<noteq> k" "dget (states_of E) j = Some SrvActive"
            using in_state_two [OF wf, of SrvActive k] by (auto simp: rt_n_active_def dget_states)
          then have "\<exists>j. dget (states_of E1) j = Some SrvActive" by (auto simp: st dict_simps)
          moreover have "dget (states_of E1) j = Some SrvDraining \<longleftrightarrow> j = k" for j
            using lamps by (simp add: st dict_simps lamps_ok_def)
          moreover have "dget (states_of E1) j \<noteq> Some SrvBooting" for j
            using lamps by (simp add: st dict_simps lamps_ok_def)
          ultimately show ?thesis
            using r6 [unfolded Some option.case p prod.case] wait_ready_loop [OF _ ds(1)] by simp
        qed
      qed
    qed
  qed
qed

lemma tick_loop:
  assumes r: "begin_tick W now E = Inr (c, E')" and ok: "site_ok names N0 E" and lamps: "lamps_ok Asleep (states_of E)"
  shows "site_ok names N0 E' \<and> lamps_ok c (states_of E')"
proof -
  obtain q where q: "rt_build_metrics_snapshot W now E = Inr q" using r unfolding begin_tick_def by (rule bindE_InrE)
  obtain sn0 E1 where qs: "q = (sn0, E1)" by (cases q)
  obtain m h where mh: "record_snapshot (w_np (rw_world W)) now (rt_servers E1) (rt_store E1) (rt_metrics E1) = (m, h)"
    by fastforce
  let ?E1 = "E1\<lparr>rt_metrics := m, rt_store := h\<rparr>"
  note r1 = r [unfolded begin_tick_def q qs during_simps bindE_simps prod.case mh Let_def]
  obtain E2 where e2: "rt_update_sustain_tracking sn0 now ?E1 = Inr E2" using r1 by (rule bindE_InrE)
  note r2 = r1 [unfolded e2 during_simps bindE_simps]
  obtain sn where sn: "rt_annotate W now E2 sn0 = Inr sn" using r2 by (rule during_InrE)
  note r3 = r2 [unfolded sn during_simps bindE_simps]
  obtain p where p: "alg_provision_decision (rt_alg W) (rt_algorithm E2) (rt_servers E2) (rt_store E2) sn now = Inr p"
    using r3 by (rule during_InrE)
  let ?E2 = "E2\<lparr>rt_algorithm := snd p\<rparr>"
  have f: "rt_begin_provisioning W (fst p) sn now ?E2 = Inr (c, E')"
    using r3 [unfolded p during_simps bindE_simps] by (simp add: split_beta)
  have "pruned now (rt_store E1) h"
    using record_snapshot_frame(1) [of now "rt_store E1" "w_np (rw_world W)" "rt_servers E1" "rt_metrics E1"] mh by simp
  then have "bystander E1 ?E1"
    using prunedD(1) by (auto simp: bystander_def hosting_def states_of_def services_of_def fun_eq_iff)
  moreover have "bystander E E1" using snapshot_bystander q qs by blast
  moreover have "bystander ?E1 E2" by (rule sustain_bystander [OF e2])
  moreover have "bystander E2 ?E2" by (rule bystander_core) simp_all
  ultimately have "bystander E ?E2" by (blast intro: bystander_trans)
  then have "steady names N0 E ?E2" by (rule steady_bystander)
  then have "site_ok names N0 ?E2" "states_of ?E2 = states_of E" using ok by (simp_all add: steady_def)
  then show ?thesis using provisioning_loop [OF f] lamps by simp
qed

lemma control_loop:
  assumes r: "control_step W now c E = Inr (c', E')" and ok: "site_ok names N0 E" and lamps: "lamps_ok c (states_of E)"
  shows "site_ok names N0 E' \<and> lamps_ok c' (states_of E')"
proof (cases c)
  case Asleep
  then show ?thesis using tick_loop r ok lamps by simp
next
  case Stopped
  then show ?thesis using r ok lamps by simp
next
  case (AwaitReady d)
  then show ?thesis using wait_ready_loop [of d now E c' E'] r ok lamps by (auto simp: lamps_ok_def)
next
  case (AwaitQueue d svc a until rest)
  note r1 = r [unfolded AwaitQueue control_step.simps]
  obtain waits where w: "delete_waits W svc (dr_server d) until now E = Inr waits" using r1 by (rule during_InrE)
  note r2 = r1 [unfolded w during_simps bindE_simps]
  show ?thesis
  proof (cases waits)
    case True
    then show ?thesis using r2 ok lamps AwaitQueue by auto
  next
    case False
    obtain q E1 where e: "delete_end W svc (dr_server d) a E = (q, E1)" by fastforce
    have q: "drain_deletes W d now rest E1 = Inr (c', E')"
      using r2 False e by (auto simp: settle_def elim!: bindE_InrE)
    show ?thesis
      using drain_deletes_loop [OF q] end_site [OF e ok] lamps AwaitQueue by (auto simp: lamps_ok_def)
  qed
qed

section \<open>From the start\<close>

lemma place_initial_steady:
  assumes "rt_place_initial W sel now svc E = Inr E'" shows "steady names N0 E E'"
proof -
  obtain target where t: "rt_nearest_capable_server W svc sel E = Inr target"
    using assms unfolding rt_place_initial_def by (rule during_InrE)
  note r = assms [unfolded rt_place_initial_def t during_simps bindE_simps]
  show ?thesis
  proof (cases target)
    case None
    then show ?thesis using r by simp
  next
    case (Some k)
    note r1 = r [unfolded Some option.case]
    obtain q where q: "rt_create_replica W k svc now E = Inr q" using r1 by (rule bindE_InrE)
    then have "E' = snd q" using r1 by (auto split: prod.splits)
    then show ?thesis using q steady_create by (metis prod.collapse)
  qed
qed

lemma activate_all:
  assumes "foldE (\<lambda>k. activate_server W k False now) ks E = Inr E'"
  shows "same_site names E E'
    \<and> (\<forall>j. dget (states_of E') j = (if j \<in> set ks then Some SrvActive else dget (states_of E) j))"
  using assms
proof (induction ks arbitrary: E)
  case Nil
  then show ?case by (simp add: same_site_def)
next
  case (Cons k ks)
  obtain E1 where a: "activate_server W k False now E = Inr E1" and r: "foldE (\<lambda>k. activate_server W k False now) ks E1 = Inr E'"
    using Cons.prems by (auto elim!: bindE_InrE)
  show ?case using Cons.IH [OF r] activate_site [OF a] same_site_trans by auto
qed

lemma new_ok:
  assumes "new_rt df st t0 db k = Inr E"
  shows "site_ok names (names k) E" and "dget (rt_servers E) j = Some s \<Longrightarrow> srv_state s = SrvOff"
proof -
  obtain servers where servers: "init_servers = Inr servers" using assms unfolding new_rt_def by (rule bindE_InrE)
  have E: "rt_servers E = servers" "rt_cluster E = k" "rt_next_ref E = 0"
    using assms by (auto simp: new_rt_def servers)
  have f: "fresh_servers servers" by (rule init_servers_freshD [OF servers])
  have s: "hosted_replicas s = [] \<and> srv_state s = SrvOff \<and> 0 < srv_capacity s" if "dget servers j = Some s" for j s
    using f dget_mem [OF that] by (auto simp: fresh_servers_def)
  have "host_ok E s'" if "dget servers j = Some s'" for j s' using s [OF that] by (simp add: host_ok_def used_cpu_def)
  then show "site_ok names (names k) E" using f by (simp add: site_ok_def E fresh_servers_def)
  show "dget (rt_servers E) j = Some s \<Longrightarrow> srv_state s = SrvOff" using s E(1) by simp
qed

text \<open>The state the initial placement ends in.\<close>

lemma start_ok:
  assumes new: "new_rt df st t0 db k = Inr E" and start: "rt_start W now E = Inr E0"
  shows "site_ok names (names k) E0"
    and "lawful_algorithm (rt_alg W) C \<Longrightarrow> lamps_ok Asleep (states_of E0)"
proof -
  let ?E = "rt_redis (reset_all (rw_redis W)) E"
  note init = new_ok [OF new]
  have b: "bystander E ?E" by (rule bystander_core) simp_all
  then have init': "site_ok names (names k) ?E" "states_of ?E = states_of E"
    using site_ok_same [OF same_site_bystander [OF b] init(1)] by (simp_all add: bystander_def)
  note r = start [unfolded rt_start_def Let_def]
  obtain sel where sel: "alg_initial_placement (rt_alg W) (rt_algorithm ?E) (rt_servers ?E) (rt_initial_bts W (rt_events ?E)) = Inr sel"
    using r by (rule during_InrE)
  note r1 = r [unfolded sel during_simps bindE_simps]
  obtain E1 where e1: "foldE (\<lambda>sid. activate_server W sid False now) sel ?E = Inr E1" using r1 by (rule bindE_InrE)
  note r2 = r1 [unfolded e1 during_simps bindE_simps]
  note a = activate_all [OF e1]
  have ok1: "site_ok names (names k) E1" using a init'(1) site_ok_same by blast
  have "steady names (names k) E1 E0"
    by (rule foldE_invariant [OF r2, where P = "steady names (names k) E1"]) (auto intro: steady_trans place_initial_steady)
  then have E0: "site_ok names (names k) E0" "states_of E0 = states_of E1" using ok1 by (simp_all add: steady_def)
  then show "site_ok names (names k) E0" by simp
  assume L: "lawful_algorithm (rt_alg W) C"
  have "wf_servers (rt_servers ?E)" using init'(1) by (simp add: site_ok_def)
  from lawful_algorithm.initial_sound [OF L sel this] obtain j where "j \<in> set sel" by (cases sel) auto
  moreover have "dget (states_of E) j \<in> {None, Some SrvOff}" for j
    using init(2) by (auto simp: dget_states split: option.splits)
  ultimately show "lamps_ok Asleep (states_of E0)"
    using a unfolding E0(2) init'(2) lamps_ok_def
    by (metis awaiting.simps(3) insertE option.distinct(1) option.inject server_state.distinct singletonD)
qed

lemma beside_steady:
  assumes "beside W E E'" and ok: "site_ok names N0 E"
  shows "site_ok names N0 E' \<and> states_of E' = states_of E"
proof -
  have wf: "wf_servers (rt_servers E)" using ok by (simp add: site_ok_def)
  have b: "site_ok names N0 u \<and> states_of u = states_of E" if "bystander E u" for u
    using steady_bystander [OF that, of N0] ok by (simp add: steady_def)
  show ?thesis
    using assms(1)
  proof cases
    case (background now i)
    then show ?thesis using run_background_site [OF ok] by simp
  next
    case (lifetime)
    show ?thesis unfolding lifetime by (rule b, rule bystander_core) (simp_all add: lifetime_over_def)
  qed (rule b, erule route_bystander reports_bystander sample_bystander [OF wf] sweep_bystander
      raises_bystander [OF route_raises_bystander] raises_bystander [OF reports_raise_bystander]
      raises_bystander [OF sample_raises_bystander [OF wf]] raises_bystander [OF sweep_raises_bystander])+
qed

lemma site_invariants:
  assumes "site W E0 (c, E)" and "site_ok names N0 E0" and "lamps_ok Asleep (states_of E0)"
  shows "site_ok names N0 E \<and> lamps_ok (case c of None \<Rightarrow> Asleep | Some c' \<Rightarrow> c') (states_of E)"
proof -
  have "site_ok names N0 (snd p) \<and> lamps_ok (case fst p of None \<Rightarrow> Asleep | Some c' \<Rightarrow> c') (states_of (snd p))" if "site W E0 p" for p
    using that
  proof induction
    case launch
    then show ?case using assms(2,3) by simp
  next
    case (loops E now c E')
    then have "bystander E E'" "c = next_round E" by (auto simp: rt_begin_loops_def intro!: bystander_core)
    then show ?case using loops.IH steady_bystander [of E E' N0] by (simp add: steady_def lamps_ok_def)
  next
    case (control c E now c' E')
    then have "site_ok names N0 E" "lamps_ok c (states_of E)" by simp_all
    from control_loop [OF control.hyps(2) this] show ?case by simp
  next
    case (beside c E E')
    then show ?case using beside_steady [of E E' N0] by simp
  qed
  from this [OF assms(1)] show ?thesis by simp
qed

end

section \<open>Every reachable state\<close>

lemma site_reached:
  assumes "kube_server (rw_kube W) names" and "lawful_algorithm (rt_alg W) C"
    and "new_rt df st t0 db k = Inr E1" and "rt_start W now E1 = Inr E0" and "site W E0 (c, E)"
  shows "site_ok names (names k) E \<and> lamps_ok (case c of None \<Rightarrow> Asleep | Some c' \<Rightarrow> c') (states_of E)"
proof -
  have D: "deployment_site W names" using assms(1) by (simp add: deployment_site_def)
  show ?thesis
    by (rule deployment_site.site_invariants [OF D assms(5) deployment_site.start_ok(1) [OF D assms(3,4)]
        deployment_site.start_ok(2) [OF D assms(3,4,2)]])
qed

end
