(* ===== verification/Failure.thy ===== *)
theory Failure
  imports Site
begin

text \<open>
  What an exception leaves behind. The decision loop may raise at any call to the cluster, to Redis
  or to the algorithm; the state it has reached stays. Each operation is shown to raise only in
  states that keep the invariant of the hosts, up to one deployment: the one of a \<open>create\<close> that took
  effect and then raised, which no server has been made to host.
\<close>

definition crash_ok :: "('k \<Rightarrow> string set) \<Rightarrow> string set \<Rightarrow> ('a, 'r, 'k) rt \<Rightarrow> bool" where
  "crash_ok names N0 E \<longleftrightarrow> (\<exists>n. site_ok names (insert n N0) E)"

lemma crash_okI: "site_ok names N0 E \<Longrightarrow> crash_ok names N0 E"
  by (auto simp: crash_ok_def site_ok_def)

section \<open>Operations that raise\<close>

context deployment_site
begin

abbreviation sound :: "string set \<Rightarrow> ('b, ('a, 'r, 'k) rt) outcome \<Rightarrow> bool" where
  "sound N0 m \<equiv> raises_in (crash_ok names N0) m"

lemma sound_during: "site_ok names N0 E \<Longrightarrow> sound N0 (during E r)"
  by (intro raises_in_during crash_okI)

lemma sound_bystander: "raises_in (bystander E) m \<Longrightarrow> site_ok names N0 E \<Longrightarrow> sound N0 m"
  by (erule raises_in_mono) (rule crash_okI, rule site_ok_same [OF same_site_bystander])

lemma sound_lookup:
  assumes "site_ok names N0 E" and "\<And>s. dget (rt_servers E) k = Some s \<Longrightarrow> sound N0 (f s)"
  shows "sound N0 (bindE (during E (rt_server_at E k)) f)"
  using assms by (intro raises_in_bind sound_during) (auto simp: rt_server_at_def dict_simps)

text \<open>A call to the cluster, and then the rest.\<close>

lemma sound_call:
  assumes "f (rt_cluster E) = (q, k')" and "crash_ok names N0 (E\<lparr>rt_cluster := k'\<rparr>)"
    and "\<And>x. sound N0 (g (x, E\<lparr>rt_cluster := k'\<rparr>))"
  shows "sound N0 (bindE (settle (on_cluster f E)) g)"
  using assms by (intro raises_in_bind raises_in_settle) (auto simp: on_cluster_def)

lemma activate_sound:
  assumes ok: "site_ok names N0 E" shows "sound N0 (activate_server W k em now E)"
proof -
  obtain r k' where u: "uncordon_node (rw_kube W) k (rt_cluster E) = (r, k')" by fastforce
  have "same_site names E (E\<lparr>rt_cluster := k'\<rparr>)"
    using node_keeps(2) [OF u] by (simp add: same_site_def hosting_def services_of_def)
  then have "crash_ok names N0 (E\<lparr>rt_cluster := k'\<rparr>)" using ok site_ok_same crash_okI by blast
  then have "sound N0 (bindE (settle (on_cluster (uncordon_node (rw_kube W) k) E)) (\<lambda>p. Inr (f p)))" for f
    by (intro raises_in_bind raises_in_settle) (simp_all add: on_cluster_def u)
  then show ?thesis
    unfolding activate_server_def Let_def split_beta by (intro sound_lookup ok raises_in_if) simp_all
qed

lemma emergency_step_sound:
  assumes ok: "site_ok names N0 E" shows "sound N0 (rt_emergency_step W off d now svc (res, E))"
proof -
  have e: "site_ok names N0 (E\<lparr>rt_emergency_boot := x\<rparr>)" for x
    by (rule site_ok_same [OF same_site_bystander [OF bystander_core] ok]) simp_all
  have a: "site_ok names N0 E1" if "activate_server W k True now (E\<lparr>rt_emergency_boot := x\<rparr>) = Inr E1" for k x E1
    using activate_site(1) [OF that] e site_ok_same by blast
  show ?thesis
    unfolding rt_emergency_step_def prod.case Let_def
    by (auto intro!: raises_in_bind sound_during ok activate_sound e dest: a split: list.splits)
qed

lemma emergency_sound:
  assumes ok: "site_ok names N0 E" shows "sound N0 (rt_trigger_emergency_boot W svcs d now E)"
proof -
  have wf: "wf_servers (rt_servers E)" using ok by (simp add: site_ok_def)
  let ?P = "\<lambda>p :: (int, int) pydict \<times> ('a, 'r, 'k) rt. same_site names E (snd p) \<and> lights E (snd p)"
  have "sound N0 (foldE (rt_emergency_step W (in_state SrvOff (rt_servers E)) d now) (w_iter_set (rw_world W) svcs) ([], E))"
  proof (rule raises_in_foldE [where P = ?P])
    fix svc u v assume u: "?P u"
    show "sound N0 (rt_emergency_step W (in_state SrvOff (rt_servers E)) d now svc u)"
      using u site_ok_same [OF _ ok] emergency_step_sound by (cases u) auto
    show "?P v" if "rt_emergency_step W (in_state SrvOff (rt_servers E)) d now svc u = Inr v"
      by (rule emergency_step_keeps [OF wf u that])
  qed (simp add: same_site_def lights_def)
  then show ?thesis unfolding rt_trigger_emergency_boot_def by (auto intro: raises_in_bind)
qed

text \<open>The one place where a deployment is left over.\<close>

lemma left_over:
  fixes u E :: "('a, 'r, 'k) rt"
  assumes "site_ok names N0 E" and "create_deployment (rw_kube W) svc k (rt_cluster E) = (q, k')"
    and "hosting u = hosting E" and "services_of u = services_of E" and "rt_next_ref u = rt_next_ref E" and "rt_cluster u = k'"
  shows "crash_ok names N0 u"
proof -
  let ?v = "u\<lparr>rt_cluster := rt_cluster E\<rparr>"
  have v: "hosting ?v = hosting u" by (simp add: hosting_def)
  have "same_site names E ?v" using assms(3-6) by (simp add: same_site_def hosting_def services_of_def)
  then have "site_ok names N0 ?v" using assms(1) site_ok_same by blast
  then have "site_ok names (insert (deployment_name svc k) N0) u"
    using create_bounds(2) [OF assms(2)] hosted_names_eq [OF v] assms(6) by (auto simp: site_ok_def host_ok_def)
  then show ?thesis by (auto simp: crash_ok_def)
qed

lemma create_sound:
  assumes ok: "site_ok names N0 E" shows "sound N0 (rt_create_replica W k svc now E)"
proof -
  obtain q k' where c: "create_deployment (rw_kube W) svc k (rt_cluster E) = (q, k')" by fastforce
  let ?E1 = "E\<lparr>rt_cluster := k'\<rparr>"
  have l: "crash_ok names N0 u" if "bystander ?E1 u" for u
    using that by (intro left_over [OF ok c]) (simp_all add: bystander_def hosting_def services_of_def)
  have s: "crash_ok names N0 (rt_put_server k s' (rt_metric f (rt_redis g ?E1)))"
    if "dget (rt_servers E) k = Some s" "server_view s' = server_view s" "srv_state s' = srv_state s" for s s' f g
    by (rule l, rule bystander_trans [OF bystander_trans [OF bystander_redis bystander_metric] bystander_put [of _ k s]])
      (use that in simp_all)
  show ?thesis
    unfolding rt_create_replica_def Let_def
    by (intro sound_lookup ok raises_in_bind raises_in_if raises_in_settle sound_during)
      (auto simp: on_cluster_def c l intro!: raises_in_bind raises_in_during s simp: server_view_def)
qed

section \<open>The decision loop\<close>

lemma scale_up_sound:
  assumes ok: "site_ok names N0 E" shows "sound N0 (rt_try_scale_up W nec svc t now E)"
  unfolding rt_try_scale_up_def
  by (intro raises_in_bind sound_during ok) (auto intro!: raises_in_bind create_sound ok split: option.splits)

lemma scale_down_sound:
  assumes ok: "site_ok names N0 E" shows "sound N0 (rt_try_scale_down W nec svc t E)"
  unfolding rt_try_scale_down_def Let_def
  by (auto intro!: raises_in_bind sound_during ok)

lemma decide_sound:
  assumes ok: "site_ok names N0 E" shows "sound N0 (rt_decide_and_scale W sn t now svc E)"
proof -
  have a: "site_ok names N0 (E\<lparr>rt_algorithm := x\<rparr>)" for x
    by (rule site_ok_same [OF same_site_bystander [OF bystander_core] ok]) simp_all
  have "sound N0 (rt_apply_scale_decision W svc d sn t now (E\<lparr>rt_algorithm := x\<rparr>))" for d x
    unfolding rt_apply_scale_decision_def Let_def
    by (intro raises_in_bind sound_during a)
      (auto simp: split_beta intro: scale_up_sound [OF a] scale_down_sound [OF a] split: scale_action.split)
  then show ?thesis
    unfolding rt_decide_and_scale_def by (auto intro!: raises_in_bind sound_during ok)
qed

lemma finish_sound:
  assumes ok: "site_ok names N0 E" shows "sound N0 (finish_tick W action sn x y z t now E)"
proof -
  have b: "site_ok names N0 (rt_account k1 a1 b1 c1 (rt_account k2 a2 b2 c2 E))" for k1 a1 b1 c1 k2 a2 b2 c2
    by (rule site_ok_same [OF same_site_bystander [OF bystander_trans [OF account_bystander account_bystander]] ok])
  have "sound N0 (foldE (rt_decide_and_scale W sn t now) ACTIVE_SERVICES u)" if "site_ok names N0 u" for u
    by (rule raises_in_foldE [where P = "site_ok names N0"])
      (use that decide_sound decide_steady in \<open>auto simp: steady_def\<close>)
  then show ?thesis
    unfolding finish_tick_def Let_def by (intro raises_in_bind) (auto intro: b)
qed

lemma drain_finish_sound:
  assumes ok: "site_ok names N0 E" shows "sound N0 (drain_finish W d now E)"
proof -
  let ?k = "dr_server d"
  have put: "site_ok names N0 (rt_put_server ?k s' u)"
    if "same_site names E u" "rt_servers u = rt_servers E" "dget (rt_servers E) ?k = Some s" "server_view s' = server_view s" for s s' u
  proof -
    have "same_site names u (rt_put_server ?k s' u)"
      using that(2-4) by (simp add: same_site_def put_server_views dset_same dget_hosting)
    then show ?thesis using that(1) same_site_trans ok site_ok_same by blast
  qed
  obtain q k' where u: "cordon_node (rw_kube W) ?k (rt_cluster E) = (q, k')" by fastforce
  have c: "same_site names E (rt_redis f (E\<lparr>rt_cluster := k'\<rparr>))" for f
    using node_keeps(1) [OF u] by (simp add: same_site_def hosting_def services_of_def)
  have c0: "site_ok names N0 (E\<lparr>rt_cluster := k'\<rparr>)"
    by (rule site_ok_same [OF _ ok]) (use node_keeps(1) [OF u] in \<open>simp add: same_site_def hosting_def services_of_def\<close>)
  have m: "site_ok names N0 (rt_metric f v)" if "site_ok names N0 v" for f v
    by (rule site_ok_same [OF same_site_bystander [OF bystander_metric] that])
  have revert: "sound N0 (drain_closed W d False now (rt_put_server ?k (s\<lparr>srv_state := SrvActive\<rparr>) E))"
    if "dget (rt_servers E) ?k = Some s" for s
    unfolding drain_closed_def
    by (intro finish_sound put [OF _ _ that]) (simp_all add: same_site_def server_view_def)
  have off: "site_ok names N0 (rt_metric f (rt_metric g (rt_put_server ?k
      (s\<lparr>srv_state := SrvOff, last_transition_time := t, num_shutdowns := n\<rparr>) (rt_redis h (E\<lparr>rt_cluster := k'\<rparr>)))))"
    if "dget (rt_servers E) ?k = Some s" for s f g t n h
    by (intro m put [OF c _ that]) (simp_all add: server_view_def)
  have shut: "sound N0 (bindE (during v (rt_turn_off_audit ?k (dr_snapshot d)))
      (\<lambda>audit. drain_closed W d True now (rt_metric (record_decision_correctness KTurnOff audit) v)))"
    if "site_ok names N0 v" for v
    unfolding drain_closed_def using that by (intro raises_in_bind sound_during finish_sound m)
  show ?thesis
    unfolding drain_finish_def Let_def
    by (intro sound_lookup ok raises_in_if revert sound_call [where f = "cordon_node (rw_kube W) ?k", OF u crash_okI [OF c0]])
      (simp_all only: prod.case, intro shut off)
qed

lemma drain_deletes_sound:
  assumes "site_ok names N0 E" shows "sound N0 (drain_deletes W d now svcs E)"
  using assms
proof (induction svcs arbitrary: E)
  case Nil
  then show ?case by (simp add: drain_finish_sound)
next
  case (Cons svc rest)
  obtain out E1 where b: "delete_begin W svc (dr_server d) now E = (out, E1)" by fastforce
  have s1: "site_ok names N0 E1" by (rule site_ok_same [OF same_site_bystander [OF begin_site [OF b]] Cons.prems])
  have e: "sound N0 (bindE (settle (delete_end W svc (dr_server d) a E1)) (\<lambda>(_, E2). drain_deletes W d now rest E2))" for a
  proof -
    obtain q E2 where r: "delete_end W svc (dr_server d) a E1 = (q, E2)" by fastforce
    have s2: "site_ok names N0 E2" by (rule end_site(1) [OF r s1])
    show ?thesis
      by (intro raises_in_bind raises_in_settle) (auto simp: r intro: crash_okI [OF s2] Cons.IH [OF s2])
  qed
  show ?case
    unfolding drain_deletes.simps b
    by (intro raises_in_bind raises_in_settle)
      (auto simp: crash_okI [OF s1] Cons.IH [OF s1] split: option.splits intro!: raises_in_bind sound_during s1 e)
qed

lemma wait_ready_sound:
  assumes ok: "site_ok names N0 E" shows "sound N0 (wait_ready W d now E)"
proof -
  have "sound N0 (after_ready W d' now E)" for d'
    unfolding after_ready_def Let_def by (intro sound_lookup ok drain_deletes_sound)
  then show ?thesis by (simp add: wait_ready_def Let_def)
qed

lemma drain_start_sound:
  assumes ok: "site_ok names N0 E" shows "sound N0 (rt_drain_start W k now E)"
proof -
  have m: "sound N0 (foldE (rt_migrate_step W now) steps ((x, y), u))" if u: "site_ok names N0 u" for steps x y u
  proof (rule raises_in_foldE [where P = "\<lambda>p. site_ok names N0 (snd p)"])
    show "sound N0 (rt_migrate_step W now step p)" if "site_ok names N0 (snd p)" for step p
      using that create_sound by (auto simp: rt_migrate_step_def split_beta intro!: raises_in_bind)
    show "site_ok names N0 (snd v)" if "site_ok names N0 (snd p)" "rt_migrate_step W now step p = Inr v" for step p v
      using that create_site(1) by (auto simp: rt_migrate_step_def split_beta bindE_Inr_iff)
  qed (simp add: u)
  have put: "site_ok names N0 (rt_put_server k (s\<lparr>srv_state := SrvDraining\<rparr>) E)" if "dget (rt_servers E) k = Some s" for s
    by (rule site_ok_same [OF _ ok]) (use that in \<open>simp add: same_site_def put_server_views dset_same dget_hosting server_view_def\<close>)
  show ?thesis
    unfolding rt_drain_start_def Let_def split_beta
    by (intro sound_lookup ok raises_in_if raises_in_bind sound_during emergency_sound m put) simp_all
qed

lemma turn_on_sound:
  assumes ok: "site_ok names N0 E" shows "sound N0 (rt_try_turn_on W sn nec k now E)"
  unfolding rt_try_turn_on_def
  by (intro sound_lookup ok raises_in_if raises_in_bind sound_during activate_sound) simp_all

lemma provisioning_sound:
  assumes ok: "site_ok names N0 E" shows "sound N0 (rt_begin_provisioning W action sn now E)"
proof -
  have on: "sound N0 (bindE (rt_try_turn_on W sn nec k now E) (\<lambda>(b, E1). finish_tick W action sn x y b t now E1))" for nec k x y t
    using turn_on_loop [OF _ ok] by (intro raises_in_bind turn_on_sound ok) (auto intro!: finish_sound)
  have off: "sound N0 (case out of None \<Rightarrow> finish_tick W action sn x y z t now E1 | Some (new, lost) \<Rightarrow> wait_ready W (d new lost) now E1)"
    if "rt_drain_start W k now E = Inr (out, E1)" for k out E1 x y z t d
    using drain_start_loop(1) [OF that ok] by (auto intro: finish_sound wait_ready_sound split: option.splits)
  show ?thesis
    unfolding rt_begin_provisioning_def Let_def
    by (intro raises_in_bind sound_during ok)
      (auto intro!: finish_sound [OF ok] on raises_in_bind sound_during ok drain_start_sound off split: option.splits provision_type.splits)
qed

lemma snapshot_raises_bystander: "raises_in (bystander E) (rt_build_metrics_snapshot W now E)"
proof -
  have e: "raises_in (bystander E) (rt_service_entry W now svc (xs, u))" if u: "bystander E u" for svc xs u
    unfolding rt_service_entry_def prod.case Let_def
    by (intro raises_in_bind raises_in_during) (auto intro!: bystander_trans [OF u] bystander_core)
  have "raises_in (bystander E) (foldE (rt_service_entry W now) ACTIVE_SERVICES ([], E))"
  proof (rule raises_in_foldE [where P = "\<lambda>p. bystander E (snd p)"])
    show "raises_in (bystander E) (rt_service_entry W now svc p)" if "bystander E (snd p)" for svc p
      using e that by (cases p) simp
    show "bystander E (snd q)" if "bystander E (snd p)" "rt_service_entry W now svc p = Inr q" for svc p q
      using that service_entry_bystander [of now svc "fst p" "snd p" "fst q" "snd q"] bystander_trans by simp blast
  qed simp
  then show ?thesis unfolding rt_build_metrics_snapshot_def Let_def by (auto intro: raises_in_bind)
qed

lemma sustain_raises_bystander: "raises_in (bystander E) (rt_update_sustain_tracking sn now E)"
  unfolding rt_update_sustain_tracking_def
proof (rule raises_in_foldE [where P = "bystander E"])
  show "raises_in (bystander E) (rt_track_server sn now x u)" if "bystander E u" for x u
    using that by (auto simp: rt_track_server_def Let_def split_beta intro!: raises_in_bind raises_in_during)
  show "bystander E v" if "bystander E u" "rt_track_server sn now x u = Inr v" for x u v
    by (rule bystander_trans [OF that(1)])
      (use that(2) in \<open>auto simp: rt_track_server_def split_beta Let_def intro!: bystander_core elim!: bindE_InrE split: if_splits\<close>)
qed simp

lemma tick_sound:
  assumes ok: "site_ok names N0 E" shows "sound N0 (begin_tick W now E)"
proof -
  have s: "site_ok names N0 u" if "bystander E u" for u by (rule site_ok_same [OF same_site_bystander [OF that] ok])
  have r: "bystander u (u\<lparr>rt_metrics := m, rt_store := h\<rparr>)"
    if "record_snapshot (w_np (rw_world W)) now (rt_servers u) (rt_store u) (rt_metrics u) = (m, h)" for u m h
  proof -
    have "pruned now (rt_store u) h"
      using record_snapshot_frame(1) [of now "rt_store u" "w_np (rw_world W)" "rt_servers u" "rt_metrics u"] that by simp
    then show ?thesis
      using prunedD(1) by (auto simp: bystander_def hosting_def states_of_def services_of_def fun_eq_iff)
  qed
  have p: "sound N0 (bindE (during u (rt_annotate W now u sn0)) (\<lambda>sn.
      bindE (during u (alg_provision_decision (rt_alg W) (rt_algorithm u) (rt_servers u) (rt_store u) sn now))
        (\<lambda>(action, st'). rt_begin_provisioning W action sn now (u\<lparr>rt_algorithm := st'\<rparr>))))" if u: "site_ok names N0 u" for u sn0
    by (intro raises_in_bind sound_during u)
      (auto intro!: provisioning_sound site_ok_same [OF same_site_bystander [OF bystander_core] u])
  show ?thesis
    unfolding begin_tick_def
  proof (rule raises_in_bind)
    show "sound N0 (rt_build_metrics_snapshot W now E)" by (rule sound_bystander [OF snapshot_raises_bystander ok])
    fix q assume q: "rt_build_metrics_snapshot W now E = Inr q"
    obtain sn0 E1 where qs: "q = (sn0, E1)" by (cases q)
    obtain m h where mh: "record_snapshot (w_np (rw_world W)) now (rt_servers E1) (rt_store E1) (rt_metrics E1) = (m, h)"
      by fastforce
    let ?E1 = "E1\<lparr>rt_metrics := m, rt_store := h\<rparr>"
    have b: "bystander E ?E1" using snapshot_bystander q qs r [OF mh] bystander_trans by blast
    have "bystander E E2" if "rt_update_sustain_tracking sn0 now ?E1 = Inr E2" for E2
      using b sustain_bystander [OF that] bystander_trans by blast
    then show "sound N0 (case q of (sn0, E1) \<Rightarrow>
       let (m, h) = record_snapshot (w_np (rw_world W)) now (rt_servers E1) (rt_store E1) (rt_metrics E1)
       in bindE (rt_update_sustain_tracking sn0 now (E1\<lparr>rt_metrics := m, rt_store := h\<rparr>)) (\<lambda>E2.
          bindE (during E2 (rt_annotate W now E2 sn0)) (\<lambda>sn.
          bindE (during E2 (alg_provision_decision (rt_alg W) (rt_algorithm E2) (rt_servers E2) (rt_store E2) sn now))
            (\<lambda>(action, st'). rt_begin_provisioning W action sn now (E2\<lparr>rt_algorithm := st'\<rparr>)))))"
      unfolding qs prod.case mh Let_def
      by (intro raises_in_bind [OF sound_bystander [OF sustain_raises_bystander s [OF b]]] p s)
  qed
qed

lemma control_sound:
  assumes ok: "site_ok names N0 E" shows "sound N0 (control_step W now c E)"
proof (cases c)
  case (AwaitQueue d svc a until rest)
  obtain q E1 where r: "delete_end W svc (dr_server d) a E = (q, E1)" by fastforce
  have s1: "site_ok names N0 E1" by (rule end_site(1) [OF r ok])
  have e: "sound N0 (bindE (settle (delete_end W svc (dr_server d) a E)) (\<lambda>(_, E1). drain_deletes W d now rest E1))"
    by (intro raises_in_bind raises_in_settle) (auto simp: r intro: crash_okI [OF s1] drain_deletes_sound [OF s1])
  show ?thesis
    unfolding AwaitQueue control_step.simps
    by (rule raises_in_bind [OF sound_during [OF ok]]) (simp add: e)
qed (simp_all add: tick_sound wait_ready_sound ok)

section \<open>The start\<close>

lemma start_sound:
  assumes ok: "site_ok names N0 E1" shows "sound N0 (rt_start W now E1)"
proof -
  let ?E = "rt_redis (reset_all (rw_redis W)) E1"
  have E: "site_ok names N0 ?E" by (rule site_ok_same [OF same_site_bystander [OF bystander_redis] ok])
  have a: "sound N0 (foldE (\<lambda>k. activate_server W k False now) ks ?E)" for ks
    by (rule raises_in_foldE [where P = "site_ok names N0"])
      (use E activate_sound activate_site(1) site_ok_same in blast)+
  have p: "sound N0 (rt_place_initial W sel now svc u)" if u: "site_ok names N0 u" for sel svc u
    unfolding rt_place_initial_def
    by (intro raises_in_bind sound_during u) (auto intro!: raises_in_bind create_sound u split: option.splits)
  have "sound N0 (foldE (rt_place_initial W sel now) ACTIVE_SERVICES u)" if "site_ok names N0 u" for sel u
    by (rule raises_in_foldE [where P = "site_ok names N0"])
      (use that p place_initial_steady in \<open>auto simp: steady_def\<close>)
  moreover have "site_ok names N0 u" if "foldE (\<lambda>k. activate_server W k False now) ks ?E = Inr u" for ks u
    using activate_all [OF that] E site_ok_same by blast
  ultimately show ?thesis
    unfolding rt_start_def Let_def by (intro raises_in_bind sound_during E a) blast+
qed

text \<open>What is beside the loops keeps the left-over deployment the only one.\<close>

lemma failed_crash_ok:
  assumes "failed W E1 E" and start: "\<And>now E0 c E. rt_start W now E1 = Inr E0 \<Longrightarrow> site W E0 (c, E) \<Longrightarrow> site_ok names N0 E"
    and ok: "site_ok names N0 E1"
  shows "crash_ok names N0 E"
  using assms(1)
proof induction
  case (start_raises now e E)
  then show ?case using start_sound [OF ok, of now] by (simp add: raises_in_def)
next
  case (control_raises now E0 c E t e E')
  then show ?case using control_sound [OF start [OF control_raises(1,2)], of t c] by (simp add: raises_in_def)
next
  case (aftermath E E')
  then show ?case using beside_steady unfolding crash_ok_def by blast
qed

end

section \<open>Every state after an exception\<close>

lemma failed_reached:
  assumes "kube_server (rw_kube W) names" and "lawful_algorithm (rt_alg W) C"
    and "new_rt df st t0 db k = Inr E1" and "failed W E1 E"
  shows "crash_ok names (names k) E"
proof -
  have D: "deployment_site W names" using assms(1) by (simp add: deployment_site_def)
  show ?thesis
    by (rule deployment_site.failed_crash_ok [OF D assms(4) site_reached [OF assms(1-3), THEN conjunct1]
        deployment_site.new_ok(1) [OF D assms(3)]])
qed

end
