(* ===== verification/Launch.thy ===== *)
theory Launch
  imports Failure Start PpoMasks
begin

text \<open>
  The start of the deployment returns when the cluster answers the calls it makes (after at most
  three attempts each). A concrete world for the witnesses of the properties of the deployment.
\<close>

text \<open>\<open>I\<close> holds of a cluster as long as it answers.\<close>

definition answers :: "'k kube \<Rightarrow> ('k \<Rightarrow> bool) \<Rightarrow> int list \<Rightarrow> bool" where
  "answers K I ids \<longleftrightarrow>
     (\<forall>k j. I k \<and> j \<in> set ids \<longrightarrow> (\<exists>k'. uncordon_node K j k = (Inr (), k') \<and> I k'))
   \<and> (\<forall>k j svc. I k \<and> j \<in> set ids \<and> svc \<in> set ACTIVE_SERVICES \<longrightarrow>
        (\<exists>k'. create_deployment K svc j k = (Inr (), k') \<and> I k'))"

definition rt_knows :: "('k \<Rightarrow> bool) \<Rightarrow> int list \<Rightarrow> ('a, 'r, 'k) rt \<Rightarrow> bool" where
  "rt_knows I ids E \<longleftrightarrow> dkeys (rt_servers E) = ids \<and> wf_servers (rt_servers E) \<and> I (rt_cluster E)"

lemma rt_knows_get: "rt_knows I ids E \<Longrightarrow> k \<in> set ids \<Longrightarrow> \<exists>s. dget (rt_servers E) k = Some s \<and> srv_id s = k"
  unfolding rt_knows_def by (metis map_of_eq_None_iff list.set_map not_None_eq wf_servers_id)

lemma rt_knows_put:
  assumes "rt_knows I ids E" and "dget (rt_servers E) k = Some s" and "srv_id s' = k"
    and "rt_servers E' = dset k s' (rt_servers E)" and "I (rt_cluster E')"
  shows "rt_knows I ids E'"
proof -
  have "dkeys (rt_servers E') = dkeys (rt_servers E)"
    using dget_mem [OF assms(2)] unfolding assms(4) by (intro dkeys_dset_mem) force
  then show ?thesis using assms wf_servers_dset [of "rt_servers E" s' k] by (simp add: rt_knows_def)
qed

lemma activate_total:
  assumes A: "answers (rw_kube W) I ids" and kn: "rt_knows I ids E" and k: "k \<in> set ids"
  shows "\<exists>E'. activate_server W k em now E = Inr E' \<and> rt_knows I ids E'"
proof -
  obtain s where s: "dget (rt_servers E) k = Some s" "srv_id s = k" using rt_knows_get [OF kn k] by blast
  obtain k' where u: "uncordon_node (rw_kube W) k (rt_cluster E) = (Inr (), k')" "I k'"
    using A kn k unfolding answers_def rt_knows_def by blast
  show ?thesis
  proof (cases "srv_state s = SrvActive")
    case True
    then show ?thesis using s kn by (simp add: activate_server_def rt_server_at_def dlookup_def)
  next
    case False
    then obtain E' where a: "activate_server W k em now E = Inr E'"
      using s u by (simp add: activate_server_def rt_server_at_def dlookup_def on_cluster_def settle_def Let_def)
    then obtain s' where "rt_servers E' = dset k s' (rt_servers E)" "srv_id s' = k" "rt_cluster E' = k'"
      using s u False
      by (auto simp: activate_server_def rt_server_at_def dlookup_def on_cluster_def settle_def Let_def rt_put_server_def)
    then have "rt_knows I ids E'" using rt_knows_put [OF kn s(1)] u(2) by metis
    with a show ?thesis by blast
  qed
qed

lemma create_total:
  assumes A: "answers (rw_kube W) I ids" and kn: "rt_knows I ids E" and k: "k \<in> set ids"
    and svc: "svc \<in> set ACTIVE_SERVICES"
  shows "\<exists>out E'. rt_create_replica W k svc now E = Inr (out, E') \<and> rt_knows I ids E'"
proof -
  obtain s where s: "dget (rt_servers E) k = Some s" "srv_id s = k" using rt_knows_get [OF kn k] by blast
  obtain info where info: "service_of svc = Inr info" using svc service_of_active by blast
  obtain k' where u: "create_deployment (rw_kube W) svc k (rt_cluster E) = (Inr (), k')" "I k'"
    using A kn k svc unfolding answers_def rt_knows_def by blast
  obtain et where et: "compute_exec_time_sec svc (host_mips s) = Inr et"
    using exec_time_defined [of svc info "srv_profile s"] info by (auto simp: host_mips_def service_of_def dict_simps)
  show ?thesis
  proof (cases "can_host (w_cfg (rw_world W)) (rt_store E) s svc (resource_mips info) (rt_centroid_of E svc)")
    case False
    then show ?thesis using s info kn by (simp add: rt_create_replica_def rt_server_at_def dlookup_def)
  next
    case True
    then obtain out E' where c: "rt_create_replica W k svc now E = Inr (out, E')"
      using s info u et
      by (simp add: rt_create_replica_def rt_server_at_def dlookup_def on_cluster_def settle_def Let_def)
    then obtain s' where "rt_servers E' = dset k s' (rt_servers E)" "srv_id s' = k" "rt_cluster E' = k'"
      using s info u et True
      by (auto simp: rt_create_replica_def rt_server_at_def dlookup_def on_cluster_def settle_def Let_def
          rt_put_server_def rt_put_replica_def)
    then have "rt_knows I ids E'" using rt_knows_put [OF kn s(1)] u(2) by metis
    with c show ?thesis by blast
  qed
qed

lemma rt_nearest_member:
  assumes "rt_nearest_capable_server W svc sel E = Inr (Some t)" and "wf_servers (rt_servers E)"
  shows "t \<in> set sel"
proof -
  obtain info ss where ss: "mapE (rt_server_at E) sel = Inr ss"
    using assms(1) by (auto simp: rt_nearest_capable_server_def elim!: bindE_InrE)
  obtain s where "s \<in> set ss" "srv_id s = t"
    using assms(1) ss by (auto simp: rt_nearest_capable_server_def Let_def elim!: bindE_InrE
        split: if_splits dest!: first_by_Some)
  with ss obtain i where "i < length sel" "rt_server_at E (sel ! i) = Inr s"
    by (auto simp: mapE_Inr list_all2_conv_all_nth in_set_conv_nth)
  then obtain k where "k \<in> set sel" "rt_server_at E k = Inr s" using nth_mem by blast
  then show ?thesis using wf_servers_id [OF assms(2)] \<open>srv_id s = t\<close> by (auto simp: rt_server_at_def dict_simps)
qed

lemma rt_place_initial_total:
  assumes A: "answers (rw_kube W) I ids" and kn: "rt_knows I ids E" and sel: "set sel \<subseteq> set ids"
    and svc: "svc \<in> set ACTIVE_SERVICES"
  shows "\<exists>E'. rt_place_initial W sel now svc E = Inr E' \<and> rt_knows I ids E'"
proof -
  obtain info where info: "service_of svc = Inr info" using svc service_of_active by blast
  have "\<exists>y. rt_server_at E k = Inr y" if "k \<in> set sel" for k
    using rt_knows_get [OF kn] sel that by (force simp: rt_server_at_def dlookup_def)
  then obtain ss where ss: "mapE (rt_server_at E) sel = Inr ss" by (meson mapE_total)
  then have "\<exists>t. rt_nearest_capable_server W svc sel E = Inr t"
    using info by (auto simp: rt_nearest_capable_server_def mean_position_def Let_def)
  then obtain t where t: "rt_nearest_capable_server W svc sel E = Inr t" by blast
  show ?thesis
  proof (cases t)
    case None
    then show ?thesis using t kn by (simp add: rt_place_initial_def)
  next
    case (Some k)
    have "k \<in> set ids" using rt_nearest_member t kn sel unfolding Some rt_knows_def by blast
    from create_total [OF A kn this svc, of now] t show ?thesis by (auto simp: rt_place_initial_def Some)
  qed
qed

lemma rt_start_total:
  assumes A: "answers (rw_kube W) I (dkeys (rt_servers E))" and wf: "wf_servers (rt_servers E)" and "I (rt_cluster E)"
    and sel: "alg_initial_placement (rt_alg W) (rt_algorithm E) (rt_servers E) (rt_initial_bts W (rt_events E)) = Inr sel"
    and sub: "set sel \<subseteq> set (dkeys (rt_servers E))"
  shows "\<exists>E0. rt_start W now E = Inr E0"
proof -
  let ?E = "rt_redis (reset_all (rw_redis W)) E" and ?ids = "dkeys (rt_servers E)"
  have kn: "rt_knows I ?ids ?E" using assms by (simp add: rt_knows_def)
  have s: "alg_initial_placement (rt_alg W) (rt_algorithm ?E) (rt_servers ?E) (rt_initial_bts W (rt_events ?E)) = Inr sel"
    using sel by (simp add: rt_redis_def)
  obtain E1 where 1: "foldE (\<lambda>sid. activate_server W sid False now) sel ?E = Inr E1" "rt_knows I ?ids E1"
    using foldE_total [of "rt_knows I ?ids" ?E sel "\<lambda>sid. activate_server W sid False now"] kn activate_total [OF A] sub
    by blast
  obtain E2 where "foldE (rt_place_initial W sel now) ACTIVE_SERVICES E1 = Inr E2"
    using foldE_total [of "rt_knows I ?ids" E1 ACTIVE_SERVICES "rt_place_initial W sel now"] 1(2)
      rt_place_initial_total [OF A _ sub] by blast
  with 1(1) s show ?thesis by (simp add: rt_start_def Let_def)
qed

section \<open>A concrete deployment\<close>

definition calm :: "cluster \<Rightarrow> bool" where
  "calm k \<longleftrightarrow> cl_faults k = [] \<and> cl_nodes k = map (\<lambda>j. (j, ''edge-'' @ py_str j)) SERVER_IDS"

definition sample_cluster :: cluster where
  "sample_cluster = \<lparr>cl_deployments = [], cl_nodes = map (\<lambda>j. (j, ''edge-'' @ py_str j)) SERVER_IDS,
     cl_cordoned = [], cl_faults = []\<rparr>"

lemma calm_answers: "answers scripted_kube calm SERVER_IDS"
proof -
  have u: "\<exists>k'. uncordon_node scripted_kube j k = (Inr (), k') \<and> calm k'" if "calm k" "j \<in> set SERVER_IDS" for k j
  proof -
    have "filter (\<lambda>(i, _). i = j) (cl_nodes k) \<noteq> []" using that(1,2) by (auto simp: calm_def filter_empty_conv)
    then obtain x xs where "map snd (filter (\<lambda>(i, _). i = j) (cl_nodes k)) = x # xs"
      by (cases "filter (\<lambda>(i, _). i = j) (cl_nodes k)") auto
    then show ?thesis
      using that(1) by (simp add: uncordon_node_def get_node_name_def and_then_def give_def scripted_kube_def calm_def)
  qed
  have c: "\<exists>k'. create_deployment scripted_kube svc j k = (Inr (), k') \<and> calm k'"
    if k: "calm k" and j: "j \<in> set SERVER_IDS" and svc: "svc \<in> set ACTIVE_SERVICES" for k j svc
  proof -
    obtain i where i: "dget SERVICES_INFO svc = Some i"
      using service_of_active [of svc] svc by (auto simp: service_of_def dict_simps)
    obtain info where "dget SERVER_INFO j = Some info"
      using j by (cases "dget SERVER_INFO j") (auto simp: map_of_eq_None_iff SERVER_IDS_def)
    from manifest_total [OF i this] obtain d where "build_deployment_manifest svc j = Inr d" by blast
    then show ?thesis
      using k by (auto simp: create_deployment_def and_then_def give_def call_with_retry_def MAX_RETRIES_def
          numeral_3_eq_3 scripted_kube_def with_faults_def on_status_def calm_def)
  qed
  show ?thesis using u c by (simp add: answers_def)
qed

lemma sample_deployment:
  "\<exists>E1 E0. new_rt [] None 0 empty_rdb sample_cluster = Inr E1
     \<and> rt_start (sample_rt_world sample_world) 0 E1 = Inr (E0 :: (greedy_state, rdb, cluster) rt)"
proof -
  let ?W = "sample_rt_world sample_world"
  obtain servers where servers: "init_servers = Inr servers" "fresh_servers servers" using init_servers_fresh by blast
  obtain E1 :: "(greedy_state, rdb, cluster) rt" where E1: "new_rt [] None 0 empty_rdb sample_cluster = Inr E1"
    "rt_servers E1 = servers" "rt_cluster E1 = sample_cluster"
    by (simp add: new_rt_def servers)
  have keys: "dkeys servers = SERVER_IDS" using init_servers_keys [OF servers(1)] .
  have wf: "wf_servers servers" "servers \<noteq> []" using servers(2) by (simp_all add: fresh_servers_def)
  obtain sel where sel: "base_initial_placement servers (rt_initial_bts ?W (rt_events E1)) = Inr sel"
    using base_initial_placement_total [OF wf(2)] by blast
  have "\<exists>E0. rt_start ?W 0 E1 = Inr E0"
  proof (rule rt_start_total [where I = calm])
    show "answers (rw_kube ?W) calm (dkeys (rt_servers E1))"
      using calm_answers by (simp add: E1 keys sample_rt_world_def)
    show "alg_initial_placement (rt_alg ?W) (rt_algorithm E1) (rt_servers E1) (rt_initial_bts ?W (rt_events E1)) = Inr sel"
      using sel sample_initial_placement by (simp add: rt_alg_def sample_rt_world_def E1)
    show "set sel \<subseteq> set (dkeys (rt_servers E1))" using base_initial_lawful [OF sel wf(1)] by (simp add: E1)
  qed (simp_all add: E1 wf calm_def sample_cluster_def)
  with E1(1) show ?thesis by blast
qed

lemma sample_site:
  "kube_server (rw_kube (sample_rt_world sample_world)) cluster_names
   \<and> lawful_algorithm (rt_alg (sample_rt_world sample_world)) (w_cfg sample_world)"
  using sample_lawful by (simp add: sample_rt_world_def rt_alg_def scripted.kube_server_axioms)

interpretation sampled: deployment_site "sample_rt_world sample_world" cluster_names
  using sample_site by (simp add: deployment_site_def)

section \<open>Two tasks that delete one replica\<close>

text \<open>
  A scale-down that still waits for its queue and the drain of the same server delete the same
  replica. The one that comes second finds the entry gone: its \<open>del\<close> raises, and when it is the
  drain, the exception ends the decision loop.
\<close>

lemma second_deletion_raises:
  assumes "delete_end W svc sid a E = (Inr (), E1)"
    and "delete_deployment (rw_kube W) svc sid (rt_cluster E1) = (Inr (), k)"
  shows "fst (delete_end W svc sid a' E1) = Inl KeyError"
proof -
  have "\<exists>s. rt_server_at E1 sid = Inr s \<and> svc \<notin> set (dkeys (hosted_replicas s))"
    using assms(1)
    by (auto simp: delete_end_def Let_def rt_server_at_def rt_put_server_def dict_simps
        delete_keys split: sum.splits prod.splits if_splits simp del: set_map)
  then obtain s where "rt_server_at E1 sid = Inr s" "svc \<notin> set (dkeys (hosted_replicas s))" by blast
  then show ?thesis
    using assms(2)
    by (simp add: delete_end_def on_cluster_def Let_def rt_server_at_def rt_put_replica_def rt_redis_def rt_metric_def
        del: set_map)
qed

lemma drain_after_deletion_raises:
  assumes "delete_end W svc (dr_server d) a E = (Inr (), E1)"
    and "delete_deployment (rw_kube W) svc (dr_server d) (rt_cluster E1) = (Inr (), k)"
    and "delete_waits W svc (dr_server d) until now E1 = Inr False"
  shows "\<exists>E2. control_step W now (AwaitQueue d svc a' until rest) E1 = Inl (KeyError, E2)"
  using second_deletion_raises [OF assms(1,2), of a'] assms(3)
  by (cases "delete_end W svc (dr_server d) a' E1") simp

section \<open>A creation that leaves a pod\<close>

text \<open>
  The third attempt of a creation takes effect and is answered by 503: the call raises, and the
  deployment exists although no server hosts its replica.
\<close>

definition broken_cluster :: cluster where
  "broken_cluster = sample_cluster\<lparr>cl_faults := [(503, False), (503, False), (503, True)]\<rparr>"

lemma raised_creation_leaves_deployment:
  "\<exists>k'. create_deployment scripted_kube 1 1 broken_cluster = (Inl (ApiException 503), k')
     \<and> cluster_names k' = {deployment_name 1 1}"
proof -
  obtain d where d: "build_deployment_manifest 1 1 = Inr d" "dp_name d = deployment_name 1 1"
    using manifest_total [of 1 _ 1] by (auto simp: SERVER_INFO_def SERVICES_INFO_def)
  then show ?thesis
    by (simp add: create_deployment_def and_then_def give_def call_with_retry_def MAX_RETRIES_def numeral_3_eq_3
        scripted_kube_def with_faults_def broken_cluster_def sample_cluster_def retryable_def on_status_def cluster_names_def)
qed

section \<open>Properties\<close>

definition within_capacity :: "('a, 'r, 'k) rt \<Rightarrow> bool" where
  "within_capacity E \<longleftrightarrow> (\<forall>(j, s) \<in> set (rt_servers E).
     used_cpu (rt_store E) s \<le> srv_capacity s \<and> distinct (dkeys (hosted_replicas s)))"

lemma site_ok_within:
  assumes "site_ok names N0 E" shows "within_capacity E"
proof -
  have "dget (rt_servers E) j = Some s" if "(j, s) \<in> set (rt_servers E)" for j s
    using assms that by (simp add: site_ok_def wf_servers_def dget_iff_mem)
  then show ?thesis using assms by (auto simp: within_capacity_def site_ok_def host_ok_def)
qed

text \<open>
  C36. The deployment never overbooks a server and leaves no pod behind, except one when it fails.
  Whatever the order in which the decision loop, the background tasks, the calls of the dispatcher,
  the reports and the samplers run, and whatever faults the cluster has, as long as the decision
  loop has not raised, the replicas a server hosts never reserve more than its capacity, it hosts
  at most one replica of a service, and every deployment in the cluster is one that was there
  before the run (\<open>names k\<close>) or a replica some server hosts. When the initial placement or the
  decision loop has raised, which ends the run, the capacity still holds, and at most one
  deployment more is left that no server hosts: that of a creation that took effect and raised.
\<close>

theorem deployment_never_overbooks:
  assumes "kube_server (rw_kube W) names" and "lawful_algorithm (rt_alg W) C"
    and "new_rt df st t0 db k = Inr E1"
  shows "(\<forall>now E0 c E. rt_start W now E1 = Inr E0 \<and> site W E0 (c, E) \<longrightarrow>
           within_capacity E \<and> names (rt_cluster E) \<subseteq> names k \<union> hosted_names E)
    \<and> (\<forall>E. failed W E1 E \<longrightarrow>
           within_capacity E \<and> (\<exists>n. names (rt_cluster E) \<subseteq> insert n (names k \<union> hosted_names E)))"
proof (intro conjI allI impI)
  show "within_capacity E" "names (rt_cluster E) \<subseteq> names k \<union> hosted_names E"
    if "rt_start W now E1 = Inr E0 \<and> site W E0 (c, E)" for now E0 c E
    using site_reached [OF assms, of now E0 c E] that site_ok_within by (auto simp: site_ok_def)
  show "within_capacity E" "\<exists>n. names (rt_cluster E) \<subseteq> insert n (names k \<union> hosted_names E)" if "failed W E1 E" for E
    using failed_reached [OF assms that] site_ok_within by (auto simp: crash_ok_def site_ok_def)
qed

theorem deployment_never_overbooks_witness:
  "\<exists>c E. site (sample_rt_world sample_world) E (c, E) \<and> cluster_names (rt_cluster E) \<subseteq> hosted_names E
     \<and> within_capacity E"
proof -
  obtain E1 E0 where E: "new_rt [] None 0 empty_rdb sample_cluster = Inr E1"
    "rt_start (sample_rt_world sample_world) 0 E1 = Inr E0" using sample_deployment by blast
  have r: "site (sample_rt_world sample_world) E0 (None, E0)" by (rule site.launch)
  have "cluster_names sample_cluster = {}" by (simp add: cluster_names_def sample_cluster_def)
  with deployment_never_overbooks [OF sample_site [THEN conjunct1] sample_site [THEN conjunct2] E(1)] E(2) r
  show ?thesis by (intro exI [of _ None] exI [of _ E0] conjI r) auto
qed

text \<open>
  C37. The deployment never goes dark: with a lawful algorithm, at least one server is active in
  every state, none is ever booting, and the servers that are draining are exactly the one the
  decision loop is waiting for, so at most one server is drained at a time.
\<close>

theorem deployment_keeps_a_server:
  assumes "kube_server (rw_kube W) names" and "lawful_algorithm (rt_alg W) C"
    and "new_rt df st t0 db k = Inr E1" and "rt_start W now E1 = Inr E0" and "site W E0 (c, E)"
  shows "1 \<le> rt_n_active E
    \<and> (\<forall>j s. dget (rt_servers E) j = Some s \<longrightarrow> srv_state s \<noteq> SrvBooting
         \<and> (srv_state s = SrvDraining \<longleftrightarrow> (\<exists>c'. c = Some c' \<and> awaiting c' = Some j)))"
proof -
  have ok: "site_ok names (names k) E"
    and lamps: "lamps_ok (case c of None \<Rightarrow> Asleep | Some c' \<Rightarrow> c') (states_of E)"
    using site_reached [OF assms] by simp_all
  have "0 < rt_n_active E" using n_active_states [of E] ok lamps by (simp add: site_ok_def lamps_ok_def)
  then show ?thesis using lamps by (cases c) (auto simp: lamps_ok_def dget_states dest!: spec)
qed

theorem deployment_keeps_a_server_witness:
  "\<exists>c E0 E. site (sample_rt_world sample_world) E0 (Some c, E) \<and> 1 \<le> rt_n_active E"
proof -
  obtain E1 E0 where E: "new_rt [] None 0 empty_rdb sample_cluster = Inr E1"
    "rt_start (sample_rt_world sample_world) 0 E1 = Inr E0" using sample_deployment by blast
  obtain c E where "rt_begin_loops 30 E0 = (c, E)" by fastforce
  then have r: "site (sample_rt_world sample_world) E0 (Some c, E)" by (rule site.loops [OF site.launch])
  show ?thesis
    using deployment_keeps_a_server [OF sample_site [THEN conjunct1] sample_site [THEN conjunct2] E r] r by auto
qed

end
