(* ===== verification/Mirror.thy ===== *)
theory Mirror
  imports Launch PpoAlgorithm
begin

text \<open>
  The deployment decides as the simulator does. \<open>sim_view\<close> is the engine of the simulator with the
  bookkeeping of the dispatcher; on it the two compute the same snapshots (the occupancy of the
  queues apart, which the deployment reads from Redis), signals, audits and gates.
\<close>

definition sim_view :: "real \<Rightarrow> ('a, 'r, 'k) rt \<Rightarrow> 'a engine" where
  "sim_view now E =
     \<lparr>events_df = rt_events E, e_algorithm = rt_algorithm E, e_metrics = rt_metrics E,
      rolling_rejection = rt_rolling E, e_servers = rt_servers E,
      replicas_by_service = rt_replicas_by_service E, e_store = rt_store E, next_ref = rt_next_ref E,
      e_heap = [], e_seq = 0, e_now = now, energy_last_update = [],
      low_util_since = rt_low_util_since E, high_util_since = rt_high_util_since E,
      tick_total = rt_tick_total E, tick_rejected = rt_tick_rejected E, tick_lat_sum = [], tick_lon_sum = [],
      tick_violated = rt_tick_violated E, tick_proximity_violated = rt_tick_proximity E,
      tick_response_times = rt_tick_responses E, energy_at_last_tick = rt_energy_at_last_tick E,
      last_tick_decisions = no_actions, last_tick_applied_actions = no_actions, request_seq = 0,
      service_demand_centroid = rt_demand_centroid E, pending_migrations = [],
      emergency_boot_for_service = rt_emergency_boot E, service_last_scale_time = rt_last_scale_time E,
      service_last_scale_up_time = [], recent_positions = rt_recent_positions E,
      util_at_window_start = rt_util_at_window_start E, util_window_start_time = rt_util_window_start E,
      e_cutoff = 0\<rparr>"

lemma sim_view_simps [simp]:
  "e_now (sim_view now E) = now" "e_servers (sim_view now E) = rt_servers E" "e_store (sim_view now E) = rt_store E"
  "low_util_since (sim_view now E) = rt_low_util_since E" "high_util_since (sim_view now E) = rt_high_util_since E"
  "tick_total (sim_view now E) = rt_tick_total E" "tick_rejected (sim_view now E) = rt_tick_rejected E"
  "tick_violated (sim_view now E) = rt_tick_violated E" "tick_proximity_violated (sim_view now E) = rt_tick_proximity E"
  "tick_response_times (sim_view now E) = rt_tick_responses E" "rolling_rejection (sim_view now E) = rt_rolling E"
  "energy_at_last_tick (sim_view now E) = rt_energy_at_last_tick E"
  "service_demand_centroid (sim_view now E) = rt_demand_centroid E"
  "service_last_scale_time (sim_view now E) = rt_last_scale_time E"
  "recent_positions (sim_view now E) = rt_recent_positions E"
  "util_at_window_start (sim_view now E) = rt_util_at_window_start E"
  "util_window_start_time (sim_view now E) = rt_util_window_start E"
  "replicas_by_service (sim_view now E) = rt_replicas_by_service E"
  "e_algorithm (sim_view now E) = rt_algorithm E"
  by (simp_all add: sim_view_def)

lemma view_access:
  "by_service (sim_view now E) = rt_by_service E" "centroid_of (sim_view now E) = rt_centroid_of E"
  "n_active (sim_view now E) = rt_n_active E" "server_at (sim_view now E) = rt_server_at E"
  "ready_of (sim_view now E) = rt_ready_of E" "mature_of (sim_view now E) = rt_mature_of now E"
  by (simp_all add: fun_eq_iff by_service_def rt_by_service_def centroid_of_def rt_centroid_of_def n_active_def
      rt_n_active_def server_at_def rt_server_at_def ready_of_def rt_ready_of_def mature_of_def rt_mature_of_def)

section \<open>Signals, audits and gates\<close>

lemma signals_agree:
  "any_active_server_sustained_overloaded (sim_view now E) = rt_sustained_overloaded now E"
  "any_active_server_sustained_underloaded (sim_view now E) = rt_sustained_underloaded now E"
  "was_turn_off_necessary (sim_view now E) sid = rt_was_turn_off_necessary E sid now"
  by (simp_all add: any_active_server_sustained_overloaded_def rt_sustained_overloaded_def view_access
      any_active_server_sustained_underloaded_def rt_sustained_underloaded_def was_turn_off_necessary_def
      rt_was_turn_off_necessary_def)

lemma starved_agrees:
  "any_service_capacity_starved (rw_world W) (sim_view now E) sn = rt_service_capacity_starved W E sn"
  by (simp add: any_service_capacity_starved_def rt_service_capacity_starved_def service_starved_def [abs_def])

lemma audits_agree:
  "turn_on_necessary (rw_world W) (sim_view now E) sn = rt_turn_on_necessary W now E sn"
  "was_turn_on_necessary_audit (rw_world W) (sim_view now E) sn = rt_turn_on_audit W E sn"
  "was_turn_off_necessary_audit sid sn = rt_turn_off_audit sid sn"
  by (simp_all add: turn_on_necessary_def rt_turn_on_necessary_def was_turn_on_necessary_audit_def rt_turn_on_audit_def
      was_turn_off_necessary_audit_def rt_turn_off_audit_def signals_agree starved_agrees cong: if_cong)

lemma annotate_agrees:
  "annotate_provisioning_necessity (rw_world W) (sim_view now E) sn = rt_annotate W now E sn"
  by (simp add: annotate_provisioning_necessity_def rt_annotate_def audits_agree signals_agree)

lemma cooldown_agrees: "service_in_cooldown svc (sim_view now E) = rt_service_in_cooldown svc now E"
  by (simp add: service_in_cooldown_def rt_service_in_cooldown_def)

text \<open>The engine of the simulator does not say what state an exception leaves.\<close>

definition plain :: "('b, 's) outcome \<Rightarrow> 'b result" where
  "plain m = (case m of Inl (e, _) \<Rightarrow> Inl e | Inr x \<Rightarrow> Inr x)"

lemma plain_simps [simp]:
  "plain (Inl p) = Inl (fst p)" "plain (Inr x) = Inr x" "plain (during E r) = r"
  "plain (bindE m f) = bindE (plain m) (\<lambda>x. plain (f x))"
  by (cases p; simp add: plain_def) (simp_all add: plain_def during_def bindE_def split: sum.splits prod.splits)

lemma track_agrees:
  "track_server sn x (sim_view now E) = bindE (plain (rt_track_server sn now x E)) (\<lambda>E'. Inr (sim_view now E'))"
proof -
  obtain sid s where x: "x = (sid, s)" by (cases x)
  show ?thesis
    by (cases "dlookup (sn_servers sn) sid")
       (simp_all add: x track_server_def rt_track_server_def Let_def cong: if_cong option.case_cong,
        simp_all add: sim_view_def)
qed

lemma foldE_commute:
  assumes "\<And>x u. f x (g u) = bindE (plain (f' x u)) (\<lambda>v. Inr (g v))"
  shows "foldE f xs (g u) = bindE (plain (foldE f' xs u)) (\<lambda>v. Inr (g v))"
proof (induction xs arbitrary: u)
  case (Cons x xs)
  then show ?case by (cases "f' x u") (simp_all add: assms)
qed simp

lemma sustain_agrees:
  "update_sustain_tracking sn (sim_view now E)
     = bindE (plain (rt_update_sustain_tracking sn now E)) (\<lambda>E'. Inr (sim_view now E'))"
  unfolding update_sustain_tracking_def rt_update_sustain_tracking_def
  by (subst foldE_commute [where g = "sim_view now"]) (rule track_agrees, simp)

lemma turn_on_agrees:
  assumes "rt_try_turn_on W sn nec sid now E = Inr (b, E')"
  shows "\<exists>V. try_turn_on (rw_world W) sn nec action sid (sim_view now E) = Inr (b, V)"
proof -
  obtain s where s0: "rt_server_at E sid = Inr s" using assms unfolding rt_try_turn_on_def by (rule during_InrE)
  then have s: "dlookup (rt_servers E) sid = Inr s" by (simp add: rt_server_at_def)
  note r = assms [unfolded rt_try_turn_on_def s0 during_simps bindE_simps]
  show ?thesis
  proof (cases "srv_state s \<noteq> SrvOff \<or> in_cooldown now COOLDOWN_SEC s
      \<or> \<not> nec \<and> \<not> alg_bypass_sustain_gate (w_alg (rw_world W))")
    case True
    then have "\<not> b" using r by (auto simp: rt_alg_def split: if_splits)
    with True show ?thesis by (auto simp: try_turn_on_def view_access s0)
  next
    case False
    then obtain nn where nn: "rt_turn_on_audit W E sn = Inr nn" and b
      using r by (auto simp: rt_alg_def elim!: bindE_InrE)
    moreover obtain V where "start_server_boot sid False (sim_view now E) = Inr V"
      using False s by (simp add: start_server_boot_def server_at_def Let_def)
    ultimately show ?thesis using False by (simp add: try_turn_on_def view_access s0 audits_agree)
  qed
qed

lemma turn_off_agrees:
  assumes "rt_turn_off_gate W sid now E = Inr passes"
    and "try_turn_off (rw_world W) sn action sid (sim_view now E) = Inr (b, V)"
  shows "if passes then \<exists>V'. start_server_drain (rw_world W) sid (sim_view now E) = Inr (b, V') else \<not> b"
proof -
  obtain s where s0: "rt_server_at E sid = Inr s" using assms(1) unfolding rt_turn_off_gate_def by (rule bindE_InrE)
  let ?stop = "srv_state s \<noteq> SrvActive
      \<or> \<not> rt_was_turn_off_necessary E sid now \<and> \<not> alg_bypass_sustain_gate (w_alg (rw_world W))
      \<or> rt_n_active E \<le> 1 \<or> in_cooldown now COOLDOWN_SEC s
      \<or> \<not> is_emergency_boot s \<and> now - last_transition_time s < MIN_ACTIVE_DURATION_SEC"
  have p: "passes \<longleftrightarrow> \<not> ?stop"
    using assms(1) by (auto simp: rt_turn_off_gate_def s0 rt_alg_def split: if_splits)
  note r = assms(2) [unfolded try_turn_off_def view_access s0 bindE_simps signals_agree sim_view_simps]
  show ?thesis
  proof (cases ?stop)
    case True
    then have "\<not> b" using r by (auto split: if_splits)
    moreover have "\<not> passes" using p True by blast
    ultimately show ?thesis by simp
  next
    case False
    then show ?thesis using r p by (auto elim!: bindE_InrE split: if_splits)
  qed
qed

section \<open>Snapshots\<close>

lemma server_entries_agree:
  assumes "1 / 10 ^ 9 < now - rt_util_window_start E"
  shows "map_st (window_server_entry (sim_view now E)) xs (rt_store E) = (map (rt_server_entry now E) xs, rt_store E)"
proof (induction xs)
  case (Cons x xs)
  have "window_server_entry (sim_view now E) x (rt_store E) = (rt_server_entry now E x, rt_store E)"
    using assms by (cases x) (simp add: window_server_entry_def rt_server_entry_def server_entry_def Let_def view_access)
  then show ?case using Cons.IH by simp
qed simp

text \<open>The engine after its snapshot of a service: as before, with the queues it read pruned.\<close>

definition viewed :: "real \<Rightarrow> ('a, 'r, 'k) rt \<Rightarrow> 'a engine \<Rightarrow> bool" where
  "viewed now E V \<longleftrightarrow> (\<exists>h. V = (sim_view now E)\<lparr>e_store := h\<rparr> \<and> pruned now (rt_store E) h)"

definition same_but_occupancy :: "int \<times> service_snapshot \<Rightarrow> int \<times> service_snapshot \<Rightarrow> bool" where
  "same_but_occupancy x y \<longleftrightarrow> fst x = fst y
     \<and> snd x = (snd y)\<lparr>sv_avg_queue_occupancy := sv_avg_queue_occupancy (snd x)\<rparr>"

lemma viewed_lists:
  assumes "viewed now E V"
  shows "by_service V = rt_by_service E" "ready_of V = rt_ready_of E" "mature_of V = rt_mature_of now E" "e_now V = now"
proof -
  obtain h where V: "V = (sim_view now E)\<lparr>e_store := h\<rparr>" and p: "pruned now (rt_store E) h"
    using assms by (auto simp: viewed_def)
  show b: "by_service V = rt_by_service E" by (simp add: V by_service_def rt_by_service_def fun_eq_iff)
  show r: "ready_of V = rt_ready_of E"
    using prunedD(5) [OF p] by (simp add: fun_eq_iff ready_of_def rt_ready_of_def b) (simp add: V)
  show n: "e_now V = now" by (simp add: V)
  show "mature_of V = rt_mature_of now E"
    using prunedD(6) [OF p] by (simp add: fun_eq_iff mature_of_def rt_mature_of_def r n) (simp add: V)
qed

lemma service_entry_agrees:
  assumes v: "viewed now E V" and r: "rt_service_entry W now svc (entries, E) = Inr (entries', E')"
  shows "\<exists>x y V'. window_service_entry svc V = (y, V') \<and> viewed now E' V' \<and> entries' = entries @ [x] \<and> same_but_occupancy x y"
proof -
  obtain h where V: "V = (sim_view now E)\<lparr>e_store := h\<rparr>" and p: "pruned now (rt_store E) h"
    using v by (auto simp: viewed_def)
  obtain avg h' where a: "avg_occupancy now (rt_ready_of E svc) h = (avg, h')" by fastforce
  have p': "pruned now (rt_store E) h'"
    using avg_occupancy_pruned [of now h "rt_ready_of E svc"] a pruned_trans [OF p] by simp
  obtain occ' where o: "rt_avg_occupancy W svc E = Inr occ'"
    using r unfolding rt_service_entry_def prod.case Let_def by (rule during_InrE)
  note r1 = r [unfolded rt_service_entry_def prod.case Let_def o during_simps bindE_simps]
  obtain info where i: "service_of svc = Inr info" using r1 by (rule during_InrE)
  define rolling' where "rolling' = push_tick svc (dget_or 0 (rt_tick_rejected E) svc) (dget_or 0 (rt_tick_total E) svc) (rt_rolling E)"
  define E2 where "E2 = (if 0 < dget_or 0 (rt_tick_total E) svc
      then E\<lparr>rt_rolling := rolling', rt_demand_centroid :=
             dset svc (medoid (dget_or [] (rt_recent_positions (E\<lparr>rt_rolling := rolling'\<rparr>)) svc))
               (rt_demand_centroid (E\<lparr>rt_rolling := rolling'\<rparr>))\<rparr>
      else E\<lparr>rt_rolling := rolling'\<rparr>)"
  note r2 = r1 [unfolded i during_simps bindE_simps, folded rolling'_def, folded E2_def]
  have E': "E' = E2" using r2 by simp
  let ?V' = "(sim_view now E2)\<lparr>e_store := h'\<rparr>"
  have w: "window_service_entry svc V = ((svc, service_entry ?V' svc avg (Some (rolling_rejection_rate rolling' svc))), ?V')"
    using a unfolding window_service_entry_def viewed_lists [OF v]
    by (simp add: V Let_def rolling'_def E2_def) (simp add: sim_view_def)
  have v': "viewed now E' ?V'" using p' by (auto simp: viewed_def E' E2_def)
  have same: "rt_tick_total E2 = rt_tick_total E" "rt_tick_rejected E2 = rt_tick_rejected E"
    "rt_by_service E2 = rt_by_service E" by (simp_all add: E2_def rt_by_service_def fun_eq_iff)
  have q: "queue_len_of svc = svc_queue_len info" by (simp add: queue_len_of_def i)
  have st: "r_state (h' a) = r_state (rt_store E2 a)" for a using prunedD(5) [OF p'] by (simp add: E2_def)
  have e: "service_entry ?V' svc avg (Some rate) =
      \<lparr>sv_n_replicas = length (filter (\<lambda>a. r_state (rt_store E2 a) = RepReady \<or> r_state (rt_store E2 a) = RepStarting)
                                (rt_by_service E svc)),
       sv_n_ready_replicas = length (rt_ready_of E2 svc), sv_n_mature_ready_replicas = length (rt_mature_of now E2 svc),
       sv_avg_queue_occupancy = avg, sv_queue_len = svc_queue_len info,
       sv_rejection_rate = real (dget_or 0 (rt_tick_rejected E) svc) / real (max (dget_or 0 (rt_tick_total E) svc) 1),
       sv_deadline_violation_rate = real (dget_or 0 (rt_tick_violated E2) svc) / real (max (dget_or 0 (rt_tick_total E) svc) 1),
       sv_rejection_rate_rolling = Some rate, sv_recent_arrivals = dget_or 0 (rt_tick_total E) svc,
       sv_demand_centroid = rt_centroid_of E2 svc,
       sv_proximity_violation_rate = real (dget_or 0 (rt_tick_proximity E2) svc) / real (max (dget_or 0 (rt_tick_total E) svc) 1),
       sv_scale_cooldown_active = (now - dget_or 0 (rt_last_scale_time E2) svc < COOLDOWN_SEC)\<rparr>" for rate
    using viewed_lists [OF v']
    by (simp add: service_entry_def Let_def E' same q st centroid_of_def rt_centroid_of_def)
  obtain x where x: "entries' = entries @ [(svc, x)]"
    "x = (service_entry ?V' svc avg (Some (rolling_rejection_rate rolling' svc)))\<lparr>sv_avg_queue_occupancy := sv_avg_queue_occupancy x\<rparr>"
  proof
    show "entries' = entries @ [(svc, snd (last entries'))]" using r2 by auto
    show "snd (last entries') = (service_entry ?V' svc avg (Some (rolling_rejection_rate rolling' svc)))
        \<lparr>sv_avg_queue_occupancy := sv_avg_queue_occupancy (snd (last entries'))\<rparr>"
      unfolding e using r2 by auto
  qed
  show ?thesis using w v' x by (auto simp: same_but_occupancy_def)
qed

lemma service_entries_agree:
  assumes "foldE (rt_service_entry W now) svcs (entries, E) = Inr (entries', E')" and "viewed now E V"
  shows "\<exists>xs ys V'. map_st window_service_entry svcs V = (ys, V') \<and> viewed now E' V' \<and> entries' = entries @ xs
    \<and> list_all2 same_but_occupancy xs ys"
  using assms
proof (induction svcs arbitrary: entries E V)
  case Nil
  then show ?case by auto
next
  case (Cons svc svcs)
  obtain e1 E1 where r: "rt_service_entry W now svc (entries, E) = Inr (e1, E1)"
    and f: "foldE (rt_service_entry W now) svcs (e1, E1) = Inr (entries', E')"
    using Cons.prems(1) by (auto elim!: bindE_InrE)
  obtain x y V1 where 1: "window_service_entry svc V = (y, V1)" "viewed now E1 V1" "e1 = entries @ [x]" "same_but_occupancy x y"
    using service_entry_agrees [OF Cons.prems(2) r] by blast
  obtain xs ys V2 where "map_st window_service_entry svcs V1 = (ys, V2)" "viewed now E' V2" "entries' = e1 @ xs"
    "list_all2 same_but_occupancy xs ys"
    using Cons.IH [OF f 1(2)] by blast
  then show ?case using 1 by (intro exI [of _ "x # xs"] exI [of _ "y # ys"] exI [of _ V2]) simp
qed

section \<open>Masks\<close>

text \<open>What one entry of a service records, in terms of the state before the snapshot.\<close>

definition entry_describes :: "real \<Rightarrow> ('a, 'r, 'k) rt \<Rightarrow> int \<Rightarrow> int \<times> service_snapshot \<Rightarrow> bool" where
  "entry_describes now E svc x \<longleftrightarrow> fst x = svc
     \<and> sv_n_ready_replicas (snd x) = length (rt_ready_of E svc)
     \<and> sv_n_mature_ready_replicas (snd x) = length (rt_mature_of now E svc)
     \<and> sv_scale_cooldown_active (snd x) = rt_service_in_cooldown svc now E"

definition same_replicas :: "('a, 'r, 'k) rt \<Rightarrow> ('a, 'r, 'k) rt \<Rightarrow> bool" where
  "same_replicas E E' \<longleftrightarrow> rt_servers E' = rt_servers E \<and> rt_store E' = rt_store E
     \<and> rt_replicas_by_service E' = rt_replicas_by_service E \<and> rt_last_scale_time E' = rt_last_scale_time E"

lemma same_replicas_reads:
  assumes "same_replicas E E'"
  shows "rt_ready_of E' = rt_ready_of E" and "rt_mature_of now E' = rt_mature_of now E"
    and "rt_by_service E' = rt_by_service E" and "rt_n_active E' = rt_n_active E"
    and "entry_describes now E' = entry_describes now E" and "rt_service_in_cooldown svc now E' = rt_service_in_cooldown svc now E"
  using assms by (simp_all add: same_replicas_def fun_eq_iff rt_ready_of_def rt_mature_of_def rt_by_service_def
      rt_n_active_def entry_describes_def rt_service_in_cooldown_def)

lemma rt_service_entry_describes:
  assumes r: "rt_service_entry W now svc (entries, E) = Inr (entries', E')"
  shows "same_replicas E E' \<and> (\<exists>x. entries' = entries @ [x] \<and> entry_describes now E svc x)"
proof -
  obtain avg where o: "rt_avg_occupancy W svc E = Inr avg"
    using r unfolding rt_service_entry_def prod.case Let_def by (rule during_InrE)
  note r1 = r [unfolded rt_service_entry_def prod.case Let_def o during_simps bindE_simps]
  obtain info where i: "service_of svc = Inr info" using r1 by (rule during_InrE)
  note r2 = r1 [unfolded i during_simps bindE_simps]
  have s: "same_replicas E E'" using r2 by (auto simp: same_replicas_def)
  obtain x where x: "entries' = entries @ [x]" "entry_describes now E' svc x"
  proof
    show "entries' = entries @ [last entries']" using r2 by auto
    show "entry_describes now E' svc (last entries')"
      using r2 by (auto simp: entry_describes_def rt_service_in_cooldown_def)
  qed
  with s same_replicas_reads(5) [OF s] show ?thesis by auto
qed

lemma rt_service_entries_describe:
  assumes "foldE (rt_service_entry W now) svcs (entries, E) = Inr (entries', E')"
  shows "same_replicas E E' \<and> (\<exists>xs. entries' = entries @ xs \<and> list_all2 (entry_describes now E) svcs xs)"
  using assms
proof (induction svcs arbitrary: entries E)
  case Nil
  then show ?case by (auto simp: same_replicas_def)
next
  case (Cons svc svcs)
  obtain e1 E1 where r: "rt_service_entry W now svc (entries, E) = Inr (e1, E1)"
    and f: "foldE (rt_service_entry W now) svcs (e1, E1) = Inr (entries', E')"
    using Cons.prems by (auto elim!: bindE_InrE)
  from rt_service_entry_describes [OF r] obtain x where 1: "same_replicas E E1" "e1 = entries @ [x]" "entry_describes now E svc x"
    by blast
  from Cons.IH [OF f] obtain xs where 2: "same_replicas E1 E'" "entries' = e1 @ xs" "list_all2 (entry_describes now E1) svcs xs"
    by blast
  have "same_replicas E E'" using 1(1) 2(1) by (simp add: same_replicas_def)
  then show ?case using 1 2 same_replicas_reads(5) [OF 1(1)] by (intro conjI exI [of _ "x # xs"]) auto
qed

lemma entries_lookup:
  assumes "list_all2 (\<lambda>k x. fst x = k \<and> P k (snd x)) ks xs" and "k \<in> set ks"
  shows "\<exists>v. dget xs k = Some v \<and> P k v"
  using assms by (induction rule: list_all2_induct) auto

lemma server_entry_key: "rt_server_entry now E x = (fst x, snd (rt_server_entry now E x))"
  by (cases x) (simp add: rt_server_entry_def Let_def)

lemma server_entries_get:
  "dget (map (rt_server_entry now E) d) k = map_option (\<lambda>s. snd (rt_server_entry now E (k, s))) (dget d k)"
proof (induction d)
  case (Cons x d)
  have "dget (rt_server_entry now E x # xs) k = (if k = fst x then Some (snd (rt_server_entry now E x)) else dget xs k)" for xs
    by (subst server_entry_key) simp
  then show ?case using Cons.IH by (cases x) simp
qed simp

text \<open>So the snapshot describes the state, as that of the simulator describes the engine.\<close>

lemma deployed_snapshot_describes:
  assumes b: "rt_build_metrics_snapshot W now E = Inr (sn, E')"
    and keys: "dkeys (rt_servers E) = SERVER_IDS"
  shows "snapshot_describes (sim_view now E') sn"
proof -
  obtain svcs E1 where f: "foldE (rt_service_entry W now) ACTIVE_SERVICES ([], E) = Inr (svcs, E1)"
    and sn: "sn_servers sn = map (rt_server_entry now E) (rt_servers E)" "sn_services sn = svcs"
      "E' = E1\<lparr>rt_energy_at_last_tick := \<Sum>s\<leftarrow>dvals (rt_servers E1). cumulative_energy_joule s\<rparr>"
    using b by (auto simp: rt_build_metrics_snapshot_def Let_def elim!: bindE_InrE)
  from rt_service_entries_describe [OF f] have s1: "same_replicas E E1"
    and l: "list_all2 (entry_describes now E) ACTIVE_SERVICES svcs" by auto
  have s: "same_replicas E E'" using s1 by (simp add: same_replicas_def sn(3))
  note same = same_replicas_reads [OF s]
  have srv: "\<exists>s e. dget (rt_servers E) k = Some s \<and> dget (sn_servers sn) k = Some e
      \<and> ss_state e = srv_state s \<and> ss_provision_cooldown_active e = in_cooldown now COOLDOWN_SEC s
      \<and> ss_min_active_duration_met e = (is_emergency_boot s \<or> MIN_ACTIVE_DURATION_SEC \<le> now - last_transition_time s)
      \<and> ss_is_last_active_server e = (srv_state s = SrvActive \<and> rt_n_active E \<le> 1)"
    if k: "k \<in> set SERVER_IDS" for k
  proof -
    obtain s where s: "dget (rt_servers E) k = Some s"
      using dlookup_total [of k "rt_servers E"] k unfolding keys dlookup_Inr_iff by blast
    then have "dget (sn_servers sn) k = Some (snd (rt_server_entry now E (k, s)))"
      by (simp add: sn(1) server_entries_get)
    with s show ?thesis by (simp add: rt_server_entry_def Let_def)
  qed
  have svc: "\<exists>sv. dget svcs k = Some sv \<and> sv_n_ready_replicas sv = length (rt_ready_of E k)
      \<and> sv_n_mature_ready_replicas sv = length (rt_mature_of now E k)
      \<and> sv_scale_cooldown_active sv = rt_service_in_cooldown k now E" if "k \<in> set ACTIVE_SERVICES" for k
    by (rule entries_lookup [OF l [unfolded entry_describes_def [abs_def]] that])
  have v: "rt_servers E' = rt_servers E" using s by (simp add: same_replicas_def)
  show ?thesis
    unfolding snapshot_describes_def view_access sim_view_simps same cooldown_agrees sn(2) v
    by (intro conjI ballI) (erule srv, erule svc)
qed

text \<open>The gates of the dispatcher read the same of the state as the masks do.\<close>

lemma deployed_on_gate:
  assumes "server_mask (sim_view now E) sid = Inr ms" and "alg_bypass_sustain_gate (rt_alg W)"
    and "rt_try_turn_on W sn nec sid now E = Inr (b, E')"
  shows "b = ms ! 1"
  using assms by (auto simp: server_mask_def rt_try_turn_on_def view_access bindE_Inr_iff Let_def split: if_splits)

lemma deployed_off_gate:
  assumes "server_mask (sim_view now E) sid = Inr ms" and "alg_bypass_sustain_gate (rt_alg W)"
    and "rt_turn_off_gate W sid now E = Inr passes"
  shows "passes = ms ! 2"
  using assms by (auto simp: server_mask_def rt_turn_off_gate_def view_access bindE_Inr_iff Let_def split: if_splits)

lemma deployed_down_gate:
  assumes "service_mask C (sim_view now E) lsn k = Inr ms" and "rt_try_scale_down W nec k now E = Inr (b, E')"
  shows "ms ! 2 = (b \<and> \<not> rt_service_in_cooldown k now E)"
  using assms by (auto simp: service_mask_def rt_try_scale_down_def view_access cooldown_agrees bindE_Inr_iff Let_def
      split: if_splits)

lemma snapshot_keeps:
  assumes "rt_build_metrics_snapshot W now E = Inr (sn, E')"
  shows "rt_servers E' = rt_servers E" and "dkeys (sn_services sn) = ACTIVE_SERVICES"
proof -
  obtain svcs E1 where f: "foldE (rt_service_entry W now) ACTIVE_SERVICES ([], E) = Inr (svcs, E1)"
    and sn: "sn_services sn = svcs"
      "E' = E1\<lparr>rt_energy_at_last_tick := \<Sum>s\<leftarrow>dvals (rt_servers E1). cumulative_energy_joule s\<rparr>"
    using assms by (auto simp: rt_build_metrics_snapshot_def Let_def elim!: bindE_InrE)
  from rt_service_entries_describe [OF f] have s: "same_replicas E E1"
    and l: "list_all2 (entry_describes now E) ACTIVE_SERVICES svcs" by auto
  show "rt_servers E' = rt_servers E" using s by (simp add: sn(2) same_replicas_def)
  have "dkeys xs = ks" if "list_all2 (entry_describes now E) ks xs" for ks xs
    using that by (induction rule: list_all2_induct) (auto simp: entry_describes_def)
  from this [OF l] show "dkeys (sn_services sn) = ACTIVE_SERVICES" by (simp add: sn(1))
qed

text \<open>A deployment without replicas has its snapshot.\<close>

lemma rt_service_entry_total:
  assumes "rt_replicas_by_service (snd p) = []" and "svc \<in> set ACTIVE_SERVICES"
  shows "\<exists>p'. rt_service_entry W now svc p = Inr p' \<and> rt_replicas_by_service (snd p') = []"
proof -
  obtain info where i: "service_of svc = Inr info" using assms(2) service_of_active by blast
  have "rt_avg_occupancy W svc (snd p) = Inr 0"
    using assms(1) by (simp add: rt_avg_occupancy_def rt_ready_of_def rt_by_service_def dget_or_def)
  then have "\<exists>p'. rt_service_entry W now svc p = Inr p'"
    by (cases p) (simp add: rt_service_entry_def Let_def i)
  then obtain e E' where r: "rt_service_entry W now svc (fst p, snd p) = Inr (e, E')" by (metis prod.collapse)
  from rt_service_entry_describes [OF r] have "rt_replicas_by_service E' = []"
    using assms(1) by (simp add: same_replicas_def)
  with r show ?thesis by auto
qed

lemma fresh_snapshot:
  assumes "new_rt df st t db k = Inr E"
  shows "\<exists>sn E'. rt_build_metrics_snapshot W now E = Inr (sn, E')"
proof -
  have "rt_replicas_by_service (snd ([], E)) = []" using assms by (auto simp: new_rt_def elim!: bindE_InrE)
  then obtain p where "foldE (rt_service_entry W now) ACTIVE_SERVICES ([], E) = Inr p"
    using foldE_total [of "\<lambda>p. rt_replicas_by_service (snd p) = []" "([], E)" ACTIVE_SERVICES "rt_service_entry W now"]
      rt_service_entry_total by blast
  then show ?thesis by (cases p) (simp add: rt_build_metrics_snapshot_def Let_def)
qed

section \<open>Properties\<close>

text \<open>
  C40. The snapshot on which an algorithm decides in the deployment is the one it would get in the
  simulator from the same bookkeeping: the same entries for every server, the same entries for
  every service but for the mean occupancy, which is read from Redis, and the same global figures;
  and the bookkeeping of the two agrees afterwards, too.
\<close>

theorem snapshots_mirror_simulator:
  assumes "rt_build_metrics_snapshot W now E = Inr (sn, E')" and "1 / 10 ^ 9 < now - rt_util_window_start E"
    and "build_metrics_snapshot (sim_view now E) = (sn', V')"
  shows "sn_servers sn = sn_servers sn' \<and> list_all2 same_but_occupancy (sn_services sn) (sn_services sn')
    \<and> sn_avg_response_time_recent sn = sn_avg_response_time_recent sn'
    \<and> sn_energy_recent_joule sn = sn_energy_recent_joule sn'
    \<and> sn_num_rejected_recent sn = sn_num_rejected_recent sn' \<and> viewed now E' V'"
proof -
  obtain svcs E1 where f: "foldE (rt_service_entry W now) ACTIVE_SERVICES ([], E) = Inr (svcs, E1)"
    and sn: "sn_servers sn = map (rt_server_entry now E) (rt_servers E)" "sn_services sn = svcs"
      "sn_avg_response_time_recent sn = (if rt_tick_responses E1 \<noteq> []
         then sum_list (rt_tick_responses E1) / real (length (rt_tick_responses E1)) else 0)"
      "sn_energy_recent_joule sn = (\<Sum>s\<leftarrow>dvals (rt_servers E1). cumulative_energy_joule s) - rt_energy_at_last_tick E1"
      "sn_num_rejected_recent sn = sum_list (dvals (rt_tick_rejected E1))"
      "E' = E1\<lparr>rt_energy_at_last_tick := \<Sum>s\<leftarrow>dvals (rt_servers E1). cumulative_energy_joule s\<rparr>"
    using assms(1) by (auto simp: rt_build_metrics_snapshot_def Let_def elim!: bindE_InrE)
  have "viewed now E (sim_view now E)" unfolding viewed_def by (rule exI [of _ "rt_store E"]) (simp add: sim_view_def)
  from service_entries_agree [OF f this] obtain ys V1 where
    1: "map_st window_service_entry ACTIVE_SERVICES (sim_view now E) = (ys, V1)" "viewed now E1 V1"
      "list_all2 same_but_occupancy svcs ys" by auto
  have st: "(sim_view now E)\<lparr>e_store := rt_store E\<rparr> = sim_view now E" by (simp add: sim_view_def)
  note r = assms(3) [unfolded build_metrics_snapshot_def sim_view_simps server_entries_agree [OF assms(2)] prod.case
      Let_def st 1(1)]
  obtain h where V1: "V1 = (sim_view now E1)\<lparr>e_store := h\<rparr>" and p: "pruned now (rt_store E1) h"
    using 1(2) by (auto simp: viewed_def)
  have "viewed now E' V'"
    unfolding viewed_def using r p by (intro exI [of _ h]) (auto simp: V1 sn(6), simp add: sim_view_def)
  then show ?thesis using r 1(3) by (auto simp: sn V1)
qed

theorem snapshots_mirror_simulator_witness:
  "\<exists>(E :: (greedy_state, rdb, cluster) rt) sn E' sn' V'.
     rt_build_metrics_snapshot (sample_rt_world sample_world) 5 E = Inr (sn, E')
     \<and> build_metrics_snapshot (sim_view 5 E) = (sn', V')
     \<and> sn_servers sn = sn_servers sn' \<and> list_all2 same_but_occupancy (sn_services sn) (sn_services sn')"
proof -
  obtain E :: "(greedy_state, rdb, cluster) rt" where E: "new_rt [] None 0 empty_rdb sample_cluster = Inr E"
    using sample_deployment by blast
  obtain sn E' where b: "rt_build_metrics_snapshot (sample_rt_world sample_world) 5 E = Inr (sn, E')"
    using fresh_snapshot [OF E] by blast
  have "rt_util_window_start E = 0" using E by (auto simp: new_rt_def elim!: bindE_InrE)
  then have w: "1 / 10 ^ 9 < 5 - rt_util_window_start E" by simp
  obtain sn' V' where v: "build_metrics_snapshot (sim_view 5 E) = (sn', V')" by (metis surj_pair)
  from snapshots_mirror_simulator [OF b w v] b v show ?thesis by blast
qed

text \<open>
  C39. The masks of a policy are the gates of the dispatcher. The masks the PPO algorithm builds
  from the snapshot of a decision tick are defined, and in the state the snapshot leaves a server
  may be turned on by the mask if and only if the dispatcher turns it on, may be turned off if and
  only if the dispatcher goes on to drain it, and a service may be scaled down if and only if the
  dispatcher schedules the deletion of a replica, outside its cooldown: what the policy learned to
  avoid in training is what the deployment refuses.
\<close>

theorem deployed_masks_are_gates:
  assumes "rt_build_metrics_snapshot W now E = Inr (sn, E')" and "dkeys (rt_servers E) = SERVER_IDS"
    and "alg_bypass_sustain_gate (rt_alg W)"
  shows "\<exists>masks. build_action_masks C (rt_servers E') (rt_store E') sn = Inr masks \<and> length masks = 75
    \<and> (\<forall>j b E''. j < N_SERVERS \<and> rt_try_turn_on W sn' nec (SERVER_IDS ! j) now E' = Inr (b, E'')
          \<longrightarrow> b = server_bit masks j 1)
    \<and> (\<forall>j passes. j < N_SERVERS \<and> rt_turn_off_gate W (SERVER_IDS ! j) now E' = Inr passes
          \<longrightarrow> passes = server_bit masks j 2)
    \<and> (\<forall>i b E''. i < N_SERVICES \<and> rt_try_scale_down W nec (SERVICE_IDS ! i) now E' = Inr (b, E'')
          \<longrightarrow> service_bit masks i 2 = (b \<and> \<not> rt_service_in_cooldown (SERVICE_IDS ! i) now E'))"
proof -
  let ?V = "sim_view now E'"
  have keys: "dkeys (e_servers ?V) = SERVER_IDS" using assms(2) snapshot_keeps(1) [OF assms(1)] by simp
  have d: "snapshot_describes ?V sn" by (rule deployed_snapshot_describes [OF assms(1,2)])
  have "\<exists>masks. compute_action_masks C ?V (Some sn) = Inr masks"
    by (rule masks_total, simp only: keys order_refl, metis snapshot_keeps(2) [OF assms(1)] option.inject order_refl)
  then obtain masks where c: "compute_action_masks C ?V (Some sn) = Inr masks" by blast
  have i: "build_action_masks C (rt_servers E') (rt_store E') sn = Inr masks" using masks_agree [OF d, of C] c by simp
  show ?thesis
  proof (intro exI [of _ masks] conjI allI impI i masks_read(1) [OF c]; elim conjE)
    fix j b E'' assume "j < N_SERVERS" "rt_try_turn_on W sn' nec (SERVER_IDS ! j) now E' = Inr (b, E'')"
    then show "b = server_bit masks j 1"
      using masks_read(3) [OF c, of j] deployed_on_gate [OF _ assms(3)] by (fastforce simp: ids_sorted)
  next
    fix j passes assume "j < N_SERVERS" "rt_turn_off_gate W (SERVER_IDS ! j) now E' = Inr passes"
    then show "passes = server_bit masks j 2"
      using masks_read(3) [OF c, of j] deployed_off_gate [OF _ assms(3)] by (fastforce simp: ids_sorted)
  next
    fix i b E'' assume "i < N_SERVICES" "rt_try_scale_down W nec (SERVICE_IDS ! i) now E' = Inr (b, E'')"
    then show "service_bit masks i 2 = (b \<and> \<not> rt_service_in_cooldown (SERVICE_IDS ! i) now E')"
      using masks_read(2) [OF c, of i] deployed_down_gate by (fastforce simp: ids_sorted)
  qed
qed

theorem deployed_masks_are_gates_witness:
  "\<exists>(E :: (greedy_state, rdb, cluster) rt) sn masks.
     build_action_masks \<lparr>enforce_sla_feasibility = True\<rparr> (rt_servers E) (rt_store E) sn = Inr masks
     \<and> (\<forall>j passes. j < N_SERVERS \<and> rt_turn_off_gate (sample_rt_world sample_world) (SERVER_IDS ! j) 5 E = Inr passes
          \<longrightarrow> passes = server_bit masks j 2)"
proof -
  obtain E :: "(greedy_state, rdb, cluster) rt" where E: "new_rt [] None 0 empty_rdb sample_cluster = Inr E"
    using sample_deployment by blast
  obtain sn E' where b: "rt_build_metrics_snapshot (sample_rt_world sample_world) 5 E = Inr (sn, E')"
    using fresh_snapshot [OF E] by blast
  have k: "dkeys (rt_servers E) = SERVER_IDS"
    using E init_servers_keys by (fastforce simp: new_rt_def elim!: bindE_InrE)
  have "alg_bypass_sustain_gate (rt_alg (sample_rt_world sample_world))"
    by (simp only: rt_alg_def sample_rt_world_def rt_world.simps sample_world_def greedy_algorithm_def world.simps algorithm.simps)
  from deployed_masks_are_gates [OF b k this] show ?thesis by blast
qed

end
