(* ===== verification/Routes.thy ===== *)
theory Routes
  imports Traffic PpoAlgorithm
begin

text \<open>
  Routing in the deployment: what a call of the dispatcher does to the queues in Redis, for the
  \<open>select_replica\<close> of each algorithm. Greedy and HPA use the routine of the base class, PPO its own
  when \<open>latency_aware_routing\<close> is set; with VOILA every call raises. Also the concrete dispatcher of
  the witnesses, and the case in which a call is counted twice.
\<close>

section \<open>Latency-aware routing with callbacks\<close>

text \<open>
  \<open>PPOAlgorithm.select_replica\<close> with an \<open>occupancy_fn\<close> and an \<open>admit_fn\<close>, which thread the state \<open>'s\<close>;
  with those of the simulator it is \<open>ppo_select_replica\<close>.
\<close>

fun latency_ranked_with ::
  "(nat \<Rightarrow> 's \<Rightarrow> nat \<times> 's) \<Rightarrow> request \<Rightarrow> servers \<Rightarrow> heap \<Rightarrow> nat list \<Rightarrow> 's \<Rightarrow> ((real \<times> nat) list \<times> 's) result" where
  "latency_ranked_with occupancy_fn req servers rep [] st = Inr ([], st)"
| "latency_ranked_with occupancy_fn req servers rep (a # as) st =
     (let (n, st1) = occupancy_fn a st
      in if r_queue_len (rep a) \<le> n then latency_ranked_with occupancy_fn req servers rep as st1
         else bindE (dlookup servers (r_server_id (rep a))) (\<lambda>s.
              bindE (latency_ranked_with occupancy_fn req servers rep as st1) (\<lambda>(ranked, st2).
                Inr ((est_latency req s (rep a) n, a) # ranked, st2))))"

definition ppo_select_with ::
  "bool \<Rightarrow> (nat \<Rightarrow> 's \<Rightarrow> nat \<times> 's) \<Rightarrow> (nat \<Rightarrow> 's \<Rightarrow> bool \<times> 's) \<Rightarrow> request \<Rightarrow> nat list \<Rightarrow> servers
   \<Rightarrow> heap \<Rightarrow> 's \<Rightarrow> (nat option \<times> 's) result" where
  "ppo_select_with latency_aware occupancy_fn admit_fn req candidates servers rep st =
     (if candidates = [] then Inr (None, st)
      else if \<not> latency_aware
      then select_replica_with occupancy_fn admit_fn req candidates servers rep st
      else bindE (latency_ranked_with occupancy_fn req servers rep candidates st) (\<lambda>(ranked, st1).
             Inr (find_st admit_fn (map snd (sort_key fst ranked)) st1)))"

definition ppo_rt_select :: "bool \<Rightarrow> ('a, 'r) rt_select" where
  "ppo_rt_select latency_aware st req candidates servers now h occupancy_fn admit_fn db =
     bindE (ppo_select_with latency_aware occupancy_fn admit_fn req candidates servers h db) (\<lambda>(c, db'). Inr (c, st, db'))"

lemma latency_ranked_with_sim:
  "pruned now rep h \<Longrightarrow> latency_ranked_with (sim_occupancy now) req servers rep as h = latency_ranked req servers now as h"
proof (induction as arbitrary: h)
  case (Cons a as)
  let ?h1 = "h(a := prune now (h a))"
  have h1: "pruned now rep ?h1" using Cons.prems sim_occupancy_pruned [of now rep h a] by (simp add: sim_occupancy_eq)
  have same: "r_queue_len (h a) = r_queue_len (rep a)" "r_server_id (h a) = r_server_id (rep a)"
    "r_exec_time (h a) = r_exec_time (rep a)" using prunedD(2-4) [OF Cons.prems] by simp_all
  have "est_latency req s (prune now (h a)) n = est_latency req s (rep a) n" for s n
    by (simp add: est_latency_def same)
  then show ?case by (simp add: sim_occupancy_eq [of now a h] Cons.IH [OF h1] same flip: fun_upd_def)
qed simp

lemma ppo_select_with_sim:
  "bindE (ppo_select_with (latency_aware_routing P) (sim_occupancy now) (sim_admit now) req candidates servers h h)
     (\<lambda>(c, h'). Inr (c, st, h')) = ppo_select_replica P st req candidates servers now h"
  by (cases "latency_ranked req servers now candidates h")
     (auto simp: ppo_select_with_def ppo_select_replica_def base_select_replica_def latency_ranked_with_sim split: prod.splits)

section \<open>Routing takes one slot or none\<close>

text \<open>
  What \<open>select_replica\<close> of the base class does with callbacks that keep an invariant \<open>I\<close>: it
  returns the first candidate it could reserve, or none if every candidate refused.
\<close>

lemma filter_st_keeps:
  "(\<And>x s. x \<in> set xs \<Longrightarrow> I s \<Longrightarrow> I (snd (p x s))) \<Longrightarrow> I st \<Longrightarrow>
   set (fst (filter_st p xs st)) \<subseteq> set xs \<and> I (snd (filter_st p xs st))"
proof (induction xs arbitrary: st)
  case (Cons x xs)
  have "I (snd (p x st))" using Cons.prems by simp
  with Cons.IH [of "snd (p x st)"] Cons.prems(1) show ?case
    by (auto simp: split_beta Let_def)
qed simp

lemma map_st_keeps:
  "(\<And>x s. x \<in> set xs \<Longrightarrow> I s \<Longrightarrow> I (snd (f x s)) \<and> snd (fst (f x s)) = x) \<Longrightarrow> I st \<Longrightarrow>
   map snd (fst (map_st f xs st)) = xs \<and> I (snd (map_st f xs st))"
proof (induction xs arbitrary: st)
  case (Cons x xs)
  have "I (snd (f x st))" "snd (fst (f x st)) = x" using Cons.prems by simp_all
  with Cons.IH [of "snd (f x st)"] Cons.prems(1) show ?case
    by (auto simp: split_beta Let_def)
qed simp

lemma find_st_refusals:
  assumes "\<And>x s. x \<in> set xs \<Longrightarrow> I s \<Longrightarrow> \<not> fst (p x s) \<Longrightarrow> I (snd (p x s)) \<and> F x" and "I st"
  shows "case fst (find_st p xs st) of
      None \<Rightarrow> I (snd (find_st p xs st)) \<and> (\<forall>x \<in> set xs. F x)
    | Some x \<Rightarrow> x \<in> set xs \<and> (\<exists>s. I s \<and> p x s = (True, snd (find_st p xs st)))"
  using assms
proof (induction xs arbitrary: st)
  case (Cons x xs)
  show ?case
  proof (cases "fst (p x st)")
    case True
    then show ?thesis using Cons.prems(2) by (auto simp: split_beta Let_def prod_eq_iff)
  next
    case False
    with Cons.prems have "I (snd (p x st))" "F x" by simp_all
    with Cons.IH [of "snd (p x st)"] Cons.prems(1) False show ?thesis
      by (auto simp: split_beta Let_def split: option.splits)
  qed
qed simp

lemma mapE_dist_pair:
  assumes "\<forall>a \<in> set as. r_server_id (rep a) \<in> set (dkeys servers)"
  shows "\<exists>ps. mapE (dist_pair req servers rep) as = Inr ps \<and> map snd ps = as"
  using assms
proof (induction as)
  case (Cons a as)
  then obtain s where "dlookup servers (r_server_id (rep a)) = Inr s" using dlookup_total by (metis list.set_intros(1))
  with Cons show ?case by (auto simp: dist_pair_def)
qed simp

lemma select_replica_with_reserves:
  assumes known: "\<forall>a \<in> set cands. r_server_id (rep a) \<in> set (dkeys servers)"
    and occ: "\<And>a s. a \<in> set cands \<Longrightarrow> I s \<Longrightarrow> I (snd (occf a s))"
    and adm: "\<And>a s. a \<in> set cands \<Longrightarrow> I s \<Longrightarrow> \<not> fst (admf a s) \<Longrightarrow> I (snd (admf a s)) \<and> F a"
    and st: "I st"
  shows "\<exists>c st'. select_replica_with occf admf req cands servers rep st = Inr (c, st')
    \<and> (case c of None \<Rightarrow> I st' \<and> (\<forall>a \<in> set cands. F a)
        | Some a \<Rightarrow> a \<in> set cands \<and> (\<exists>s. I s \<and> admf a s = (True, st')))"
proof (cases "cands = []")
  case True
  then show ?thesis using st by (simp add: select_replica_with_def)
next
  case False
  obtain ps where ps: "mapE (dist_pair req servers rep) cands = Inr ps" "map snd ps = cands"
    using mapE_dist_pair [OF known] by blast
  then have mem: "snd ` set ps = set cands" by (metis set_map)
  let ?m = "Min (set (map fst ps))"
  obtain near st1 where f: "filter_st (near_test rep occf ?m) ps st = (near, st1)" by fastforce
  have snd_mem: "snd p \<in> set cands" if "p \<in> set ps" for p using that mem by blast
  have "I (snd (near_test rep occf ?m p s))" if "p \<in> set ps" "I s" for p s
    using occ [OF snd_mem [OF that(1)] that(2)] that(2) by (simp add: near_test_def split_beta)
  then have "set near \<subseteq> set ps \<and> I st1"
    using filter_st_keeps [of ps I "near_test rep occf ?m" st] st f by simp
  then have near: "set near \<subseteq> set ps" and st1: "I st1" by simp_all
  obtain keyed st2 where k: "map_st (load_key rep occf) near st1 = (keyed, st2)" by fastforce
  have "I (snd (load_key rep occf p s)) \<and> snd (fst (load_key rep occf p s)) = p" if "p \<in> set near" "I s" for p s
    using occ [OF snd_mem [OF subsetD [OF near that(1)]] that(2)] by (simp add: load_key_def split_beta)
  then have "map snd keyed = near \<and> I st2"
    using map_st_keeps [of near I "load_key rep occf" st1] st1 k by simp
  then have keyed: "snd ` set keyed = set near" and st2: "I st2" by (auto simp flip: set_map)
  let ?ord = "map snd (sort_key fst keyed) @ sort_key fst (filter (\<lambda>p. p \<notin> set near) ps)"
  have ord: "set ?ord = set ps" using near by (auto simp: keyed)
  obtain c st3 where c: "find_st (\<lambda>p. admf (snd p)) ?ord st2 = (c, st3)" by fastforce
  have "case c of None \<Rightarrow> I st3 \<and> (\<forall>p \<in> set ?ord. F (snd p))
      | Some p \<Rightarrow> p \<in> set ?ord \<and> (\<exists>s. I s \<and> admf (snd p) s = (True, st3))"
  proof -
    have r: "I (snd (admf (snd p) s)) \<and> F (snd p)" if "p \<in> set ?ord" "I s" "\<not> fst (admf (snd p) s)" for p s
      using adm [OF snd_mem that(2,3)] that(1) unfolding ord by blast
    show ?thesis
      by (rule find_st_refusals [of ?ord I "\<lambda>p. admf (snd p)" "\<lambda>p. F (snd p)" st2, unfolded c fst_conv snd_conv])
        (use r st2 in blast)+
  qed
  then have "case map_option snd c of None \<Rightarrow> I st3 \<and> (\<forall>a \<in> set cands. F a)
      | Some a \<Rightarrow> a \<in> set cands \<and> (\<exists>s. I s \<and> admf a s = (True, st3))"
    unfolding ord mem [symmetric] by (force split: option.splits)
  then show ?thesis
    using False by (simp add: select_replica_with_def ps f k c Let_def del: set_map)
qed

text \<open>The same for the latency-aware routine, which leaves out the candidates it reads as full.\<close>

lemma latency_ranked_with_keeps:
  assumes "\<forall>a \<in> set cands. r_server_id (rep a) \<in> set (dkeys servers)"
    and "\<And>a s. a \<in> set cands \<Longrightarrow> I s \<Longrightarrow> I (snd (occf a s)) \<and> (r_queue_len (rep a) \<le> fst (occf a s) \<longrightarrow> F a)"
    and "I st"
  shows "\<exists>ranked st'. latency_ranked_with occf req servers rep cands st = Inr (ranked, st') \<and> I st'
    \<and> snd ` set ranked \<subseteq> set cands \<and> (\<forall>a \<in> set cands - snd ` set ranked. F a)"
  using assms
proof (induction cands arbitrary: st)
  case (Cons a as)
  obtain n st1 where o: "occf a st = (n, st1)" by fastforce
  have st1: "I st1" "r_queue_len (rep a) \<le> n \<longrightarrow> F a" using Cons.prems(2) [of a st] Cons.prems(3) o by simp_all
  obtain ranked st' where r: "latency_ranked_with occf req servers rep as st1 = Inr (ranked, st')" "I st'"
    "snd ` set ranked \<subseteq> set as" "\<forall>a \<in> set as - snd ` set ranked. F a"
    using Cons.IH [OF _ _ st1(1)] Cons.prems(1,2) by auto
  obtain s where s: "dlookup servers (r_server_id (rep a)) = Inr s"
    using dlookup_total Cons.prems(1) by (metis list.set_intros(1))
  show ?case
  proof (cases "r_queue_len (rep a) \<le> n")
    case True
    then show ?thesis using o r st1(2) by auto
  next
    case False
    then show ?thesis using o r s by auto
  qed
qed simp

text \<open>The algorithms whose \<open>select_replica\<close> takes the callbacks of the dispatcher.\<close>

definition takes_callbacks :: "('a, 'r) rt_select \<Rightarrow> bool" where
  "takes_callbacks select \<longleftrightarrow> select = base_rt_select \<or> (\<exists>b. select = ppo_rt_select b)"

lemma rt_select_reserves:
  assumes sel: "takes_callbacks select"
    and known: "\<forall>a \<in> set cands. r_server_id (rep a) \<in> set (dkeys servers)"
    and occ: "\<And>a s. a \<in> set cands \<Longrightarrow> I s \<Longrightarrow> I (snd (occf a s)) \<and> (r_queue_len (rep a) \<le> fst (occf a s) \<longrightarrow> F a)"
    and adm: "\<And>a s. a \<in> set cands \<Longrightarrow> I s \<Longrightarrow> \<not> fst (admf a s) \<Longrightarrow> I (snd (admf a s)) \<and> F a"
    and st: "I db"
  shows "\<exists>c db'. select alg req cands servers now rep occf admf db = Inr (c, alg, db')
    \<and> (case c of None \<Rightarrow> I db' \<and> (\<forall>a \<in> set cands. F a)
        | Some a \<Rightarrow> a \<in> set cands \<and> (\<exists>s. I s \<and> admf a s = (True, db')))"
proof -
  have base: "\<exists>c db'. base_rt_select alg req cands servers now rep occf admf db = Inr (c, alg, db')
    \<and> (case c of None \<Rightarrow> I db' \<and> (\<forall>a \<in> set cands. F a)
        | Some a \<Rightarrow> a \<in> set cands \<and> (\<exists>s. I s \<and> admf a s = (True, db')))"
    using select_replica_with_reserves [OF known, of I occf admf F db req] occ adm st
    by (fastforce simp: base_rt_select_def)
  have ppo: "\<exists>c db'. ppo_rt_select True alg req cands servers now rep occf admf db = Inr (c, alg, db')
    \<and> (case c of None \<Rightarrow> I db' \<and> (\<forall>a \<in> set cands. F a)
        | Some a \<Rightarrow> a \<in> set cands \<and> (\<exists>s. I s \<and> admf a s = (True, db')))" if ne: "cands \<noteq> []"
  proof -
    obtain ranked db1 where r: "latency_ranked_with occf req servers rep cands db = Inr (ranked, db1)" "I db1"
      "snd ` set ranked \<subseteq> set cands" "\<forall>a \<in> set cands - snd ` set ranked. F a"
      using latency_ranked_with_keeps [OF known, of I occf F db req] occ st by blast
    let ?ord = "map snd (sort_key fst ranked)"
    have ord: "set ?ord = snd ` set ranked" by simp
    obtain c db2 where c: "find_st admf ?ord db1 = (c, db2)" by fastforce
    have "case c of None \<Rightarrow> I db2 \<and> (\<forall>a \<in> set ?ord. F a)
        | Some a \<Rightarrow> a \<in> set ?ord \<and> (\<exists>s. I s \<and> admf a s = (True, db2))"
      by (rule find_st_refusals [of ?ord I admf F db1, unfolded c fst_conv snd_conv])
        (use adm r(2,3) ord in blast)+
    then have "case c of None \<Rightarrow> I db2 \<and> (\<forall>a \<in> set cands. F a)
        | Some a \<Rightarrow> a \<in> set cands \<and> (\<exists>s. I s \<and> admf a s = (True, db2))"
      using r(3,4) unfolding ord by (auto split: option.splits)
    moreover have "ppo_rt_select True alg req cands servers now rep occf admf db = Inr (c, alg, db2)"
      using ne by (simp add: ppo_rt_select_def ppo_select_with_def r(1) c)
    ultimately show ?thesis by blast
  qed
  show ?thesis
  proof (cases "select = ppo_rt_select True \<and> cands \<noteq> []")
    case True
    then show ?thesis using ppo by simp
  next
    case False
    have "ppo_select_with b occf admf req cands servers rep db = select_replica_with occf admf req cands servers rep db"
      if "\<not> b \<or> cands = []" for b
      using that by (auto simp: ppo_select_with_def select_replica_with_def)
    then have eq: "ppo_rt_select b alg req cands servers now rep occf admf db = base_rt_select alg req cands servers now rep occf admf db"
      if "\<not> b \<or> cands = []" for b
      using that by (simp add: ppo_rt_select_def base_rt_select_def)
    have "select alg req cands servers now rep occf admf db = base_rt_select alg req cands servers now rep occf admf db"
    proof (cases "select = base_rt_select")
      case other: False
      then obtain b where b: "select = ppo_rt_select b" using sel by (auto simp: takes_callbacks_def)
      then have "\<not> b \<or> cands = []" using False by (cases b) auto
      from eq [OF this] show ?thesis unfolding b .
    qed simp
    then show ?thesis using base by simp
  qed
qed

text \<open>The callbacks of the deployment keep the counters exact; a refusal changes no reservation.\<close>

definition routing_state :: "('r \<Rightarrow> rview) \<Rightarrow> (int \<Rightarrow> int) \<Rightarrow> slot_job multiset \<Rightarrow> rview \<Rightarrow> 'r result \<Rightarrow> bool" where
  "routing_state view Q J v res \<longleftrightarrow>
     (\<exists>db. res = Inr db \<and> slots_exact Q (view db) J \<and> v_zset (view db) = v_zset v)"

definition queue_full :: "(int \<Rightarrow> int) \<Rightarrow> slot_job multiset \<Rightarrow> rview \<Rightarrow> int \<Rightarrow> int \<Rightarrow> bool" where
  "queue_full Q J v svc srv \<longleftrightarrow> Q svc \<le> int (length (reserved v svc srv) + held svc srv J)"

lemma same_zset: "v_zset w = v_zset v \<Longrightarrow> reserved w = reserved v \<and> queue_full Q J w = queue_full Q J v
    \<and> fresh w J = fresh v J"
  by (simp add: reserved_def queue_full_def fresh_def fun_eq_iff)

lemma rt_occupancy_keeps:
  assumes R: "redis_server R view" and s: "routing_state view Q J v res" and len: "int (r_queue_len (h a)) = Q svc"
  shows "routing_state view Q J v (snd (rt_occupancy R h svc a res))
    \<and> (r_queue_len (h a) \<le> fst (rt_occupancy R h svc a res) \<longrightarrow> queue_full Q J v svc (r_server_id (h a)))"
proof -
  let ?k = "r_server_id (h a)"
  obtain db where db: "res = Inr db" "slots_exact Q (view db) J" "v_zset (view db) = v_zset v"
    using s by (auto simp: routing_state_def)
  note ex = slot_exactD [OF slots_exactD(2) [OF db(2)], of svc ?k]
  obtain n where n: "get_queue_occupancy R svc ?k db = Inr n"
      "n = int (length (reserved (view db) svc ?k) + held svc ?k J)"
    using redis_server.get_int_counter [OF R slots_exactD(1) [OF db(2)] kind_of_key(3) ex(1)] ex
    by (auto simp: get_queue_occupancy_def)
  have "queue_full Q J v svc ?k" if "r_queue_len (h a) \<le> nat n"
    using that n(2) same_zset [OF db(3), of Q J] len by (simp add: queue_full_def)
  then show ?thesis using s n(1) by (simp add: rt_occupancy_def db(1))
qed

lemma rt_admit_runs:
  assumes R: "redis_server R view" and s: "routing_state view Q J v res"
    and len: "int (r_queue_len (h a)) = Q svc" and new: "fresh v J svc (r_server_id (h a)) rid"
  obtains db' where "rt_admit R h svc rid ttl wall a res = (\<not> queue_full Q J v svc (r_server_id (h a)), Inr db')"
    and "slots_exact Q (view db') J"
    and "v_zset (view db') = (if queue_full Q J v svc (r_server_id (h a)) then v_zset v
      else (v_zset v)(reservations_key svc (r_server_id (h a)) :=
        v_zset v (reservations_key svc (r_server_id (h a))) @ [(py_str rid, wall a + ttl)]))"
proof -
  let ?k = "r_server_id (h a)"
  obtain db where db: "res = Inr db" "slots_exact Q (view db) J" "v_zset (view db) = v_zset v"
    using s by (auto simp: routing_state_def)
  have new': "fresh (view db) J svc ?k rid" using new same_zset [OF db(3)] by simp
  obtain b db' where r: "try_reserve_queue_slot R svc ?k (Q svc) (Some rid) (Some ttl) (wall a) db = Inr (b, db')"
    "slots_exact Q (view db') J" "b \<longleftrightarrow> int (length (reserved (view db) svc ?k) + held svc ?k J) < Q svc"
    "v_zset (view db') = (if b then (v_zset (view db))(reservations_key svc ?k :=
        v_zset (view db) (reservations_key svc ?k) @ [(py_str rid, wall a + ttl)]) else v_zset (view db))"
    by (rule redis_server.reserve_runs [OF R db(2) new', of ttl "wall a"]) (rule that, assumption+)
  have b: "b = (\<not> queue_full Q J v svc ?k)"
    using r(3) same_zset [OF db(3), of Q J] unfolding queue_full_def by (simp add: not_le)
  show thesis
  proof (rule that [OF _ r(2)])
    show "rt_admit R h svc rid ttl wall a res = (\<not> queue_full Q J v svc ?k, Inr db')"
      using r(1) unfolding b by (simp add: rt_admit_def db(1) len)
    show "v_zset (view db') = (if queue_full Q J v svc ?k then v_zset v
        else (v_zset v)(reservations_key svc ?k := v_zset v (reservations_key svc ?k) @ [(py_str rid, wall a + ttl)]))"
      using r(4) unfolding b db(3) by simp
  qed
qed

lemma route_takes_slot:
  assumes R: "redis_server (rw_redis W) view" and sel: "takes_callbacks (rw_select W)"
    and ok: "slots_exact Q (view (rt_db E)) J" and svc: "service_of svc = Inr info"
    and known: "\<forall>a \<in> set (rt_candidates E svc). r_server_id (rt_store E a) \<in> set (dkeys (rt_servers E))"
    and len: "\<forall>a \<in> set (rt_candidates E svc). int (r_queue_len (rt_store E a)) = Q svc"
    and new: "\<forall>srv. fresh (view (rt_db E)) J svc srv rid"
  shows "\<exists>reply E'. route_request W clk rid svc lat lon E = Inr (reply, E') \<and> slots_exact Q (view (rt_db E')) J
    \<and> (if is_routed reply
       then \<exists>a \<in> set (rt_candidates E svc). let k = r_server_id (rt_store E a); key = reservations_key svc k in
         \<not> queue_full Q J (view (rt_db E)) svc k
         \<and> v_zset (view (rt_db E')) = (v_zset (view (rt_db E)))(key := v_zset (view (rt_db E)) key
             @ [(py_str rid, rc_reserve_wall clk a + (deadline info + 5))])
       else v_zset (view (rt_db E')) = v_zset (view (rt_db E))
         \<and> (\<forall>a \<in> set (rt_candidates E svc). queue_full Q J (view (rt_db E)) svc (r_server_id (rt_store E a))))"
proof -
  define E0 where "E0 = note_arrival svc lat lon E"
  have e: "rt_db E0 = rt_db E" "rt_store E0 = rt_store E" "rt_servers E0 = rt_servers E"
    "rt_candidates E0 svc = rt_candidates E svc"
    by (simp_all add: E0_def note_arrival_def rt_candidates_def rt_by_service_def)
  let ?v = "view (rt_db E)" and ?h = "rt_store E" and ?cs = "rt_candidates E svc"
  let ?I = "routing_state view Q J ?v" and ?ttl = "deadline info + 5"
  let ?adm = "rt_admit (rw_redis W) ?h svc rid ?ttl (rc_reserve_wall clk)"
  let ?occ = "rt_occupancy (rw_redis W) ?h svc"
  have adm: "\<exists>db'. ?adm a res = (\<not> queue_full Q J ?v svc (r_server_id (?h a)), Inr db')
      \<and> slots_exact Q (view db') J \<and> v_zset (view db') = (if queue_full Q J ?v svc (r_server_id (?h a)) then v_zset ?v
        else (v_zset ?v)(reservations_key svc (r_server_id (?h a)) :=
          v_zset ?v (reservations_key svc (r_server_id (?h a))) @ [(py_str rid, rc_reserve_wall clk a + ?ttl)]))"
    if "a \<in> set ?cs" "?I res" for a res
    by (rule rt_admit_runs [OF R that(2), of ?h a svc rid ?ttl "rc_reserve_wall clk"]) (use that(1) len new in blast)+
  have "\<exists>c st'. rw_select W (rt_algorithm E0) (new_request rid lat lon svc (rc_select clk)) ?cs (rt_servers E)
      (rc_select clk) ?h ?occ ?adm (Inr (rt_db E)) = Inr (c, rt_algorithm E0, st')
    \<and> (case c of None \<Rightarrow> ?I st' \<and> (\<forall>a \<in> set ?cs. queue_full Q J ?v svc (r_server_id (?h a)))
        | Some a \<Rightarrow> a \<in> set ?cs \<and> (\<exists>s. ?I s \<and> ?adm a s = (True, st')))"
  proof (rule rt_select_reserves [OF sel known])
    show "?I (Inr (rt_db E))" using ok by (simp add: routing_state_def)
    show "?I (snd (?occ a s)) \<and> (r_queue_len (?h a) \<le> fst (?occ a s) \<longrightarrow> queue_full Q J ?v svc (r_server_id (?h a)))"
      if "a \<in> set ?cs" "?I s" for a s by (rule rt_occupancy_keeps [OF R that(2)]) (use that(1) len in blast)
    show "?I (snd (?adm a s)) \<and> queue_full Q J ?v svc (r_server_id (?h a))"
      if "a \<in> set ?cs" "?I s" "\<not> fst (?adm a s)" for a s
      using adm [OF that(1,2)] that(3) by (auto simp: routing_state_def)
  qed
  then obtain c res where c: "rw_select W (rt_algorithm E0) (new_request rid lat lon svc (rc_select clk)) ?cs (rt_servers E)
      (rc_select clk) ?h ?occ ?adm (Inr (rt_db E)) = Inr (c, rt_algorithm E0, res)"
    and cc: "case c of None \<Rightarrow> ?I res \<and> (\<forall>a \<in> set ?cs. queue_full Q J ?v svc (r_server_id (?h a)))
        | Some a \<Rightarrow> a \<in> set ?cs \<and> (\<exists>s. ?I s \<and> ?adm a s = (True, res))" by blast
  have run: "route_request W clk rid svc lat lon E = bindE (during E0 res) (\<lambda>db'.
      let E1 = E0\<lparr>rt_algorithm := rt_algorithm E0, rt_db := db'\<rparr>
      in case c of None \<Rightarrow> let status = (if ?cs = [] then RejectedNoReplica else RejectedQueueFull)
            in Inr (RejectedReply status, rt_reject rid svc lat lon status (rc_reject_wall clk) E1)
        | Some a \<Rightarrow> rt_dispatch W clk rid svc lat lon a (deadline info) E1)"
    unfolding route_request_def E0_def [symmetric] Let_def svc during_simps bindE_simps e c by simp
  show ?thesis
  proof (cases c)
    case None
    with cc obtain db' where "res = Inr db'" "slots_exact Q (view db') J" "v_zset (view db') = v_zset ?v"
      "\<forall>a \<in> set ?cs. queue_full Q J ?v svc (r_server_id (?h a))" by (auto simp: routing_state_def)
    then show ?thesis by (simp add: run None Let_def)
  next
    case (Some a)
    with cc obtain s where a: "a \<in> set ?cs" and s: "?I s" "?adm a s = (True, res)" by auto
    obtain db' where db: "res = Inr db'" "\<not> queue_full Q J ?v svc (r_server_id (?h a))" "slots_exact Q (view db') J"
      "v_zset (view db') = (v_zset ?v)(reservations_key svc (r_server_id (?h a)) :=
          v_zset ?v (reservations_key svc (r_server_id (?h a))) @ [(py_str rid, rc_reserve_wall clk a + ?ttl)])"
      using adm [OF a s(1)] s(2) by auto
    define E1 where "E1 = E0\<lparr>rt_algorithm := rt_algorithm E0, rt_db := db'\<rparr>"
    have e1: "rt_servers E1 = rt_servers E" "rt_store E1 = rt_store E" "rt_db E1 = db'" by (simp_all add: E1_def e)
    obtain server where server: "dlookup (rt_servers E) (r_server_id (?h a)) = Inr server"
      using dlookup_total [OF bspec [OF known a]] by (elim exE)
    obtain reply E' where d: "rt_dispatch W clk rid svc lat lon a (deadline info) E1 = Inr (reply, E')"
      using dispatch_total [of E1 a server W clk rid svc lat lon "deadline info", unfolded e1, OF server]
      by (elim exE)
    have dr: "is_routed reply" "rt_db E' = db'" using dispatch_books [OF d] unfolding e1 by blast+
    have "route_request W clk rid svc lat lon E = Inr (reply, E')"
      unfolding run Some db(1) during_simps bindE_simps Let_def option.case E1_def [symmetric] by (rule d)
    moreover have "slots_exact Q (view (rt_db E')) J" unfolding dr(2) by (rule db(3))
    moreover have "if is_routed reply then \<exists>a \<in> set ?cs. let k = r_server_id (?h a); key = reservations_key svc k in
        \<not> queue_full Q J ?v svc k
        \<and> v_zset (view (rt_db E')) = (v_zset ?v)(key := v_zset ?v key @ [(py_str rid, rc_reserve_wall clk a + ?ttl)])
      else v_zset (view (rt_db E')) = v_zset ?v \<and> (\<forall>a \<in> set ?cs. queue_full Q J ?v svc (r_server_id (?h a)))"
      unfolding Let_def if_P [OF dr(1)] dr(2) by (rule bexI [OF _ a]) (rule conjI [OF db(2,4)])
    ultimately show ?thesis by (intro exI conjI)
  qed
qed

text \<open>A dispatcher with one ready replica of the first service.\<close>

definition sample_rt :: "(unit, rdb, cluster) rt" where
  "sample_rt =
     \<lparr>rt_events = [], rt_algorithm = (), rt_metrics = new_metrics, rt_rolling = new_tracker ROLLING_TICKS,
      rt_servers = [(1, new_server 1 Medium 31 121 33120 30 130)], rt_replicas_by_service = [(1, [0])],
      rt_store = (\<lambda>_. (new_replica 1 1 1 (55/1000) 0)\<lparr>r_state := RepReady\<rparr>),
      rt_next_ref = 1, rt_running = True, rt_tick_total = [], rt_tick_rejected = [], rt_tick_violated = [],
      rt_tick_proximity = [], rt_tick_responses = [], rt_energy_at_last_tick = 0, rt_recent_positions = [],
      rt_demand_centroid = [], rt_util_at_window_start = [], rt_util_window_start = 0, rt_last_scale_time = [],
      rt_low_util_since = [], rt_high_util_since = [], rt_emergency_boot = [], rt_request_geo = [], rt_reaped = [],
      rt_background = [], rt_db = empty_rdb, rt_cluster = flaky_cluster\<rparr>"

lemma sample_facts:
  defines "Q \<equiv> \<lambda>_ :: int. 1 :: int" and "v \<equiv> rdb_view (rt_db sample_rt)"
  shows "slots_exact Q v {#}" "rt_candidates sample_rt 1 = [0]" "\<exists>info. service_of 1 = Inr info"
    "r_server_id (rt_store sample_rt 0) = 1" "r_queue_len (rt_store sample_rt 0) = 1"
    "1 \<in> set (dkeys (rt_servers sample_rt))" "\<forall>srv. fresh v {#} 1 srv 7" "reserved v 1 1 = []"
    "\<not> queue_full Q {#} v 1 1"
proof -
  show "slots_exact Q v {#}"
    using assoc.reset_exact [OF well_kinded_empty, of Q] by (simp add: sample_rt_def reset_empty v_def Q_def)
  show "rt_candidates sample_rt 1 = [0]"
    by (simp add: sample_rt_def rt_candidates_def rt_by_service_def dget_or_def is_selectable_def)
  show "\<exists>info. service_of 1 = Inr info"
    using service_of_active [of 1] by (auto simp: ACTIVE_SERVICES_def SERVICES_INFO_def)
  show "reserved v 1 1 = []" by (simp add: v_def sample_rt_def reserved_empty)
  then show "\<not> queue_full Q {#} v 1 1" by (simp add: queue_full_def Q_def)
  show "\<forall>srv. fresh v {#} 1 srv 7" by (simp add: v_def sample_rt_def fresh_empty)
qed (simp_all add: sample_rt_def new_replica_def)

lemma sample_redis: "redis_server (rw_redis (sample_rt_world W)) rdb_view \<and> takes_callbacks (rw_select (sample_rt_world W))"
  by (simp add: sample_rt_world_def assoc.redis_server_axioms takes_callbacks_def)

lemma sample_routed:
  "\<exists>reply E'. route_request (sample_rt_world W) sample_clock 7 1 31 121 sample_rt = Inr (reply, E') \<and> is_routed reply"
proof -
  obtain info where info: "service_of 1 = Inr info" using sample_facts(3) by blast
  obtain reply E' where r: "route_request (sample_rt_world W) sample_clock 7 1 31 121 sample_rt = Inr (reply, E')"
    "if is_routed reply then True else queue_full (\<lambda>_. 1) {#} (rdb_view (rt_db sample_rt)) 1 1"
    using route_takes_slot [OF sample_redis [of W, THEN conjunct1] sample_redis [of W, THEN conjunct2] sample_facts(1) info,
        where rid = 7 and clk = sample_clock and lat = 31 and lon = 121] sample_facts
    by (auto split: if_splits)
  then have "is_routed reply" using sample_facts(9) by (simp split: if_splits)
  with r(1) show ?thesis by blast
qed

section \<open>Where routing and counting fail\<close>

text \<open>With VOILA every call raises, after noting the arrival.\<close>

lemma voila_routing_raises:
  assumes "rw_select W = voila_rt_select" and "service_of svc = Inr info"
  shows "route_request W clk rid svc lat lon E = Inl (TypeError, note_arrival svc lat lon E)"
  using assms by (simp add: route_request_def voila_rt_select_def Let_def)

text \<open>
  A call counted twice: routed, reaped as lost, forgotten, and reported by its pod after that. The
  queue of a pod of the slowest service holds more work than the time until the reaper forgets.
\<close>

definition late_completion :: completion where
  "late_completion = \<lparr>c_request_id = Some 7, c_service_id = 1, c_server_id = 1, c_success = True,
     c_response_time_sec = 1\<rparr>"

lemma late_report_counts_twice:
  "\<exists>E dropped. traffic (sample_rt_world W) [] () (E, {7}, {}, dropped, {7})
     \<and> rt_request_geo E = [] \<and> total_requests (rt_metrics E) = 2"
proof -
  let ?W = "sample_rt_world (W :: unit world)"
  obtain servers where servers: "init_servers = Inr servers" using init_servers_fresh by blast
  obtain S :: "(unit, rdb, cluster) rt" where S: "new_rt [] () 0 empty_rdb flaky_cluster = Inr S" "rt_request_geo S = []"
    "rt_reaped S = []" "rt_metrics S = new_metrics"
    by (simp add: new_rt_def servers)
  have sb: "same_books S sample_rt" by (simp add: same_books_def sample_rt_def S)
  have "traffic ?W [] () (S, {}, {}, {}, {})" by (rule traffic.start [OF S(1)])
  from traffic.elsewhere [OF this sb] have t0: "traffic ?W [] () (sample_rt, {}, {}, {}, {})" .
  obtain reply E1 where r: "route_request ?W sample_clock 7 1 31 121 sample_rt = Inr (reply, E1)" "is_routed reply"
    using sample_routed by blast
  have t1: "traffic ?W [] () (E1, {7}, {7}, {}, {})" using traffic.route [OF t0 _ r(1)] r(2) by simp
  obtain g where e1: "rt_reaped E1 = []" "rt_request_geo E1 = [(7, g)]"
    using route_books [OF r(1)] r(2) by (auto simp: sample_rt_def)
  define now where "now = ge_routed_at g + max_age + 1"
  define E2 where "E2 = reap_lost_requests now 0 E1"
  have t2: "traffic ?W [] () (E2, {7}, {7}, {}, {})" unfolding E2_def by (rule traffic.reap [OF t1])
  have e2: "rt_request_geo E2 = []" "rt_reaped E2 = [(7, now)]"
    by (simp_all add: E2_def reap_lost_requests_def stale_ids_def e1 now_def reap_one_def rt_metric_def Let_def)
  define E3 where "E3 = prune_reaped_ids (now + 2 * max_age + 1) E2"
  have "forgotten (now + 2 * max_age + 1) E2 = {7}" by (auto simp: forgotten_def e2)
  then have t3: "traffic ?W [] () (E3, {7}, {7}, {7}, {})"
    using traffic.prune [OF t2, of "now + 2 * max_age + 1"] by (simp add: E3_def)
  have e3: "rt_request_geo E3 = []" "rt_reaped E3 = []" by (simp_all add: E3_def prune_reaped_ids_def e2)
  have "\<exists>E4. record_external_completion 0 late_completion E3 = Inr E4"
    using service_of_active [of 1]
    by (auto simp: record_external_completion_def already_reaped_def e3 late_completion_def Let_def
        ACTIVE_SERVICES_def SERVICES_INFO_def)
  then obtain E4 where r4: "record_external_completion 0 late_completion E3 = Inr E4" by blast
  have id: "c_request_id late_completion = Some 7" by (simp add: late_completion_def)
  have t4: "traffic ?W [] () (E4, {7}, {}, {7}, {7})" using traffic.report [OF t3 id _ r4] by simp
  have "rt_request_geo E4 = []" using report_books [OF r4 id] e3 by simp
  with t4 traffic_balanced [OF t4] show ?thesis by (intro exI conjI) (auto simp: balanced_def)
qed

section \<open>Property\<close>

text \<open>
  C35. Routing takes exactly one slot or none. From a state with exact counters, a request whose
  identifier is in no queue is, with Greedy, HPA or PPO, routed or rejected without an exception: it is routed to the
  server of a candidate whose queue had a slot left, the only change to the reservations being
  its own, or it is rejected, with no reservation changed, because every candidate was full.
\<close>

theorem routing_takes_one_slot:
  assumes R: "redis_server (rw_redis W) view" and sel: "takes_callbacks (rw_select W)"
    and ok: "slots_exact Q (view (rt_db E)) J" and svc: "service_of svc = Inr info"
    and known: "\<forall>a \<in> set (rt_candidates E svc). r_server_id (rt_store E a) \<in> set (dkeys (rt_servers E))"
    and len: "\<forall>a \<in> set (rt_candidates E svc). int (r_queue_len (rt_store E a)) = Q svc"
    and new: "\<forall>srv. fresh (view (rt_db E)) J svc srv rid"
  shows "\<exists>reply E'. route_request W clk rid svc lat lon E = Inr (reply, E') \<and> slots_exact Q (view (rt_db E')) J
    \<and> (if is_routed reply
       then \<exists>a \<in> set (rt_candidates E svc). let k = r_server_id (rt_store E a); key = reservations_key svc k in
         \<not> queue_full Q J (view (rt_db E)) svc k
         \<and> v_zset (view (rt_db E')) = (v_zset (view (rt_db E)))(key := v_zset (view (rt_db E)) key
             @ [(py_str rid, rc_reserve_wall clk a + (deadline info + 5))])
       else v_zset (view (rt_db E')) = v_zset (view (rt_db E))
         \<and> (\<forall>a \<in> set (rt_candidates E svc). queue_full Q J (view (rt_db E)) svc (r_server_id (rt_store E a))))"
  using assms by (rule route_takes_slot)

theorem routing_takes_one_slot_witness:
  "\<forall>W. \<exists>reply E'. route_request (sample_rt_world W) sample_clock 7 1 31 121 sample_rt = Inr (reply, E')
     \<and> is_routed reply \<and> reserved (rdb_view (rt_db E')) 1 1 = [py_str 7]"
proof (intro allI)
  fix W :: "unit world"
  obtain info where info: "service_of 1 = Inr info" using sample_facts(3) by blast
  obtain reply E' where r: "route_request (sample_rt_world W) sample_clock 7 1 31 121 sample_rt = Inr (reply, E')"
    "if is_routed reply
     then v_zset (rdb_view (rt_db E')) = (v_zset (rdb_view (rt_db sample_rt)))(reservations_key 1 1 :=
       v_zset (rdb_view (rt_db sample_rt)) (reservations_key 1 1) @ [(py_str 7, 100 + (deadline info + 5))])
     else queue_full (\<lambda>_. 1) {#} (rdb_view (rt_db sample_rt)) 1 1"
    using routing_takes_one_slot [OF sample_redis [of W, THEN conjunct1] sample_redis [of W, THEN conjunct2] sample_facts(1) info,
        where rid = 7 and clk = sample_clock and lat = 31 and lon = 121] sample_facts
    by (auto simp: sample_clock_def Let_def split: if_splits)
  then have "is_routed reply" using sample_facts(9) by (simp split: if_splits)
  with r sample_facts(8) show "\<exists>reply E'. route_request (sample_rt_world W) sample_clock 7 1 31 121 sample_rt = Inr (reply, E')
     \<and> is_routed reply \<and> reserved (rdb_view (rt_db E')) 1 1 = [py_str 7]"
    by (intro exI [of _ reply] exI [of _ E']) (simp add: reserved_def)
qed

end
