(* ===== verification/Queues.thy ===== *)
theory Queues
  imports Slots
begin

text \<open>
  The queues of the workers over a run in which replicas come and go. \<open>remove_replica\<close> deletes the
  counter of a queue, whatever is reserved in it or under way; the commands of the other processes
  go on around it. A queue removed while something was in it is \<open>tainted\<close> until it is removed
  idle: its counter may then read less than its occupancy, but never more, and the counter of every
  other queue is exact.
\<close>

section \<open>Removing a replica\<close>

definition removed_keys :: "int \<Rightarrow> int \<Rightarrow> string list" where
  "removed_keys svc srv = [replica_key svc srv ''state'', replica_key svc srv ''pod_ip'', queue_key svc srv]"

definition idle_queue :: "rview \<Rightarrow> slot_job multiset \<Rightarrow> int \<Rightarrow> int \<Rightarrow> bool" where
  "idle_queue v J svc srv \<longleftrightarrow> reserved v svc srv = [] \<and> held svc srv J = 0"

text \<open>
  The states that can follow \<open>reset_all\<close>: any step of \<open>slot_step\<close>, or the \<open>DEL\<close> of \<open>remove_replica\<close>
  for any replica (its \<open>SREM\<close> touches no slot and is one of the steps \<open>elsewhere\<close>).
\<close>

inductive queues :: "'r redis \<Rightarrow> ('r \<Rightarrow> rview) \<Rightarrow> (int \<Rightarrow> int) \<Rightarrow> 'r
    \<Rightarrow> 'r \<times> slot_job multiset \<times> (int \<times> int) set \<Rightarrow> bool" for R view Q db0 where
  reset: "queues R view Q db0 (reset_all R db0, {#}, {})"
| step: "queues R view Q db0 (db, J, tainted) \<Longrightarrow> slot_step R view Q (db, J) (db', J') \<Longrightarrow>
    queues R view Q db0 (db', J', tainted)"
| remove: "queues R view Q db0 (db, J, tainted) \<Longrightarrow>
    queues R view Q db0 (rd_delete R (removed_keys svc srv) db, J,
      if idle_queue (view db) J svc srv then tainted - {(svc, srv)} else insert (svc, srv) tainted)"

section \<open>Counters that never read too much\<close>

definition slot_bounded :: "rview \<Rightarrow> slot_job multiset \<Rightarrow> int \<Rightarrow> int \<Rightarrow> bool" where
  "slot_bounded v J svc srv \<longleftrightarrow>
     (\<exists>c. counter v (queue_key svc srv) = Inr c \<and> c \<le> int (length (reserved v svc srv) + held svc srv J))
   \<and> distinct (reserved v svc srv)
   \<and> (\<forall>rid. asks svc srv rid J + present (py_str rid) (reserved v svc srv) \<le> 1)"

definition slots_sound :: "(int \<Rightarrow> int) \<Rightarrow> (int \<times> int) set \<Rightarrow> rview \<Rightarrow> slot_job multiset \<Rightarrow> bool" where
  "slots_sound Q tainted v J \<longleftrightarrow> well_kinded v
     \<and> (\<forall>svc srv. slot_bounded v J svc srv \<and> ((svc, srv) \<notin> tainted \<longrightarrow> slot_exact Q v J svc srv))"

lemma exact_bounded: "slot_exact Q v J svc srv \<Longrightarrow> slot_bounded v J svc srv"
  by (simp add: slot_exact_def slot_bounded_def)

lemma slots_exact_sound: "slots_exact Q v J \<Longrightarrow> slots_sound Q {} v J"
  by (auto simp: slots_exact_def slots_sound_def intro: exact_bounded)

lemma slots_soundD:
  assumes "slots_sound Q tainted v J"
  shows "well_kinded v" and "slot_bounded v J svc srv" and "(svc, srv) \<notin> tainted \<Longrightarrow> slot_exact Q v J svc srv"
  using assms by (simp_all add: slots_sound_def)

lemma slots_soundI:
  assumes "well_kinded v" and "\<And>svc srv. slot_bounded v J svc srv"
    and "\<And>svc srv. (svc, srv) \<notin> tainted \<Longrightarrow> slot_exact Q v J svc srv"
  shows "slots_sound Q tainted v J"
  using assms by (simp add: slots_sound_def)

lemma bounded_counter:
  assumes "slot_bounded v J svc srv"
  obtains c where "counter v (queue_key svc srv) = Inr c" and "c \<le> int (length (reserved v svc srv) + held svc srv J)"
  using assms by (auto simp: slot_bounded_def)

lemma slot_bounded_change:
  assumes e: "slot_bounded v J svc srv"
    and "counter w (queue_key svc srv) = Inr c" and "c \<le> int (length (reserved w svc srv) + held svc srv J')"
    and "distinct (reserved w svc srv)"
    and a: "\<And>rid. asks svc srv rid J' + present (py_str rid) (reserved w svc srv)
      \<le> asks svc srv rid J + present (py_str rid) (reserved v svc srv)"
  shows "slot_bounded w J' svc srv"
proof -
  have "asks svc srv rid J' + present (py_str rid) (reserved w svc srv) \<le> 1" for rid
    using order_trans [OF a] e unfolding slot_bounded_def by blast
  then show ?thesis using assms(2-4) by (simp add: slot_bounded_def)
qed

lemma sound_same: "same_slots v w \<Longrightarrow> slots_sound Q tainted v J \<Longrightarrow> slots_sound Q tainted w J"
  by (simp add: slots_sound_def slot_exact_def slot_bounded_def same_slots_def reserved_def counter_def)

text \<open>A queue no command has touched, and whose counts the jobs leave alone.\<close>

lemma untouched:
  assumes "counter w (queue_key svc srv) = counter v (queue_key svc srv)" and "reserved w svc srv = reserved v svc srv"
    and "held svc srv J' = held svc srv J" and "kept Q svc srv J' = kept Q svc srv J"
    and "\<And>rid. asks svc srv rid J' = asks svc srv rid J"
  shows "slot_bounded w J' svc srv \<longleftrightarrow> slot_bounded v J svc srv"
    and "slot_exact Q w J' svc srv \<longleftrightarrow> slot_exact Q v J svc srv"
  using assms by (simp_all add: slot_bounded_def slot_exact_def)

context redis_server
begin

lemma admit_sound:
  assumes ok: "slots_sound Q T (view db) (add_mset (Admit a b rid e) J)"
  shows "\<exists>n db'. rd_incrby R (queue_key a b) 1 db = Inr (n, db') \<and> slots_sound Q T (view db') (add_mset (Bumped a b rid e n) J)"
proof -
  note wk = slots_soundD(1) [OF ok] and bd = slots_soundD(2) [OF ok] and ex = slots_soundD(3) [OF ok]
  obtain c where c: "counter (view db) (queue_key a b) = Inr c" using bounded_counter [OF bd] by blast
  obtain db' where d: "rd_incrby R (queue_key a b) 1 db = Inr (c + 1, db')"
    "view db' = set_str (queue_key a b) (Some (py_str (c + 1))) (view db)"
    by (rule bump [OF wk kind_of_key(3) c])
  have "slot_bounded (view db') (add_mset (Bumped a b rid e (c + 1)) J) svc srv" for svc srv
    using bd [of svc srv] c by (auto simp: slot_bounded_def d(2) counter_set_str)
  moreover have "slot_exact Q (view db') (add_mset (Bumped a b rid e (c + 1)) J) svc srv" if "(svc, srv) \<notin> T" for svc srv
    using ex [OF that] c kept_le_held [of Q a b J] by (auto simp: slot_exact_def d(2) counter_set_str)
  moreover have "well_kinded (view db')" using wk by (simp add: d(2))
  ultimately show ?thesis using d(1) slots_soundI by blast
qed

lemma lower_sound:
  assumes ok: "slots_sound Q T (view db) (add_mset j J)"
    and j: "j = Lowering a b \<or> (\<exists>rid e n. j = Bumped a b rid e n \<and> Q a < n)"
  shows "\<exists>n db'. rd_incrby R (queue_key a b) (- 1) db = Inr (n, db') \<and> slots_sound Q T (view db') J"
proof -
  note wk = slots_soundD(1) [OF ok] and bd = slots_soundD(2) [OF ok] and ex = slots_soundD(3) [OF ok]
  obtain c where c: "counter (view db) (queue_key a b) = Inr c" using bounded_counter [OF bd] by blast
  obtain db' where d: "rd_incrby R (queue_key a b) (- 1) db = Inr (c - 1, db')"
    "view db' = set_str (queue_key a b) (Some (py_str (c - 1))) (view db)"
    using bump [OF wk kind_of_key(3) c, of "- 1"] by auto
  have h: "held svc srv (add_mset j J) = (if a = svc \<and> b = srv then 1 else 0) + held svc srv J" for svc srv
    using j by auto
  have "slot_bounded (view db') J svc srv" for svc srv
  proof -
    obtain k where k: "counter (view db) (queue_key svc srv) = Inr k"
      "k \<le> int (length (reserved (view db) svc srv) + held svc srv (add_mset j J))" using bounded_counter [OF bd] by blast
    show ?thesis
      using bd [of svc srv] k h [of svc srv] c
      by (intro slot_bounded_change [OF bd [of svc srv], where c = "if a = svc \<and> b = srv then k - 1 else k"])
        (auto simp: d(2) counter_set_str slot_bounded_def)
  qed
  moreover have "slot_exact Q (view db') J svc srv" if "(svc, srv) \<notin> T" for svc srv
    using slot_exactD [OF ex [OF that]] j c
    by (intro slot_exact_change [OF ex [OF that]]) (auto simp: d(2) counter_set_str)
  moreover have "well_kinded (view db')" using wk by (simp add: d(2))
  ultimately show ?thesis using d(1) slots_soundI by blast
qed

lemma reserve_sound:
  assumes ok: "slots_sound Q T (view db) (add_mset (Bumped a b rid e n) J)" and n: "\<not> Q a < n"
  shows "slots_sound Q T (view (rd_zadd R (reservations_key a b) (py_str rid) e db)) J"
proof -
  note wk = slots_soundD(1) [OF ok] and bd = slots_soundD(2) [OF ok] and ex = slots_soundD(3) [OF ok]
  define w where "w = view (rd_zadd R (reservations_key a b) (py_str rid) e db)"
  let ?z = "v_zset (view db) (reservations_key a b)"
  have v: "w = set_zset (reservations_key a b) (dset (py_str rid) e ?z) (view db)"
    unfolding w_def by (rule zadd_view [OF wk]) simp
  have new: "present (py_str rid) (reserved (view db) a b) = 0" and none: "asks a b rid J = 0"
    using bd [of a b] by (auto simp: slot_bounded_def dest: spec [of _ rid])
  then have "py_str rid \<notin> set (dkeys ?z)" by (simp add: present_def reserved_def split: if_splits)
  then have "dkeys (dset (py_str rid) e ?z) = reserved (view db) a b @ [py_str rid]"
    by (simp add: dset_new_append reserved_def)
  then have k: "reserved w a b = reserved (view db) a b @ [py_str rid]"
    "\<not> (a = svc \<and> b = srv) \<Longrightarrow> reserved w svc srv = reserved (view db) svc srv" for svc srv
    unfolding v reserved_set_zset by auto
  have p: "present (py_str r) (reserved w a b) = (if r = rid then 1 else present (py_str r) (reserved (view db) a b))" for r
    by (simp add: k present_def)
  have c: "counter w = counter (view db)" by (simp add: v fun_eq_iff)
  have at: "slot_bounded w J a b"
  proof -
    obtain k where "counter (view db) (queue_key a b) = Inr k"
      "k \<le> int (length (reserved (view db) a b) + held a b (add_mset (Bumped a b rid e n) J))" using bounded_counter [OF bd] by blast
    then show ?thesis
      using bd [of a b] new none
      by (intro slot_bounded_change [OF bd [of a b], where c = k])
        (auto simp: c p slot_bounded_def, auto simp: k(1) present_def split: if_splits)
  qed
  have at_exact: "slot_exact Q w J a b" if "(a, b) \<notin> T"
    using slot_exactD [OF ex [OF that]] new n
    by (intro slot_exact_change [OF ex [OF that]]) (auto simp: c k(1) present_def split: if_splits)
  have off: "slot_bounded w J svc srv \<longleftrightarrow> slot_bounded (view db) (add_mset (Bumped a b rid e n) J) svc srv"
    "slot_exact Q w J svc srv \<longleftrightarrow> slot_exact Q (view db) (add_mset (Bumped a b rid e n) J) svc srv"
    if "\<not> (a = svc \<and> b = srv)" for svc srv
    by (rule untouched; use that k(2) [OF that] in \<open>auto simp: c\<close>)+
  have "well_kinded w" using wk by (simp add: v)
  then have "slots_sound Q T w J"
    using at at_exact off bd ex by (intro slots_soundI) metis+
  then show ?thesis by (simp add: w_def)
qed

lemma unreserve_sound:
  assumes ok: "slots_sound Q T (view db) (add_mset (Release a b m) J)"
    and z: "rd_zrem R (reservations_key a b) m db = (r, db')"
  shows "slots_sound Q T (view db') (if r then add_mset (Freeing a b) J else J)"
proof -
  note wk = slots_soundD(1) [OF ok] and bd = slots_soundD(2) [OF ok] and ex = slots_soundD(3) [OF ok]
  let ?z = "v_zset (view db) (reservations_key a b)" and ?J = "if r then add_mset (Freeing a b) J else J"
  have v: "view db' = set_zset (reservations_key a b) (ddel m ?z) (view db)"
    using zrem_view [OF wk kind_of_key(5), of a b m] z by simp
  have r: "r \<longleftrightarrow> m \<in> set (reserved (view db) a b)"
    using zrem_result [OF wk kind_of_key(5), of a b m] z by (simp add: reserved_def)
  have k: "reserved (view db') svc srv = (if a = svc \<and> b = srv then removeAll m (reserved (view db) svc srv)
    else reserved (view db) svc srv)" for svc srv
    unfolding v reserved_set_zset by (simp add: reserved_def delete_keys)
  have c: "counter (view db') = counter (view db)" by (simp add: v fun_eq_iff)
  have d: "distinct (reserved (view db) svc srv)" for svc srv using bd [of svc srv] by (simp add: slot_bounded_def)
  have same: "slot_bounded (view db') ?J svc srv \<longleftrightarrow> slot_bounded (view db) (add_mset (Release a b m) J) svc srv"
    "slot_exact Q (view db') ?J svc srv \<longleftrightarrow> slot_exact Q (view db) (add_mset (Release a b m) J) svc srv"
    if "\<not> (r \<and> a = svc \<and> b = srv)" for svc srv
    by (rule untouched; use that r in \<open>auto simp: c k\<close>)+
  have at: "slot_bounded (view db') ?J a b" "(a, b) \<notin> T \<Longrightarrow> slot_exact Q (view db') ?J a b" if r: "r"
  proof -
    have l: "length (removeAll m (reserved (view db) a b)) + 1 = length (reserved (view db) a b)"
      by (rule length_removeAll [OF d]) (use \<open>r \<longleftrightarrow> _\<close> r in simp)
    have p: "present x (removeAll m (reserved (view db) a b)) \<le> present x (reserved (view db) a b)" for x
      by (simp add: present_def)
    obtain q where "counter (view db) (queue_key a b) = Inr q"
      "q \<le> int (length (reserved (view db) a b) + held a b (add_mset (Release a b m) J))" using bounded_counter [OF bd] by blast
    then show "slot_bounded (view db') ?J a b"
      using l p d [of a b] r
      by (intro slot_bounded_change [OF bd [of a b], where c = q]) (simp_all add: c k distinct_removeAll)
    show "slot_exact Q (view db') ?J a b" if T: "(a, b) \<notin> T"
      using slot_exactD [OF ex [OF T]] l p r d [of a b]
      by (intro slot_exact_change [OF ex [OF T]]) (simp_all add: c k distinct_removeAll)
  qed
  have "well_kinded (view db')" using wk by (simp add: v)
  then show ?thesis
    using at same bd ex by (intro slots_soundI) metis+
qed

lemma free_sound:
  assumes ok: "slots_sound Q T (view db) (add_mset (Freeing a b) J)"
  shows "\<exists>v. get_int R (queue_key a b) db = Inr v
    \<and> slots_sound Q T (view db) (if 0 < v then add_mset (Lowering a b) J else J)"
proof -
  note wk = slots_soundD(1) [OF ok] and bd = slots_soundD(2) [OF ok] and ex = slots_soundD(3) [OF ok]
  obtain c where c: "counter (view db) (queue_key a b) = Inr c" using bounded_counter [OF bd] by blast
  have g: "get_int R (queue_key a b) db = Inr c" by (rule get_int_counter [OF wk kind_of_key(3) c])
  have "slots_sound Q T (view db) (if 0 < c then add_mset (Lowering a b) J else J)"
  proof (cases "0 < c")
    case True
    then show ?thesis using ok by (simp add: slots_sound_def slot_exact_def slot_bounded_def)
  next
    case False
    have t: "(a, b) \<in> T"
    proof (rule ccontr)
      assume "(a, b) \<notin> T"
      from slot_exactD(1) [OF ex [OF this]] show False using c False by simp
    qed
    have "slot_bounded (view db) J svc srv" for svc srv
      using bd [of svc srv] c False by (cases "a = svc \<and> b = srv") (auto simp: slot_bounded_def)
    moreover have "slot_exact Q (view db) J svc srv" if "(svc, srv) \<notin> T" for svc srv
      using ex [OF that] that t by (auto simp: slot_exact_def split: if_splits)
    ultimately show ?thesis using wk False by (simp add: slots_sound_def)
  qed
  with g show ?thesis by blast
qed

lemma job_step_sound:
  assumes ok: "slots_sound Q T (view db) (add_mset j J)"
  shows "\<exists>jo db'. job_step R Q j db = Inr (jo, db') \<and> slots_sound Q T (view db') (job_option jo + J)"
proof (cases j)
  case (Admit a b rid e)
  then show ?thesis using admit_sound [of Q T db a b rid e J] ok by auto
next
  case (Bumped a b rid e n)
  show ?thesis
  proof (cases "Q a < n")
    case True
    then show ?thesis using lower_sound [OF ok, of a b] Bumped by auto
  next
    case False
    then show ?thesis using reserve_sound [of Q T db a b rid e n J] ok Bumped by simp
  qed
next
  case (Release a b m)
  then show ?thesis
    using unreserve_sound [of Q T db a b m J] ok by (cases "rd_zrem R (reservations_key a b) m db") auto
next
  case (Freeing a b)
  then show ?thesis using free_sound [of Q T db a b J] ok by (auto split: if_splits)
next
  case (Lowering a b)
  then show ?thesis using lower_sound [OF ok, of a b] by auto
qed

lemma slot_step_sound:
  assumes "slot_step R view Q (db, J) (db', J')" and ok: "slots_sound Q T (view db) J"
  shows "slots_sound Q T (view db') J'"
  using assms(1)
proof (cases rule: slot_step.cases)
  case (ask svc srv rid expiry)
  have "asks svc srv rid J = 0" "present (py_str rid) (reserved (view db) svc srv) = 0"
    using ask by (simp_all add: fresh_def asks_0 present_def)
  then show ?thesis using ok ask by (auto simp: slots_sound_def slot_exact_def slot_bounded_def)
next
  case (give_back svc srv m)
  then show ?thesis using ok by (simp add: slots_sound_def slot_exact_def slot_bounded_def)
next
  case (command j jo K)
  then show ?thesis using job_step_sound [of Q T db j K] ok by auto
next
  case elsewhere
  then show ?thesis using ok sound_same by auto
qed

text \<open>A removal sets one counter back to zero.\<close>

lemma remove_sound:
  assumes ok: "slots_sound Q T (view db) J" and Q: "0 \<le> Q svc"
  shows "slots_sound Q (if idle_queue (view db) J svc srv then T - {(svc, srv)} else insert (svc, srv) T)
    (view (rd_delete R (removed_keys svc srv) db)) J"
proof -
  note wk = slots_soundD(1) [OF ok] and bd = slots_soundD(2) [OF ok] and ex = slots_soundD(3) [OF ok]
  define w where "w = view (rd_delete R (removed_keys svc srv) db)"
  have v: "w = del_keys (removed_keys svc srv) (view db)" by (simp add: w_def delete_view)
  have "reservations_key a b \<notin> set (removed_keys svc srv)" for a b
    using kind_of_key(2,3,5) unfolding removed_keys_def by (metis kind.distinct list.set_cases set_ConsD empty_iff empty_set)
  then have r: "reserved w a b = reserved (view db) a b" for a b by (simp add: reserved_def v del_keys_def)
  have "queue_key a b \<in> set (removed_keys svc srv) \<longleftrightarrow> a = svc \<and> b = srv" for a b
    by (auto simp: removed_keys_def queue_key_def replica_key_field)
  then have c: "counter w (queue_key a b) = (if a = svc \<and> b = srv then Inr 0 else counter (view db) (queue_key a b))" for a b
    by (simp add: counter_def v del_keys_def)
  have off: "slot_bounded w J a b \<longleftrightarrow> slot_bounded (view db) J a b" "slot_exact Q w J a b \<longleftrightarrow> slot_exact Q (view db) J a b"
    if "\<not> (a = svc \<and> b = srv)" for a b
    by (rule untouched; use that in \<open>auto simp: c r\<close>)+
  have at: "slot_bounded w J svc srv" using bd [of svc srv] by (simp add: slot_bounded_def c r)
  have idle: "slot_exact Q w J svc srv" if "idle_queue (view db) J svc srv"
    using that bd [of svc srv] kept_le_held [of Q svc srv J] Q
    by (auto simp: slot_exact_def slot_bounded_def c r idle_queue_def)
  have "well_kinded w" using wk by (simp add: v)
  then have "slots_sound Q (if idle_queue (view db) J svc srv then T - {(svc, srv)} else insert (svc, srv) T) w J"
  proof (rule slots_soundI)
    show "slot_bounded w J a b" for a b using at off(1) bd by metis
    fix a b assume T: "(a, b) \<notin> (if idle_queue (view db) J svc srv then T - {(svc, srv)} else insert (svc, srv) T)"
    show "slot_exact Q w J a b"
    proof (cases "a = svc \<and> b = srv")
      case True
      then show ?thesis using T idle by (auto split: if_splits)
    next
      case False
      then have "(a, b) \<notin> T" using T by (auto split: if_splits)
      then show ?thesis using off(2) [of a b] ex False by auto
    qed
  qed
  then show ?thesis by (simp add: w_def)
qed

lemma queues_sound:
  assumes "queues R view Q db0 (db, J, T)" and "well_kinded (view db0)" and "\<And>svc. 0 \<le> Q svc"
  shows "slots_sound Q T (view db) J"
  using assms(1)
proof (induction "(db, J, T)" arbitrary: db J T)
  case reset
  show ?case by (rule slots_exact_sound [OF reset_exact [OF assms(2,3)]])
next
  case (step db J T db' J')
  then show ?case using slot_step_sound by blast
next
  case (remove db J T svc srv)
  from remove_sound [OF remove(2) assms(3), of svc srv] show ?case .
qed

text \<open>\<open>remove_replica\<close> is the removal and a step elsewhere.\<close>

lemma remove_replica_runs:
  assumes "queues R view Q db0 (db, J, T)" and "well_kinded (view db)"
  shows "queues R view Q db0 (remove_replica R svc srv db, J,
    if idle_queue (view db) J svc srv then T - {(svc, srv)} else insert (svc, srv) T)"
proof -
  let ?db = "rd_delete R (removed_keys svc srv) db"
  have wk: "well_kinded (view ?db)" using assms(2) by (simp add: delete_view)
  have "same_slots (view ?db) (view (rd_srem R (ready_key svc) (py_str srv) ?db))"
    using wk by (simp add: same_slots_def srem_view)
  then have "slot_step R view Q (?db, J) (rd_srem R (ready_key svc) (py_str srv) ?db, J)" by (rule slot_step.elsewhere)
  then show ?thesis
    using queues.step [OF queues.remove [OF assms(1)]] by (simp add: remove_replica_def removed_keys_def)
qed

end

section \<open>Property\<close>

text \<open>
  C31. The counters of the queues under concurrency. After \<open>reset_all\<close>, however the commands of the
  dispatcher, the workers and the sweeper interleave, removals of replicas included, provided that
  the identifier of a request that asks for a slot is not in use in that queue: no job raises; the
  counter of every queue is at most the number of its reservations plus the number of jobs that
  are between two commands while they hold a slot; and unless the queue was removed while
  something was in it and has not been removed idle since, the counter is exactly that number,
  never more slots are granted than the queue has, and with no job under way the occupancy the
  dispatcher reads is the number of reservations.
\<close>

theorem queue_slots_exact:
  assumes R: "redis_server R view" and "well_kinded (view db0)" and "\<And>svc. 0 \<le> Q svc"
    and run: "queues R view Q db0 (db, J, tainted)"
  shows "(\<forall>j \<in># J. \<exists>jo db'. job_step R Q j db = Inr (jo, db'))
    \<and> (\<exists>c. counter (view db) (queue_key svc srv) = Inr c \<and> c \<le> int (length (reserved (view db) svc srv) + held svc srv J))
    \<and> ((svc, srv) \<notin> tainted \<longrightarrow>
          counter (view db) (queue_key svc srv) = Inr (int (length (reserved (view db) svc srv) + held svc srv J))
        \<and> int (length (reserved (view db) svc srv) + kept Q svc srv J) \<le> Q svc
        \<and> (J = {#} \<longrightarrow> get_queue_occupancy R svc srv db = Inr (int (length (reserved (view db) svc srv)))))"
proof -
  have ok: "slots_sound Q tainted (view db) J" by (rule redis_server.queues_sound [OF R run assms(2,3)])
  have "\<exists>jo db'. job_step R Q j db = Inr (jo, db')" if "j \<in># J" for j
    using redis_server.job_step_sound [OF R, of Q tainted db j "J - {#j#}"] ok that by auto
  moreover have "get_queue_occupancy R svc srv db = Inr (int (length (reserved (view db) svc srv)))"
    if "J = {#}" and t: "(svc, srv) \<notin> tainted"
    using redis_server.get_int_counter [OF R slots_soundD(1) [OF ok] kind_of_key(3) slot_exactD(1) [OF slots_soundD(3) [OF ok t]]]
      that(1) by (simp add: get_queue_occupancy_def)
  ultimately show ?thesis
    using slots_soundD(2) [OF ok, of svc srv] slots_soundD(3) [OF ok, of svc srv]
    by (auto simp: slot_exact_def slot_bounded_def)
qed

text \<open>A queue with one request being admitted, and the same after its replica was removed.\<close>

theorem queue_slots_exact_witness:
  "\<exists>db J db2. queues assoc_redis rdb_view (\<lambda>_. 3) empty_rdb (db, J, {})
     \<and> counter (rdb_view db) (queue_key 1 2) = Inr (int (length (reserved (rdb_view db) 1 2) + held 1 2 J))
     \<and> J = {#Bumped 1 2 7 9 1#}
     \<and> queues assoc_redis rdb_view (\<lambda>_. 3) empty_rdb (db2, J, {(1, 2)})
     \<and> counter (rdb_view db2) (queue_key 1 5) = Inr (int (length (reserved (rdb_view db2) 1 5) + held 1 5 J))"
proof -
  let ?J = "{#Bumped 1 2 7 9 1#}" and ?q = "queues assoc_redis rdb_view (\<lambda>_. 3) empty_rdb"
  have j: "job_step assoc_redis (\<lambda>_. 3) (Admit 1 2 7 9) empty_rdb
    = Inr (Some (Bumped 1 2 7 9 1), empty_rdb\<lparr>d_str := [(queue_key 1 2, py_str 1)]\<rparr>)" (is "_ = Inr (_, ?db)")
    by (simp add: assoc_redis_def empty_rdb_def counter_def rdb_view_def)
  have q0: "?q (empty_rdb, {#}, {})" using queues.reset [of assoc_redis rdb_view "\<lambda>_. 3" empty_rdb] by (simp add: reset_empty)
  have q1: "?q (empty_rdb, {#Admit 1 2 7 9#}, {})" by (rule queues.step [OF q0]) (rule slot_step.ask, rule fresh_empty)
  have "slot_step assoc_redis rdb_view (\<lambda>_. 3) (empty_rdb, {#Admit 1 2 7 9#}) (?db, ?J)"
    using slot_step.command [OF j, of _ "{#}"] by simp
  then have q2: "?q (?db, ?J, {})" by (rule queues.step [OF q1])
  let ?db2 = "rd_delete assoc_redis (removed_keys 1 2) ?db"
  have q3: "?q (?db2, ?J, {(1, 2)})" using queues.remove [OF q2, of 1 2] by (simp add: idle_queue_def)
  note use = queue_slots_exact [OF assoc.redis_server_axioms well_kinded_empty]
  have "counter (rdb_view ?db) (queue_key 1 2) = Inr (int (length (reserved (rdb_view ?db) 1 2) + held 1 2 ?J))"
    using use [OF _ q2, of 1 2] by simp
  moreover have "counter (rdb_view ?db2) (queue_key 1 5) = Inr (int (length (reserved (rdb_view ?db2) 1 5) + held 1 5 ?J))"
    using use [OF _ q3, of 1 5] by simp
  ultimately show ?thesis using q2 q3 by blast
qed

end
