(* ===== verification/Spec2Isabelle.thy ===== *)
theory Spec2Isabelle
  imports PpoAlgorithm Completion Mirror Routes Queues
begin

text \<open>
  A verification library of the edge resource manager: a discrete-event simulator of a fleet
  of ten edge servers hosting replicas of fifteen services, the algorithms that place, scale
  and route them (Greedy, HPA, VOILA, and a learned policy with its training environment),
  and the network coordinates and metrics they use. The model is a shallow embedding of the
  Python code: one definition per function, in the order the code has them.

  \<^bold>\<open>Conventions.\<close> A Python exception is \<open>Inl\<close> of a \<open>py_error\<close>; a dictionary is an association
  list in insertion order (\<open>pydict\<close>); floats are exact reals, so rounding and \<open>float32\<close> are
  not modelled; counters are naturals; shared mutable objects (replicas, which a server and a
  list per service both hold) are addresses into a store (\<open>heap\<close> of Models); a function that
  mutates its object returns it. In the simulator an exception ends the program and its state is
  not used again, so it is \<open>Inl\<close> alone; in the deployment other coroutines go on and the cluster
  keeps what was done, so the operations there return an \<open>outcome\<close> (Prelude): the exception, if
  any, with the state reached. Where an invariant makes a dictionary lookup succeed it may have a
  default. numpy's statistics and generators, pandas'
  \<open>drop_duplicates\<close>, the iteration order of a set, the policy network and the integer
  program are parameters (\<open>np_ops\<close>, \<open>world\<close>, \<open>uniform\<close>, \<open>ppo_params\<close>).

  \<^bold>\<open>Theories and the code they model.\<close>
  \<^item> Prelude: exceptions, dictionaries, deques, \<open>min\<close>/\<open>max\<close>/\<open>round\<close>.
  \<^item> Config (\<open>common/config.py\<close>): tables, constants, execution and cold-start times.
  \<^item> Geo (\<open>common/geo.py\<close>, \<open>is_sla_feasible\<close>): distances, delays, feasibility.
  \<^item> Models (\<open>common/models.py\<close>): replicas with their queues, servers, requests.
  \<^item> Rolling, Metrics (\<open>common/rolling_signal.py\<close>, \<open>common/metrics.py\<close>).
  \<^item> Policy (\<open>algorithms/base.py\<close>): decisions, snapshots, shared routines, and the contract
    an engine relies on: the locale \<open>router\<close> (routing only reads queues and finds a free one),
    \<open>lawful_algorithm\<close> (victims, placements and migrations are possible ones),
    \<open>self_checking_algorithm\<close> (proposals fit the state of the server) and \<open>total_algorithm\<close>
    (no method raises on the arguments the engine gives it).
  \<^item> Greedy, Hpa, Voila (\<open>algorithms/*\<close>): the algorithms, each an interpretation of the
    contract; Vivaldi (\<open>common/network_coordinates.py\<close>) is what VOILA routes by.
  \<^item> Events, Engine, Routing, Monitor, Control, Run (\<open>simulator/events.py\<close>,
    \<open>simulator/engine.py\<close>): agenda, state and life cycles, requests, snapshots and audits,
    gates and the decision tick, \<open>prime\<close>, \<open>step\<close> and \<open>run\<close>.
  \<^item> Lifecycle, Replicas, Fleet: the invariants of the engine's state and their preservation by
    every operation (\<open>store_inv\<close>, \<open>life_inv\<close>, \<open>agenda_inv\<close>).
  \<^item> Reach: the engine as a transition system, the invariants of its reachable states by rule
    induction, termination of \<open>step\<close> and \<open>run\<close>. Start: a run can be started; a concrete world.
  \<^item> Accounts: the books of the requests; Alive: a server stays active; Wiring: every event and
    replica names a server of the fleet and a service of the table. Totality, Progress,
    Completion: no operation raises from a wired state, nor a tick, nor a run.
  \<^item> StateVector (\<open>common/state_builder.py\<close>), PpoMasks and PpoEnv (\<open>algorithms/ppo/env.py\<close>),
    PpoAlgorithm (\<open>algorithms/ppo/ppo_algorithm.py\<close>): observation, action masks and decoding,
    training environment and reward, inference.
  \<^item> Redis (\<open>k8s_adapter/redis_state.py\<close>, the end of \<open>worker_service/app.py\<close>): the state the dispatcher
    and the worker pods share, over the commands of a Redis server (a parameter, \<open>redis\<close>) whose
    laws are the locale \<open>redis_server\<close>; association lists interpret it. Slots: the same functions
    cut into commands and interleaved (\<open>slot_step\<close>). Queues: those and the removal of replicas
    (\<open>queues\<close>), which deletes a counter and keeps its reservations.
  \<^item> Cluster (\<open>k8s_adapter/k8s_client.py\<close>): the calls to the Kubernetes API (a parameter, \<open>kube\<close>),
    with their retries; the locale \<open>kube_server\<close> states what they rely on, and a cluster that
    follows a script of faults interprets it.
  \<^item> Dispatch, Deploy, Decide (\<open>k8s_adapter/realtime_dispatcher.py\<close>): the state of \<open>RealtimeEngine\<close>,
    routing over the shared state, completion reports, lost requests, the energy sampler;
    servers, replicas and background tasks; snapshots, gates, drains and the decision loop. Each
    operation is the code between two points where a coroutine waits, and \<open>control\<close> is what the
    decision loop remembers while it waits within a tick.
  \<^item> Traffic: the books of the dispatcher as a transition system. Routes: what routing does to the
    shared slots, for the \<open>select_replica\<close> of each algorithm. Site: all coroutines of the deployment
    interleaved (\<open>site\<close>), over any cluster with the laws of \<open>kube_server\<close> (locale
    \<open>deployment_site\<close>), their exceptions included as long as the decision loop has none, and the
    invariants of its states. Failure: the states in which the placement or the decision loop has
    raised (\<open>failed\<close>). Launch: the start returns; a concrete deployment. Mirror: on the same bookkeeping the
    deployment and the simulator compute the same snapshots, audits and gates.

  \<^bold>\<open>What the properties show.\<close> In every state the engine can reach, with any lawful algorithm
  and any external actions: reservations fit the servers, both views of the replicas agree,
  transient states have their event, the agenda lies in the future with exactly one decision
  tick, power and utilization are in range (this theory). No request is lost, a server stays
  active once the first ones have booted, and a run returns a report with every request of the
  trace in it, without an exception, for each of the three threshold algorithms. Each component meets its own
  specification: the admission recursion, the coverage of the initial placement, the order of
  routing, the thresholds of the algorithms, the contraction of the coordinates. The learned
  policy sees the same masks in training and in inference, they are the gates of the engine,
  and its reward and observation are bounded. In the Kubernetes deployment, however the commands of
  the processes interleave, the counter of a queue never reads too much, and it is exact unless the
  replica was removed with something in its queue; routing takes one slot or none with Greedy, HPA
  and PPO, and raises with VOILA; every call of the dispatcher is counted once, unless its pod reports
  it after the dispatcher has forgotten that it was given up. However the coroutines interleave
  and whatever faults the cluster has, no server is overbooked, no pod is left behind but the one of
  a creation whose exception ends the run, one server stays active and at most one is drained at a
  time until then; the deployment decides on the snapshots the simulator would build, and the masks
  of the learned policy are its gates, too.

  \<^bold>\<open>Fuel.\<close> \<open>step_loop\<close> counts events and \<open>run_loop\<close> ticks. \<open>step\<close> passes \<open>agenda_weight E + 1\<close>,
  the sum over the agenda of the number of events each can still cause before the cut-off
  (Lifecycle), \<open>run\<close> the number of ticks before the cut-off; both are proved never to run out
  (\<open>step_returns_at_tick\<close>, \<open>run_returns\<close>).

  \<^bold>\<open>Not modelled.\<close> HTTP (\<open>dispatcher_api.py\<close>, the serving half of \<open>app.py\<close>), the replay client,
  lost connections to Redis, the pauses of a polling loop (a step may be taken at any time) and
  the clock within a segment (read once); loading and preparation of the traces (\<open>data/loader.py\<close>,
  \<open>prepare_shanghai_data.py\<close>: pandas), training and inference scripts around the policy
  network (\<open>train.py\<close>, \<open>infer.py\<close>, \<open>policy_network.py\<close>: stable-baselines3), the constraint
  builder of the integer program (\<open>optimal_placement.py\<close>), evaluation and diagnosis scripts,
  the command line and log files; log messages in the modelled functions are left out.
\<close>

section \<open>Every reachable state of the engine\<close>

definition pending :: "'a engine \<Rightarrow> event_type \<Rightarrow> nat" where
  "pending E ty = length (filter (\<lambda>e. ev_type e = ty) (e_heap E))"

lemma pend_pending: "pend {#} E ty = pending E ty"
proof -
  have "count (image_mset ev_type (mset q)) ty = length (filter (\<lambda>e. ev_type e = ty) q)" for q
    by (induction q) auto
  then show ?thesis by (simp add: pend_def pending_def)
qed

lemma reachable_engine_inv:
  assumes "lawful_algorithm (w_alg W) (w_cfg W)" and "sound_trace df" and "reachable W df st E"
  shows "store_inv E" and "life_inv {#} E" and "agenda_inv E" and "engine_inv {#} E"
    and "\<exists>t. tick_times E = {#t#}"
  using lawful_algorithm.reachable_inv [OF assms(1,3) refl refl assms(2)]
  by (simp_all add: reach_inv_def engine_inv_def)

lemma sound_nil: "sound_trace []"
  by (simp add: sound_trace_def)

lemma sample_state:
  obtains E0 E where "new_engine [] None = Inr E0" "prime sample_world E0 = Inr E"
    "reachable sample_world [] None E"
  using sample_start [of "[]"] by blast

text \<open>
  C1. In every reachable state, whatever the (lawful) algorithm and the external actions
  decided, no server reserves more capacity than it has, hosts two replicas of one service or
  a replica of an unknown service.
\<close>

theorem capacity_never_exceeded:
  assumes "lawful_algorithm (w_alg W) (w_cfg W)" and "sound_trace df" and "reachable W df st E"
    and "dget (e_servers E) k = Some s"
  shows "used_cpu (e_store E) s \<le> srv_capacity s \<and> 0 \<le> free_capacity (e_store E) s
       \<and> distinct (dkeys (hosted_replicas s)) \<and> set (dkeys (hosted_replicas s)) \<subseteq> set ACTIVE_SERVICES"
  using reachable_engine_inv(1) [OF assms(1-3)] assms(4)
  by (auto simp: store_inv_def server_inv_def free_capacity_def)

theorem capacity_never_exceeded_witness:
  "\<exists>E. reachable sample_world [] None E
     \<and> (\<forall>(k, s) \<in> set (e_servers E). used_cpu (e_store E) s \<le> srv_capacity s)"
proof -
  obtain E0 E where E: "reachable sample_world [] None E" by (rule sample_state)
  have "wf_servers (e_servers E)"
    using reachable_engine_inv(1) [OF sample_lawful sound_nil E] by (simp add: store_inv_def)
  then have "used_cpu (e_store E) s \<le> srv_capacity s" if "(k, s) \<in> set (e_servers E)" for k s
    using capacity_never_exceeded [OF sample_lawful sound_nil E, of k s] that
    by (auto simp: wf_servers_def dget_iff_mem)
  with E show ?thesis by blast
qed

text \<open>
  C2. Every transient state ends: in every reachable state exactly one \<open>SERVER_BOOT_DONE\<close>
  waits for each booting server and none for the others, likewise \<open>SERVER_DRAIN_DONE\<close> for the
  draining ones; a hosted replica that is starting has its server booting or its
  \<open>REPLICA_READY\<close> waiting, one that drains has its \<open>REPLICA_TERMINATED\<close> waiting, and no
  server that is off hosts anything.
\<close>

theorem transient_states_end:
  assumes "lawful_algorithm (w_alg W) (w_cfg W)" and "sound_trace df" and "reachable W df st E"
  shows "(\<forall>k. pending E (ServerBootDone k) = (if in_srv_state E k SrvBooting then 1 else 0))
       \<and> (\<forall>k. pending E (ServerDrainDone k) = (if in_srv_state E k SrvDraining then 1 else 0))
       \<and> (\<forall>k svc a. hosts E k svc a \<longrightarrow> \<not> in_srv_state E k SrvOff
            \<and> (r_state (e_store E a) = RepStarting \<longrightarrow>
                 in_srv_state E k SrvBooting \<or> 0 < pending E (ReplicaReady k svc))
            \<and> (r_state (e_store E a) = RepDraining \<longrightarrow> 0 < pending E (ReplicaTerminated k svc)))"
  using reachable_engine_inv(2) [OF assms] by (simp add: life_inv_def replica_life_def pend_pending)

theorem transient_states_end_witness:
  "\<exists>E. reachable sample_world [] None E \<and>
     (\<forall>k. pending E (ServerBootDone k) = (if in_srv_state E k SrvBooting then 1 else 0))"
proof -
  obtain E0 E where E: "reachable sample_world [] None E" by (rule sample_state)
  with transient_states_end [OF sample_lawful sound_nil E] show ?thesis by blast
qed

text \<open>
  C9. The two views of the replicas agree: in every reachable state a replica object is in
  the list of its service exactly if the server it names hosts it under that service, no list
  has it twice, no hosted replica is terminated, and its queue is in order and within its
  length.
\<close>

theorem replica_views_agree:
  assumes "lawful_algorithm (w_alg W) (w_cfg W)" and "sound_trace df" and "reachable W df st E"
  shows "(a \<in> set (by_service E svc) \<longleftrightarrow> hosts E (r_server_id (e_store E a)) svc a)
       \<and> distinct (by_service E svc)
       \<and> (hosts E k svc a \<longrightarrow> r_server_id (e_store E a) = k \<and> r_service_id (e_store E a) = svc
            \<and> r_state (e_store E a) \<noteq> RepTerminated)
       \<and> queue_ok (e_store E a)"
  using reachable_engine_inv(1) [OF assms] unfolding store_inv_def hosted_inv_def by blast

theorem replica_views_agree_witness:
  "\<exists>E. reachable sample_world [] None E \<and>
     (\<forall>svc a. a \<in> set (by_service E svc) \<longleftrightarrow> hosts E (r_server_id (e_store E a)) svc a)"
proof -
  obtain E0 E where E: "reachable sample_world [] None E" by (rule sample_state)
  with replica_views_agree [OF sample_lawful sound_nil E] show ?thesis by blast
qed

text \<open>A server that reserves no more than it has draws at most its maximal power.\<close>

definition rated :: "server \<Rightarrow> bool" where
  "rated s \<longleftrightarrow> 0 < srv_capacity s \<and> 0 \<le> srv_p_idle s \<and> srv_p_idle s \<le> srv_p_max s"

lemma utilization_range:
  assumes "rated s" and "used_cpu h s \<le> srv_capacity s"
  shows "0 \<le> fst (instantaneous_utilization now h s)" and "fst (instantaneous_utilization now h s) \<le> 1"
  using busy_le_used [of now h s] assms by (simp_all add: fst_instantaneous_utilization rated_def)

lemma power_range:
  assumes "rated s" and "used_cpu h s \<le> srv_capacity s"
  shows "0 \<le> fst (instantaneous_power_w now h s)" and "fst (instantaneous_power_w now h s) \<le> srv_p_max s"
proof -
  let ?u = "fst (instantaneous_utilization now h s)"
  note u = utilization_range [OF assms, of now]
  have "(srv_p_max s - srv_p_idle s) * ?u \<le> (srv_p_max s - srv_p_idle s) * 1"
    using u assms(1) by (intro mult_left_mono) (simp_all add: rated_def)
  moreover have "0 \<le> (srv_p_max s - srv_p_idle s) * ?u" using u assms(1) by (simp add: rated_def)
  ultimately show "0 \<le> fst (instantaneous_power_w now h s)" "fst (instantaneous_power_w now h s) \<le> srv_p_max s"
    using u assms(1) by (auto simp: instantaneous_power_w_def split_beta Let_def rated_def)
qed

lemma reachable_rated:
  assumes "lawful_algorithm (w_alg W) (w_cfg W)" and "sound_trace df" and "reachable W df st E"
    and "dget (e_servers E) k = Some s"
  shows "rated s" and "used_cpu (e_store E) s \<le> srv_capacity s"
proof -
  obtain E0 where 0: "new_engine df st = Inr E0" "fleet E = fleet E0"
    using lawful_algorithm.reachable_fleet [OF assms(1,3) refl refl assms(2)] by blast
  obtain s0 where s0: "dget (e_servers E0) k = Some s0" "fixed_data s = fixed_data s0"
    using fleet_get [OF 0(2) assms(4)] by blast
  have "s0 \<in> set (dvals (e_servers E0))" using dget_mem [OF s0(1)] by force
  then have p: "0 \<le> srv_p_idle s" "srv_p_idle s \<le> srv_p_max s"
    using new_engine_shape(1) [OF 0(1)] s0(2) unfolding fresh_servers_def fixed_data_def by auto
  have s: "0 < srv_capacity s" "used_cpu (e_store E) s \<le> srv_capacity s"
    using reachable_engine_inv(1) [OF assms(1-3)] assms(4) by (auto simp: store_inv_def server_inv_def)
  show "rated s" "used_cpu (e_store E) s \<le> srv_capacity s" using p s by (simp_all add: rated_def)
qed

text \<open>Advancing the energy to \<open>t\<close>, server by server.\<close>

definition metered :: "real \<Rightarrow> real \<Rightarrow> server \<Rightarrow> server \<Rightarrow> bool" where
  "metered lst t s s' \<longleftrightarrow> 0 \<le> cumulative_energy_joule s' - cumulative_energy_joule s
     \<and> cumulative_energy_joule s' - cumulative_energy_joule s \<le> srv_p_max s * max 0 (t - lst)
     \<and> 0 \<le> cumulative_busy_cpu_seconds s' - cumulative_busy_cpu_seconds s
     \<and> cumulative_busy_cpu_seconds s' - cumulative_busy_cpu_seconds s \<le> of_int (srv_capacity s) * max 0 (t - lst)"

lemma advance_other:
  assumes "j \<noteq> k"
  shows "dget (e_servers (advance_server t j E)) k = dget (e_servers E) k
    \<and> dget_or 0 (energy_last_update (advance_server t j E)) k = dget_or 0 (energy_last_update E) k"
  using assms by (simp add: advance_server_def Let_def split_beta put_server_def dget_or_def dict_simps split: option.splits)

lemma fold_advance_other:
  "k \<notin> set js \<Longrightarrow> dget (e_servers (fold (advance_server t) js E)) k = dget (e_servers E) k
    \<and> dget_or 0 (energy_last_update (fold (advance_server t) js E)) k = dget_or 0 (energy_last_update E) k"
  by (induction js arbitrary: E) (simp_all add: advance_other)

lemma advance_self:
  assumes s: "dget (e_servers E) k = Some s" and r: "rated s" and u: "used_cpu (e_store E) s \<le> srv_capacity s"
  shows "\<exists>s'. dget (e_servers (advance_server t k E)) k = Some s' \<and> metered (dget_or 0 (energy_last_update E) k) t s s'
    \<and> dget_or 0 (energy_last_update (advance_server t k E)) k = max t (dget_or 0 (energy_last_update E) k)"
proof -
  let ?l = "dget_or 0 (energy_last_update E) k"
  show ?thesis
  proof (cases "?l < t")
    case False
    then show ?thesis using s by (simp add: advance_server_def metered_def)
  next
    case True
    let ?h1 = "snd (instantaneous_utilization ?l (e_store E) s)"
    let ?u = "fst (instantaneous_utilization ?l (e_store E) s)" and ?p = "fst (instantaneous_power_w ?l ?h1 s)"
    have "used_cpu ?h1 s = used_cpu (e_store E) s"
      using prunedD(1) [OF pruned_instantaneous_utilization [of ?l "e_store E" s]] by (intro used_cpu_same) simp
    then have p: "0 \<le> ?p" "?p \<le> srv_p_max s" using power_range [OF r, of ?h1] u by simp_all
    have b: "0 \<le> ?u" "?u \<le> 1" by (rule utilization_range [OF r u])+
    have c: "0 \<le> ?u * of_int (srv_capacity s)" "?u * of_int (srv_capacity s) \<le> of_int (srv_capacity s)"
      using b r by (simp_all add: rated_def mult_left_le_one_le)
    have "metered ?l t s (s\<lparr>cumulative_energy_joule := cumulative_energy_joule s + ?p * (t - ?l),
        cumulative_busy_cpu_seconds := cumulative_busy_cpu_seconds s + ?u * of_int (srv_capacity s) * (t - ?l)\<rparr>)"
      using True p c by (simp add: metered_def mult_right_mono)
    then show ?thesis
      using s True by (simp add: advance_server_def Let_def split_beta put_server_def dget_or_def dict_simps)
  qed
qed

text \<open>
  C11. In every reachable state every server measures a utilization between 0 and 1 and draws a
  power between 0 and its maximum; and when the energy is advanced to any time \<open>t\<close>, its counters of
  energy and of busy seconds never decrease, they grow by at most the maximal power, and at most
  the whole capacity, for the time since its last update, and not at all when \<open>t\<close> is not later,
  and the last update is the later of the two.
\<close>

theorem reachable_power_range:
  assumes "lawful_algorithm (w_alg W) (w_cfg W)" and "sound_trace df" and "reachable W df st E"
    and "dget (e_servers E) k = Some s"
  shows "0 \<le> fst (instantaneous_utilization now (e_store E) s) \<and> fst (instantaneous_utilization now (e_store E) s) \<le> 1
       \<and> 0 \<le> fst (instantaneous_power_w now (e_store E) s) \<and> fst (instantaneous_power_w now (e_store E) s) \<le> srv_p_max s
       \<and> (\<exists>s'. dget (e_servers (advance_energy_to t E)) k = Some s' \<and> metered (dget_or 0 (energy_last_update E) k) t s s'
            \<and> dget_or 0 (energy_last_update (advance_energy_to t E)) k = max t (dget_or 0 (energy_last_update E) k))"
proof -
  note r = reachable_rated [OF assms]
  have wf: "wf_servers (e_servers E)" using reachable_engine_inv(1) [OF assms(1-3)] by (simp add: store_inv_def)
  have "k \<in> set (dkeys (e_servers E))" using dget_mem [OF assms(4)] by force
  then obtain xs ys where k: "dkeys (e_servers E) = xs @ k # ys" by (meson split_list)
  then have new: "k \<notin> set xs" "k \<notin> set ys" using wf_servers_keys [OF wf] by simp_all
  let ?u = "fold (advance_server t) xs E"
  have "engine_inv {#} ?u"
    by (rule fold_invariant_set [where P = "engine_inv {#}"]) (auto intro: reachable_engine_inv(4) [OF assms(1-3)] advance_server_inv)
  then have i: "store_inv ?u" by (simp add: engine_inv_def)
  have s: "dget (e_servers ?u) k = Some s" using fold_advance_other [OF new(1), of t E] assms(4) by simp
  then have "used_cpu (e_store ?u) s \<le> srv_capacity s" using i by (auto simp: store_inv_def server_inv_def)
  from advance_self [OF s r(1) this, of t] obtain s' where
    "dget (e_servers (advance_server t k ?u)) k = Some s'" "metered (dget_or 0 (energy_last_update E) k) t s s'"
    "dget_or 0 (energy_last_update (advance_server t k ?u)) k = max t (dget_or 0 (energy_last_update E) k)"
    using fold_advance_other [OF new(1), of t E] by auto
  then have "dget (e_servers (advance_energy_to t E)) k = Some s' \<and> metered (dget_or 0 (energy_last_update E) k) t s s'
      \<and> dget_or 0 (energy_last_update (advance_energy_to t E)) k = max t (dget_or 0 (energy_last_update E) k)"
    using fold_advance_other [OF new(2), of t "advance_server t k ?u"] by (simp add: advance_energy_to_def k)
  then show ?thesis using utilization_range [OF r] power_range [OF r] by blast
qed

theorem reachable_power_range_witness:
  "\<exists>E. reachable sample_world [] None E
     \<and> (\<forall>(k, s) \<in> set (e_servers E). fst (instantaneous_power_w 0 (e_store E) s) \<le> srv_p_max s
          \<and> (\<exists>s'. dget (e_servers (advance_energy_to 30 E)) k = Some s' \<and> cumulative_energy_joule s \<le> cumulative_energy_joule s'))"
proof -
  obtain E0 E where E: "reachable sample_world [] None E" by (rule sample_state)
  have "wf_servers (e_servers E)"
    using reachable_engine_inv(1) [OF sample_lawful sound_nil E] by (simp add: store_inv_def)
  then have "fst (instantaneous_power_w 0 (e_store E) s) \<le> srv_p_max s
      \<and> (\<exists>s'. dget (e_servers (advance_energy_to 30 E)) k = Some s' \<and> cumulative_energy_joule s \<le> cumulative_energy_joule s')"
    if "(k, s) \<in> set (e_servers E)" for k s
    using reachable_power_range [OF sample_lawful sound_nil E, of k s 0 30] that
    by (auto simp: wf_servers_def dget_iff_mem metered_def)
  with E show ?thesis by blast
qed

section \<open>The clock, the tick, the end of a run\<close>

text \<open>
  C10. The agenda lies in the future: in every reachable state its events are in the order of
  their keys, no two have one sequence number, none is before the clock, and exactly one
  decision tick waits, so the event popped next never moves the clock back.
\<close>

theorem agenda_in_future:
  assumes "lawful_algorithm (w_alg W) (w_cfg W)" and "sound_trace df" and "reachable W df st E"
  shows "by_key (e_heap E) \<and> distinct (map ev_seq (e_heap E)) \<and> (\<forall>e \<in> set (e_heap E). e_now E \<le> ev_time e)
       \<and> length (filter (\<lambda>e. ev_type e = DecisionTick) (e_heap E)) = 1"
proof -
  obtain t where "tick_times E = {#t#}" using reachable_engine_inv(5) [OF assms] by blast
  then have "size (filter_mset (\<lambda>e. ev_type e = DecisionTick) (mset (e_heap E))) = 1"
    unfolding tick_times_def by (metis size_image_mset size_single)
  then have "length (filter (\<lambda>e. ev_type e = DecisionTick) (e_heap E)) = 1"
    by (metis mset_filter size_mset)
  with reachable_engine_inv(3) [OF assms] show ?thesis by (simp add: agenda_inv_def)
qed

theorem agenda_in_future_witness:
  "\<exists>E. reachable sample_world [] None E \<and> (\<forall>e \<in> set (e_heap E). e_now E \<le> ev_time e)"
proof -
  obtain E0 E where E: "reachable sample_world [] None E" by (rule sample_state)
  with agenda_in_future [OF sample_lawful sound_nil E] show ?thesis by blast
qed

text \<open>
  C3. A call of \<open>step\<close> returns: the loop over the agenda is a bounded number of events (the
  fuel of the model is never used up), and a step that is not the last one ends right after
  the decision tick that was waiting, with the next one \<open>DECISION_INTERVAL_SEC\<close> later.
\<close>

theorem step_returns_at_tick:
  assumes "lawful_algorithm (w_alg W) (w_cfg W)" and "sound_trace df" and "reachable W df st E"
  shows "\<exists>t. tick_times E = {#t#} \<and> (\<exists>r. step W external E = Some r
       \<and> (\<forall>sn is_done E'. r = Inr (sn, is_done, E') \<longrightarrow>
            (if is_done then sn = None
             else reachable W df st E' \<and> e_now E' = t \<and> t \<le> e_cutoff E
                  \<and> tick_times E' = {#t + DECISION_INTERVAL_SEC#})))"
proof -
  obtain t where t: "tick_times E = {#t#}" using reachable_engine_inv(5) [OF assms] by blast
  note inv = reachable_engine_inv(4) [OF assms]
  obtain r where r: "step W external E = Some r"
    using lawful_algorithm.step_terminates [OF assms(1) refl refl inv] by blast
  have "if is_done then sn = None else reachable W df st E' \<and> e_now E' = t \<and> t \<le> e_cutoff E
                  \<and> tick_times E' = {#t + DECISION_INTERVAL_SEC#}"
    if "r = Inr (sn, is_done, E')" for sn is_done E'
    using lawful_algorithm.step_loop_tick [OF assms(1) refl refl _ assms(3) inv t, of "agenda_weight E + 1" external sn is_done E']
      r that by (auto simp: step_def split: if_splits)
  with t r show ?thesis by blast
qed

theorem step_returns_at_tick_witness:
  "\<exists>E r. reachable sample_world [] None E \<and> step sample_world None E = Some r"
proof -
  obtain E0 E where E: "reachable sample_world [] None E" by (rule sample_state)
  with step_returns_at_tick [OF sample_lawful sound_nil E] show ?thesis by blast
qed

text \<open>
  C4. A run returns: from a new engine, priming and stepping until the end of the trace is a
  bounded number of steps of bounded length, for every lawful algorithm and every trace of
  base stations on the globe.
\<close>

theorem run_returns:
  assumes "lawful_algorithm (w_alg W) (w_cfg W)" and "sound_trace df" and "new_engine df st = Inr E0"
  shows "\<exists>r. run W E0 = Some r"
  by (rule lawful_algorithm.run_terminates [OF assms(1) refl refl assms(3,2)])

theorem run_returns_witness: "\<exists>E0 r. new_engine [] None = Inr E0 \<and> run sample_world E0 = Some r"
proof -
  obtain E0 E where 0: "new_engine [] (None :: greedy_state) = Inr E0" by (rule sample_state)
  with run_returns [OF sample_lawful sound_nil 0] show ?thesis by blast
qed

end
